(* ===== verification/Prelude.thy ===== *)
theory Prelude
  imports Main "HOL-Library.Word" "HOL-Library.Sublist" "HOL-Library.Char_ord"
    "HOL-Library.List_Lexorder" "HOL-Library.Product_Lexorder"
begin

text \<open>
  Shared vocabulary of the development: the widths of the integers of the sources, the reading of
  a C++ \<^verbatim>\<open>char\<close> as a byte, \<^verbatim>\<open>std::string_view\<close> searching, and the decimal conversions
  \<^verbatim>\<open>std::to_string\<close> and \<^verbatim>\<open>std::from_chars\<close>.

  A C++ \<^verbatim>\<open>char\<close> is one byte and is modelled by HOL's \<^typ>\<open>char\<close> (256 values), so a
  \<^verbatim>\<open>std::string\<close>, a \<^verbatim>\<open>string_view\<close> and a \<^verbatim>\<open>vector<char>\<close> are all \<^typ>\<open>string\<close>. Sizes
  of strings in memory are \<^typ>\<open>nat\<close>; values that travel on the wire keep their width.
\<close>

unbundle bit_operations_syntax

type_synonym u8 = "8 word"
type_synonym u16 = "16 word"
type_synonym u32 = "32 word"
type_synonym u64 = "64 word"

named_theorems byte_simps \<open>conversions between characters and bytes\<close>
named_theorems find_simps \<open>searching in strings\<close>
named_theorems decimal_simps \<open>decimal conversions\<close>

section \<open>Bytes\<close>

definition u8_of :: "char \<Rightarrow> u8" where
  "u8_of c = of_char c"

definition chr_of :: "'a::len word \<Rightarrow> char" where
  "chr_of w = char_of (unat w)"

definition byte_nat :: "char \<Rightarrow> nat" where
  "byte_nat c = of_char c"

section \<open>Searching, as string-view does\<close>

fun find_sub :: "string \<Rightarrow> string \<Rightarrow> nat option" where
  "find_sub pat [] = (if pat = [] then Some 0 else None)"
| "find_sub pat (c # s) =
     (if prefix pat (c # s) then Some 0 else map_option Suc (find_sub pat s))"

text \<open>\<^verbatim>\<open>s.find(pat, pos)\<close>: \<^verbatim>\<open>npos\<close> is \<open>None\<close>.\<close>

definition sv_find :: "string \<Rightarrow> string \<Rightarrow> nat \<Rightarrow> nat option" where
  "sv_find s pat pos =
     (if pos \<le> length s then map_option (\<lambda>i. pos + i) (find_sub pat (drop pos s)) else None)"

definition sv_find_char :: "string \<Rightarrow> char \<Rightarrow> nat \<Rightarrow> nat option" where
  "sv_find_char s c pos = sv_find s [c] pos"

text \<open>\<^verbatim>\<open>s.substr(pos, n)\<close> for \<open>pos \<le> length s\<close>.\<close>

definition sv_substr :: "string \<Rightarrow> nat \<Rightarrow> nat \<Rightarrow> string" where
  "sv_substr s pos n = take n (drop pos s)"

section \<open>Decimal numbers\<close>

definition is_digit :: "char \<Rightarrow> bool" where
  "is_digit c \<longleftrightarrow> 48 \<le> byte_nat c \<and> byte_nat c \<le> 57"

definition digit_val :: "char \<Rightarrow> nat" where
  "digit_val c = byte_nat c - 48"

definition digit_char :: "nat \<Rightarrow> char" where
  "digit_char d = char_of (48 + d)"

definition digits_val :: "string \<Rightarrow> nat" where
  "digits_val s = foldl (\<lambda>v c. v * 10 + digit_val c) 0 s"

text \<open>\<^verbatim>\<open>std::to_string\<close> of an unsigned integer.\<close>

fun to_string :: "nat \<Rightarrow> string" where
  "to_string n = (if n < 10 then [digit_char n]
                  else to_string (n div 10) @ [digit_char (n mod 10)])"

declare to_string.simps [simp del]

datatype errc = ErrcOk | InvalidArgument | ResultOutOfRange

text \<open>
  \<^verbatim>\<open>std::from_chars(first, last, out)\<close> in base ten: the longest run of digits is consumed; no digit
  is \<open>InvalidArgument\<close>, a value that does not fit is \<open>ResultOutOfRange\<close>. The result carries the
  error code, the value and the number of characters consumed (\<^verbatim>\<open>ptr - first\<close>). An unsigned
  target accepts no sign, a signed one a leading minus.
\<close>

definition from_chars_unsigned :: "nat \<Rightarrow> string \<Rightarrow> errc \<times> nat \<times> nat" where
  "from_chars_unsigned limit s =
     (let ds = takeWhile is_digit s in
      if ds = [] then (InvalidArgument, 0, 0)
      else if limit < digits_val ds then (ResultOutOfRange, 0, length ds)
      else (ErrcOk, digits_val ds, length ds))"

definition from_chars_u64 :: "string \<Rightarrow> errc \<times> nat \<times> nat" where
  "from_chars_u64 s = from_chars_unsigned (2 ^ 64 - 1) s"

definition from_chars_i64 :: "string \<Rightarrow> errc \<times> int \<times> nat" where
  "from_chars_i64 s =
     (let neg = (s \<noteq> [] \<and> hd s = CHR ''-'');
          body = (if neg then tl s else s);
          ds = takeWhile is_digit body;
          v = (if neg then - int (digits_val ds) else int (digits_val ds));
          n = (if neg then Suc (length ds) else length ds)
      in if ds = [] then (InvalidArgument, 0, 0)
         else if v < - (2 ^ 63) \<or> 2 ^ 63 \<le> v then (ResultOutOfRange, 0, n)
         else (ErrcOk, v, n))"

section \<open>Lemmas: bytes\<close>

lemma byte_nat_less [simp]: "byte_nat c < 256"
  by (simp add: byte_nat_def)

lemma byte_nat_mod [simp]: "256 \<le> m \<Longrightarrow> byte_nat c mod m = byte_nat c"
  by (rule mod_less) (rule less_le_trans [OF byte_nat_less])

lemma unat_u8_of [byte_simps]: "unat (u8_of c) = byte_nat c"
proof -
  have "unat (of_nat (byte_nat c) :: u8) = byte_nat c"
    by (simp add: unat_of_nat)
  then show ?thesis
    by (simp only: u8_of_def byte_nat_def of_nat_of_char)
qed

lemma chr_of_u8_of [simp]: "chr_of (u8_of c) = c"
  by (simp add: chr_of_def unat_u8_of byte_nat_def)

lemma u8_of_chr_of [byte_simps]: "u8_of (chr_of w) = ucast w"
proof (rule word_unat_eq_iff [THEN iffD2])
  show "unat (u8_of (chr_of w)) = unat (ucast w :: u8)"
    by (simp add: unat_u8_of byte_nat_def chr_of_def unsigned_ucast_eq take_bit_eq_mod)
qed

lemma u8_of_inject [simp]: "u8_of a = u8_of b \<longleftrightarrow> a = b"
  by (metis chr_of_u8_of)

lemma u8_of_chr_of_u8 [simp]: "u8_of (chr_of (w :: u8)) = w"
  by (simp add: u8_of_chr_of)

lemma byte_nat_inject [simp]: "byte_nat a = byte_nat b \<longleftrightarrow> a = b"
  by (simp add: byte_nat_def)

lemma char_of_byte_nat [simp]: "char_of (byte_nat c) = c"
  by (simp add: byte_nat_def)

lemma byte_nat_char_of: "n < 256 \<Longrightarrow> byte_nat (char_of n) = n"
  by (simp add: byte_nat_def)

section \<open>Lemmas: cutting lists\<close>

lemma take_drop_split: "xs = take a xs @ take b (drop a xs) @ drop (a + b) xs"
  by (metis add.commute append_take_drop_id drop_drop)

lemma drop_split: "drop a xs = take b (drop a xs) @ drop (a + b) xs"
  by (metis add.commute append_take_drop_id drop_drop)

lemma map_nth_take_drop:
  "off + n \<le> length buf \<Longrightarrow> map (\<lambda>i. buf ! (off + i)) [0..<n] = take n (drop off buf)"
  by (simp add: list_eq_iff_nth_eq)

section \<open>Lemmas: searching\<close>

lemma find_sub_SomeD:
  assumes "find_sub pat s = Some i"
  shows "i \<le> length s \<and> prefix pat (drop i s) \<and> (\<forall>j<i. \<not> prefix pat (drop j s))"
  using assms
proof (induction s arbitrary: i)
  case Nil
  then show ?case by (simp split: if_splits)
next
  case (Cons c s)
  show ?case
  proof (cases "prefix pat (c # s)")
    case True
    with Cons.prems show ?thesis by simp
  next
    case False
    with Cons.prems obtain k where k: "find_sub pat s = Some k" "i = Suc k" by auto
    from Cons.IH [OF k(1)] False show ?thesis
      unfolding k(2) by (auto simp: less_Suc_eq_0_disj)
  qed
qed

lemma find_sub_NoneD:
  assumes "find_sub pat s = None"
  shows "\<not> prefix pat (drop j s)"
  using assms
proof (induction s arbitrary: j)
  case Nil
  then show ?case by (simp split: if_splits)
next
  case (Cons c s)
  then show ?case by (cases j) (auto split: if_splits)
qed

lemma find_sub_eq_Some_iff:
  "find_sub pat s = Some i \<longleftrightarrow>
     i \<le> length s \<and> prefix pat (drop i s) \<and> (\<forall>j<i. \<not> prefix pat (drop j s))"
    (is "?L \<longleftrightarrow> ?R")
proof
  assume ?L
  then show ?R by (rule find_sub_SomeD)
next
  assume R: ?R
  show ?L
  proof (cases "find_sub pat s")
    case None
    with R show ?thesis by (metis find_sub_NoneD)
  next
    case (Some k)
    from find_sub_SomeD [OF Some] R have "k = i"
      by (metis linorder_neqE_nat)
    with Some show ?thesis by simp
  qed
qed

lemma prefix_length_drop:
  "prefix pat (drop i s) \<Longrightarrow> i \<le> length s \<Longrightarrow> i + length pat \<le> length s"
  by (auto dest: prefix_length_le)

lemma sv_find_SomeD:
  assumes "sv_find s pat pos = Some i"
  shows "pos \<le> i" "i + length pat \<le> length s" "prefix pat (drop i s)"
    "\<And>j. pos \<le> j \<Longrightarrow> j < i \<Longrightarrow> \<not> prefix pat (drop j s)"
proof -
  from assms obtain k where k: "find_sub pat (drop pos s) = Some k" "i = pos + k" "pos \<le> length s"
    by (auto simp: sv_find_def split: if_splits)
  note D = find_sub_SomeD [OF k(1)]
  show "pos \<le> i" using k by simp
  show pre: "prefix pat (drop i s)" using D k by (simp add: add.commute)
  have "i \<le> length s" using D k by auto
  with pre show "i + length pat \<le> length s" by (rule prefix_length_drop)
  fix j
  assume "pos \<le> j" "j < i"
  then have "j - pos < k" using k(2) by arith
  with D have "\<not> prefix pat (drop (j - pos) (drop pos s))" by blast
  with \<open>pos \<le> j\<close> show "\<not> prefix pat (drop j s)" by simp
qed

lemma sv_find_NoneD:
  assumes "sv_find s pat pos = None" and "pos \<le> j" and "j \<le> length s"
  shows "\<not> prefix pat (drop j s)"
proof -
  from assms have "find_sub pat (drop pos s) = None"
    by (auto simp: sv_find_def split: if_splits)
  from find_sub_NoneD [OF this, of "j - pos"] assms(2) show ?thesis by simp
qed

lemma sv_findI:
  assumes "pos \<le> i" "i \<le> length s" "prefix pat (drop i s)"
    and "\<And>j. pos \<le> j \<Longrightarrow> j < i \<Longrightarrow> \<not> prefix pat (drop j s)"
  shows "sv_find s pat pos = Some i"
proof -
  have "find_sub pat (drop pos s) = Some (i - pos)"
    unfolding find_sub_eq_Some_iff using assms by auto
  with assms(1,2) show ?thesis by (simp add: sv_find_def)
qed

lemma sv_find_char_SomeD:
  assumes "sv_find_char s c pos = Some i"
  shows "pos \<le> i" "i < length s" "s ! i = c" "\<And>j. pos \<le> j \<Longrightarrow> j < i \<Longrightarrow> s ! j \<noteq> c"
proof -
  note D = sv_find_SomeD [OF assms [unfolded sv_find_char_def]]
  show "pos \<le> i" by (rule D(1))
  show il: "i < length s" using D(2) by simp
  from D(3) il show "s ! i = c"
    by (simp add: Cons_nth_drop_Suc [symmetric])
  fix j
  assume j: "pos \<le> j" "j < i"
  with D(4) [of j] il show "s ! j \<noteq> c"
    by (simp add: Cons_nth_drop_Suc [symmetric])
qed

lemma sv_find_char_NoneD:
  assumes "sv_find_char s c pos = None" "pos \<le> j" "j < length s"
  shows "s ! j \<noteq> c"
proof -
  from sv_find_NoneD [OF assms(1) [unfolded sv_find_char_def] assms(2)] assms(3)
  have "\<not> prefix [c] (drop j s)" by simp
  with assms(3) show ?thesis
    by (simp add: Cons_nth_drop_Suc [symmetric])
qed

lemma sv_find_charI:
  assumes "pos \<le> i" "i < length s" "s ! i = c"
    and "\<And>j. pos \<le> j \<Longrightarrow> j < i \<Longrightarrow> s ! j \<noteq> c"
  shows "sv_find_char s c pos = Some i"
  unfolding sv_find_char_def
proof (rule sv_findI)
  show "pos \<le> i" "i \<le> length s" using assms by auto
  show "prefix [c] (drop i s)"
    using assms(2,3) by (simp add: Cons_nth_drop_Suc [symmetric])
  fix j
  assume "pos \<le> j" "j < i"
  with assms(2) assms(4) [of j] show "\<not> prefix [c] (drop j s)"
    by (simp add: Cons_nth_drop_Suc [symmetric])
qed

lemma sv_find_char_bounds: "sv_find_char s c pos = Some i \<Longrightarrow> pos \<le> i \<and> i < length s"
  using sv_find_char_SomeD(1,2) by blast

text \<open>A found character splits what is left of the string.\<close>

lemma sv_find_char_split:
  assumes "sv_find_char s c pos = Some i"
  shows "c \<notin> set (sv_substr s pos (i - pos))"
    and "drop pos s = sv_substr s pos (i - pos) @ c # drop (i + 1) s"
proof -
  note D = sv_find_char_SomeD [OF assms]
  show "c \<notin> set (sv_substr s pos (i - pos))"
    using D by (auto simp: sv_substr_def in_set_conv_nth)
  have "drop pos s = take (i - pos) (drop pos s) @ drop i s"
    using drop_split [of pos s "i - pos"] D(1) by simp
  also have "drop i s = c # drop (i + 1) s"
    using D(2,3) by (metis Cons_nth_drop_Suc Suc_eq_plus1)
  finally show "drop pos s = sv_substr s pos (i - pos) @ c # drop (i + 1) s"
    by (simp add: sv_substr_def)
qed

lemma sv_find_char_append:
  assumes "drop pos s = xs @ c # ys" and "c \<notin> set xs"
  shows "sv_find_char s c pos = Some (pos + length xs)"
proof (rule sv_find_charI)
  have len: "length (drop pos s) = length xs + Suc (length ys)" using assms(1) by simp
  then show "pos + length xs < length s" by simp
  have nth: "s ! (pos + k) = (xs @ c # ys) ! k" for k
  proof -
    have "pos \<le> length s" using len by (cases "pos \<le> length s") simp_all
    then show ?thesis using nth_drop [of pos s k] assms(1) by simp
  qed
  then show "s ! (pos + length xs) = c" by simp
  fix j assume "pos \<le> j" "j < pos + length xs"
  then obtain k where "j = pos + k" "k < length xs" by (metis le_add_diff_inverse nat_add_left_cancel_less)
  then show "s ! j \<noteq> c" using nth [of k] assms(2) by (auto simp: nth_append)
qed simp

lemma length_sv_substr [simp]: "length (sv_substr s pos n) = min n (length s - pos)"
  by (simp add: sv_substr_def min.commute)

section \<open>Lemmas: decimals\<close>

lemma is_digit_digit_char [simp]: "d < 10 \<Longrightarrow> is_digit (digit_char d)"
  by (simp add: is_digit_def digit_char_def byte_nat_def)

lemma digit_val_digit_char [simp]: "d < 10 \<Longrightarrow> digit_val (digit_char d) = d"
  by (simp add: digit_val_def digit_char_def byte_nat_def)

lemma digit_val_less [simp]: "is_digit c \<Longrightarrow> digit_val c < 10"
  by (auto simp: is_digit_def digit_val_def)

lemma digit_char_digit_val [simp]: "is_digit c \<Longrightarrow> digit_char (digit_val c) = c"
  by (auto simp: is_digit_def digit_val_def digit_char_def)

lemma digits_val_Nil [simp]: "digits_val [] = 0"
  by (simp add: digits_val_def)

lemma digits_val_snoc [simp]: "digits_val (s @ [c]) = digits_val s * 10 + digit_val c"
  by (simp add: digits_val_def)

lemma digits_val_append:
  "digits_val (s @ t) = digits_val s * 10 ^ length t + digits_val t"
proof (induction t rule: rev_induct)
  case Nil
  then show ?case by simp
next
  case (snoc c t)
  have "digits_val (s @ t @ [c]) = digits_val ((s @ t) @ [c])" by simp
  then show ?case
    by (simp add: snoc.IH digits_val_snoc [of "s @ t", simplified] algebra_simps
        del: append_assoc)
qed

lemma digits_val_Cons: "digits_val (c # s) = digit_val c * 10 ^ length s + digits_val s"
  using digits_val_append [of "[c]" s] by (simp add: digits_val_def)

lemma digits_val_less: "list_all is_digit s \<Longrightarrow> digits_val s < 10 ^ length s"
proof (induction s rule: rev_induct)
  case (snoc c s)
  then have "digits_val s < 10 ^ length s" "digit_val c < 10" by auto
  then show ?case by simp
qed simp

lemma to_string_digits [simp]: "list_all is_digit (to_string n)"
  by (induction n rule: to_string.induct) (subst to_string.simps, auto)

lemma to_string_not_Nil [simp]: "to_string n \<noteq> []"
  by (subst to_string.simps) simp

lemma digits_val_to_string [simp, decimal_simps]: "digits_val (to_string n) = n"
proof (induction n rule: to_string.induct)
  case (1 n)
  show ?case
  proof (cases "n < 10")
    case True
    then show ?thesis by (subst to_string.simps) (simp add: digits_val_def)
  next
    case False
    with 1 show ?thesis by (subst to_string.simps) simp
  qed
qed

lemma to_string_inject [simp]: "to_string m = to_string n \<longleftrightarrow> m = n"
  by (metis digits_val_to_string)

lemma length_to_string_le: "n < 10 ^ k \<Longrightarrow> 0 < k \<Longrightarrow> length (to_string n) \<le> k"
proof (induction n arbitrary: k rule: to_string.induct)
  case (1 n)
  show ?case
  proof (cases "n < 10")
    case True
    with 1 show ?thesis by (subst to_string.simps) simp
  next
    case False
    obtain j where k: "k = Suc j" using 1 by (cases k) auto
    with 1 False have j: "n div 10 < 10 ^ j" "0 < j"
      by (auto intro: gr0I simp: less_mult_imp_div_less mult.commute)
    from "1.IH" [OF False j] False k show ?thesis
      by (subst to_string.simps) simp
  qed
qed

lemma to_string_u64_length: "n < 2 ^ 64 \<Longrightarrow> length (to_string n) \<le> 20"
  by (rule length_to_string_le) auto

lemma takeWhile_to_string:
  assumes "s = [] \<or> \<not> is_digit (hd s)"
  shows "takeWhile is_digit (to_string n @ s) = to_string n"
proof -
  have "\<And>c. c \<in> set (to_string n) \<Longrightarrow> is_digit c"
    using to_string_digits [of n] by (simp add: list_all_iff)
  then show ?thesis using assms by (cases s) auto
qed

lemma from_chars_u64_to_string:
  assumes "n < 2 ^ 64"
  shows "from_chars_u64 (to_string n) = (ErrcOk, n, length (to_string n))"
proof -
  have "takeWhile is_digit (to_string n) = to_string n"
    using takeWhile_to_string [of "[]" n] by (simp del: takeWhile_eq_all_conv)
  with assms show ?thesis
    by (simp add: from_chars_u64_def from_chars_unsigned_def Let_def del: takeWhile_eq_all_conv)
qed

lemma from_chars_u64_Ok:
  assumes "from_chars_u64 s = (ErrcOk, v, length s)"
  shows "s \<noteq> [] \<and> list_all is_digit s \<and> v = digits_val s \<and> v < 2 ^ 64"
proof -
  let ?ds = "takeWhile is_digit s"
  from assms have ne: "?ds \<noteq> []" and v: "v = digits_val ?ds" "v \<le> 2 ^ 64 - 1"
    and l: "length ?ds = length s"
    by (auto simp: from_chars_u64_def from_chars_unsigned_def Let_def split: if_splits)
  from l have eq: "?ds = s"
    by (metis length_append add_cancel_right_right length_0_conv append_Nil2
        takeWhile_dropWhile_id)
  then have "list_all is_digit s"
    by (metis list_all_iff set_takeWhileD)
  with ne v eq show ?thesis by auto
qed

end
