(* ===== verification/Net.thy ===== *)
theory Net
  imports Prelude
begin

text \<open>
  The timer and the socket of \<^verbatim>\<open>common/net/Timer.cpp\<close> and \<^verbatim>\<open>common/net/TcpSocket.cpp\<close>: the flags the
  wrappers keep and the guards they put before libuv.  libuv itself is not modelled: the result codes
  of its calls and its error texts are the record \<open>Uv\<close> that every operation takes, arbitrary in all
  statements.  Of the timer handle, the time left until it fires is kept; of a socket, the data of the
  writes libuv accepted, in order, and how many of them are still pending.
\<close>

section \<open>What libuv answers\<close>

record Uv =
  uv_read_start :: int
  uv_read_stop :: int
  uv_write :: "nat \<Rightarrow> int"
  uv_describe :: "int \<Rightarrow> string"

text \<open>The code the wrappers return without calling libuv (\<^verbatim>\<open>UV_EINVAL\<close>).\<close>

definition kUvEinval :: int where
  "kUvEinval = -22"

section \<open>Timer\<close>

record Timer =
  tm_timeoutMs :: nat
  tm_due :: "nat option"

definition newTimer :: Timer where
  "newTimer = \<lparr>tm_timeoutMs = 0, tm_due = None\<rparr>"

definition timer_isActive :: "Timer \<Rightarrow> bool" where
  "timer_isActive t \<longleftrightarrow> tm_due t \<noteq> None"

definition timer_start :: "nat \<Rightarrow> Timer \<Rightarrow> Timer" where
  "timer_start ms t = t\<lparr>tm_timeoutMs := ms, tm_due := Some ms\<rparr>"

definition timer_restart :: "Timer \<Rightarrow> Timer" where
  "timer_restart t = (if \<not> timer_isActive t then t else t\<lparr>tm_due := Some (tm_timeoutMs t)\<rparr>)"

definition timer_stop :: "Timer \<Rightarrow> Timer" where
  "timer_stop t = t\<lparr>tm_due := None\<rparr>"

text \<open>Time passes: the timer and whether it fires; a one-shot timer is inactive when it calls back.\<close>

definition timer_elapse :: "nat \<Rightarrow> Timer \<Rightarrow> Timer \<times> bool" where
  "timer_elapse ms t =
    (case tm_due t of
       None \<Rightarrow> (t, False)
     | Some d \<Rightarrow> if d \<le> ms then (t\<lparr>tm_due := None\<rparr>, True) else (t\<lparr>tm_due := Some (d - ms)\<rparr>, False))"

section \<open>Socket\<close>

record TcpSocket =
  sk_valid :: bool
  sk_reading :: bool
  sk_closing :: bool
  sk_closed :: bool
  sk_written :: "string list"
  sk_pendingWrites :: nat

definition newSocket :: "bool \<Rightarrow> TcpSocket" where
  "newSocket initOk = \<lparr>sk_valid = initOk, sk_reading = False, sk_closing = False, sk_closed = False,
    sk_written = [], sk_pendingWrites = 0\<rparr>"

definition sock_startRead :: "Uv \<Rightarrow> TcpSocket \<Rightarrow> int \<times> TcpSocket" where
  "sock_startRead uv sk =
    (if \<not> sk_valid sk \<or> sk_closing sk then (kUvEinval, sk)
     else if sk_reading sk then (0, sk)
     else (uv_read_start uv, if uv_read_start uv = 0 then sk\<lparr>sk_reading := True\<rparr> else sk))"

definition sock_stopRead :: "Uv \<Rightarrow> TcpSocket \<Rightarrow> int \<times> TcpSocket" where
  "sock_stopRead uv sk =
    (if \<not> sk_valid sk \<or> \<not> sk_reading sk then (0, sk)
     else (uv_read_stop uv, if uv_read_stop uv = 0 then sk\<lparr>sk_reading := False\<rparr> else sk))"

definition sock_send :: "Uv \<Rightarrow> string \<Rightarrow> TcpSocket \<Rightarrow> int \<times> TcpSocket" where
  "sock_send uv bytes sk =
    (if \<not> sk_valid sk \<or> sk_closing sk then (kUvEinval, sk)
     else let rc = uv_write uv (length (sk_written sk)) in
       if rc \<noteq> 0 then (rc, sk)
       else (0, sk\<lparr>sk_written := sk_written sk @ [bytes], sk_pendingWrites := sk_pendingWrites sk + 1\<rparr>))"

definition sock_close :: "Uv \<Rightarrow> TcpSocket \<Rightarrow> TcpSocket" where
  "sock_close uv sk =
    (if \<not> sk_valid sk \<or> sk_closing sk then sk
     else snd (sock_stopRead uv (sk\<lparr>sk_closing := True\<rparr>)))"

text \<open>
  The callbacks from libuv.  What they pass on to their owner is a value: a read of bytes, an error
  with the place it came from, or nothing.
\<close>

datatype ReadEvent = ReadData string | ReadNothing | ReadError int string

definition kUvEof :: int where
  "kUvEof = -4095"

definition onReadCb :: "int \<Rightarrow> string \<Rightarrow> ReadEvent" where
  "onReadCb nread buf =
    (if nread > 0 then ReadData (take (nat nread) buf)
     else if nread = 0 then ReadNothing
     else ReadError nread (if nread = kUvEof then ''read(eof)'' else ''read''))"

text \<open>A write has completed: it leaves the pending ones; the owner is then told the status, and the error.\<close>

definition onWriteCb :: "TcpSocket \<Rightarrow> TcpSocket" where
  "onWriteCb sk = sk\<lparr>sk_pendingWrites := sk_pendingWrites sk - 1\<rparr>"

definition onCloseCb :: "TcpSocket \<Rightarrow> TcpSocket" where
  "onCloseCb sk = sk\<lparr>sk_closed := True, sk_reading := False\<rparr>"

section \<open>Laws\<close>

lemma timer_active_simps [simp]:
  "timer_isActive (timer_start ms t)" "\<not> timer_isActive (timer_stop t)" "\<not> timer_isActive newTimer"
  "timer_isActive (timer_restart t) = timer_isActive t"
  by (simp_all add: timer_isActive_def timer_start_def timer_stop_def newTimer_def timer_restart_def)

lemma timer_timeout_simps [simp]:
  "tm_timeoutMs (timer_start ms t) = ms" "tm_timeoutMs (timer_stop t) = tm_timeoutMs t"
  "tm_timeoutMs (timer_restart t) = tm_timeoutMs t"
  by (simp_all add: timer_start_def timer_stop_def timer_restart_def)

lemma sock_send_cases:
  obtains (ok) "sock_send uv bytes sk =
      (0, sk\<lparr>sk_written := sk_written sk @ [bytes], sk_pendingWrites := sk_pendingWrites sk + 1\<rparr>)"
    and "sk_valid sk" "\<not> sk_closing sk" "uv_write uv (length (sk_written sk)) = 0"
  | (fail) rc where "sock_send uv bytes sk = (rc, sk)" "rc \<noteq> 0"
proof (cases "\<not> sk_valid sk \<or> sk_closing sk \<or> uv_write uv (length (sk_written sk)) \<noteq> 0")
  case True
  then show thesis
    by (intro fail [of "fst (sock_send uv bytes sk)"]) (auto simp: sock_send_def kUvEinval_def Let_def)
next
  case False
  then show thesis by (intro ok) (auto simp: sock_send_def Let_def)
qed

lemma sock_frame [simp]:
  "sk_written (snd (sock_startRead uv sk)) = sk_written sk" "sk_written (snd (sock_stopRead uv sk)) = sk_written sk"
  "sk_written (sock_close uv sk) = sk_written sk"
  "sk_closing (snd (sock_startRead uv sk)) = sk_closing sk" "sk_closing (snd (sock_stopRead uv sk)) = sk_closing sk"
  "sk_valid (snd (sock_startRead uv sk)) = sk_valid sk" "sk_valid (snd (sock_stopRead uv sk)) = sk_valid sk"
  "sk_valid (sock_close uv sk) = sk_valid sk" "sk_closed (sock_close uv sk) = sk_closed sk"
  "sk_closed (snd (sock_startRead uv sk)) = sk_closed sk" "sk_closed (snd (sock_stopRead uv sk)) = sk_closed sk"
  "sk_pendingWrites (snd (sock_startRead uv sk)) = sk_pendingWrites sk"
  "sk_pendingWrites (snd (sock_stopRead uv sk)) = sk_pendingWrites sk"
  "sk_pendingWrites (sock_close uv sk) = sk_pendingWrites sk"
  by (simp_all add: sock_startRead_def sock_stopRead_def sock_close_def)

lemma sock_close_closing [simp]: "sk_valid sk \<Longrightarrow> sk_closing (sock_close uv sk)"
  by (auto simp: sock_close_def sock_stopRead_def)

end
