(* ===== verification/Protocol.thy ===== *)
theory Protocol
  imports Prelude
begin

text \<open>
  The constants and message types of \<^verbatim>\<open>common/protocol/protocol.h\<close>, the one header the client and
  the server share. Every size includes the 8-byte preamble.
\<close>

section \<open>Preamble\<close>

definition kMagic :: "u8 list" where
  "kMagic = [0x42, 0x59, 0x44, 0x41]"

definition kProtocolVersion :: u8 where
  "kProtocolVersion = 1"

definition kOffsetMagic :: nat where "kOffsetMagic = 0"
definition kOffsetVersion :: nat where "kOffsetVersion = 4"
definition kOffsetType :: nat where "kOffsetType = 5"
definition kPreambleSize :: nat where "kPreambleSize = 8"

section \<open>Message types and status codes\<close>

datatype MessageType =
  UploadHeaderMsg | UploadTrailerMsg | AckMsg | ResultHeaderMsg | DownloadDoneMsg | ResultRequestMsg

fun type_code :: "MessageType \<Rightarrow> u8" where
  "type_code UploadHeaderMsg = 1"
| "type_code UploadTrailerMsg = 2"
| "type_code AckMsg = 3"
| "type_code ResultHeaderMsg = 4"
| "type_code DownloadDoneMsg = 5"
| "type_code ResultRequestMsg = 7"

text \<open>The \<^verbatim>\<open>switch\<close> over a received type byte: code 6 is reserved and falls through.\<close>

definition type_of_code :: "u8 \<Rightarrow> MessageType option" where
  "type_of_code b =
     (if b = 1 then Some UploadHeaderMsg else if b = 2 then Some UploadTrailerMsg
      else if b = 3 then Some AckMsg else if b = 4 then Some ResultHeaderMsg
      else if b = 5 then Some DownloadDoneMsg else if b = 7 then Some ResultRequestMsg
      else None)"

datatype AckStatus =
  AckOk | CrcMismatch | SizeMismatch | ProtocolError | ServerError | NoSuchResult

fun status_code :: "AckStatus \<Rightarrow> u8" where
  "status_code AckOk = 0"
| "status_code CrcMismatch = 1"
| "status_code SizeMismatch = 2"
| "status_code ProtocolError = 3"
| "status_code ServerError = 4"
| "status_code NoSuchResult = 5"

definition status_of_code :: "u8 \<Rightarrow> AckStatus" where
  "status_of_code b =
     (if b = 0 then AckOk else if b = 1 then CrcMismatch else if b = 2 then SizeMismatch
      else if b = 3 then ProtocolError else if b = 4 then ServerError else NoSuchResult)"

section \<open>Sizes and limits\<close>

definition kMaxFilenameLen :: nat where "kMaxFilenameLen = 255"
definition kUploadHeaderFixedSize :: nat where "kUploadHeaderFixedSize = kPreambleSize + 8 + 2"
definition kUploadHeaderMaxSize :: nat where
  "kUploadHeaderMaxSize = kUploadHeaderFixedSize + kMaxFilenameLen"
definition kUploadTrailerSize :: nat where "kUploadTrailerSize = kPreambleSize + 4"
definition kAckSize :: nat where "kAckSize = kPreambleSize + 1 + 8"
definition kResultHeaderSize :: nat where "kResultHeaderSize = kPreambleSize + 8 + 4"
definition kDownloadDoneSize :: nat where "kDownloadDoneSize = kPreambleSize"
definition kResultRequestFixedSize :: nat where
  "kResultRequestFixedSize = kPreambleSize + 8 + 4 + 8 + 2"
definition kResultRequestMaxSize :: nat where
  "kResultRequestMaxSize = kResultRequestFixedSize + kMaxFilenameLen"

definition kMaxFileSize :: u64 where "kMaxFileSize = 8 * 1024 * 1024 * 1024"
definition kMaxCsvSize :: u64 where "kMaxCsvSize = 4 * 1024 * 1024"
definition kIdleTimeoutMs :: nat where "kIdleTimeoutMs = 30000"
definition kResponseTimeoutMs :: nat where "kResponseTimeoutMs = 120000"
definition kDefaultPort :: nat where "kDefaultPort = 23507"

lemmas protocol_sizes =
  kOffsetMagic_def kOffsetVersion_def kOffsetType_def kPreambleSize_def kMaxFilenameLen_def
  kUploadHeaderFixedSize_def kUploadHeaderMaxSize_def kUploadTrailerSize_def kAckSize_def
  kResultHeaderSize_def kDownloadDoneSize_def kResultRequestFixedSize_def kResultRequestMaxSize_def

section \<open>Message values\<close>

record UploadHeader =
  uh_fileSize :: u64
  uh_filename :: string

record UploadTrailer =
  ut_crc32 :: u32

record Ack =
  ack_status :: AckStatus
  ack_receivedBytes :: u64

record ResultHeader =
  rh_csvSize :: u64
  rh_crc32 :: u32

record ResultRequest =
  rr_fileSize :: u64
  rr_crc32 :: u32
  rr_startOffset :: u64
  rr_filename :: string

section \<open>The codes determine the types\<close>

lemma type_of_code_type_code [simp]: "type_of_code (type_code t) = Some t"
  by (cases t) (simp_all add: type_of_code_def)

lemma type_of_code_Some: "type_of_code b = Some t \<longleftrightarrow> b = type_code t"
  by (cases t) (auto simp: type_of_code_def)

lemma type_code_inject [simp]: "type_code a = type_code b \<longleftrightarrow> a = b"
  by (metis option.inject type_of_code_type_code)

lemma status_of_code_status_code [simp]: "status_of_code (status_code s) = s"
  by (cases s) (simp_all add: status_of_code_def)

lemma status_code_le: "status_code s \<le> status_code NoSuchResult"
  by (cases s) (simp_all add: word_le_nat_alt)

end
