(* ===== verification/Codec.thy ===== *)
theory Codec
  imports Protocol
begin

text \<open>
  \<^verbatim>\<open>common/protocol/Codec.cpp\<close>: field-by-field big-endian serialisation and the default-deny decoders.
  A decoder returns \<open>Inr\<close> of the message for \<^verbatim>\<open>DecodeStatus::Ok\<close> and \<open>Inl\<close> of any other status;
  the out-parameter of the source is written only on \<^verbatim>\<open>Ok\<close>.
\<close>

section \<open>Definitions\<close>

datatype DecodeStatus = Ok | NeedMoreData | BadMagic | BadVersion | BadType | BadValue

definition putU16 :: "u16 \<Rightarrow> string" where
  "putU16 v = [chr_of (drop_bit 8 v), chr_of (v AND 0xFF)]"

definition putU32 :: "u32 \<Rightarrow> string" where
  "putU32 v = map (\<lambda>shift. chr_of (drop_bit shift v AND 0xFF)) [24, 16, 8, 0]"

definition putU64 :: "u64 \<Rightarrow> string" where
  "putU64 v = map (\<lambda>shift. chr_of (drop_bit shift v AND 0xFF)) [56, 48, 40, 32, 24, 16, 8, 0]"

definition byteAt :: "string \<Rightarrow> nat \<Rightarrow> u8" where
  "byteAt buf off = u8_of (buf ! off)"

definition getU16 :: "string \<Rightarrow> nat \<Rightarrow> u16" where
  "getU16 buf off = push_bit 8 (ucast (byteAt buf off)) OR ucast (byteAt buf (off + 1))"

definition getU32 :: "string \<Rightarrow> nat \<Rightarrow> u32" where
  "getU32 buf off =
     foldl (\<lambda>v i. push_bit 8 v OR ucast (byteAt buf (off + i))) 0 [0, 1, 2, 3]"

definition getU64 :: "string \<Rightarrow> nat \<Rightarrow> u64" where
  "getU64 buf off =
     foldl (\<lambda>v i. push_bit 8 v OR ucast (byteAt buf (off + i))) 0 [0, 1, 2, 3, 4, 5, 6, 7]"

definition putPreamble :: "MessageType \<Rightarrow> string" where
  "putPreamble t = map chr_of kMagic @ [chr_of kProtocolVersion, chr_of (type_code t), CHR 0x00, CHR 0x00]"

definition magicOk :: "string \<Rightarrow> bool" where
  "magicOk buf \<longleftrightarrow> list_all (\<lambda>i. byteAt buf (kOffsetMagic + i) = kMagic ! i) [0, 1, 2, 3]"

definition checkPreamble :: "string \<Rightarrow> MessageType \<Rightarrow> DecodeStatus" where
  "checkPreamble buf expected =
     (if length buf < kPreambleSize then NeedMoreData
      else if \<not> magicOk buf then BadMagic
      else if byteAt buf kOffsetVersion \<noteq> kProtocolVersion then BadVersion
      else if byteAt buf kOffsetType \<noteq> type_code expected then BadType
      else Ok)"

definition isValidFilename :: "string \<Rightarrow> bool" where
  "isValidFilename name \<longleftrightarrow>
     name \<noteq> [] \<and> length name \<le> kMaxFilenameLen \<and>
     list_all (\<lambda>ch. \<not> (u8_of ch \<le> 0x1F \<or> u8_of ch = 0x7F \<or> ch = CHR ''/'' \<or> ch = CHR 0x5C)) name"

definition expectedMessageSize :: "string \<Rightarrow> DecodeStatus + nat" where
  "expectedMessageSize buf =
     (if length buf < kPreambleSize then Inl NeedMoreData
      else if \<not> magicOk buf then Inl BadMagic
      else if byteAt buf kOffsetVersion \<noteq> kProtocolVersion then Inl BadVersion
      else (case type_of_code (byteAt buf kOffsetType) of
              Some UploadHeaderMsg \<Rightarrow>
                (if length buf < kUploadHeaderFixedSize then Inl NeedMoreData
                 else Inr (kUploadHeaderFixedSize + unat (getU16 buf (kPreambleSize + 8))))
            | Some UploadTrailerMsg \<Rightarrow> Inr kUploadTrailerSize
            | Some AckMsg \<Rightarrow> Inr kAckSize
            | Some ResultHeaderMsg \<Rightarrow> Inr kResultHeaderSize
            | Some DownloadDoneMsg \<Rightarrow> Inr kDownloadDoneSize
            | Some ResultRequestMsg \<Rightarrow>
                (if length buf < kResultRequestFixedSize then Inl NeedMoreData
                 else Inr (kResultRequestFixedSize + unat (getU16 buf (kPreambleSize + 20))))
            | None \<Rightarrow> Inl BadType))"

definition encodeUploadHeader :: "UploadHeader \<Rightarrow> string" where
  "encodeUploadHeader m =
     putPreamble UploadHeaderMsg @ putU64 (uh_fileSize m) @
     putU16 (of_nat (length (uh_filename m))) @ uh_filename m"

definition encodeUploadTrailer :: "UploadTrailer \<Rightarrow> string" where
  "encodeUploadTrailer m = putPreamble UploadTrailerMsg @ putU32 (ut_crc32 m)"

definition encodeAck :: "Ack \<Rightarrow> string" where
  "encodeAck m =
     putPreamble AckMsg @ [chr_of (status_code (ack_status m))] @ putU64 (ack_receivedBytes m)"

definition encodeResultHeader :: "ResultHeader \<Rightarrow> string" where
  "encodeResultHeader m = putPreamble ResultHeaderMsg @ putU64 (rh_csvSize m) @ putU32 (rh_crc32 m)"

definition encodeResultRequest :: "ResultRequest \<Rightarrow> string" where
  "encodeResultRequest m =
     putPreamble ResultRequestMsg @ putU64 (rr_fileSize m) @ putU32 (rr_crc32 m) @
     putU64 (rr_startOffset m) @ putU16 (of_nat (length (rr_filename m))) @ rr_filename m"

definition encodeDownloadDone :: string where
  "encodeDownloadDone = putPreamble DownloadDoneMsg"

definition decodeUploadHeader :: "string \<Rightarrow> DecodeStatus + UploadHeader" where
  "decodeUploadHeader buf =
     (let pre = checkPreamble buf UploadHeaderMsg in
      if pre \<noteq> Ok then Inl pre
      else if length buf < kUploadHeaderFixedSize then Inl NeedMoreData
      else let fileSize = getU64 buf kPreambleSize;
               nameLen = unat (getU16 buf (kPreambleSize + 8)) in
        if length buf < kUploadHeaderFixedSize + nameLen then Inl NeedMoreData
        else if fileSize > kMaxFileSize then Inl BadValue
        else let name = sv_substr buf kUploadHeaderFixedSize nameLen in
          if \<not> isValidFilename name then Inl BadValue
          else Inr \<lparr>uh_fileSize = fileSize, uh_filename = name\<rparr>)"

definition decodeUploadTrailer :: "string \<Rightarrow> DecodeStatus + UploadTrailer" where
  "decodeUploadTrailer buf =
     (let pre = checkPreamble buf UploadTrailerMsg in
      if pre \<noteq> Ok then Inl pre
      else if length buf < kUploadTrailerSize then Inl NeedMoreData
      else Inr \<lparr>ut_crc32 = getU32 buf kPreambleSize\<rparr>)"

definition decodeAck :: "string \<Rightarrow> DecodeStatus + Ack" where
  "decodeAck buf =
     (let pre = checkPreamble buf AckMsg in
      if pre \<noteq> Ok then Inl pre
      else if length buf < kAckSize then Inl NeedMoreData
      else let status = byteAt buf kPreambleSize in
        if status > status_code NoSuchResult then Inl BadValue
        else Inr \<lparr>ack_status = status_of_code status,
                  ack_receivedBytes = getU64 buf (kPreambleSize + 1)\<rparr>)"

definition decodeResultHeader :: "string \<Rightarrow> DecodeStatus + ResultHeader" where
  "decodeResultHeader buf =
     (let pre = checkPreamble buf ResultHeaderMsg in
      if pre \<noteq> Ok then Inl pre
      else if length buf < kResultHeaderSize then Inl NeedMoreData
      else Inr \<lparr>rh_csvSize = getU64 buf kPreambleSize,
                rh_crc32 = getU32 buf (kPreambleSize + 8)\<rparr>)"

definition decodeResultRequest :: "string \<Rightarrow> DecodeStatus + ResultRequest" where
  "decodeResultRequest buf =
     (let pre = checkPreamble buf ResultRequestMsg in
      if pre \<noteq> Ok then Inl pre
      else if length buf < kResultRequestFixedSize then Inl NeedMoreData
      else let fileSize = getU64 buf kPreambleSize;
               crc = getU32 buf (kPreambleSize + 8);
               startOffset = getU64 buf (kPreambleSize + 12);
               nameLen = unat (getU16 buf (kPreambleSize + 20)) in
        if length buf < kResultRequestFixedSize + nameLen then Inl NeedMoreData
        else if fileSize > kMaxFileSize then Inl BadValue
        else if startOffset > kMaxCsvSize then Inl BadValue
        else let name = sv_substr buf kResultRequestFixedSize nameLen in
          if \<not> isValidFilename name then Inl BadValue
          else Inr \<lparr>rr_fileSize = fileSize, rr_crc32 = crc, rr_startOffset = startOffset,
                    rr_filename = name\<rparr>)"

definition decodeDownloadDone :: "string \<Rightarrow> DecodeStatus" where
  "decodeDownloadDone buf = checkPreamble buf DownloadDoneMsg"

text \<open>The values a receiver accepts (the wire format itself can carry more).\<close>

definition validUploadHeader :: "UploadHeader \<Rightarrow> bool" where
  "validUploadHeader m \<longleftrightarrow> uh_fileSize m \<le> kMaxFileSize \<and> isValidFilename (uh_filename m)"

definition validResultRequest :: "ResultRequest \<Rightarrow> bool" where
  "validResultRequest m \<longleftrightarrow>
     rr_fileSize m \<le> kMaxFileSize \<and> rr_startOffset m \<le> kMaxCsvSize \<and> isValidFilename (rr_filename m)"

section \<open>Big-endian fields\<close>

lemma be_step:
  "push_bit 8 (drop_bit (s + 8) v) OR take_bit 8 (drop_bit s v) = drop_bit s (v :: 'a::len word)"
  by (rule bit_word_eqI) (auto simp: bit_simps dest: bit_imp_le_length)

lemma and_FF_take_bit: "(v :: 'a::len word) AND 0xFF = take_bit 8 v"
proof -
  have "(0xFF :: 'a word) = mask 8" by (simp add: mask_eq_exp_minus_1)
  then show ?thesis by (simp only: take_bit_eq_mask)
qed

lemma ucast_byte_of:
  assumes "8 \<le> LENGTH('b::len)"
  shows "(ucast (u8_of (chr_of (take_bit 8 (v :: 'a::len word)))) :: 'b word) = ucast (take_bit 8 v)"
  using assms by (intro bit_word_eqI) (auto simp: u8_of_chr_of bit_simps)

lemmas be_simps = and_FF_take_bit ucast_byte_of byteAt_def nth_append

lemma length_put [simp]:
  "length (putU16 a) = 2" "length (putU32 b) = 4" "length (putU64 c) = 8"
  "length (putPreamble t) = kPreambleSize"
  by (simp_all add: putU16_def putU32_def putU64_def putPreamble_def kMagic_def kPreambleSize_def)

lemma getU16_putU16:
  assumes "off = length pre"
  shows "getU16 (pre @ putU16 v @ post) off = v"
proof -
  have "push_bit 8 (ucast (u8_of (chr_of (drop_bit 8 v)))) OR take_bit 8 v = v"
    by (rule bit_word_eqI) (auto simp: u8_of_chr_of bit_simps dest: bit_imp_le_length)
  with assms show ?thesis
    by (simp add: getU16_def putU16_def be_simps)
qed

lemma getU32_putU32:
  assumes "off = length pre"
  shows "getU32 (pre @ putU32 v @ post) off = v"
proof -
  have "push_bit 8 (push_bit 8 (push_bit 8 (push_bit 8 (drop_bit 32 v) OR take_bit 8 (drop_bit 24 v)) OR
      take_bit 8 (drop_bit 16 v)) OR take_bit 8 (drop_bit 8 v)) OR take_bit 8 v = v"
    using be_step [of 24 v] be_step [of 16 v] be_step [of 8 v] be_step [of 0 v] by simp
  moreover have "drop_bit 32 v = 0"
    by (rule bit_word_eqI) (auto simp: bit_simps dest: bit_imp_le_length)
  ultimately show ?thesis using assms
    by (simp add: getU32_def putU32_def be_simps)
qed

lemma getU64_putU64:
  assumes "off = length pre"
  shows "getU64 (pre @ putU64 v @ post) off = v"
proof -
  let ?b = "\<lambda>s. take_bit 8 (drop_bit s v)"
  have "push_bit 8 (push_bit 8 (push_bit 8 (push_bit 8 (push_bit 8 (push_bit 8 (push_bit 8
      (push_bit 8 (drop_bit 64 v) OR ?b 56) OR ?b 48) OR ?b 40) OR ?b 32) OR ?b 24) OR ?b 16) OR ?b 8)
      OR take_bit 8 v = v"
    using be_step [of 56 v] be_step [of 48 v] be_step [of 40 v] be_step [of 32 v]
      be_step [of 24 v] be_step [of 16 v] be_step [of 8 v] be_step [of 0 v] by simp
  moreover have "drop_bit 64 v = 0"
    by (rule bit_word_eqI) (auto simp: bit_simps dest: bit_imp_le_length)
  ultimately show ?thesis using assms
    by (simp add: getU64_def putU64_def be_simps)
qed

section \<open>Reading a prefix\<close>

lemma byteAt_take [simp]: "i < n \<Longrightarrow> byteAt (take n buf) i = byteAt buf i"
  by (simp add: byteAt_def)

lemma getU16_take: "off + 2 \<le> n \<Longrightarrow> getU16 (take n buf) off = getU16 buf off"
  by (simp add: getU16_def)

lemma byteAt_append [simp]: "i < length a \<Longrightarrow> byteAt (a @ b) i = byteAt a i"
  by (simp add: byteAt_def nth_append)

lemma magicOk_take [simp]: "4 \<le> n \<Longrightarrow> magicOk (take n buf) = magicOk buf"
  by (simp add: magicOk_def kOffsetMagic_def)

lemma preamble_fields [simp]:
  "magicOk (putPreamble t @ rest)"
  "byteAt (putPreamble t @ rest) kOffsetVersion = kProtocolVersion"
  "byteAt (putPreamble t @ rest) kOffsetType = type_code t"
  by (simp_all add: magicOk_def byteAt_def putPreamble_def kMagic_def kOffsetMagic_def
      kOffsetVersion_def kOffsetType_def)

lemma checkPreamble_put [simp]: "checkPreamble (putPreamble t @ rest) t = Ok"
  by (simp add: checkPreamble_def)

lemma checkPreamble_take:
  "checkPreamble (take n (putPreamble t @ rest)) t =
     (if n < kPreambleSize then NeedMoreData else Ok)"
proof (cases "n < kPreambleSize")
  case False
  then have "4 \<le> n" "kOffsetVersion < n" "kOffsetType < n"
    by (simp_all add: kPreambleSize_def kOffsetVersion_def kOffsetType_def)
  with False show ?thesis by (simp add: checkPreamble_def)
qed (simp add: checkPreamble_def)

lemma filename_length_u16:
  assumes "isValidFilename name"
  shows "unat (of_nat (length name) :: u16) = length name"
  using assms by (simp add: isValidFilename_def kMaxFilenameLen_def unat_of_nat)

lemma getU16_at:
  "buf = pre @ putU16 v @ post \<Longrightarrow> length pre = off \<Longrightarrow> getU16 buf off = v"
  by (simp add: getU16_putU16)

lemma getU32_at:
  "buf = pre @ putU32 v @ post \<Longrightarrow> length pre = off \<Longrightarrow> getU32 buf off = v"
  by (simp add: getU32_putU32)

lemma getU64_at:
  "buf = pre @ putU64 v @ post \<Longrightarrow> length pre = off \<Longrightarrow> getU64 buf off = v"
  by (simp add: getU64_putU64)

lemma uploadHeader_nameLen:
  "getU16 (encodeUploadHeader m @ rest) (kPreambleSize + 8) = of_nat (length (uh_filename m))"
  by (rule getU16_at [of _ "putPreamble UploadHeaderMsg @ putU64 (uh_fileSize m)"])
    (simp_all add: encodeUploadHeader_def)

lemma resultRequest_nameLen:
  "getU16 (encodeResultRequest m @ rest) (kPreambleSize + 20) = of_nat (length (rr_filename m))"
  by (rule getU16_at [of _ "putPreamble ResultRequestMsg @ putU64 (rr_fileSize m) @
      putU32 (rr_crc32 m) @ putU64 (rr_startOffset m)"])
    (simp_all add: encodeResultRequest_def)

section \<open>What a codec promises the framer\<close>

text \<open>
  The contract between one message kind and whoever reassembles it from a stream: a complete message
  followed by anything decodes to the value, no proper prefix is accepted or rejected, and the size
  announced from the preamble is the size encoded.
\<close>

locale wire_codec =
  fixes mtype :: MessageType
    and enc :: "'m \<Rightarrow> string"
    and dec :: "string \<Rightarrow> DecodeStatus + 'm"
    and valid :: "'m \<Rightarrow> bool"
  assumes dec_enc: "valid m \<Longrightarrow> dec (enc m @ rest) = Inr m"
    and dec_prefix: "valid m \<Longrightarrow> n < length (enc m) \<Longrightarrow> dec (take n (enc m)) = Inl NeedMoreData"
    and enc_preamble: "\<exists>body. enc m = putPreamble mtype @ body"
    and enc_size: "valid m \<Longrightarrow> expectedMessageSize (enc m) = Inr (length (enc m))"
    and enc_bound: "valid m \<Longrightarrow> length (enc m) \<le> kResultRequestMaxSize"

lemma encodeUploadHeader_preamble:
  "encodeUploadHeader m = putPreamble UploadHeaderMsg @ (putU64 (uh_fileSize m) @
     putU16 (of_nat (length (uh_filename m))) @ uh_filename m)"
  by (simp add: encodeUploadHeader_def)

lemma encodeResultRequest_preamble:
  "encodeResultRequest m = putPreamble ResultRequestMsg @ (putU64 (rr_fileSize m) @
     putU32 (rr_crc32 m) @ putU64 (rr_startOffset m) @
     putU16 (of_nat (length (rr_filename m))) @ rr_filename m)"
  by (simp add: encodeResultRequest_def)

lemma decodeUploadHeader_encode:
  assumes "validUploadHeader m"
  shows "decodeUploadHeader (encodeUploadHeader m @ rest) = Inr m"
proof -
  let ?b = "encodeUploadHeader m @ rest"
  have pre: "checkPreamble ?b UploadHeaderMsg = Ok"
    by (simp add: encodeUploadHeader_def)
  have fs: "getU64 ?b kPreambleSize = uh_fileSize m"
    by (rule getU64_at [of _ "putPreamble UploadHeaderMsg"]) (simp_all add: encodeUploadHeader_def)
  have nl: "unat (getU16 ?b (kPreambleSize + 8)) = length (uh_filename m)"
    using assms by (simp add: uploadHeader_nameLen filename_length_u16 validUploadHeader_def)
  have nm: "sv_substr ?b kUploadHeaderFixedSize (length (uh_filename m)) = uh_filename m"
    by (simp add: sv_substr_def encodeUploadHeader_def kUploadHeaderFixedSize_def)
  have len: "length ?b \<ge> kUploadHeaderFixedSize + length (uh_filename m)"
    by (simp add: encodeUploadHeader_def kUploadHeaderFixedSize_def)
  from assms pre fs nl nm len show ?thesis
    by (simp add: decodeUploadHeader_def Let_def validUploadHeader_def not_less)
qed

lemma decodeUploadHeader_prefix:
  assumes "validUploadHeader m" and "n < length (encodeUploadHeader m)"
  shows "decodeUploadHeader (take n (encodeUploadHeader m)) = Inl NeedMoreData"
proof -
  have nl: "18 \<le> n \<Longrightarrow> unat (getU16 (take n (encodeUploadHeader m)) (kPreambleSize + 8)) =
      length (uh_filename m)"
    using assms(1) uploadHeader_nameLen [of m "[]"]
    by (simp add: getU16_take filename_length_u16 validUploadHeader_def kPreambleSize_def)
  have len: "length (encodeUploadHeader m) = kUploadHeaderFixedSize + length (uh_filename m)"
    by (simp add: encodeUploadHeader_def kUploadHeaderFixedSize_def)
  have pre: "checkPreamble (take n (encodeUploadHeader m)) UploadHeaderMsg =
      (if n < kPreambleSize then NeedMoreData else Ok)"
    by (simp add: encodeUploadHeader_preamble checkPreamble_take del: take_append)
  show ?thesis
    using nl len assms(2) by (simp add: decodeUploadHeader_def pre Let_def protocol_sizes)
qed

lemma decodeResultRequest_encode:
  assumes "validResultRequest m"
  shows "decodeResultRequest (encodeResultRequest m @ rest) = Inr m"
proof -
  let ?b = "encodeResultRequest m @ rest"
  have pre: "checkPreamble ?b ResultRequestMsg = Ok"
    by (simp add: encodeResultRequest_def)
  have fs: "getU64 ?b kPreambleSize = rr_fileSize m"
    by (rule getU64_at [of _ "putPreamble ResultRequestMsg"]) (simp_all add: encodeResultRequest_def)
  have crc: "getU32 ?b (kPreambleSize + 8) = rr_crc32 m"
    by (rule getU32_at [of _ "putPreamble ResultRequestMsg @ putU64 (rr_fileSize m)"])
      (simp_all add: encodeResultRequest_def)
  have so: "getU64 ?b (kPreambleSize + 12) = rr_startOffset m"
    by (rule getU64_at [of _ "putPreamble ResultRequestMsg @ putU64 (rr_fileSize m) @
        putU32 (rr_crc32 m)"]) (simp_all add: encodeResultRequest_def)
  have nl: "unat (getU16 ?b (kPreambleSize + 20)) = length (rr_filename m)"
    using assms by (simp add: resultRequest_nameLen filename_length_u16 validResultRequest_def)
  have nm: "sv_substr ?b kResultRequestFixedSize (length (rr_filename m)) = rr_filename m"
    by (simp add: sv_substr_def encodeResultRequest_def kResultRequestFixedSize_def)
  have len: "length ?b \<ge> kResultRequestFixedSize + length (rr_filename m)"
    by (simp add: encodeResultRequest_def kResultRequestFixedSize_def)
  from assms pre fs crc so nl nm len show ?thesis
    by (simp add: decodeResultRequest_def Let_def validResultRequest_def not_less)
qed

lemma decodeResultRequest_prefix:
  assumes "validResultRequest m" and "n < length (encodeResultRequest m)"
  shows "decodeResultRequest (take n (encodeResultRequest m)) = Inl NeedMoreData"
proof -
  have nl: "30 \<le> n \<Longrightarrow> unat (getU16 (take n (encodeResultRequest m)) (kPreambleSize + 20)) =
      length (rr_filename m)"
    using assms(1) resultRequest_nameLen [of m "[]"]
    by (simp add: getU16_take filename_length_u16 validResultRequest_def kPreambleSize_def)
  have len: "length (encodeResultRequest m) = kResultRequestFixedSize + length (rr_filename m)"
    by (simp add: encodeResultRequest_def kResultRequestFixedSize_def)
  have pre: "checkPreamble (take n (encodeResultRequest m)) ResultRequestMsg =
      (if n < kPreambleSize then NeedMoreData else Ok)"
    by (simp add: encodeResultRequest_preamble checkPreamble_take del: take_append)
  show ?thesis
    using nl len assms(2) by (simp add: decodeResultRequest_def pre Let_def protocol_sizes)
qed

lemma decodeUploadTrailer_encode: "decodeUploadTrailer (encodeUploadTrailer m @ rest) = Inr m"
proof -
  let ?b = "encodeUploadTrailer m @ rest"
  have "getU32 ?b kPreambleSize = ut_crc32 m"
    by (rule getU32_at [of _ "putPreamble UploadTrailerMsg"]) (simp_all add: encodeUploadTrailer_def)
  moreover have "checkPreamble ?b UploadTrailerMsg = Ok"
    by (simp add: encodeUploadTrailer_def)
  moreover have "kUploadTrailerSize \<le> length ?b"
    by (simp add: encodeUploadTrailer_def kUploadTrailerSize_def)
  ultimately show ?thesis by (simp add: decodeUploadTrailer_def not_less)
qed

lemma decodeAck_encode: "decodeAck (encodeAck m @ rest) = Inr m"
proof -
  let ?b = "encodeAck m @ rest"
  have "getU64 ?b (kPreambleSize + 1) = ack_receivedBytes m"
    by (rule getU64_at [of _ "putPreamble AckMsg @ [chr_of (status_code (ack_status m))]"])
      (simp_all add: encodeAck_def)
  moreover have "byteAt ?b kPreambleSize = status_code (ack_status m)"
    by (simp add: encodeAck_def byteAt_def nth_append)
  moreover have "checkPreamble ?b AckMsg = Ok"
    by (simp add: encodeAck_def)
  moreover have "kAckSize \<le> length ?b"
    by (simp add: encodeAck_def kAckSize_def)
  ultimately show ?thesis
    using status_code_le [of "ack_status m"] by (simp add: decodeAck_def Let_def not_less)
qed

lemma decodeResultHeader_encode: "decodeResultHeader (encodeResultHeader m @ rest) = Inr m"
proof -
  let ?b = "encodeResultHeader m @ rest"
  have "getU64 ?b kPreambleSize = rh_csvSize m"
    by (rule getU64_at [of _ "putPreamble ResultHeaderMsg"]) (simp_all add: encodeResultHeader_def)
  moreover have "getU32 ?b (kPreambleSize + 8) = rh_crc32 m"
    by (rule getU32_at [of _ "putPreamble ResultHeaderMsg @ putU64 (rh_csvSize m)"])
      (simp_all add: encodeResultHeader_def)
  moreover have "checkPreamble ?b ResultHeaderMsg = Ok"
    by (simp add: encodeResultHeader_def)
  moreover have "kResultHeaderSize \<le> length ?b"
    by (simp add: encodeResultHeader_def kResultHeaderSize_def)
  ultimately show ?thesis by (simp add: decodeResultHeader_def not_less)
qed

lemma expectedMessageSize_put:
  assumes "buf = putPreamble t @ body"
  shows "expectedMessageSize buf =
    (case t of
       UploadHeaderMsg \<Rightarrow>
         (if length buf < kUploadHeaderFixedSize then Inl NeedMoreData
          else Inr (kUploadHeaderFixedSize + unat (getU16 buf (kPreambleSize + 8))))
     | UploadTrailerMsg \<Rightarrow> Inr kUploadTrailerSize
     | AckMsg \<Rightarrow> Inr kAckSize
     | ResultHeaderMsg \<Rightarrow> Inr kResultHeaderSize
     | DownloadDoneMsg \<Rightarrow> Inr kDownloadDoneSize
     | ResultRequestMsg \<Rightarrow>
         (if length buf < kResultRequestFixedSize then Inl NeedMoreData
          else Inr (kResultRequestFixedSize + unat (getU16 buf (kPreambleSize + 20)))))"
proof -
  have "magicOk buf" "byteAt buf kOffsetVersion = kProtocolVersion"
    "byteAt buf kOffsetType = type_code t" "\<not> length buf < kPreambleSize"
    using assms by simp_all
  then show ?thesis by (cases t) (simp_all add: expectedMessageSize_def type_of_code_def)
qed

interpretation uploadHeader: wire_codec UploadHeaderMsg encodeUploadHeader decodeUploadHeader
  validUploadHeader
proof unfold_locales
  fix m :: UploadHeader
  assume v: "validUploadHeader m"
  show "expectedMessageSize (encodeUploadHeader m) = Inr (length (encodeUploadHeader m))"
    using v uploadHeader_nameLen [of m "[]"]
    by (simp add: expectedMessageSize_put [OF encodeUploadHeader_preamble] filename_length_u16
        validUploadHeader_def) (simp add: encodeUploadHeader_def protocol_sizes)
  show "length (encodeUploadHeader m) \<le> kResultRequestMaxSize"
    using v by (simp add: validUploadHeader_def isValidFilename_def encodeUploadHeader_def
        protocol_sizes)
qed (blast intro: decodeUploadHeader_encode decodeUploadHeader_prefix encodeUploadHeader_preamble)+

interpretation resultRequest: wire_codec ResultRequestMsg encodeResultRequest decodeResultRequest
  validResultRequest
proof unfold_locales
  fix m :: ResultRequest
  assume v: "validResultRequest m"
  show "expectedMessageSize (encodeResultRequest m) = Inr (length (encodeResultRequest m))"
    using v resultRequest_nameLen [of m "[]"]
    by (simp add: expectedMessageSize_put [OF encodeResultRequest_preamble] filename_length_u16
        validResultRequest_def) (simp add: encodeResultRequest_def protocol_sizes)
  show "length (encodeResultRequest m) \<le> kResultRequestMaxSize"
    using v by (simp add: validResultRequest_def isValidFilename_def encodeResultRequest_def
        protocol_sizes)
qed (blast intro: decodeResultRequest_encode decodeResultRequest_prefix encodeResultRequest_preamble)+

lemma decodeUploadTrailer_prefix:
  "n < length (encodeUploadTrailer m) \<Longrightarrow>
     decodeUploadTrailer (take n (encodeUploadTrailer m)) = Inl NeedMoreData"
  by (auto simp: decodeUploadTrailer_def checkPreamble_take Let_def encodeUploadTrailer_def
      protocol_sizes simp del: take_append)

lemma decodeAck_prefix:
  "n < length (encodeAck m) \<Longrightarrow> decodeAck (take n (encodeAck m)) = Inl NeedMoreData"
  by (auto simp: decodeAck_def checkPreamble_take Let_def encodeAck_def protocol_sizes
      simp del: take_append)

lemma decodeResultHeader_prefix:
  "n < length (encodeResultHeader m) \<Longrightarrow>
     decodeResultHeader (take n (encodeResultHeader m)) = Inl NeedMoreData"
  by (auto simp: decodeResultHeader_def checkPreamble_take Let_def encodeResultHeader_def
      protocol_sizes simp del: take_append)

interpretation uploadTrailer: wire_codec UploadTrailerMsg encodeUploadTrailer decodeUploadTrailer "\<lambda>_. True"
proof unfold_locales
  fix m :: UploadTrailer
  show "expectedMessageSize (encodeUploadTrailer m) = Inr (length (encodeUploadTrailer m))"
    by (simp add: expectedMessageSize_put [OF encodeUploadTrailer_def])
      (simp add: encodeUploadTrailer_def protocol_sizes)
  show "length (encodeUploadTrailer m) \<le> kResultRequestMaxSize"
    by (simp add: encodeUploadTrailer_def protocol_sizes)
qed (blast intro: decodeUploadTrailer_encode decodeUploadTrailer_prefix encodeUploadTrailer_def)+

interpretation ack: wire_codec AckMsg encodeAck decodeAck "\<lambda>_. True"
proof unfold_locales
  fix m :: Ack
  show "expectedMessageSize (encodeAck m) = Inr (length (encodeAck m))"
    by (simp add: expectedMessageSize_put [OF encodeAck_def])
      (simp add: encodeAck_def protocol_sizes)
  show "length (encodeAck m) \<le> kResultRequestMaxSize"
    by (simp add: encodeAck_def protocol_sizes)
qed (blast intro: decodeAck_encode decodeAck_prefix encodeAck_def)+

interpretation resultHeader: wire_codec ResultHeaderMsg encodeResultHeader decodeResultHeader "\<lambda>_. True"
proof unfold_locales
  fix m :: ResultHeader
  show "expectedMessageSize (encodeResultHeader m) = Inr (length (encodeResultHeader m))"
    by (simp add: expectedMessageSize_put [OF encodeResultHeader_def])
      (simp add: encodeResultHeader_def protocol_sizes)
  show "length (encodeResultHeader m) \<le> kResultRequestMaxSize"
    by (simp add: encodeResultHeader_def protocol_sizes)
qed (blast intro: decodeResultHeader_encode decodeResultHeader_prefix encodeResultHeader_def)+

text \<open>\<^verbatim>\<open>DownloadDone\<close> has no body: its value is the unit, its decoder the preamble check.\<close>

definition decodeDone :: "string \<Rightarrow> DecodeStatus + unit" where
  "decodeDone buf = (if decodeDownloadDone buf = Ok then Inr () else Inl (decodeDownloadDone buf))"

interpretation downloadDone: wire_codec DownloadDoneMsg "\<lambda>_. encodeDownloadDone" decodeDone
  "\<lambda>_. True"
proof unfold_locales
  fix n :: nat and m :: unit
  assume "n < length encodeDownloadDone"
  then show "decodeDone (take n encodeDownloadDone) = Inl NeedMoreData"
    using checkPreamble_take [of n DownloadDoneMsg "[]"]
    by (simp add: decodeDone_def decodeDownloadDone_def encodeDownloadDone_def)
qed (auto simp: decodeDone_def decodeDownloadDone_def encodeDownloadDone_def protocol_sizes
    expectedMessageSize_put [of _ DownloadDoneMsg "[]"])

section \<open>What is accepted re-encodes to itself\<close>

lemma u8_bit_less: "bit (b :: u8) n \<Longrightarrow> n < 8"
  using bit_imp_le_length [of b n] by simp

lemma low_byte_chr: "u8_of (chr_of (drop_bit s (v :: 'a::len word) AND 0xFF)) = ucast (drop_bit s v)"
  by (rule bit_word_eqI) (auto simp: u8_of_chr_of and_FF_take_bit bit_simps)

lemma chr_eq_byte:
  "ucast (drop_bit s (v :: 'a::len word)) = u8_of c \<Longrightarrow> chr_of (drop_bit s v AND 0xFF) = c"
  by (metis low_byte_chr u8_of_inject)

lemma getU64_bytes:
  "getU64 buf off =
     push_bit 56 (ucast (byteAt buf (off + 0))) OR push_bit 48 (ucast (byteAt buf (off + 1))) OR
     push_bit 40 (ucast (byteAt buf (off + 2))) OR push_bit 32 (ucast (byteAt buf (off + 3))) OR
     push_bit 24 (ucast (byteAt buf (off + 4))) OR push_bit 16 (ucast (byteAt buf (off + 5))) OR
     push_bit 8 (ucast (byteAt buf (off + 6))) OR ucast (byteAt buf (off + 7))"
  by (simp add: getU64_def or.assoc)

lemma getU32_bytes:
  "getU32 buf off =
     push_bit 24 (ucast (byteAt buf (off + 0))) OR push_bit 16 (ucast (byteAt buf (off + 1))) OR
     push_bit 8 (ucast (byteAt buf (off + 2))) OR ucast (byteAt buf (off + 3))"
  by (simp add: getU32_def or.assoc)

lemma getU64_byte:
  "ucast (drop_bit 56 (getU64 buf off)) = byteAt buf (off + 0)"
  "ucast (drop_bit 48 (getU64 buf off)) = byteAt buf (off + 1)"
  "ucast (drop_bit 40 (getU64 buf off)) = byteAt buf (off + 2)"
  "ucast (drop_bit 32 (getU64 buf off)) = byteAt buf (off + 3)"
  "ucast (drop_bit 24 (getU64 buf off)) = byteAt buf (off + 4)"
  "ucast (drop_bit 16 (getU64 buf off)) = byteAt buf (off + 5)"
  "ucast (drop_bit 8 (getU64 buf off)) = byteAt buf (off + 6)"
  "ucast (drop_bit 0 (getU64 buf off)) = byteAt buf (off + 7)"
  unfolding getU64_bytes
  by (rule bit_word_eqI, auto simp: bit_simps dest: u8_bit_less)+

lemma getU32_byte:
  "ucast (drop_bit 24 (getU32 buf off)) = byteAt buf (off + 0)"
  "ucast (drop_bit 16 (getU32 buf off)) = byteAt buf (off + 1)"
  "ucast (drop_bit 8 (getU32 buf off)) = byteAt buf (off + 2)"
  "ucast (drop_bit 0 (getU32 buf off)) = byteAt buf (off + 3)"
  unfolding getU32_bytes
  by (rule bit_word_eqI, auto simp: bit_simps dest: u8_bit_less)+

lemma getU16_byte:
  "ucast (drop_bit 8 (getU16 buf off)) = byteAt buf (off + 0)"
  "ucast (drop_bit 0 (getU16 buf off)) = byteAt buf (off + 1)"
  unfolding getU16_def
  by (rule bit_word_eqI, auto simp: bit_simps dest: u8_bit_less)+

lemma putU64_getU64:
  "putU64 (getU64 buf off) = map (\<lambda>i. buf ! (off + i)) [0, 1, 2, 3, 4, 5, 6, 7]"
  by (simp only: putU64_def list.map list.inject getU64_byte chr_eq_byte [OF getU64_byte(1) [unfolded byteAt_def]]
      chr_eq_byte [OF getU64_byte(2) [unfolded byteAt_def]] chr_eq_byte [OF getU64_byte(3) [unfolded byteAt_def]]
      chr_eq_byte [OF getU64_byte(4) [unfolded byteAt_def]] chr_eq_byte [OF getU64_byte(5) [unfolded byteAt_def]]
      chr_eq_byte [OF getU64_byte(6) [unfolded byteAt_def]] chr_eq_byte [OF getU64_byte(7) [unfolded byteAt_def]]
      chr_eq_byte [OF getU64_byte(8) [unfolded byteAt_def]])

lemma putU32_getU32: "putU32 (getU32 buf off) = map (\<lambda>i. buf ! (off + i)) [0, 1, 2, 3]"
  by (simp only: putU32_def list.map chr_eq_byte [OF getU32_byte(1) [unfolded byteAt_def]]
      chr_eq_byte [OF getU32_byte(2) [unfolded byteAt_def]] chr_eq_byte [OF getU32_byte(3) [unfolded byteAt_def]]
      chr_eq_byte [OF getU32_byte(4) [unfolded byteAt_def]])

lemma putU16_getU16: "putU16 (getU16 buf off) = map (\<lambda>i. buf ! (off + i)) [0, 1]"
proof -
  have "chr_of (drop_bit 8 v) = chr_of (drop_bit 8 v AND 0xFF)" for v :: u16
  proof -
    have "drop_bit 8 v = take_bit 8 (drop_bit 8 v)"
      by (rule bit_word_eqI) (auto simp: bit_simps dest: bit_imp_le_length)
    then show ?thesis by (simp only: and_FF_take_bit)
  qed
  then show ?thesis
    by (simp only: putU16_def list.map chr_eq_byte [OF getU16_byte(1) [unfolded byteAt_def]]
        chr_eq_byte [OF getU16_byte(2) [unfolded byteAt_def], unfolded drop_bit_0 id_apply])
qed

lemma upt_literals:
  "[0..<2] = [0, 1]" "[0..<4] = [0, 1, 2, 3]" "[0..<6] = [0, 1, 2, 3, 4, 5]"
  "[0..<8] = [0, 1, 2, 3, 4, 5, 6, 7]"
  by code_simp+

lemma putU64_getU64_take: "off + 8 \<le> length buf \<Longrightarrow> putU64 (getU64 buf off) = take 8 (drop off buf)"
  using map_nth_take_drop [of off 8 buf] by (simp only: putU64_getU64 upt_literals)

lemma putU32_getU32_take: "off + 4 \<le> length buf \<Longrightarrow> putU32 (getU32 buf off) = take 4 (drop off buf)"
  using map_nth_take_drop [of off 4 buf] by (simp only: putU32_getU32 upt_literals)

lemma putU16_getU16_take: "off + 2 \<le> length buf \<Longrightarrow> putU16 (getU16 buf off) = take 2 (drop off buf)"
  using map_nth_take_drop [of off 2 buf] by (simp only: putU16_getU16 upt_literals)

text \<open>A buffer that carries a message: only the two reserved bytes are free.\<close>

definition carries :: "string \<Rightarrow> string \<Rightarrow> bool" where
  "carries buf msg \<longleftrightarrow>
     (\<exists>r1 r2 rest. buf = take 6 msg @ [r1, r2] @ drop kPreambleSize msg @ rest)"

lemma byteAt_eq_chr: "byteAt buf i = b \<longleftrightarrow> buf ! i = chr_of b"
  by (metis byteAt_def chr_of_u8_of u8_of_chr_of_u8)

lemma checkPreamble_OkD:
  assumes "checkPreamble buf t = Ok"
  shows "kPreambleSize \<le> length buf \<and> take 6 buf = take 6 (putPreamble t)"
proof -
  from assms have len: "kPreambleSize \<le> length buf" and "magicOk buf"
    "byteAt buf kOffsetVersion = kProtocolVersion" "byteAt buf kOffsetType = type_code t"
    by (auto simp: checkPreamble_def split: if_splits)
  then have "map (\<lambda>i. buf ! i) [0, 1, 2, 3, 4, 5] = take 6 (putPreamble t)"
    by (simp add: magicOk_def byteAt_eq_chr putPreamble_def kMagic_def kOffsetMagic_def
        kOffsetVersion_def kOffsetType_def)
  with len map_nth_take_drop [of 0 6 buf] show ?thesis
    by (simp add: kPreambleSize_def upt_literals)
qed

lemma carriesI:
  assumes "checkPreamble buf t = Ok" and "drop kPreambleSize buf = body @ rest"
  shows "carries buf (putPreamble t @ body)"
proof -
  from checkPreamble_OkD [OF assms(1)]
  have len: "8 \<le> length buf" and t6: "take 6 buf = take 6 (putPreamble t)"
    by (simp_all add: kPreambleSize_def)
  have "buf = take 6 buf @ take 2 (drop 6 buf) @ drop 8 buf"
    using take_drop_split [of buf 6 2] by simp
  moreover have "take 2 (drop 6 buf) = [buf ! 6, buf ! 7]"
    using map_nth_take_drop [of 6 2 buf] len by (simp add: upt_literals)
  ultimately have "buf = take 6 (putPreamble t @ body) @ [buf ! 6, buf ! 7] @ body @ rest"
    using t6 assms(2) by (simp add: kPreambleSize_def)
  then show ?thesis
    by (auto simp: carries_def)
qed

lemma decodeUploadHeader_sound:
  assumes "decodeUploadHeader buf = Inr m"
  shows "validUploadHeader m \<and> carries buf (encodeUploadHeader m)"
proof -
  let ?n = "unat (getU16 buf (kPreambleSize + 8))"
  from assms have pre: "checkPreamble buf UploadHeaderMsg = Ok"
    and len: "18 + ?n \<le> length buf"
    and fs: "uh_fileSize m = getU64 buf 8" "getU64 buf 8 \<le> kMaxFileSize"
    and nm: "uh_filename m = take ?n (drop 18 buf)" "isValidFilename (uh_filename m)"
    by (auto simp: decodeUploadHeader_def Let_def protocol_sizes sv_substr_def not_less
        split: if_splits)
  have "length (uh_filename m) = ?n"
    using len nm(1) by simp
  then have nl: "of_nat (length (uh_filename m)) = getU16 buf 16"
    by (simp add: kPreambleSize_def)
  have "drop 8 buf = take 8 (drop 8 buf) @ take 2 (drop 16 buf) @ take ?n (drop 18 buf) @
      drop (18 + ?n) buf"
    using drop_split [of 8 buf 8] drop_split [of 16 buf 2] drop_split [of 18 buf ?n] by simp
  then have "drop kPreambleSize buf = (putU64 (uh_fileSize m) @ putU16 (of_nat (length (uh_filename m)))
      @ uh_filename m) @ drop (18 + ?n) buf"
    using len fs nm nl
    by (simp add: putU64_getU64_take putU16_getU16_take kPreambleSize_def)
  from carriesI [OF pre this] fs nm show ?thesis
    by (simp add: validUploadHeader_def encodeUploadHeader_def)
qed

lemma decodeResultRequest_sound:
  assumes "decodeResultRequest buf = Inr m"
  shows "validResultRequest m \<and> carries buf (encodeResultRequest m)"
proof -
  let ?n = "unat (getU16 buf (kPreambleSize + 20))"
  from assms have pre: "checkPreamble buf ResultRequestMsg = Ok"
    and len: "30 + ?n \<le> length buf"
    and fs: "rr_fileSize m = getU64 buf 8" "getU64 buf 8 \<le> kMaxFileSize"
    and so: "rr_startOffset m = getU64 buf 20" "getU64 buf 20 \<le> kMaxCsvSize"
    and crc: "rr_crc32 m = getU32 buf 16"
    and nm: "rr_filename m = take ?n (drop 30 buf)" "isValidFilename (rr_filename m)"
    by (auto simp: decodeResultRequest_def Let_def protocol_sizes sv_substr_def not_less
        split: if_splits)
  have "length (rr_filename m) = ?n"
    using len nm(1) by simp
  then have nl: "of_nat (length (rr_filename m)) = getU16 buf 28"
    by (simp add: kPreambleSize_def)
  have "drop 8 buf = take 8 (drop 8 buf) @ take 4 (drop 16 buf) @ take 8 (drop 20 buf) @
      take 2 (drop 28 buf) @ take ?n (drop 30 buf) @ drop (30 + ?n) buf"
    using drop_split [of 8 buf 8] drop_split [of 16 buf 4] drop_split [of 20 buf 8]
      drop_split [of 28 buf 2] drop_split [of 30 buf ?n] by simp
  then have "drop kPreambleSize buf = (putU64 (rr_fileSize m) @ putU32 (rr_crc32 m) @
      putU64 (rr_startOffset m) @ putU16 (of_nat (length (rr_filename m))) @ rr_filename m) @
      drop (30 + ?n) buf"
    using len fs crc so nm nl
    by (simp add: putU64_getU64_take putU32_getU32_take putU16_getU16_take kPreambleSize_def)
  from carriesI [OF pre this] fs so nm show ?thesis
    by (simp add: validResultRequest_def encodeResultRequest_def)
qed

section \<open>Properties\<close>

text \<open>
  C30. Every message kind survives the wire: decoding an encoded message, with any bytes of the
  next one already behind it, gives back the value. For the two messages that carry a file name
  this holds for the values the receiver accepts.
\<close>

theorem codec_roundtrip:
  "(validUploadHeader h \<longrightarrow> decodeUploadHeader (encodeUploadHeader h @ rest) = Inr h) \<and>
   (validResultRequest r \<longrightarrow> decodeResultRequest (encodeResultRequest r @ rest) = Inr r) \<and>
   decodeUploadTrailer (encodeUploadTrailer t @ rest) = Inr t \<and>
   decodeAck (encodeAck a @ rest) = Inr a \<and>
   decodeResultHeader (encodeResultHeader rh @ rest) = Inr rh \<and>
   decodeDownloadDone (encodeDownloadDone @ rest) = Ok"
  using uploadHeader.dec_enc resultRequest.dec_enc uploadTrailer.dec_enc ack.dec_enc
    resultHeader.dec_enc
  by (simp add: decodeDownloadDone_def encodeDownloadDone_def)

theorem codec_roundtrip_witness:
  "let h = \<lparr>uh_fileSize = 10, uh_filename = ''a.log''\<rparr>;
       r = \<lparr>rr_fileSize = 10, rr_crc32 = 7, rr_startOffset = 3, rr_filename = ''a.log''\<rparr> in
   validUploadHeader h \<and> decodeUploadHeader (encodeUploadHeader h @ ''xy'') = Inr h \<and>
   validResultRequest r \<and> decodeResultRequest (encodeResultRequest r @ ''xy'') = Inr r"
proof -
  let ?h = "\<lparr>uh_fileSize = 10, uh_filename = ''a.log''\<rparr>"
  let ?r = "\<lparr>rr_fileSize = 10, rr_crc32 = 7, rr_startOffset = 3, rr_filename = ''a.log''\<rparr>"
  have "validUploadHeader ?h" "validResultRequest ?r"
    by (simp_all add: validUploadHeader_def validResultRequest_def isValidFilename_def
        kMaxFilenameLen_def kMaxFileSize_def kMaxCsvSize_def u8_of_def word_le_nat_alt)
  with codec_roundtrip [of ?h "''xy''" ?r] show ?thesis by (simp add: Let_def)
qed

text \<open>
  C31. Default deny: a buffer the server accepts as an upload header or as a result request
  carries exactly the encoding of an in-range value, byte for byte, apart from the two reserved
  bytes the receiver ignores; in particular its file name has no control character or path
  separator and its sizes are within the limits.
\<close>

theorem codec_accepts_only_encodings:
  "(decodeUploadHeader buf = Inr h \<longrightarrow> validUploadHeader h \<and> carries buf (encodeUploadHeader h)) \<and>
   (decodeResultRequest buf = Inr r \<longrightarrow> validResultRequest r \<and> carries buf (encodeResultRequest r))"
  by (blast intro: decodeUploadHeader_sound [THEN conjunct1] decodeUploadHeader_sound [THEN conjunct2]
      decodeResultRequest_sound [THEN conjunct1] decodeResultRequest_sound [THEN conjunct2])

theorem codec_accepts_only_encodings_witness:
  "let h = \<lparr>uh_fileSize = 10, uh_filename = ''a.log''\<rparr>;
       r = \<lparr>rr_fileSize = 10, rr_crc32 = 7, rr_startOffset = 3, rr_filename = ''a.log''\<rparr> in
   carries (encodeUploadHeader h @ ''tail'') (encodeUploadHeader h) \<and>
   carries (encodeResultRequest r @ ''tail'') (encodeResultRequest r)"
proof -
  let ?h = "\<lparr>uh_fileSize = 10, uh_filename = ''a.log''\<rparr>"
  let ?r = "\<lparr>rr_fileSize = 10, rr_crc32 = 7, rr_startOffset = 3, rr_filename = ''a.log''\<rparr>"
  have "validUploadHeader ?h" "validResultRequest ?r"
    by (simp_all add: validUploadHeader_def validResultRequest_def isValidFilename_def
        kMaxFilenameLen_def kMaxFileSize_def kMaxCsvSize_def u8_of_def word_le_nat_alt)
  then have "decodeUploadHeader (encodeUploadHeader ?h @ ''tail'') = Inr ?h"
    "decodeResultRequest (encodeResultRequest ?r @ ''tail'') = Inr ?r"
    by (simp_all only: decodeUploadHeader_encode decodeResultRequest_encode)
  with codec_accepts_only_encodings [of "encodeUploadHeader ?h @ ''tail''" ?h ?r]
    codec_accepts_only_encodings [of "encodeResultRequest ?r @ ''tail''" ?h ?r]
  show ?thesis by (simp add: Let_def)
qed

end
