(* ===== verification/Framer.thy ===== *)
theory Framer
  imports Codec
begin

text \<open>
  \<^verbatim>\<open>common/protocol/Framer.cpp\<close>: accumulate received bytes until one message is complete, never
  consuming a byte beyond it. \<^verbatim>\<open>_buffer\<close> and \<^verbatim>\<open>_size\<close> are the list of the bytes accumulated so far;
  the loop of \<^verbatim>\<open>feed\<close> is \<open>feed_loop\<close>, whose second argument is the input not yet consumed, so
  that \<^verbatim>\<open>consumed == data.size()\<close> is the test for the empty list.
\<close>

section \<open>Definitions\<close>

definition kFramerBufferSize :: nat where
  "kFramerBufferSize = max kResultRequestMaxSize kUploadHeaderMaxSize"

record Framer =
  fr_buffer :: string
  fr_expected :: MessageType
  fr_alternate :: MessageType
  fr_status :: DecodeStatus

definition newFramer :: "MessageType \<Rightarrow> MessageType \<Rightarrow> Framer" where
  "newFramer expected alternate =
     \<lparr>fr_buffer = [], fr_expected = expected, fr_alternate = alternate, fr_status = NeedMoreData\<rparr>"

definition framerReset2 :: "MessageType \<Rightarrow> MessageType \<Rightarrow> Framer \<Rightarrow> Framer" where
  "framerReset2 expected alternate f =
     f\<lparr>fr_buffer := [], fr_expected := expected, fr_alternate := alternate,
       fr_status := NeedMoreData\<rparr>"

definition framerReset :: "MessageType \<Rightarrow> Framer \<Rightarrow> Framer" where
  "framerReset expected f = framerReset2 expected expected f"

definition message :: "Framer \<Rightarrow> string" where
  "message f = fr_buffer f"

definition messageType :: "Framer \<Rightarrow> MessageType option" where
  "messageType f = type_of_code (byteAt (fr_buffer f) kOffsetType)"

definition fixedSizeFor :: "MessageType option \<Rightarrow> nat" where
  "fixedSizeFor t =
     (case t of Some UploadHeaderMsg \<Rightarrow> kUploadHeaderFixedSize
      | Some ResultRequestMsg \<Rightarrow> kResultRequestFixedSize
      | _ \<Rightarrow> kPreambleSize)"

text \<open>
  The part of one loop iteration before any byte is copied: \<open>Inl\<close> is the status at which the loop
  breaks, \<open>Inr\<close> the size to fill the buffer to.
\<close>

definition feed_target :: "Framer \<Rightarrow> DecodeStatus + nat" where
  "feed_target f =
     (let size = length (fr_buffer f);
          sizeStatus = expectedMessageSize (fr_buffer f);
          actual = byteAt (fr_buffer f) kOffsetType;
          wrongType = (kPreambleSize \<le> size \<and> actual \<noteq> type_code (fr_expected f) \<and>
                       actual \<noteq> type_code (fr_alternate f));
          progress = (\<lambda>target. if target \<le> size then Inl BadValue else Inr target) in
      case sizeStatus of
        Inl st \<Rightarrow>
          (if st \<noteq> NeedMoreData then Inl st
           else if wrongType then Inl BadType
           else progress (if size < kPreambleSize then kPreambleSize
                          else fixedSizeFor (messageType f)))
      | Inr tot \<Rightarrow>
          (if wrongType then Inl BadType
           else if tot > kFramerBufferSize then Inl BadValue
           else if size = tot then Inl Ok
           else progress tot))"

lemma feed_target_InrD: "feed_target f = Inr t \<Longrightarrow> length (fr_buffer f) < t"
  by (auto simp: feed_target_def Let_def split: if_splits sum.splits)

function feed_loop :: "Framer \<Rightarrow> string \<Rightarrow> nat \<Rightarrow> Framer \<times> nat" where
  "feed_loop f rest consumed =
     (case feed_target f of
        Inl st \<Rightarrow> (f\<lparr>fr_status := st\<rparr>, consumed)
      | Inr target \<Rightarrow>
          (if rest = [] then (f, consumed)
           else let n = min (target - length (fr_buffer f)) (length rest) in
             feed_loop (f\<lparr>fr_buffer := fr_buffer f @ take n rest\<rparr>) (drop n rest) (consumed + n)))"
  by pat_completeness auto
termination
  by (relation "measure (\<lambda>(f, rest, consumed). length rest)") (auto dest: feed_target_InrD)

declare feed_loop.simps [simp del]

definition feed :: "Framer \<Rightarrow> string \<Rightarrow> Framer \<times> nat" where
  "feed f data =
     (if fr_status f \<noteq> NeedMoreData then (f, 0) else feed_loop f data 0)"

text \<open>Feeding a stream as it arrives, chunk by chunk; the count is the bytes consumed in all.\<close>

fun feed_all :: "Framer \<Rightarrow> string list \<Rightarrow> Framer \<times> nat" where
  "feed_all f [] = (f, 0)"
| "feed_all f (c # cs) =
     (let (f1, n1) = feed f c; (f2, n2) = feed_all f1 cs in (f2, n1 + n2))"

section \<open>Chunk boundaries do not matter\<close>

lemma feed_loop_Inl [simp]:
  "feed_target f = Inl st \<Longrightarrow> feed_loop f rest consumed = (f\<lparr>fr_status := st\<rparr>, consumed)"
  by (subst feed_loop.simps) simp

lemma feed_loop_Nil:
  "feed_target f = Inr t \<Longrightarrow> feed_loop f [] consumed = (f, consumed)"
  by (subst feed_loop.simps) simp

lemma feed_loop_Inr:
  "feed_target f = Inr t \<Longrightarrow> rest \<noteq> [] \<Longrightarrow>
     feed_loop f rest consumed =
       (let n = min (t - length (fr_buffer f)) (length rest) in
        feed_loop (f\<lparr>fr_buffer := fr_buffer f @ take n rest\<rparr>) (drop n rest) (consumed + n))"
  by (subst feed_loop.simps) simp

lemma feed_loop_consumed:
  "feed_loop f rest (consumed + k) = (let (f', n) = feed_loop f rest consumed in (f', n + k))"
proof (induction f rest consumed rule: feed_loop.induct)
  case (1 f rest consumed)
  show ?case
  proof (cases "feed_target f")
    case (Inl st)
    then show ?thesis by simp
  next
    case (Inr t)
    show ?thesis
    proof (cases "rest = []")
      case True
      then show ?thesis using Inr by (simp add: feed_loop_Nil)
    next
      case False
      from 1 [OF Inr False refl] show ?thesis
        by (simp add: feed_loop_Inr [OF Inr False] Let_def ac_simps)
    qed
  qed
qed

lemma feed_loop_consumed0:
  "feed_loop f rest k = (let (f', n) = feed_loop f rest 0 in (f', n + k))"
  using feed_loop_consumed [of f rest 0 k] by simp

lemma getU16_append [simp]: "off + 2 \<le> length b \<Longrightarrow> getU16 (b @ a) off = getU16 b off"
  by (simp add: getU16_def)

lemma magicOk_append [simp]: "4 \<le> length b \<Longrightarrow> magicOk (b @ a) = magicOk b"
  by (auto simp: magicOk_def kOffsetMagic_def byteAt_def nth_append)

lemma expectedMessageSize_append:
  assumes "kPreambleSize \<le> length b" and "expectedMessageSize b \<noteq> Inl NeedMoreData"
  shows "expectedMessageSize (b @ a) = expectedMessageSize b"
proof -
  have "4 \<le> length b" "kOffsetVersion < length b" "kOffsetType < length b"
    using assms(1) by (simp_all add: protocol_sizes)
  with assms show ?thesis
    by (auto simp: expectedMessageSize_def protocol_sizes split: option.splits MessageType.splits
        if_splits)
qed

lemma expectedMessageSize_short:
  "expectedMessageSize b = Inl NeedMoreData \<longleftrightarrow>
     length b < kPreambleSize \<or>
     (magicOk b \<and> byteAt b kOffsetVersion = kProtocolVersion \<and>
      length b < fixedSizeFor (type_of_code (byteAt b kOffsetType)))"
  by (auto simp: expectedMessageSize_def fixedSizeFor_def split: option.splits MessageType.splits)

text \<open>A target once chosen stays the target until it is reached.\<close>

lemma feed_target_stable:
  assumes "feed_target f = Inr t" and "length (fr_buffer f) + length a < t"
  shows "feed_target (f\<lparr>fr_buffer := fr_buffer f @ a\<rparr>) = Inr t"
proof (cases "length (fr_buffer f) < kPreambleSize")
  case True
  then have "expectedMessageSize (fr_buffer f) = Inl NeedMoreData"
    by (simp add: expectedMessageSize_short)
  with True assms(1) have t: "t = kPreambleSize"
    by (simp add: feed_target_def Let_def split: if_splits)
  with assms(2) have "expectedMessageSize (fr_buffer f @ a) = Inl NeedMoreData"
    by (simp add: expectedMessageSize_short)
  with t assms(2) show ?thesis
    by (simp add: feed_target_def Let_def)
next
  case False
  let ?b = "fr_buffer f"
  have facts: "4 \<le> length ?b" "kOffsetVersion < length ?b" "kOffsetType < length ?b"
    using False by (simp_all add: protocol_sizes)
  show ?thesis
  proof (cases "expectedMessageSize ?b = Inl NeedMoreData")
    case True
    with False assms(1) have t: "t = fixedSizeFor (type_of_code (byteAt ?b kOffsetType))"
      by (auto simp: feed_target_def Let_def messageType_def split: if_splits)
    with True False assms(2) facts have "expectedMessageSize (?b @ a) = Inl NeedMoreData"
      by (auto simp: expectedMessageSize_short)
    with True False t assms facts show ?thesis
      by (auto simp: feed_target_def Let_def messageType_def split: if_splits)
  next
    case complete: False
    with False have "expectedMessageSize (?b @ a) = expectedMessageSize ?b"
      by (simp add: expectedMessageSize_append)
    with complete False assms facts show ?thesis
      by (auto simp: feed_target_def Let_def messageType_def split: if_splits sum.splits)
  qed
qed

text \<open>
  Either the loop runs out of input, with everything consumed and the status still open, or it has
  decided, and later input changes nothing.
\<close>

lemma feed_target_status [simp]: "feed_target (f\<lparr>fr_status := st\<rparr>) = feed_target f"
  by (simp add: feed_target_def messageType_def Let_def split: sum.splits)

lemma feed_target_not_NeedMore: "feed_target f \<noteq> Inl NeedMoreData"
  by (auto simp: feed_target_def Let_def split: if_splits sum.splits)

lemma feed_loop_append:
  assumes "feed_loop f a c = (f1, n1)"
  shows "feed_loop f (a @ b) c = (case feed_target f1 of Inl _ \<Rightarrow> (f1, n1) | Inr _ \<Rightarrow> feed_loop f1 b n1)"
  using assms
proof (induction f a c arbitrary: f1 n1 rule: feed_loop.induct)
  case (1 f a c)
  show ?case
  proof (cases "feed_target f")
    case (Inl st)
    with "1.prems" have "f1 = f\<lparr>fr_status := st\<rparr>" "n1 = c" by simp_all
    with Inl show ?thesis by simp
  next
    case (Inr t)
    let ?n = "min (t - length (fr_buffer f)) (length a)"
    let ?g = "f\<lparr>fr_buffer := fr_buffer f @ take ?n a\<rparr>"
    show ?thesis
    proof (cases "a = []")
      case True
      with "1.prems" Inr have "f1 = f" "n1 = c" by (simp_all add: feed_loop_Nil)
      with True Inr show ?thesis by simp
    next
      case False
      have prem: "feed_loop ?g (drop ?n a) (c + ?n) = (f1, n1)"
        using "1.prems" by (simp add: feed_loop_Inr [OF Inr False] Let_def)
      show ?thesis
      proof (cases "t - length (fr_buffer f) \<le> length a")
        case True
        have "feed_loop f (a @ b) c = feed_loop ?g (drop ?n a @ b) (c + ?n)"
          using False True by (subst feed_loop_Inr [OF Inr]) (simp_all add: Let_def min_def)
        with "1.IH" [OF Inr False refl prem] show ?thesis by simp
      next
        case short: False
        then have n: "?n = length a" by simp
        from short have "length (fr_buffer f) + length a < t" by simp
        then have tgt': "feed_target (f\<lparr>fr_buffer := fr_buffer f @ a\<rparr>) = Inr t"
          by (rule feed_target_stable [OF Inr])
        with n have tgt: "feed_target ?g = Inr t" by simp
        with prem n have f1: "f1 = ?g" "n1 = c + length a"
          by (simp_all add: feed_loop_Nil)
        have "feed_loop f (a @ b) c = feed_loop ?g b (c + length a)"
        proof (cases "b = []")
          case True
          with "1.prems" f1 tgt show ?thesis by (simp add: feed_loop_Nil)
        next
          case bne: False
          have m: "min (t - length (fr_buffer f)) (length a + length b) =
              length a + min (t - length (fr_buffer f) - length a) (length b)"
            using short by (simp add: min_def)
          show ?thesis
            using n short by (subst feed_loop_Inr [OF Inr]) (simp_all add: False feed_loop_Inr [OF tgt' bne]
                Let_def m ac_simps)
        qed
        with f1 tgt show ?thesis by simp
      qed
    qed
  qed
qed

lemma feed_loop_end:
  assumes "feed_loop f rest c = (f', n)" and "fr_status f = NeedMoreData"
  shows "(case feed_target f' of
            Inl st \<Rightarrow> fr_status f' = st
          | Inr _ \<Rightarrow> fr_status f' = NeedMoreData \<and> n = c + length rest)"
  using assms
proof (induction f rest c arbitrary: f' n rule: feed_loop.induct)
  case (1 f rest c)
  show ?case
  proof (cases "feed_target f")
    case (Inl st)
    with "1.prems" show ?thesis by auto
  next
    case (Inr t)
    let ?n = "min (t - length (fr_buffer f)) (length rest)"
    show ?thesis
    proof (cases "rest = []")
      case True
      with "1.prems" Inr show ?thesis by (auto simp: feed_loop_Nil)
    next
      case False
      from "1.prems" have "feed_loop (f\<lparr>fr_buffer := fr_buffer f @ take ?n rest\<rparr>) (drop ?n rest) (c + ?n)
          = (f', n)"
        by (simp add: feed_loop_Inr [OF Inr False] Let_def)
      from "1.IH" [OF Inr False refl this] "1.prems"(2) show ?thesis
        by (simp split: sum.splits)
    qed
  qed
qed

lemma feed_append:
  assumes "feed f a = (f1, n1)"
  shows "feed f (a @ b) = (let (f2, n2) = feed f1 b in (f2, n1 + n2))"
proof (cases "fr_status f = NeedMoreData")
  case True
  with assms have loop: "feed_loop f a 0 = (f1, n1)" by (simp add: feed_def)
  note app = feed_loop_append [OF loop, of b]
  show ?thesis
  proof (cases "feed_target f1")
    case (Inl st)
    with feed_loop_end [OF loop True] have "fr_status f1 = st" by simp
    with Inl feed_target_not_NeedMore [of f1] have "fr_status f1 \<noteq> NeedMoreData" by auto
    with True Inl app show ?thesis by (simp add: feed_def)
  next
    case (Inr t)
    with feed_loop_end [OF loop True] have "fr_status f1 = NeedMoreData" by simp
    with True Inr app show ?thesis
      by (simp add: feed_def feed_loop_consumed0 [of f1 b n1] ac_simps split: prod.splits)
  qed
next
  case False
  with assms show ?thesis by (simp add: feed_def)
qed

lemma feed_Nil_idem: "feed f [] = (f', n) \<Longrightarrow> n = 0"
  by (cases "feed_target f") (auto simp: feed_def feed_loop_Nil split: if_splits)

lemma feed_all_concat:
  assumes "cs \<noteq> []"
  shows "feed_all f cs = feed f (concat cs)"
  using assms
proof (induction cs arbitrary: f)
  case (Cons c cs)
  obtain f1 n1 where f1: "feed f c = (f1, n1)" by fastforce
  show ?case
  proof (cases "cs = []")
    case False
    from Cons.IH [OF False] feed_append [OF f1, of "concat cs"] f1 show ?thesis
      by simp
  qed (simp add: f1)
qed simp

section \<open>The buffer is bounded and the loop never stalls\<close>

definition framer_inv :: "Framer \<Rightarrow> bool" where
  "framer_inv f \<longleftrightarrow>
     length (fr_buffer f) \<le> kFramerBufferSize \<and>
     (case expectedMessageSize (fr_buffer f) of Inr tot \<Rightarrow> length (fr_buffer f) \<le> tot | Inl _ \<Rightarrow> True)"

lemma expectedMessageSize_ge_fixed:
  "expectedMessageSize b = Inr tot \<Longrightarrow> fixedSizeFor (type_of_code (byteAt b kOffsetType)) \<le> tot"
  by (auto simp: expectedMessageSize_def fixedSizeFor_def protocol_sizes
      split: if_splits option.splits MessageType.splits)

lemma fixedSizeFor_bounds: "kPreambleSize \<le> fixedSizeFor t" "fixedSizeFor t \<le> kFramerBufferSize"
  by (auto simp: fixedSizeFor_def kFramerBufferSize_def protocol_sizes
      split: option.splits MessageType.splits)

lemma framer_inv_empty: "fr_buffer f = [] \<Longrightarrow> framer_inv f"
  by (simp add: framer_inv_def expectedMessageSize_def protocol_sizes)

lemma framer_inv_step:
  assumes "feed_target f = Inr t" and "length (fr_buffer f) + length x \<le> t"
  shows "framer_inv (f\<lparr>fr_buffer := fr_buffer f @ x\<rparr>)"
proof -
  let ?b = "fr_buffer f" and ?b' = "fr_buffer f @ x"
  have t_bound: "t \<le> kFramerBufferSize"
    using assms(1) fixedSizeFor_bounds
    by (auto simp: feed_target_def Let_def kFramerBufferSize_def protocol_sizes
        split: if_splits sum.splits)
  have "length ?b' \<le> tot" if tot: "expectedMessageSize ?b' = Inr tot" for tot
  proof (cases "kPreambleSize \<le> length ?b \<and> expectedMessageSize ?b \<noteq> Inl NeedMoreData")
    case True
    with tot have "expectedMessageSize ?b = Inr tot"
      by (metis expectedMessageSize_append)
    with assms(1) have "t = tot"
      by (auto simp: feed_target_def Let_def split: if_splits)
    with assms(2) show ?thesis by simp
  next
    case False
    then have nm: "expectedMessageSize ?b = Inl NeedMoreData"
      by (auto simp: expectedMessageSize_short)
    have "t \<le> fixedSizeFor (type_of_code (byteAt ?b' kOffsetType))"
    proof (cases "length ?b < kPreambleSize")
      case True
      with assms(1) nm show ?thesis
        using fixedSizeFor_bounds by (simp add: feed_target_def Let_def split: if_splits)
    next
      case False
      then have "kOffsetType < length ?b" by (simp add: protocol_sizes)
      with False assms(1) nm show ?thesis
        by (auto simp: feed_target_def Let_def messageType_def split: if_splits)
    qed
    with expectedMessageSize_ge_fixed [OF tot] assms(2) show ?thesis by simp
  qed
  with t_bound assms(2) show ?thesis
    by (simp add: framer_inv_def split: sum.splits)
qed

lemma framer_inv_status [simp]: "framer_inv (f\<lparr>fr_status := st\<rparr>) = framer_inv f"
  by (simp add: framer_inv_def split: sum.splits)

lemma framer_inv_feed_loop: "framer_inv f \<Longrightarrow> framer_inv (fst (feed_loop f rest c))"
proof (induction f rest c rule: feed_loop.induct)
  case (1 f rest c)
  show ?case
  proof (cases "feed_target f")
    case (Inl st)
    with "1.prems" show ?thesis by simp
  next
    case (Inr t)
    show ?thesis
    proof (cases "rest = []")
      case True
      with Inr "1.prems" show ?thesis by (simp add: feed_loop_Nil)
    next
      case False
      let ?n = "min (t - length (fr_buffer f)) (length rest)"
      have "framer_inv (f\<lparr>fr_buffer := fr_buffer f @ take ?n rest\<rparr>)"
        using feed_target_InrD [OF Inr] by (intro framer_inv_step [OF Inr]) auto
      from "1.IH" [OF Inr False refl this] show ?thesis
        by (simp add: feed_loop_Inr [OF Inr False] Let_def)
    qed
  qed
qed

lemma framer_inv_feed: "framer_inv f \<Longrightarrow> framer_inv (fst (feed f data))"
  by (simp add: feed_def framer_inv_feed_loop)

text \<open>Every framer the programs can have: built, fed and reset in any order.\<close>

inductive framer_reachable :: "Framer \<Rightarrow> bool" where
  new: "framer_reachable (newFramer e a)"
| feed: "framer_reachable f \<Longrightarrow> framer_reachable (fst (feed f data))"
| reset: "framer_reachable f \<Longrightarrow> framer_reachable (framerReset2 e a f)"

lemma framer_reachable_inv: "framer_reachable f \<Longrightarrow> framer_inv f"
  by (induction rule: framer_reachable.induct)
    (auto simp: framer_inv_empty newFramer_def framerReset2_def framer_inv_feed)

lemma feed_target_BadValue:
  assumes "framer_inv f" and "feed_target f = Inl BadValue"
  shows "\<exists>tot. expectedMessageSize (fr_buffer f) = Inr tot \<and> kFramerBufferSize < tot"
proof (cases "expectedMessageSize (fr_buffer f)")
  case (Inr tot)
  with assms show ?thesis
    by (auto simp: feed_target_def framer_inv_def Let_def split: if_splits)
next
  case (Inl st)
  show ?thesis
  proof (cases "st = NeedMoreData")
    case True
    with Inl have nm: "expectedMessageSize (fr_buffer f) = Inl NeedMoreData" by simp
    then have "length (fr_buffer f) < (if length (fr_buffer f) < kPreambleSize then kPreambleSize
        else fixedSizeFor (messageType f))"
      by (auto simp: messageType_def expectedMessageSize_short)
    with nm assms(2) show ?thesis
      by (auto simp: feed_target_def Let_def split: if_splits)
  next
    case False
    with Inl assms(2) have "st = BadValue"
      by (simp add: feed_target_def Let_def)
    with Inl show ?thesis
      by (auto simp: expectedMessageSize_def split: if_splits option.splits MessageType.splits)
  qed
qed

lemma framer_BadValue_oversize:
  assumes "framer_reachable f" "fr_status f = NeedMoreData" "feed f data = (f', n)"
    "fr_status f' = BadValue"
  shows "\<exists>tot. expectedMessageSize (fr_buffer f') = Inr tot \<and> kFramerBufferSize < tot"
proof -
  have "framer_inv f'"
    using framer_inv_feed [OF framer_reachable_inv [OF assms(1)], of data] assms(3) by simp
  moreover from assms have "feed_loop f data 0 = (f', n)" by (simp add: feed_def)
  from feed_loop_end [OF this assms(2)] assms(4) have "feed_target f' = Inl BadValue"
    by (auto split: sum.splits)
  ultimately show ?thesis by (rule feed_target_BadValue)
qed

section \<open>Complete messages come out whole\<close>

text \<open>The framer as a client of the codec contract.\<close>

context wire_codec
begin

lemma enc_fields:
  "magicOk (enc m)" "byteAt (enc m) kOffsetVersion = kProtocolVersion"
  "byteAt (enc m) kOffsetType = type_code mtype" "kPreambleSize \<le> length (enc m)"
  using enc_preamble [of m] by auto

lemma enc_fixed:
  assumes "valid m"
  shows "fixedSizeFor (Some mtype) \<le> length (enc m)"
proof -
  have "expectedMessageSize (enc m) \<noteq> Inl NeedMoreData"
    using enc_size [OF assms] by simp
  with enc_fields [of m] show ?thesis
    by (auto simp: expectedMessageSize_short)
qed

lemma target_prefix:
  assumes "valid m" and "mtype = fr_expected f \<or> mtype = fr_alternate f"
    and "fr_buffer f = take k (enc m)" and "k \<le> length (enc m)"
  shows "if k = length (enc m) then feed_target f = Inl Ok
         else \<exists>t. feed_target f = Inr t \<and> k < t \<and> t \<le> length (enc m)"
proof (cases "k < kPreambleSize")
  case True
  then have "expectedMessageSize (fr_buffer f) = Inl NeedMoreData"
    using assms(3,4) by (simp add: expectedMessageSize_short)
  with True assms(3,4) enc_fields(4) [of m] show ?thesis
    by (simp add: feed_target_def Let_def)
next
  case False
  then have k: "4 \<le> k" "kOffsetVersion < k" "kOffsetType < k" by (simp_all add: protocol_sizes)
  have tcode: "byteAt (fr_buffer f) kOffsetType = type_code mtype"
    using assms(3) k enc_fields [of m] by simp
  have len: "length (fr_buffer f) = k" using assms(3,4) by simp
  have bound: "length (enc m) \<le> kFramerBufferSize"
    using enc_bound [OF assms(1)] by (simp add: kFramerBufferSize_def)
  show ?thesis
  proof (cases "expectedMessageSize (fr_buffer f) = Inl NeedMoreData")
    case True
    then have "k < fixedSizeFor (Some mtype)"
      using False assms(3) k enc_fields [of m] tcode len
      by (auto simp: expectedMessageSize_short)
    with True False tcode len assms(2) enc_fixed [OF assms(1)] show ?thesis
      by (auto simp: feed_target_def Let_def messageType_def)
  next
    case complete: False
    from expectedMessageSize_append [OF _ complete, of "drop k (enc m)"] False len assms(3)
    have "expectedMessageSize (fr_buffer f) = Inr (length (enc m))"
      using enc_size [OF assms(1)] by simp
    with tcode len assms(2,4) bound show ?thesis
      by (auto simp: feed_target_def Let_def)
  qed
qed

lemma feed_loop_delivers:
  assumes "valid m" and "mtype = fr_expected f \<or> mtype = fr_alternate f"
    and "fr_buffer f = take k (enc m)" and "k \<le> length (enc m)"
  shows "feed_loop f (drop k (enc m) @ rest) c =
    (f\<lparr>fr_buffer := enc m, fr_status := Ok\<rparr>, c + (length (enc m) - k))"
  using assms(2-4)
proof (induction "length (enc m) - k" arbitrary: f k c rule: less_induct)
  case less
  show ?case
  proof (cases "k = length (enc m)")
    case True
    with target_prefix [OF assms(1) less.prems] less.prems(2) show ?thesis by simp
  next
    case False
    with target_prefix [OF assms(1) less.prems] obtain t where
      t: "feed_target f = Inr t" "k < t" "t \<le> length (enc m)" by auto
    have lenb: "length (fr_buffer f) = k" using less.prems by simp
    let ?g = "f\<lparr>fr_buffer := take t (enc m)\<rparr>"
    have ne: "drop k (enc m) @ rest \<noteq> []" using False less.prems by simp
    have m: "min (t - k) (length (enc m) - k + length rest) = t - k" using t by simp
    have app: "take k (enc m) @ take (t - k) (drop k (enc m)) = take t (enc m)"
      using t by (metis le_add_diff_inverse less_imp_le take_add)
    have "feed_loop f (drop k (enc m) @ rest) c = feed_loop ?g (drop t (enc m) @ rest) (c + (t - k))"
      using t less.prems by (simp add: feed_loop_Inr [OF t(1) ne] Let_def lenb m app)
    also have "\<dots> = (?g\<lparr>fr_buffer := enc m, fr_status := Ok\<rparr>, c + (t - k) + (length (enc m) - t))"
      by (rule less.hyps) (use t less.prems in auto)
    finally show ?thesis using t by simp
  qed
qed

lemma feed_delivers:
  assumes "valid m" and "mtype = fr_expected f \<or> mtype = fr_alternate f"
    and "fr_buffer f = []" and "fr_status f = NeedMoreData"
  shows "feed f (enc m @ rest) = (f\<lparr>fr_buffer := enc m, fr_status := Ok\<rparr>, length (enc m))"
  using feed_loop_delivers [OF assms(1,2), of 0 rest 0] assms(3,4) by (simp add: feed_def)

lemma feed_all_delivers:
  assumes "valid m" and "mtype = fr_expected f \<or> mtype = fr_alternate f"
    and "fr_buffer f = []" and "fr_status f = NeedMoreData" and "concat cs = enc m @ rest"
  shows "feed_all f cs = (f\<lparr>fr_buffer := enc m, fr_status := Ok\<rparr>, length (enc m))"
proof -
  have "cs \<noteq> []"
    using assms(5) enc_fields(4) [of m] by (auto simp: protocol_sizes)
  then show ?thesis
    using feed_delivers [OF assms(1-4), of rest] assms(5) by (simp add: feed_all_concat)
qed

text \<open>Part of a message.\<close>

lemma feed_loop_partial:
  assumes "valid m" and "mtype = fr_expected f \<or> mtype = fr_alternate f"
    and "fr_buffer f = take k (enc m)" and "k + length c < length (enc m)" and "c = take (length c) (drop k (enc m))"
  shows "feed_loop f c n = (f\<lparr>fr_buffer := take (k + length c) (enc m)\<rparr>, n + length c)"
  using assms(2-)
proof (induction "length c" arbitrary: f k c n rule: less_induct)
  case less
  have k: "k \<le> length (enc m)" "k \<noteq> length (enc m)" using less.prems by simp_all
  from target_prefix [OF assms(1) less.prems(1,2) k(1)] k(2) obtain t where
    t: "feed_target f = Inr t" "k < t" "t \<le> length (enc m)" by auto
  have len: "length (fr_buffer f) = k" using less.prems(2,3) by simp
  show ?case
  proof (cases "c = []")
    case True
    then show ?thesis using feed_loop_Nil [OF t(1)] less.prems(2) by (cases f) simp
  next
    case False
    define j where "j = min (t - k) (length c)"
    have jj: "min (t - length (fr_buffer f)) (length c) = j" by (simp only: len j_def)
    have j: "0 < j" "j \<le> length c" using t False by (auto simp: j_def)
    let ?g = "f\<lparr>fr_buffer := take (k + j) (enc m)\<rparr>"
    have tk: "take j c = take j (drop k (enc m))" using less.prems(4) j(2) by (metis min.absorb1 take_take)
    have dr: "drop j c = take (length (drop j c)) (drop (k + j) (enc m))"
      using less.prems(4) j(2) by (metis add.commute drop_drop drop_take length_drop)
    have "feed_loop f c n = feed_loop ?g (drop j c) (n + j)"
      unfolding feed_loop_Inr [OF t(1) False] Let_def jj by (simp only: less.prems(2) tk take_add)
    also have "\<dots> = (?g\<lparr>fr_buffer := take (k + j + length (drop j c)) (enc m)\<rparr>, n + j + length (drop j c))"
      by (rule less.hyps) (use less.prems j dr in auto)
    finally show ?thesis using j by simp
  qed
qed

text \<open>Feeding the next bytes of a stream that continues with the message.\<close>

lemma feed_next:
  assumes "valid m" and "mtype = fr_expected f \<or> mtype = fr_alternate f" and "fr_status f = NeedMoreData"
    and "fr_buffer f = take k (enc m)" and "k < length (enc m)" and "c = take (length c) (drop k (enc m) @ tl_bytes)"
  shows "feed f c =
    (if k + length c < length (enc m) then (f\<lparr>fr_buffer := take (k + length c) (enc m)\<rparr>, length c)
     else (f\<lparr>fr_buffer := enc m, fr_status := Ok\<rparr>, length (enc m) - k))"
proof (cases "k + length c < length (enc m)")
  case True
  then have "c = take (length c) (drop k (enc m))" using assms(6) by simp
  from feed_loop_partial [OF assms(1,2,4) True this, of 0] assms(3) True show ?thesis by (simp add: feed_def)
next
  case False
  then have "c = drop k (enc m) @ take (length c - (length (enc m) - k)) tl_bytes" using assms(6) by simp
  from feed_loop_delivers [OF assms(1,2,4), of "take (length c - (length (enc m) - k)) tl_bytes" 0] this assms(3,5) False
  show ?thesis by (simp add: feed_def)
qed

end

section \<open>Properties\<close>

text \<open>
  C29. However TCP cuts the stream, the server's WAIT_HEADER framer hands over exactly the message
  that was sent: after any chunks whose bytes are an upload header (or a result request) followed by
  anything, the framer is complete, holds that message, and has left every later byte unconsumed.
\<close>

theorem framer_reassembles:
  assumes "validUploadHeader h" and "validResultRequest r"
    and "concat cs = encodeUploadHeader h @ rest" and "concat ds = encodeResultRequest r @ rest"
  shows "(let (f, n) = feed_all (newFramer UploadHeaderMsg ResultRequestMsg) cs in
           fr_status f = Ok \<and> decodeUploadHeader (message f) = Inr h \<and>
           messageType f = Some UploadHeaderMsg \<and> drop n (concat cs) = rest) \<and>
         (let (f, n) = feed_all (newFramer UploadHeaderMsg ResultRequestMsg) ds in
           fr_status f = Ok \<and> decodeResultRequest (message f) = Inr r \<and>
           messageType f = Some ResultRequestMsg \<and> drop n (concat ds) = rest)"
  using uploadHeader.feed_all_delivers [OF assms(1) _ _ _ assms(3), of "newFramer UploadHeaderMsg ResultRequestMsg"]
    uploadHeader.dec_enc [OF assms(1), of "[]"] uploadHeader.enc_fields [of h]
    resultRequest.feed_all_delivers [OF assms(2) _ _ _ assms(4), of "newFramer UploadHeaderMsg ResultRequestMsg"]
    resultRequest.dec_enc [OF assms(2), of "[]"] resultRequest.enc_fields [of r] assms(3,4)
  by (simp add: newFramer_def message_def messageType_def type_of_code_def)

theorem framer_reassembles_witness:
  "let h = \<lparr>uh_fileSize = 3, uh_filename = ''f''\<rparr>;
       e = encodeUploadHeader h; (f, n) = feed_all (newFramer UploadHeaderMsg ResultRequestMsg)
         [take 5 e, drop 5 e @ ''abc''] in
   validUploadHeader h \<and> decodeUploadHeader (message f) = Inr h \<and> fr_status f = Ok"
proof -
  let ?h = "\<lparr>uh_fileSize = 3, uh_filename = ''f''\<rparr>"
  let ?r = "\<lparr>rr_fileSize = 3, rr_crc32 = 0, rr_startOffset = 0, rr_filename = ''f''\<rparr>"
  have v: "validUploadHeader ?h" "validResultRequest ?r"
    by (simp_all add: validUploadHeader_def validResultRequest_def isValidFilename_def
        kMaxFilenameLen_def kMaxFileSize_def kMaxCsvSize_def u8_of_def word_le_nat_alt)
  have c: "concat [take 5 (encodeUploadHeader ?h), drop 5 (encodeUploadHeader ?h) @ ''abc''] =
      encodeUploadHeader ?h @ ''abc''"
    by simp
  have d: "concat [encodeResultRequest ?r @ ''abc''] = encodeResultRequest ?r @ ''abc''"
    by simp
  show ?thesis
    using framer_reassembles [OF v c d] v(1) unfolding Let_def by (simp only: split_beta simp_thms)
qed

text \<open>
  The accumulation buffer of a framer never outgrows 285 bytes whatever is fed to it, and the
  only input it rejects as out of range is one whose length prefix announces a larger message: the
  guard against a loop that makes no progress is never what fires.
\<close>

theorem framer_bounded:
  assumes "framer_reachable f"
  shows "length (fr_buffer f) \<le> 285 \<and>
    (fr_status f = NeedMoreData \<and> fr_status (fst (feed f data)) = BadValue \<longrightarrow>
     (\<exists>tot. expectedMessageSize (fr_buffer (fst (feed f data))) = Inr tot \<and> 285 < tot))"
  using framer_reachable_inv [OF assms] framer_BadValue_oversize [OF assms, of data "fst (feed f data)"
    "snd (feed f data)"]
  by (auto simp: framer_inv_def kFramerBufferSize_def protocol_sizes)

theorem framer_bounded_witness:
  "framer_reachable (newFramer UploadTrailerMsg UploadTrailerMsg) \<and>
   length (fr_buffer (newFramer UploadTrailerMsg UploadTrailerMsg)) \<le> 285"
  using framer_bounded [OF framer_reachable.new, of UploadTrailerMsg UploadTrailerMsg "[]"]
  by (simp add: framer_reachable.new)

end
