(* ===== verification/RingBuffer.thy ===== *)
theory RingBuffer
  imports Prelude
begin

text \<open>
  The bounded single-producer single-consumer ring of \<^verbatim>\<open>common/util/SpscRingBuffer\<close>: flat slot
  storage, committed sizes and two monotone 64-bit indices, with the slot of an index computed as
  \<^verbatim>\<open>index % slotCount\<close>.  The locale \<open>bounded_queue\<close> states the contract of the class comment
  (FIFO, bounded, ownership moves one way) and proves once what any interleaving of a producer and
  a consumer observes; the ring is its interpretation.  The finer step relation \<open>spsc_step\<close> separates
  acquire, the write through the raw pointer, and commit, and interleaves the consumer between them.
  Steps are interleaved atomically, that is under sequential consistency: the acquire/release orders
  of the atomics are what makes that view legitimate and are not modelled themselves.
\<close>

section \<open>Configuration\<close>

definition kDefaultSlotCount :: nat where
  "kDefaultSlotCount = 64"

definition kDefaultSlotSize :: nat where
  "kDefaultSlotSize = 64 * 1024"

definition kRingBudgetBytes :: nat where
  "kRingBudgetBytes = 4 * 1024 * 1024"

definition kMinSlotCount :: nat where
  "kMinSlotCount = 4"

lemmas ring_sizes = kDefaultSlotCount_def kDefaultSlotSize_def kRingBudgetBytes_def kMinSlotCount_def

definition ringSlotCountFor :: "nat \<Rightarrow> nat" where
  "ringSlotCountFor slotSize =
    (if slotSize = 0 then kDefaultSlotCount
     else let withinBudget = kRingBudgetBytes div slotSize in
       if withinBudget < kMinSlotCount then kMinSlotCount
       else if withinBudget < kDefaultSlotCount then withinBudget else kDefaultSlotCount)"

section \<open>The ring\<close>

record SpscRingBuffer =
  rb_slotCount :: nat
  rb_slotSize :: nat
  rb_storage :: string
  rb_sizes :: "nat list"
  rb_head :: u64
  rb_tail :: u64

definition newRing :: "nat \<Rightarrow> nat \<Rightarrow> SpscRingBuffer" where
  "newRing slotCount slotSize =
    \<lparr>rb_slotCount = slotCount, rb_slotSize = slotSize,
     rb_storage = replicate (slotCount * slotSize) (CHR 0x00),
     rb_sizes = replicate slotCount 0, rb_head = 0, rb_tail = 0\<rparr>"

definition ring_full :: "SpscRingBuffer \<Rightarrow> bool" where
  "ring_full rb \<longleftrightarrow> rb_tail rb - rb_head rb = of_nat (rb_slotCount rb)"

definition ring_empty :: "SpscRingBuffer \<Rightarrow> bool" where
  "ring_empty rb \<longleftrightarrow> rb_tail rb = rb_head rb"

text \<open>The slot handed out is the pair of the offset of \<^verbatim>\<open>out.data\<close> in the storage and the capacity.\<close>

definition tryAcquire :: "SpscRingBuffer \<Rightarrow> (nat \<times> nat) option" where
  "tryAcquire rb =
    (if rb_tail rb - rb_head rb = of_nat (rb_slotCount rb) then None
     else Some ((unat (rb_tail rb) mod rb_slotCount rb) * rb_slotSize rb, rb_slotSize rb))"

definition commit :: "nat \<Rightarrow> SpscRingBuffer \<Rightarrow> SpscRingBuffer" where
  "commit sz rb = rb
    \<lparr>rb_sizes := (rb_sizes rb)[unat (rb_tail rb) mod rb_slotCount rb := sz],
     rb_tail := rb_tail rb + 1\<rparr>"

definition tryPeek :: "SpscRingBuffer \<Rightarrow> string option" where
  "tryPeek rb =
    (if rb_tail rb = rb_head rb then None
     else Some (take (rb_sizes rb ! (unat (rb_head rb) mod rb_slotCount rb))
       (drop ((unat (rb_head rb) mod rb_slotCount rb) * rb_slotSize rb) (rb_storage rb))))"

definition release :: "SpscRingBuffer \<Rightarrow> SpscRingBuffer" where
  "release rb = rb\<lparr>rb_head := rb_head rb + 1\<rparr>"

text \<open>A store of bytes through the raw pointer of an acquired slot.\<close>

definition writeAt :: "nat \<Rightarrow> string \<Rightarrow> SpscRingBuffer \<Rightarrow> SpscRingBuffer" where
  "writeAt off bs rb =
    rb\<lparr>rb_storage := take off (rb_storage rb) @ bs @ drop (off + length bs) (rb_storage rb)\<rparr>"

text \<open>The producer's whole round: acquire, fill, commit the number of bytes written.\<close>

definition produce :: "string \<Rightarrow> SpscRingBuffer \<Rightarrow> SpscRingBuffer" where
  "produce bs rb = (case tryAcquire rb of None \<Rightarrow> rb
     | Some (off, cap) \<Rightarrow> commit (length bs) (writeAt off bs rb))"

section \<open>Abstraction to a list of chunks\<close>

definition slot_bytes :: "SpscRingBuffer \<Rightarrow> nat \<Rightarrow> string" where
  "slot_bytes rb i = take (rb_sizes rb ! i) (drop (i * rb_slotSize rb) (rb_storage rb))"

definition ring_count :: "SpscRingBuffer \<Rightarrow> nat" where
  "ring_count rb = unat (rb_tail rb - rb_head rb)"

definition ring_contents :: "SpscRingBuffer \<Rightarrow> string list" where
  "ring_contents rb =
    map (\<lambda>k. slot_bytes rb ((unat (rb_head rb) + k) mod rb_slotCount rb)) [0..<ring_count rb]"

text \<open>
  The indices wrap at \<open>2 ^ 64\<close>.  When the slot count divides it the wrap is harmless; for the other
  slot counts the ring is right as long as the tail has not wrapped past the head.
\<close>

definition ring_inv :: "SpscRingBuffer \<Rightarrow> bool" where
  "ring_inv rb \<longleftrightarrow>
    0 < rb_slotCount rb \<and> rb_slotCount rb < 2 ^ 64 \<and>
    length (rb_storage rb) = rb_slotCount rb * rb_slotSize rb \<and>
    length (rb_sizes rb) = rb_slotCount rb \<and>
    (\<forall>s \<in> set (rb_sizes rb). s \<le> rb_slotSize rb) \<and>
    ring_count rb \<le> rb_slotCount rb \<and>
    (rb_slotCount rb dvd 2 ^ 64 \<or> unat (rb_head rb) \<le> unat (rb_tail rb))"

text \<open>One more commit keeps the indices usable.\<close>

definition commit_ok :: "SpscRingBuffer \<Rightarrow> bool" where
  "commit_ok rb \<longleftrightarrow> rb_slotCount rb dvd 2 ^ 64 \<or> unat (rb_tail rb) + 1 < 2 ^ 64"

section \<open>Index arithmetic\<close>

lemma of_nat_unat_u64: "of_nat (unat w) = (w :: u64)"
  by simp

lemma unat_Suc_mod:
  fixes w :: u64
  assumes "n dvd 2 ^ 64 \<or> unat w + 1 < 2 ^ 64"
  shows "unat (w + 1) mod n = (unat w + 1) mod n"
proof -
  have w: "unat (w + 1) = (unat w + 1) mod 2 ^ 64"
    by (simp add: unat_word_ariths)
  show ?thesis
  proof (cases "unat w + 1 < 2 ^ 64")
    case True
    with w show ?thesis by simp
  next
    case False
    with assms have "n dvd 2 ^ 64" by blast
    then show ?thesis unfolding w by (rule mod_mod_cancel)
  qed
qed

lemma tail_index:
  assumes "ring_inv rb"
  shows "unat (rb_tail rb) mod rb_slotCount rb =
    (unat (rb_head rb) + ring_count rb) mod rb_slotCount rb"
proof -
  have "rb_tail rb = rb_head rb + (rb_tail rb - rb_head rb)" by simp
  then have w: "unat (rb_tail rb) = (unat (rb_head rb) + ring_count rb) mod 2 ^ 64"
    unfolding ring_count_def using unat_word_ariths(1) [of "rb_head rb" "rb_tail rb - rb_head rb"] by simp
  show ?thesis
  proof (cases "rb_slotCount rb dvd 2 ^ 64")
    case True
    then show ?thesis unfolding w by (rule mod_mod_cancel)
  next
    case False
    with assms have "unat (rb_head rb) \<le> unat (rb_tail rb)" by (simp add: ring_inv_def)
    then have "unat (rb_tail rb - rb_head rb) = unat (rb_tail rb) - unat (rb_head rb)"
      by (simp add: unat_sub word_le_nat_alt)
    with \<open>unat (rb_head rb) \<le> unat (rb_tail rb)\<close> show ?thesis by (simp add: ring_count_def)
  qed
qed

lemma ring_count_commit:
  assumes "ring_inv rb" and "\<not> ring_full rb"
  shows "ring_count (commit n rb) = Suc (ring_count rb)"
proof -
  let ?d = "rb_tail rb - rb_head rb"
  have "unat ?d \<noteq> rb_slotCount rb"
    using assms(2) unfolding ring_full_def by (metis of_nat_unat_u64)
  with assms(1) have "unat ?d < rb_slotCount rb" "rb_slotCount rb < 2 ^ 64"
    by (simp_all add: ring_inv_def ring_count_def)
  then have lt: "unat ?d + 1 < 2 ^ 64" by linarith
  have "unat (?d + 1) = (unat ?d + 1) mod 2 ^ 64" by (simp add: unat_word_ariths)
  also have "\<dots> = unat ?d + 1" using lt by (rule mod_less)
  finally have "unat (?d + 1) = unat ?d + 1" .
  then show ?thesis unfolding ring_count_def commit_def by (simp add: algebra_simps)
qed

lemma ring_full_iff:
  assumes "ring_inv rb"
  shows "ring_full rb \<longleftrightarrow> ring_count rb = rb_slotCount rb"
proof
  assume "ring_full rb"
  then show "ring_count rb = rb_slotCount rb"
    using assms by (simp add: ring_full_def ring_count_def ring_inv_def unat_of_nat)
next
  assume "ring_count rb = rb_slotCount rb"
  then show "ring_full rb"
    unfolding ring_full_def ring_count_def by (metis of_nat_unat_u64)
qed

lemma ring_count_release:
  assumes "ring_count rb \<noteq> 0"
  shows "ring_count (release rb) = ring_count rb - 1"
proof -
  let ?d = "rb_tail rb - rb_head rb"
  have eq: "rb_tail rb - (rb_head rb + 1) = ?d - 1" by simp
  have "unat (?d - 1) = unat ?d - 1"
    using assms by (intro unat_minus_one) (auto simp: ring_count_def)
  then show ?thesis unfolding ring_count_def release_def by (simp add: eq del: diff_add_eq_diff_diff_swap)
qed

lemma head_Suc_mod:
  assumes "ring_inv rb" and "ring_count rb \<noteq> 0"
  shows "unat (rb_head rb + 1) mod rb_slotCount rb = (unat (rb_head rb) + 1) mod rb_slotCount rb"
    and "rb_slotCount rb dvd 2 ^ 64 \<or> unat (rb_head rb + 1) \<le> unat (rb_tail rb)"
proof -
  have ne: "rb_head rb \<noteq> rb_tail rb" using assms(2) by (auto simp: ring_count_def)
  have lt: "unat (rb_head rb) < unat (rb_tail rb)" if "\<not> rb_slotCount rb dvd 2 ^ 64"
    using that assms(1) ne by (metis ring_inv_def order_le_less of_nat_unat_u64)
  have b: "unat (rb_tail rb) < 2 ^ 64" using unsigned_less [of "rb_tail rb", where 'a = nat] by simp
  have ok: "rb_slotCount rb dvd 2 ^ 64 \<or> unat (rb_head rb) + 1 < 2 ^ 64"
    using lt b by linarith
  then show "unat (rb_head rb + 1) mod rb_slotCount rb = (unat (rb_head rb) + 1) mod rb_slotCount rb"
    by (rule unat_Suc_mod)
  show "rb_slotCount rb dvd 2 ^ 64 \<or> unat (rb_head rb + 1) \<le> unat (rb_tail rb)"
  proof (cases "rb_slotCount rb dvd 2 ^ 64")
    case False
    then have "unat (rb_head rb) + 1 < 2 ^ 64" using ok by blast
    then have "unat (rb_head rb + 1) = unat (rb_head rb) + 1"
      by (simp add: unat_word_ariths)
    with lt [OF False] show ?thesis by simp
  qed simp
qed

lemma mod_add_inj:
  fixes a n :: nat
  assumes "(a + i) mod n = (a + j) mod n" and "i < n" and "j < n"
  shows "i = j"
proof -
  have "(int a + int i) mod int n = (int a + int j) mod int n"
    using assms(1) by (metis of_nat_add zmod_int)
  then have "int i mod int n = int j mod int n"
    by (metis add.commute mod_add_cong add_diff_cancel_left' mod_diff_left_eq mod_diff_eq)
  with assms(2,3) show ?thesis by simp
qed

section \<open>Operations on the abstraction\<close>

lemma ring_inv_new:
  assumes "0 < n" and "n < 2 ^ 64"
  shows "ring_inv (newRing n s)" and "ring_contents (newRing n s) = []"
  using assms by (simp_all add: ring_inv_def newRing_def ring_count_def ring_contents_def)

lemma slot_disjoint:
  fixes i j S sz pos len :: nat
  assumes "i \<noteq> j" and "sz \<le> S" and "pos + len \<le> S"
  shows "i * S + sz \<le> j * S + pos \<or> j * S + pos + len \<le> i * S"
proof (cases "i < j")
  case True
  then have "Suc i * S \<le> j * S" by (intro mult_le_mono1) simp
  with assms show ?thesis by simp
next
  case False
  with assms(1) have "Suc j * S \<le> i * S" by (intro mult_le_mono1) simp
  with assms show ?thesis by simp
qed

lemma take_drop_overwrite:
  assumes "a + sz \<le> off \<or> off + length bs \<le> a" and "off + length bs \<le> length st"
  shows "take sz (drop a (take off st @ bs @ drop (off + length bs) st)) = take sz (drop a st)"
    (is "take sz (drop a ?new) = _")
proof (rule nth_equalityI)
  have len: "length ?new = length st" using assms(2) by simp
  then show "length (take sz (drop a ?new)) = length (take sz (drop a st))"
    unfolding length_take length_drop by (simp only:)
  fix i assume "i < length (take sz (drop a ?new))"
  then have i: "i < sz" "a + i < length st"
    unfolding length_take length_drop len by auto
  have "?new ! (a + i) = st ! (a + i)"
  proof (cases "a + sz \<le> off")
    case True
    with i assms(2) show ?thesis by (simp add: nth_append)
  next
    case False
    with assms(1) have le: "off + length bs \<le> a + i" by simp
    then have "\<not> a + i - off < length bs" "\<not> a + i < off" by linarith+
    with le i assms(2) show ?thesis by (simp add: nth_append)
  qed
  with i len show "take sz (drop a ?new) ! i = take sz (drop a st) ! i"
    by (metis add_leD1 less_imp_le nth_drop nth_take)
qed

lemma slot_bytes_writeAt:
  assumes "ring_inv rb" and "i < rb_slotCount rb" and "j < rb_slotCount rb" and "i \<noteq> j"
    and "pos + length bs \<le> rb_slotSize rb"
  shows "slot_bytes (writeAt (j * rb_slotSize rb + pos) bs rb) i = slot_bytes rb i"
proof -
  let ?S = "rb_slotSize rb"
  have sz: "rb_sizes rb ! i \<le> ?S"
    using assms(1,2) by (simp add: ring_inv_def)
  have "Suc j * ?S \<le> rb_slotCount rb * ?S"
    using assms(3) by (intro mult_le_mono1) simp
  then have "j * ?S + pos + length bs \<le> length (rb_storage rb)"
    using assms(1,5) by (simp add: ring_inv_def)
  from take_drop_overwrite [OF slot_disjoint [OF assms(4) sz assms(5)] this] show ?thesis
    by (simp add: slot_bytes_def writeAt_def del: take_append drop_append take_drop drop_drop)
qed

lemma writeAt_frame [simp]:
  "rb_slotCount (writeAt off bs rb) = rb_slotCount rb"
  "rb_slotSize (writeAt off bs rb) = rb_slotSize rb"
  "rb_sizes (writeAt off bs rb) = rb_sizes rb"
  "rb_head (writeAt off bs rb) = rb_head rb"
  "rb_tail (writeAt off bs rb) = rb_tail rb"
  "ring_count (writeAt off bs rb) = ring_count rb"
  "ring_full (writeAt off bs rb) = ring_full rb"
  "commit_ok (writeAt off bs rb) = commit_ok rb"
  by (simp_all add: writeAt_def ring_count_def ring_full_def commit_ok_def)

text \<open>The offset of the acquired slot is that of the first free slot.\<close>

lemma tryAcquire_Some:
  assumes "tryAcquire rb = Some (off, cap)"
  shows "\<not> ring_full rb" and "off = (unat (rb_tail rb) mod rb_slotCount rb) * rb_slotSize rb"
    and "cap = rb_slotSize rb"
  using assms by (auto simp: tryAcquire_def ring_full_def split: if_splits)

lemma acquired_room:
  assumes "ring_inv rb" and "tryAcquire rb = Some (off, cap)" and "pos + length bs \<le> cap"
  shows "off + pos + length bs \<le> length (rb_storage rb)"
proof -
  let ?i = "unat (rb_tail rb) mod rb_slotCount rb"
  have "?i < rb_slotCount rb" using assms(1) by (simp add: ring_inv_def)
  then have "Suc ?i * rb_slotSize rb \<le> rb_slotCount rb * rb_slotSize rb"
    by (intro mult_le_mono1) simp
  with assms show ?thesis
    by (simp add: tryAcquire_Some(2,3) [OF assms(2)] ring_inv_def)
qed

lemma tail_slot_free:
  assumes "ring_inv rb" and "\<not> ring_full rb" and "k < ring_count rb"
  shows "(unat (rb_head rb) + k) mod rb_slotCount rb \<noteq> unat (rb_tail rb) mod rb_slotCount rb"
proof
  assume eq: "(unat (rb_head rb) + k) mod rb_slotCount rb = unat (rb_tail rb) mod rb_slotCount rb"
  have lt: "ring_count rb < rb_slotCount rb"
    using assms(1,2) by (auto simp: ring_full_iff ring_inv_def)
  have "k = ring_count rb"
    using mod_add_inj [OF eq [unfolded tail_index [OF assms(1)]]] assms(3) lt by simp
  with assms(3) show False by simp
qed

lemma ring_inv_writeAt:
  assumes "ring_inv rb" and "tryAcquire rb = Some (off, cap)" and "pos + length bs \<le> cap"
  shows "ring_inv (writeAt (off + pos) bs rb)"
proof -
  have "length (rb_storage (writeAt (off + pos) bs rb)) = length (rb_storage rb)"
    using acquired_room [OF assms] by (simp add: writeAt_def)
  with assms(1) show ?thesis by (simp add: ring_inv_def)
qed

lemma ring_contents_writeAt:
  assumes "ring_inv rb" and "tryAcquire rb = Some (off, cap)" and "pos + length bs \<le> cap"
  shows "ring_contents (writeAt (off + pos) bs rb) = ring_contents rb"
  using assms(1,3) tryAcquire_Some [OF assms(2)] tail_slot_free [OF assms(1)]
  by (auto simp: ring_contents_def ring_inv_def slot_bytes_writeAt [OF assms(1)])

lemma ring_inv_commit:
  assumes "ring_inv rb" and "\<not> ring_full rb" and "commit_ok rb" and "n \<le> rb_slotSize rb"
  shows "ring_inv (commit n rb)"
proof -
  have lt: "ring_count rb < rb_slotCount rb"
    using assms(1,2) by (auto simp: ring_full_iff ring_inv_def)
  have up: "rb_slotCount rb dvd 2 ^ 64 \<or> unat (rb_head rb) \<le> unat (rb_tail rb + 1)"
  proof (cases "rb_slotCount rb dvd 2 ^ 64")
    case False
    then have "unat (rb_tail rb) + 1 < 2 ^ 64" "unat (rb_head rb) \<le> unat (rb_tail rb)"
      using assms(1,3) by (auto simp: commit_ok_def ring_inv_def)
    then show ?thesis by (simp add: unat_word_ariths)
  qed simp
  have "\<forall>s \<in> set (rb_sizes (commit n rb)). s \<le> rb_slotSize rb"
    using assms(1,4) set_update_subset_insert [of "rb_sizes rb" _ n]
    by (fastforce simp: commit_def ring_inv_def)
  with lt up assms(1) ring_count_commit [OF assms(1,2), of n] show ?thesis
    by (simp add: ring_inv_def commit_def)
qed

lemma ring_contents_commit:
  assumes "ring_inv rb" and "\<not> ring_full rb" and "n \<le> rb_slotSize rb"
  shows "ring_contents (commit n rb) = ring_contents rb @
    [take n (drop ((unat (rb_tail rb) mod rb_slotCount rb) * rb_slotSize rb) (rb_storage rb))]"
proof -
  let ?i = "unat (rb_tail rb) mod rb_slotCount rb"
  have i: "?i < length (rb_sizes rb)" using assms(1) by (simp add: ring_inv_def)
  have old: "slot_bytes (commit n rb) ((unat (rb_head rb) + k) mod rb_slotCount rb) =
      slot_bytes rb ((unat (rb_head rb) + k) mod rb_slotCount rb)" if "k < ring_count rb" for k
    using tail_slot_free [OF assms(1,2) that] by (simp add: slot_bytes_def commit_def)
  have new: "slot_bytes (commit n rb) ((unat (rb_head rb) + ring_count rb) mod rb_slotCount rb) =
      take n (drop (?i * rb_slotSize rb) (rb_storage rb))"
    unfolding tail_index [OF assms(1), symmetric] using i by (simp add: slot_bytes_def commit_def)
  have "ring_contents (commit n rb) =
      map (\<lambda>k. slot_bytes (commit n rb) ((unat (rb_head rb) + k) mod rb_slotCount rb))
        [0..<Suc (ring_count rb)]"
    unfolding ring_contents_def ring_count_commit [OF assms(1,2)] by (simp add: commit_def)
  then show ?thesis using old new by (simp add: ring_contents_def)
qed

lemma ring_contents_Cons:
  assumes "ring_count rb \<noteq> 0"
  shows "ring_contents rb = slot_bytes rb (unat (rb_head rb) mod rb_slotCount rb) #
    map (\<lambda>k. slot_bytes rb ((unat (rb_head rb) + Suc k) mod rb_slotCount rb)) [0..<ring_count rb - 1]"
proof -
  obtain m where "ring_count rb = Suc m" using assms by (cases "ring_count rb") auto
  then show ?thesis
    by (simp add: ring_contents_def upt_conv_Cons map_Suc_upt [symmetric] del: upt_Suc map_Suc_upt)
qed

lemma length_ring_contents [simp]: "length (ring_contents rb) = ring_count rb"
  by (simp add: ring_contents_def)

lemma ring_count_0 [simp]: "ring_count rb = 0 \<longleftrightarrow> rb_tail rb = rb_head rb"
  by (auto simp: ring_count_def unat_eq_zero)

lemma tryPeek_contents:
  "tryPeek rb = (case ring_contents rb of [] \<Rightarrow> None | b # _ \<Rightarrow> Some b)"
proof (cases "ring_count rb = 0")
  case True
  then show ?thesis by (simp add: tryPeek_def ring_contents_def)
next
  case False
  then show ?thesis by (simp add: ring_contents_Cons [OF False] tryPeek_def slot_bytes_def)
qed

lemma ring_inv_release:
  assumes "ring_inv rb" and "ring_contents rb \<noteq> []"
  shows "ring_inv (release rb)"
proof -
  have c: "ring_count rb \<noteq> 0" using assms(2) by (metis length_ring_contents length_0_conv)
  show ?thesis
    using assms(1) ring_count_release [OF c] head_Suc_mod(2) [OF assms(1) c]
    by (auto simp: ring_inv_def release_def)
qed

lemma ring_contents_release:
  assumes "ring_inv rb" and "ring_contents rb \<noteq> []"
  shows "ring_contents (release rb) = tl (ring_contents rb)"
proof -
  have c: "ring_count rb \<noteq> 0" using assms(2) by (metis length_ring_contents length_0_conv)
  have idx: "(unat (rb_head rb + 1) + k) mod rb_slotCount rb =
      (unat (rb_head rb) + Suc k) mod rb_slotCount rb" for k
    using head_Suc_mod(1) [OF assms(1) c] by (metis add_Suc_shift add.commute mod_add_right_eq plus_1_eq_Suc)
  show ?thesis
    unfolding ring_contents_Cons [OF c] ring_contents_def [of "release rb"] ring_count_release [OF c]
    by (simp add: release_def slot_bytes_def idx)
qed

section \<open>The contract of a bounded FIFO queue\<close>

datatype 'a qop = Put 'a | Get

locale bounded_queue =
  fixes inv :: "'q \<Rightarrow> bool"
    and contents :: "'q \<Rightarrow> 'a list"
    and capacity :: "'q \<Rightarrow> nat"
    and fits :: "'a \<Rightarrow> 'q \<Rightarrow> bool"
    and is_full :: "'q \<Rightarrow> bool"
    and put :: "'a \<Rightarrow> 'q \<Rightarrow> 'q"
    and front :: "'q \<Rightarrow> 'a option"
    and pop :: "'q \<Rightarrow> 'q"
  assumes bound: "inv q \<Longrightarrow> length (contents q) \<le> capacity q"
    and full_iff: "inv q \<Longrightarrow> is_full q \<longleftrightarrow> length (contents q) = capacity q"
    and put_full: "inv q \<Longrightarrow> is_full q \<Longrightarrow> put x q = q"
    and put_contents: "inv q \<Longrightarrow> fits x q \<Longrightarrow> \<not> is_full q \<Longrightarrow> contents (put x q) = contents q @ [x]"
    and put_inv: "inv q \<Longrightarrow> fits x q \<Longrightarrow> \<not> is_full q \<Longrightarrow> inv (put x q)"
    and front_contents: "inv q \<Longrightarrow> front q = (case contents q of [] \<Rightarrow> None | x # _ \<Rightarrow> Some x)"
    and pop_contents: "inv q \<Longrightarrow> contents q \<noteq> [] \<Longrightarrow> contents (pop q) = tl (contents q)"
    and pop_inv: "inv q \<Longrightarrow> contents q \<noteq> [] \<Longrightarrow> inv (pop q)"
begin

text \<open>
  One operation of the producer or of the consumer: the producer puts unless the queue is full, the
  consumer looks at the front and releases it; what was taken in and handed out is recorded.
\<close>

fun qstep :: "'q \<times> 'a list \<times> 'a list \<Rightarrow> 'a qop \<Rightarrow> 'q \<times> 'a list \<times> 'a list" where
  "qstep (q, sent, got) (Put x) = (if is_full q then (q, sent, got) else (put x q, sent @ [x], got))"
| "qstep (q, sent, got) Get = (case front q of None \<Rightarrow> (q, sent, got) | Some x \<Rightarrow> (pop q, sent, got @ [x]))"

fun all_fit :: "'q \<times> 'a list \<times> 'a list \<Rightarrow> 'a qop list \<Rightarrow> bool" where
  "all_fit s [] = True"
| "all_fit s (p # ps) =
    ((case p of Put x \<Rightarrow> fits x (fst s) | Get \<Rightarrow> True) \<and> all_fit (qstep s p) ps)"

lemma qstep_fifo:
  assumes "inv q" and "got @ contents q = sent"
    and "case p of Put x \<Rightarrow> fits x q | Get \<Rightarrow> True" and "qstep (q, sent, got) p = (q', sent', got')"
  shows "inv q' \<and> got' @ contents q' = sent'"
proof (cases p)
  case (Put x)
  with assms show ?thesis by (auto simp: put_contents put_inv split: if_splits)
next
  case Get
  then show ?thesis
    using assms by (cases "contents q") (auto simp: front_contents pop_contents pop_inv)
qed

lemma run_fifo:
  assumes "inv q" and "got @ contents q = sent" and "all_fit (q, sent, got) ps"
    and "foldl qstep (q, sent, got) ps = (q', sent', got')"
  shows "inv q' \<and> got' @ contents q' = sent' \<and> length (contents q') \<le> capacity q'"
  using assms
proof (induction ps arbitrary: q sent got)
  case Nil
  then show ?case using bound by auto
next
  case (Cons p ps)
  obtain q1 s1 g1 where st: "qstep (q, sent, got) p = (q1, s1, g1)" by (metis prod_cases3)
  from Cons.prems(3) have fit: "case p of Put x \<Rightarrow> fits x q | Get \<Rightarrow> True" and rest: "all_fit (q1, s1, g1) ps"
    by (auto simp: st split: qop.splits)
  from qstep_fifo [OF Cons.prems(1,2) fit st] Cons.IH [of q1 g1 s1] rest Cons.prems(4) st
  show ?case by simp
qed

end

text \<open>The chunk fits in a slot, is written at its start, and the tail index does not wrap.\<close>

definition chunk_fits :: "string \<Rightarrow> SpscRingBuffer \<Rightarrow> bool" where
  "chunk_fits bs rb \<longleftrightarrow> length bs \<le> rb_slotSize rb \<and> commit_ok rb"

text \<open>Filling the acquired slot and committing only its first bytes.\<close>

lemma commit_prefix:
  assumes "ring_inv rb" and "chunk_fits (bs @ extra) rb" and acq: "tryAcquire rb = Some (off, cap)"
  shows "ring_contents (commit (length bs) (writeAt off (bs @ extra) rb)) = ring_contents rb @ [bs]"
    and "ring_inv (commit (length bs) (writeAt off (bs @ extra) rb))"
proof -
  let ?w = "writeAt off (bs @ extra) rb"
  note A = tryAcquire_Some [OF acq]
  have len: "0 + length (bs @ extra) \<le> cap" and ok: "commit_ok rb" using assms(2) A(3) by (simp_all add: chunk_fits_def)
  have room: "off + length (bs @ extra) \<le> length (rb_storage rb)" using acquired_room [OF assms(1) acq len] by simp
  have w: "ring_inv ?w" "ring_contents ?w = ring_contents rb"
    using ring_inv_writeAt [OF assms(1) acq len] ring_contents_writeAt [OF assms(1) acq len] by simp_all
  have wr: "take (length bs) (drop off (rb_storage ?w)) = bs" using room by (simp add: writeAt_def)
  have b: "length bs \<le> rb_slotSize rb" using len A(3) by simp
  show "ring_contents (commit (length bs) ?w) = ring_contents rb @ [bs]"
    using ring_contents_commit [OF w(1), of "length bs"] b w(2) wr A(1,2) by simp
  show "ring_inv (commit (length bs) ?w)" using ring_inv_commit [OF w(1), of "length bs"] b ok A(1) by simp
qed

lemma produce_not_full:
  assumes "ring_inv rb" and "chunk_fits bs rb" and "\<not> ring_full rb"
  shows "ring_contents (produce bs rb) = ring_contents rb @ [bs]" and "ring_inv (produce bs rb)"
proof -
  obtain off where acq: "tryAcquire rb = Some (off, rb_slotSize rb)"
    using assms(3) by (simp add: tryAcquire_def ring_full_def)
  show "ring_contents (produce bs rb) = ring_contents rb @ [bs]" "ring_inv (produce bs rb)"
    using commit_prefix [OF assms(1) _ acq, of bs "[]"] assms(2) by (simp_all add: produce_def acq)
qed

interpretation spsc: bounded_queue ring_inv ring_contents rb_slotCount chunk_fits ring_full produce tryPeek release
proof
  fix q :: SpscRingBuffer and x
  assume inv: "ring_inv q"
  show "length (ring_contents q) \<le> rb_slotCount q" using inv by (simp add: ring_inv_def)
  show "ring_full q \<longleftrightarrow> length (ring_contents q) = rb_slotCount q" using ring_full_iff [OF inv] by simp
  show "tryPeek q = (case ring_contents q of [] \<Rightarrow> None | x # _ \<Rightarrow> Some x)" by (rule tryPeek_contents)
  show "produce x q = q" if "ring_full q"
    using that by (simp add: produce_def tryAcquire_def ring_full_def)
  show "ring_contents (produce x q) = ring_contents q @ [x]" if "chunk_fits x q" "\<not> ring_full q"
    using produce_not_full(1) [OF inv that] .
  show "ring_inv (produce x q)" if "chunk_fits x q" "\<not> ring_full q"
    using produce_not_full(2) [OF inv that] .
  show "ring_contents (release q) = tl (ring_contents q)" if "ring_contents q \<noteq> []"
    using ring_contents_release [OF inv that] .
  show "ring_inv (release q)" if "ring_contents q \<noteq> []"
    using ring_inv_release [OF inv that] .
qed

text \<open>
  Used as a queue, the ring refines a bounded FIFO list: after any sequence of puts (refused when
  full) and gets, chunks delivered plus chunks stored are the chunks accepted.
\<close>

lemma ring_refines_queue:
  assumes "0 < n" and "n < 2 ^ 64" and "spsc.all_fit (newRing n sz, [], []) ops"
    and "foldl spsc.qstep (newRing n sz, [], []) ops = (rb, sent, got)"
  shows "got @ ring_contents rb = sent \<and> tryPeek rb = (case drop (length got) sent of [] \<Rightarrow> None | b # _ \<Rightarrow> Some b)"
proof -
  have "ring_inv rb \<and> got @ ring_contents rb = sent"
    using spsc.run_fifo [OF ring_inv_new(1) [OF assms(1,2)] _ assms(3,4)] ring_inv_new(2) [OF assms(1,2)] by simp
  then show ?thesis using tryPeek_contents by fastforce
qed

section \<open>The two threads, step by step\<close>

text \<open>
  The state of a run: the ring, the slot the producer holds, and the chunks committed and consumed
  so far.  The producer acquires, writes any bytes anywhere in its slot any number of times, and
  commits a prefix of it; the consumer peeks and releases.  Either may move at any time.
\<close>

record spsc_state =
  sp_ring :: SpscRingBuffer
  sp_slot :: "(nat \<times> nat) option"
  sp_sent :: "string list"
  sp_got :: "string list"

inductive spsc_step :: "spsc_state \<Rightarrow> spsc_state \<Rightarrow> bool" where
  acquire: "sp_slot s = None \<Longrightarrow> tryAcquire (sp_ring s) = Some slot \<Longrightarrow>
    spsc_step s (s\<lparr>sp_slot := Some slot\<rparr>)"
| store: "sp_slot s = Some (off, cap) \<Longrightarrow> pos + length bs \<le> cap \<Longrightarrow>
    spsc_step s (s\<lparr>sp_ring := writeAt (off + pos) bs (sp_ring s)\<rparr>)"
| commit: "sp_slot s = Some (off, cap) \<Longrightarrow> n \<le> cap \<Longrightarrow> commit_ok (sp_ring s) \<Longrightarrow>
    spsc_step s (s\<lparr>sp_ring := commit n (sp_ring s), sp_slot := None,
      sp_sent := sp_sent s @ [take n (drop off (rb_storage (sp_ring s)))]\<rparr>)"
| consume: "tryPeek (sp_ring s) = Some bs \<Longrightarrow>
    spsc_step s (s\<lparr>sp_ring := release (sp_ring s), sp_got := sp_got s @ [bs]\<rparr>)"

inductive spsc_reachable :: "nat \<Rightarrow> nat \<Rightarrow> spsc_state \<Rightarrow> bool" for n sz :: nat where
  start: "spsc_reachable n sz \<lparr>sp_ring = newRing n sz, sp_slot = None, sp_sent = [], sp_got = []\<rparr>"
| step: "spsc_reachable n sz s \<Longrightarrow> spsc_step s t \<Longrightarrow> spsc_reachable n sz t"

text \<open>What holds of every state: the slot the producer holds is the first free one, still.\<close>

definition spsc_inv :: "spsc_state \<Rightarrow> bool" where
  "spsc_inv s \<longleftrightarrow> ring_inv (sp_ring s) \<and>
    (\<forall>slot. sp_slot s = Some slot \<longrightarrow> tryAcquire (sp_ring s) = Some slot) \<and>
    sp_got s @ ring_contents (sp_ring s) = sp_sent s"

lemma tryAcquire_writeAt [simp]: "tryAcquire (writeAt off bs rb) = tryAcquire rb"
  by (simp add: tryAcquire_def)

text \<open>The consumer can only make room: a slot stays acquired across a release.\<close>

lemma tryAcquire_release:
  assumes "ring_inv rb" and "ring_contents rb \<noteq> []" and "tryAcquire rb = Some slot"
  shows "tryAcquire (release rb) = Some slot"
proof -
  have c: "ring_count rb \<noteq> 0" using assms(2) by (metis length_ring_contents length_0_conv)
  have "\<not> ring_full (release rb)"
    using ring_full_iff [OF ring_inv_release [OF assms(1,2)]] ring_count_release [OF c] assms(1) c
    by (auto simp: ring_inv_def release_def)
  with assms(3) show ?thesis
    by (auto simp: tryAcquire_def release_def ring_full_def split: if_splits)
qed

lemma spsc_step_inv:
  assumes "spsc_step s t" and "spsc_inv s"
  shows "spsc_inv t"
  using assms
proof (induction rule: spsc_step.induct)
  case (acquire s slot)
  then show ?case by (simp add: spsc_inv_def)
next
  case (store s off cap pos bs)
  then have inv: "ring_inv (sp_ring s)" and acq: "tryAcquire (sp_ring s) = Some (off, cap)"
    by (simp_all add: spsc_inv_def)
  show ?case
    using store.prems ring_inv_writeAt [OF inv acq store.hyps(2)] ring_contents_writeAt [OF inv acq store.hyps(2)]
    by (simp add: spsc_inv_def)
next
  case (commit s off cap n)
  then have inv: "ring_inv (sp_ring s)" and acq: "tryAcquire (sp_ring s) = Some (off, cap)"
    by (simp_all add: spsc_inv_def)
  note slot = tryAcquire_Some [OF acq]
  have n: "n \<le> rb_slotSize (sp_ring s)" using commit.hyps(2) slot(3) by simp
  show ?case
    using commit.prems ring_inv_commit [OF inv slot(1) commit.hyps(3) n]
      ring_contents_commit [OF inv slot(1) n] slot(2)
    by (simp add: spsc_inv_def flip: append_assoc)
next
  case (consume s bs)
  then have ne: "ring_contents (sp_ring s) = bs # tl (ring_contents (sp_ring s))"
    by (auto simp: tryPeek_contents split: list.splits)
  then have ne': "ring_contents (sp_ring s) \<noteq> []" by (metis list.discI)
  then show ?case
    using consume.prems ring_inv_release ring_contents_release tryAcquire_release ne
    by (auto simp: spsc_inv_def)
qed

lemma spsc_reachable_inv:
  assumes "spsc_reachable n sz s" and "0 < n" and "n < 2 ^ 64"
  shows "spsc_inv s"
  using assms
  by (induction rule: spsc_reachable.induct) (simp_all add: spsc_inv_def ring_inv_new spsc_step_inv [unfolded spsc_inv_def])

section \<open>Properties\<close>

text \<open>
  C24. Whatever the interleaving of the network thread and the parser thread, the chunks the consumer
  has taken followed by those still in the ring are exactly the chunks committed, in order and with
  the bytes they had when committed, and the ring never holds more than its slots: the receiver can
  overwrite neither an unread slot nor the one being read.
\<close>

theorem ring_spsc_fifo:
  assumes "spsc_reachable n sz s" and "0 < n" and "n < 2 ^ 64"
  shows "sp_got s @ ring_contents (sp_ring s) = sp_sent s \<and> length (ring_contents (sp_ring s)) \<le> rb_slotCount (sp_ring s)"
  using spsc_reachable_inv [OF assms] spsc.bound by (auto simp: spsc_inv_def)

theorem ring_spsc_fifo_witness:
  "let rb = newRing 2 4; s = \<lparr>sp_ring = commit 3 (writeAt 0 ''abc'' rb), sp_slot = None, sp_sent = [''abc''], sp_got = []\<rparr>
   in spsc_reachable 2 4 s \<and> sp_got s @ ring_contents (sp_ring s) = [''abc'']"
proof -
  let ?rb = "newRing 2 4"
  let ?s0 = "\<lparr>sp_ring = ?rb, sp_slot = None, sp_sent = [], sp_got = []\<rparr>"
  let ?s1 = "?s0\<lparr>sp_slot := Some (0, 4)\<rparr>"
  let ?s2 = "?s1\<lparr>sp_ring := writeAt 0 ''abc'' ?rb\<rparr>"
  let ?s3 = "\<lparr>sp_ring = commit 3 (writeAt 0 ''abc'' ?rb), sp_slot = None, sp_sent = [''abc''], sp_got = []\<rparr>"
  have "spsc_reachable 2 4 ?s1"
    by (rule spsc_reachable.step [OF spsc_reachable.start]) (rule spsc_step.acquire, code_simp+)
  moreover have "spsc_step ?s1 ?s2"
    using spsc_step.store [of ?s1 0 4 0 "''abc''"] by simp
  moreover have "spsc_step ?s2 ?s3"
    using spsc_step.commit [of ?s2 0 4 3] by (simp add: commit_ok_def newRing_def writeAt_def)
  ultimately have r: "spsc_reachable 2 4 ?s3" by (meson spsc_reachable.step)
  show ?thesis
    using ring_spsc_fifo [OF r] r by (simp add: Let_def)
qed

text \<open>
  For every chunk size the server and client accept (4 KiB to 1 MiB) the ring stays within its
  4 MiB budget and still has at least four slots.
\<close>

theorem ring_budget:
  assumes "4096 \<le> slotSize" and "slotSize \<le> 1048576"
  shows "ringSlotCountFor slotSize * slotSize \<le> kRingBudgetBytes \<and>
    kMinSlotCount \<le> ringSlotCountFor slotSize \<and> ringSlotCountFor slotSize \<le> kDefaultSlotCount"
proof -
  have "4 * slotSize \<le> 4194304" using assms by simp
  then have "4 \<le> 4194304 div slotSize" using assms by (simp add: less_eq_div_iff_mult_less_eq)
  moreover have "4194304 div slotSize * slotSize \<le> 4194304" by simp
  moreover have "64 * slotSize \<le> 4194304" if "64 \<le> 4194304 div slotSize"
    using that assms by (simp add: less_eq_div_iff_mult_less_eq)
  ultimately show ?thesis using assms by (simp add: ringSlotCountFor_def ring_sizes Let_def)
qed

theorem ring_budget_witness:
  "ringSlotCountFor 100000 * 100000 \<le> kRingBudgetBytes \<and> ringSlotCountFor 100000 = 41"
  using ring_budget [of 100000] by (simp add: ringSlotCountFor_def ring_sizes)

end
