(* ===== verification/LineReassembler.thy ===== *)
theory LineReassembler
  imports Prelude
begin

text \<open>
  The line reassembler of \<^verbatim>\<open>server/src/parser/LineReassembler.h\<close>: chunks of the upload go in, complete
  lines come out (the callback's calls, as the list of their arguments), an unfinished tail is kept in
  a fragment of at most \<^verbatim>\<open>maxLineLength\<close> bytes.  The reference \<open>lines_of\<close> splits the whole stream at once,
  one byte at a time and with an unbounded buffer; the development shows the two emit the same lines.
  Stream offsets, 64-bit in the code, are naturals: an upload has at most 8 GiB.
\<close>

section \<open>State and operations\<close>

definition kMaxLineLength :: nat where
  "kMaxLineLength = 64 * 1024"

definition newline :: char where
  "newline = CHR 0x0A"

record Line =
  ln_text :: string
  ln_offset :: nat
  ln_tooLong :: bool

record LineReassembler =
  lr_fragment :: string
  lr_streamOffset :: nat
  lr_lineStart :: nat
  lr_discarding :: bool
  lr_maxLen :: nat

definition newReassembler :: "nat \<Rightarrow> LineReassembler" where
  "newReassembler maxLineLength =
    \<lparr>lr_fragment = [], lr_streamOffset = 0, lr_lineStart = 0, lr_discarding = False,
     lr_maxLen = maxLineLength\<rparr>"

definition emitLine :: "string \<Rightarrow> nat \<Rightarrow> bool \<Rightarrow> Line" where
  "emitLine text offset tooLong =
    \<lparr>ln_text = (if \<not> tooLong \<and> text \<noteq> [] \<and> last text = CHR 0x0D then butlast text else text),
     ln_offset = offset, ln_tooLong = tooLong\<rparr>"

definition appendTail :: "LineReassembler \<Rightarrow> string \<Rightarrow> LineReassembler \<times> Line list" where
  "appendTail r tail =
    (if lr_maxLen r < length (lr_fragment r) + length tail then
       let keep = lr_maxLen r - length (lr_fragment r);
           frag = lr_fragment r @ take keep tail in
       (r\<lparr>lr_fragment := [], lr_discarding := True\<rparr>, [emitLine frag (lr_lineStart r) True])
     else (r\<lparr>lr_fragment := lr_fragment r @ tail\<rparr>, []))"

text \<open>The piece of a chunk up to a newline, the branch of \<^verbatim>\<open>feed\<close> that emits.\<close>

definition emitPiece :: "LineReassembler \<Rightarrow> string \<Rightarrow> LineReassembler \<times> Line list" where
  "emitPiece r piece =
    (if lr_fragment r = [] then
       (if lr_maxLen r < length piece then (r, [emitLine (take (lr_maxLen r) piece) (lr_lineStart r) True])
        else (r, [emitLine piece (lr_lineStart r) False]))
     else if lr_maxLen r < length (lr_fragment r) + length piece then
       let keep = lr_maxLen r - length (lr_fragment r) in
       (r\<lparr>lr_fragment := []\<rparr>, [emitLine (lr_fragment r @ take keep piece) (lr_lineStart r) True])
     else (r\<lparr>lr_fragment := []\<rparr>, [emitLine (lr_fragment r @ piece) (lr_lineStart r) False]))"

function reasm_loop :: "nat \<Rightarrow> string \<Rightarrow> nat \<Rightarrow> LineReassembler \<Rightarrow> LineReassembler \<times> Line list" where
  "reasm_loop base chunk pos r =
    (if pos < length chunk then
       (case sv_find_char chunk newline pos of
          None \<Rightarrow> if lr_discarding r then (r, []) else appendTail r (drop pos chunk)
        | Some nl \<Rightarrow>
            if lr_discarding r then
              reasm_loop base chunk (nl + 1) (r\<lparr>lr_discarding := False, lr_lineStart := base + (nl + 1)\<rparr>)
            else
              let (r', ls) = emitPiece r (sv_substr chunk pos (nl - pos));
                  (r'', ls') = reasm_loop base chunk (nl + 1) (r'\<lparr>lr_lineStart := base + (nl + 1)\<rparr>)
              in (r'', ls @ ls'))
     else (r, []))"
  by auto
termination
  by (relation "measure (\<lambda>(base, chunk, pos, r). length chunk - pos)")
    (auto dest!: sv_find_char_bounds)

declare reasm_loop.simps [simp del]

definition reasm_feed :: "LineReassembler \<Rightarrow> string \<Rightarrow> LineReassembler \<times> Line list" where
  "reasm_feed r chunk =
    (let base = lr_streamOffset r; (r', ls) = reasm_loop base chunk 0 r
     in (r'\<lparr>lr_streamOffset := base + length chunk\<rparr>, ls))"

definition reasm_finish :: "LineReassembler \<Rightarrow> LineReassembler \<times> Line list" where
  "reasm_finish r =
    (r\<lparr>lr_fragment := [], lr_discarding := False\<rparr>,
     if \<not> lr_discarding r \<and> lr_fragment r \<noteq> [] then [emitLine (lr_fragment r) (lr_lineStart r) False] else [])"

definition reasm_reset :: "LineReassembler \<Rightarrow> LineReassembler" where
  "reasm_reset r = r\<lparr>lr_fragment := [], lr_streamOffset := 0, lr_lineStart := 0, lr_discarding := False\<rparr>"

fun reasm_feeds :: "LineReassembler \<Rightarrow> string list \<Rightarrow> LineReassembler \<times> Line list" where
  "reasm_feeds r [] = (r, [])"
| "reasm_feeds r (c # cs) = (let (r1, l1) = reasm_feed r c; (r2, l2) = reasm_feeds r1 cs in (r2, l1 @ l2))"

section \<open>The reference\<close>

text \<open>The line a finished run of bytes yields.\<close>

definition line_of :: "nat \<Rightarrow> nat \<Rightarrow> string \<Rightarrow> Line" where
  "line_of maxLen off cur =
    (if maxLen < length cur then emitLine (take maxLen cur) off True else emitLine cur off False)"

text \<open>State of the reference: lines so far, the current line, its offset.\<close>

fun ref_step :: "nat \<Rightarrow> Line list \<times> string \<times> nat \<Rightarrow> char \<Rightarrow> Line list \<times> string \<times> nat" where
  "ref_step maxLen (out, cur, off) ch =
    (if ch = newline then (out @ [line_of maxLen off cur], [], off + length cur + 1)
     else (out, cur @ [ch], off))"

definition lines_of :: "nat \<Rightarrow> string \<Rightarrow> Line list" where
  "lines_of maxLen s =
    (case foldl (ref_step maxLen) ([], [], 0) s of
       (out, cur, off) \<Rightarrow> out @ (if cur = [] then [] else [line_of maxLen off cur]))"

section \<open>The reassembler follows the reference\<close>

text \<open>The state that stands for a reference state, and what has been emitted by then.\<close>

definition follows :: "nat \<Rightarrow> Line list \<times> string \<times> nat \<Rightarrow> LineReassembler \<Rightarrow> bool" where
  "follows n R r = (case R of (out, cur, off) \<Rightarrow>
    lr_maxLen r = n \<and> lr_lineStart r = off \<and> lr_discarding r = (n < length cur) \<and>
    lr_fragment r = (if n < length cur then [] else cur))"

definition emitted :: "nat \<Rightarrow> Line list \<times> string \<times> nat \<Rightarrow> Line list" where
  "emitted n R = (case R of (out, cur, off) \<Rightarrow>
    out @ (if n < length cur then [line_of n off cur] else []))"

lemma ref_no_newline:
  assumes "newline \<notin> set seg"
  shows "foldl (ref_step n) (out, cur, off) seg = (out, cur @ seg, off)"
  using assms by (induction seg arbitrary: cur) auto

lemma ref_offset: "foldl (ref_step n) (out, cur, off) s = (out', cur', off') \<Longrightarrow>
    off' + length cur' = off + length cur + length s"
  by (induction s arbitrary: out cur off) (auto split: if_splits)

lemma ref_piece:
  assumes "newline \<notin> set seg"
  shows "foldl (ref_step n) (out, cur, off) (seg @ [newline]) =
    (out @ [line_of n off (cur @ seg)], [], off + length cur + length seg + 1)"
  by (simp add: ref_no_newline [OF assms])

lemma appendTail_follows:
  assumes "follows n (out, cur, off) r" and "\<not> n < length cur" and "appendTail r seg = (r', ls)"
  shows "follows n (out, cur @ seg, off) r' \<and>
    emitted n (out, cur @ seg, off) = emitted n (out, cur, off) @ ls"
  using assms
  by (auto simp: follows_def emitted_def appendTail_def line_of_def Let_def split: if_splits)

lemma emitPiece_follows:
  assumes "follows n (out, cur, off) r" and "\<not> n < length cur" and "emitPiece r seg = (r', ls)"
  shows "follows n (out @ [line_of n off (cur @ seg)], [], k) (r'\<lparr>lr_lineStart := k\<rparr>) \<and>
    emitted n (out @ [line_of n off (cur @ seg)], [], k) = emitted n (out, cur, off) @ ls"
  using assms
  by (auto simp: follows_def emitted_def emitPiece_def line_of_def Let_def split: if_splits)

lemma skip_follows:
  assumes "follows n (out, cur, off) r" and "n < length cur"
  shows "follows n (out @ [line_of n off (cur @ seg)], [], k)
      (r\<lparr>lr_discarding := False, lr_lineStart := k\<rparr>) \<and>
    emitted n (out @ [line_of n off (cur @ seg)], [], k) = emitted n (out, cur, off)"
  using assms by (auto simp: follows_def emitted_def line_of_def emitLine_def)

lemma reasm_loop_follows:
  assumes "follows n (out, cur, off) r" and "off + length cur = base + pos" and "pos \<le> length chunk"
    and "reasm_loop base chunk pos r = (r', ls)"
  shows "follows n (foldl (ref_step n) (out, cur, off) (drop pos chunk)) r' \<and>
    emitted n (foldl (ref_step n) (out, cur, off) (drop pos chunk)) = emitted n (out, cur, off) @ ls"
  using assms
proof (induction base chunk pos r arbitrary: out cur off r' ls rule: reasm_loop.induct)
  case (1 base chunk pos r)
  show ?case
  proof (cases "pos < length chunk")
    case False
    with "1.prems" show ?thesis by (simp add: reasm_loop.simps)
  next
    case lt: True
    have disc: "lr_discarding r \<longleftrightarrow> n < length cur" using "1.prems"(1) by (simp add: follows_def)
    show ?thesis
    proof (cases "sv_find_char chunk newline pos")
      case None
      then have nn: "newline \<notin> set (drop pos chunk)"
        using sv_find_char_NoneD [OF None, of "pos + _"] by (fastforce simp: in_set_conv_nth)
      show ?thesis
      proof (cases "n < length cur")
        case True
        with None lt "1.prems" disc show ?thesis
          by (auto simp: reasm_loop.simps ref_no_newline [OF nn] follows_def emitted_def line_of_def emitLine_def)
      next
        case False
        have "appendTail r (drop pos chunk) = (r', ls)"
          using "1.prems"(4) None lt disc False by (simp add: reasm_loop.simps)
        then show ?thesis
          using appendTail_follows [OF "1.prems"(1) False] by (simp add: ref_no_newline [OF nn])
      qed
    next
      case (Some nl)
      note seg = sv_find_char_split [OF Some] and D = sv_find_char_SomeD(1,2) [OF Some]
      let ?seg = "sv_substr chunk pos (nl - pos)" and ?k = "base + (nl + 1)"
      let ?R = "(out @ [line_of n off (cur @ ?seg)], [], ?k)"
      have k: "off + length cur + length ?seg + 1 = ?k" using D "1.prems"(2) by simp
      have fold: "foldl (ref_step n) (out, cur, off) (drop pos chunk) =
          foldl (ref_step n) ?R (drop (nl + 1) chunk)"
        unfolding seg(2) using ref_piece [OF seg(1), of n out cur off] k by simp
      show ?thesis
      proof (cases "n < length cur")
        case True
        let ?r = "r\<lparr>lr_discarding := False, lr_lineStart := ?k\<rparr>"
        have l: "reasm_loop base chunk (nl + 1) ?r = (r', ls)" and d: "lr_discarding r"
          using "1.prems"(4) Some lt disc True by (simp_all add: reasm_loop.simps [of base chunk pos])
        note f = skip_follows [OF "1.prems"(1) True, of ?seg ?k]
        show ?thesis
          using "1.IH"(1) [OF lt Some d conjunct1 [OF f] _ _ l] D conjunct2 [OF f] unfolding fold by simp
      next
        case False
        obtain r1 l1 where e: "emitPiece r ?seg = (r1, l1)" by fastforce
        obtain r2 l2 where l: "reasm_loop base chunk (nl + 1) (r1\<lparr>lr_lineStart := ?k\<rparr>) = (r2, l2)" by fastforce
        have "r' = r2" "ls = l1 @ l2"
          using "1.prems"(4) Some lt disc False e l by (simp_all add: reasm_loop.simps [of base chunk pos])
        moreover have d: "\<not> lr_discarding r" using disc False by simp
        note f = emitPiece_follows [OF "1.prems"(1) False e, of ?k]
        ultimately show ?thesis
          using "1.IH"(2) [OF lt Some d e [symmetric] refl conjunct1 [OF f] _ _ l] D conjunct2 [OF f]
          unfolding fold by simp
      qed
    qed
  qed
qed

section \<open>Whole streams\<close>

text \<open>The reassembler stands for the reference run on the bytes fed so far.\<close>

definition reasm_at :: "nat \<Rightarrow> string \<Rightarrow> LineReassembler \<Rightarrow> bool" where
  "reasm_at n s r \<longleftrightarrow> follows n (foldl (ref_step n) ([], [], 0) s) r \<and> lr_streamOffset r = length s"

definition emitted_at :: "nat \<Rightarrow> string \<Rightarrow> Line list" where
  "emitted_at n s = emitted n (foldl (ref_step n) ([], [], 0) s)"

lemma reasm_at_new: "reasm_at n [] (newReassembler n)" and emitted_at_Nil: "emitted_at n [] = []"
  by (simp_all add: reasm_at_def follows_def newReassembler_def emitted_at_def emitted_def)

lemma reasm_feed_at:
  assumes "reasm_at n s r" and "reasm_feed r chunk = (r', ls)"
  shows "reasm_at n (s @ chunk) r'" and "emitted_at n (s @ chunk) = emitted_at n s @ ls"
proof -
  obtain out cur off where R: "foldl (ref_step n) ([], [], 0) s = (out, cur, off)"
    by (metis prod_cases3)
  obtain r1 where l: "reasm_loop (lr_streamOffset r) chunk 0 r = (r1, ls)"
    and r': "r' = r1\<lparr>lr_streamOffset := lr_streamOffset r + length chunk\<rparr>"
    using assms(2) by (auto simp: reasm_feed_def Let_def split: prod.splits)
  have f: "follows n (out, cur, off) r" and o: "lr_streamOffset r = length s"
    using assms(1) by (simp_all add: reasm_at_def R)
  have off: "off + length cur = lr_streamOffset r + 0" using ref_offset [OF R] o by simp
  note F = reasm_loop_follows [OF f off _ l]
  show "reasm_at n (s @ chunk) r'"
    using F o by (simp add: reasm_at_def R r' follows_def split: prod.splits)
  show "emitted_at n (s @ chunk) = emitted_at n s @ ls"
    using F by (simp add: emitted_at_def R)
qed

lemma reasm_feeds_at:
  assumes "reasm_at n s r" and "reasm_feeds r cs = (r', ls)"
  shows "reasm_at n (s @ concat cs) r' \<and> emitted_at n (s @ concat cs) = emitted_at n s @ ls"
  using assms
proof (induction cs arbitrary: s r ls)
  case (Cons c cs)
  obtain r1 l1 where 1: "reasm_feed r c = (r1, l1)" by fastforce
  obtain l2 where 2: "reasm_feeds r1 cs = (r', l2)" and ls: "ls = l1 @ l2"
    using Cons.prems(2) 1 by (auto split: prod.splits)
  show ?case
    using Cons.IH [OF reasm_feed_at(1) [OF Cons.prems(1) 1] 2] reasm_feed_at(2) [OF Cons.prems(1) 1] ls by simp
qed simp

lemma finish_at:
  assumes "reasm_at n s r"
  shows "emitted_at n s @ snd (reasm_finish r) = lines_of n s"
proof -
  obtain out cur off where R: "foldl (ref_step n) ([], [], 0) s = (out, cur, off)"
    by (metis prod_cases3)
  show ?thesis
    using assms
    by (auto simp: reasm_at_def R follows_def emitted_at_def emitted_def lines_of_def reasm_finish_def line_of_def)
qed

lemma reasm_at_fragment: "reasm_at n s r \<Longrightarrow> length (lr_fragment r) \<le> n"
  by (auto simp: reasm_at_def follows_def split: prod.splits if_splits)

lemma line_of_bounded: "length (ln_text (line_of n off cur)) \<le> n"
  by (auto simp: line_of_def emitLine_def)

lemma ref_lines_bounded:
  assumes "\<forall>l \<in> set (fst R). length (ln_text l) \<le> n"
  shows "\<forall>l \<in> set (fst (foldl (ref_step n) R s)). length (ln_text l) \<le> n"
  using assms
proof (induction s arbitrary: R)
  case (Cons ch s)
  have "\<forall>l \<in> set (fst (ref_step n R ch)). length (ln_text l) \<le> n"
    using Cons.prems line_of_bounded by (cases R) auto
  then show ?case using Cons.IH by simp
qed simp

lemma lines_of_bounded: "l \<in> set (lines_of n s) \<Longrightarrow> length (ln_text l) \<le> n"
  using ref_lines_bounded [of "([], [], 0)" n s]
  by (cases "foldl (ref_step n) ([], [], 0) s") (auto simp: lines_of_def line_of_bounded split: if_splits)

text \<open>The lines hold no more bytes than the stream, and there are no more of them.\<close>

definition text_bytes :: "Line list \<Rightarrow> nat" where
  "text_bytes ls = sum_list (map (\<lambda>l. length (ln_text l)) ls)"

lemma line_of_length: "length (ln_text (line_of n off cur)) \<le> length cur"
  by (auto simp: line_of_def emitLine_def)

lemma ref_bytes:
  assumes "foldl (ref_step n) (out, cur, off) s = (out', cur', off')"
  shows "text_bytes out' + length cur' \<le> text_bytes out + length cur + length s \<and>
    length out' + length cur' \<le> length out + length cur + length s"
  using assms
proof (induction s arbitrary: out cur off)
  case (Cons ch s)
  show ?case
  proof (cases "ch = newline")
    case True
    then have "text_bytes out' + length cur' \<le> text_bytes (out @ [line_of n off cur]) + length s"
      "length out' + length cur' \<le> Suc (length out) + length s"
      using Cons.IH [of "out @ [line_of n off cur]" "[]"] Cons.prems by auto
    then show ?thesis using line_of_length [of n off cur] by (simp add: text_bytes_def)
  next
    case False
    then show ?thesis using Cons.IH [of out "cur @ [ch]" off] Cons.prems by simp
  qed
qed simp

lemma lines_of_bytes: "text_bytes (lines_of n s) \<le> length s" "length (lines_of n s) \<le> length s"
proof -
  obtain out cur off where R: "foldl (ref_step n) ([], [], 0) s = (out, cur, off)" by (metis prod_cases3)
  have b: "text_bytes out + length cur \<le> length s \<and> length out + length cur \<le> length s"
    using ref_bytes [OF R] by (simp add: text_bytes_def)
  show "text_bytes (lines_of n s) \<le> length s"
    using b line_of_length [of n off cur] by (auto simp: lines_of_def R text_bytes_def)
  show "length (lines_of n s) \<le> length s"
    using b by (cases cur) (auto simp: lines_of_def R)
qed

lemma reasm_reset_new: "reasm_reset r = newReassembler (lr_maxLen r)"
  by (simp add: reasm_reset_def newReassembler_def)

lemma reasm_feeds_maxLen:
  assumes "reasm_feeds (newReassembler n) cs = (r, ls)"
  shows "lr_maxLen r = n"
  using reasm_feeds_at [OF reasm_at_new assms] by (simp add: reasm_at_def follows_def split: prod.splits)

section \<open>Properties\<close>

text \<open>
  C28. However the upload is cut into chunks, feeding them and finishing emits exactly the lines of the
  byte stream: each line with its start offset and its trailing carriage return removed, each line
  over the limit reported once with its first bytes, and an unterminated last line included.
\<close>

theorem reassembler_lines:
  "let (r, ls) = reasm_feeds (newReassembler n) cs in ls @ snd (reasm_finish r) = lines_of n (concat cs)"
proof -
  obtain r ls where f: "reasm_feeds (newReassembler n) cs = (r, ls)" by fastforce
  from reasm_feeds_at [OF reasm_at_new f] have "reasm_at n (concat cs) r" "emitted_at n (concat cs) = ls"
    by (simp_all add: emitted_at_Nil)
  with finish_at [of n "concat cs" r] f show ?thesis by simp
qed

text \<open>
  Memory stays bounded on any input, also one without newlines: after any chunks the kept fragment
  and every emitted text are at most the maximal line length, and a reset after them gives back a
  reassembler that behaves as a new one.
\<close>

theorem reassembler_bounded:
  "let (r, ls) = reasm_feeds (newReassembler n) cs in
     length (lr_fragment r) \<le> n \<and> list_all (\<lambda>l. length (ln_text l) \<le> n) (ls @ snd (reasm_finish r)) \<and>
     reasm_reset r = newReassembler n"
proof -
  obtain r ls where f: "reasm_feeds (newReassembler n) cs = (r, ls)" by fastforce
  from reasm_feeds_at [OF reasm_at_new f] have r: "reasm_at n (concat cs) r" "emitted_at n (concat cs) = ls"
    by (simp_all add: emitted_at_Nil)
  have "list_all (\<lambda>l. length (ln_text l) \<le> n) (ls @ snd (reasm_finish r))"
    using finish_at [OF r(1)] r(2) lines_of_bounded unfolding list_all_iff by metis
  with reasm_at_fragment [OF r(1)] f reasm_feeds_maxLen [OF f] show ?thesis
    by (simp add: reasm_reset_new)
qed

end
