(* ===== verification/Calendar.thy ===== *)
theory Calendar
  imports Prelude
begin

text \<open>
  The calendar arithmetic of \<^verbatim>\<open>server/src/parser/LogLineParser.cpp\<close>: leap years, month lengths and the
  day number of a civil date.  All quantities are far inside the range of \<^verbatim>\<open>int\<close> (years have four
  digits), so they are integers here; the division of the code truncates and is written out.
\<close>

section \<open>Definitions\<close>

definition c_div :: "int \<Rightarrow> int \<Rightarrow> int" where
  "c_div a b = (if 0 \<le> a then a div b else - ((- a) div b))"

definition isLeapYear :: "int \<Rightarrow> bool" where
  "isLeapYear y \<longleftrightarrow> (y mod 4 = 0 \<and> y mod 100 \<noteq> 0) \<or> y mod 400 = 0"

definition kDays :: "int list" where
  "kDays = [31, 28, 31, 30, 31, 30, 31, 31, 30, 31, 30, 31]"

definition daysInMonth :: "int \<Rightarrow> int \<Rightarrow> int" where
  "daysInMonth y m = (if m = 2 \<and> isLeapYear y then 29 else kDays ! nat (m - 1))"

definition daysFromCivil :: "int \<Rightarrow> int \<Rightarrow> int \<Rightarrow> int" where
  "daysFromCivil y0 m d =
    (let y = y0 - (if m \<le> 2 then 1 else 0);
         era = c_div (if 0 \<le> y then y else y - 399) 400;
         yoe = y - era * 400;
         doy = (153 * (m + (if 2 < m then - 3 else 9)) + 2) div 5 + d - 1;
         doe = yoe * 365 + yoe div 4 - yoe div 100 + doy
     in era * 146097 + doe - 719468)"

text \<open>The dates the timestamp check lets through.\<close>

definition valid_date :: "int \<Rightarrow> int \<Rightarrow> int \<Rightarrow> bool" where
  "valid_date y m d \<longleftrightarrow> 0 \<le> y \<and> 1 \<le> m \<and> m \<le> 12 \<and> 1 \<le> d \<and> d \<le> daysInMonth y m"

text \<open>The civil day after a date.\<close>

definition next_date :: "int \<Rightarrow> int \<Rightarrow> int \<Rightarrow> int \<times> int \<times> int" where
  "next_date y m d =
    (if d < daysInMonth y m then (y, m, d + 1) else if m < 12 then (y, m + 1, 1) else (y + 1, 1, 1))"

section \<open>Years that start in March\<close>

definition march_days :: "int \<Rightarrow> int" where
  "march_days y = 365 * y + y div 4 - y div 100 + y div 400"

definition month_start :: "int \<Rightarrow> int" where
  "month_start k = (153 * k + 2) div 5"

lemma era_eq: "c_div (if 0 \<le> y then y else y - 399) 400 = (y :: int) div 400" if "- 1 \<le> y"
proof (cases "0 \<le> y")
  case False
  with that have "y = - 1" by simp
  then show ?thesis by (simp add: c_div_def)
qed (simp add: c_div_def)

lemma march_days_era:
  fixes y :: int
  shows "y div 400 * 146097 + ((y - y div 400 * 400) * 365 + (y - y div 400 * 400) div 4
    - (y - y div 400 * 400) div 100) = march_days y"
proof -
  define q r where "q = y div 400" and "r = y mod 400"
  have y: "y = q * 400 + r" by (simp add: q_def r_def)
  have "y = q * 100 * 4 + r" "y = q * 4 * 100 + r" using y by simp_all
  then have "y div 4 = q * 100 + r div 4" "y div 100 = q * 4 + r div 100"
    by (metis add.commute div_mult_self1 zero_neq_numeral)+
  moreover have "y - q * 400 = r" using y by simp
  ultimately show ?thesis
    unfolding march_days_def q_def [symmetric] using y by simp
qed

lemma daysFromCivil_march:
  assumes "0 \<le> y"
  shows "daysFromCivil y m d = march_days (if m \<le> 2 then y - 1 else y) +
    month_start (if m \<le> 2 then m + 9 else m - 3) + d - 1 - 719468"
proof -
  let ?y = "y - (if m \<le> 2 then 1 else 0)"
  have e: "c_div (if 0 \<le> ?y then ?y else ?y - 399) 400 = ?y div 400"
    using assms by (intro era_eq) simp
  show ?thesis
    unfolding daysFromCivil_def Let_def e
    using march_days_era [of ?y] by (auto simp: month_start_def)
qed

lemma div_Suc_int:
  fixes y n :: int
  assumes "0 < n"
  shows "(y + 1) div n = y div n + (if (y + 1) mod n = 0 then 1 else 0)"
proof (cases "y mod n + 1 = n")
  case True
  have "y + 1 = n * (y div n) + (y mod n + 1)" by simp
  also have "\<dots> = n * (y div n + 1) + 0" by (simp only: True) (simp add: algebra_simps)
  finally have e: "y + 1 = n * (y div n + 1) + 0" .
  have "(y + 1) div n = y div n + 1" "(y + 1) mod n = 0"
    using int_div_pos_eq [OF e] int_mod_pos_eq [OF e] assms by simp_all
  then show ?thesis by simp
next
  case False
  have r: "0 \<le> y mod n" "y mod n < n" using assms by simp_all
  have e: "y + 1 = n * (y div n) + (y mod n + 1)" by simp
  have "(y + 1) div n = y div n" "(y + 1) mod n = y mod n + 1"
    using int_div_pos_eq [OF e] int_mod_pos_eq [OF e] r False by simp_all
  then show ?thesis using r by simp
qed

lemma march_days_Suc: "march_days (y + 1) = march_days y + (if isLeapYear (y + 1) then 366 else 365)"
proof -
  have "(100 :: int) dvd 400" "(4 :: int) dvd 100" by simp_all
  then have "(y + 1) mod 400 = 0 \<Longrightarrow> (y + 1) mod 100 = 0" "(y + 1) mod 100 = 0 \<Longrightarrow> (y + 1) mod 4 = 0"
    by (meson dvd_trans mod_eq_0_iff_dvd)+
  then show ?thesis
    unfolding march_days_def isLeapYear_def by (auto simp: div_Suc_int)
qed

lemma march_days_mono: "a \<le> b \<Longrightarrow> march_days a \<le> march_days b"
proof (induction b rule: int_ge_induct)
  case (step b)
  then show ?case by (simp add: march_days_Suc split: if_splits)
qed simp

lemma march_days_less: "a < b \<Longrightarrow> march_days (a + 1) \<le> march_days b"
  by (rule march_days_mono) simp

lemma month_cases:
  fixes m :: int
  assumes "1 \<le> m" and "m \<le> 12"
  obtains "m = 1" | "m = 2" | "m = 3" | "m = 4" | "m = 5" | "m = 6" | "m = 7" | "m = 8" | "m = 9"
    | "m = 10" | "m = 11" | "m = 12"
proof -
  have "m = 1 \<or> m = 2 \<or> m = 3 \<or> m = 4 \<or> m = 5 \<or> m = 6 \<or> m = 7 \<or> m = 8 \<or> m = 9 \<or> m = 10 \<or> m = 11 \<or> m = 12"
    using assms by presburger
  then show thesis using that by blast
qed

lemmas month_numbers = daysInMonth_def kDays_def month_start_def

lemma daysInMonth_range: "1 \<le> m \<Longrightarrow> m \<le> 12 \<Longrightarrow> 28 \<le> daysInMonth y m \<and> daysInMonth y m \<le> 31"
  by (erule (1) month_cases) (simp_all add: month_numbers)

lemma month_start_mono: "a \<le> b \<Longrightarrow> month_start a \<le> month_start b"
  unfolding month_start_def by (intro zdiv_mono1) simp_all

text \<open>A month of the March year ends where the next begins; February ends the year.\<close>

lemma month_start_Suc:
  assumes "1 \<le> m" and "m \<le> 12" and "m \<noteq> 2"
  shows "month_start ((if m \<le> 2 then m + 9 else m - 3) + 1) =
    month_start (if m \<le> 2 then m + 9 else m - 3) + daysInMonth y m"
  using assms by (elim month_cases) (simp_all add: month_numbers)

lemma february_end: "month_start 11 + daysInMonth y 2 = (if isLeapYear y then 366 else 365)"
  by (simp add: month_numbers)

lemma doy_bounds:
  assumes "valid_date y m d"
  shows "0 \<le> month_start (if m \<le> 2 then m + 9 else m - 3) + d - 1"
    and "march_days (if m \<le> 2 then y - 1 else y) + month_start (if m \<le> 2 then m + 9 else m - 3) + d - 1
      < march_days ((if m \<le> 2 then y - 1 else y) + 1)"
proof -
  let ?k = "if m \<le> 2 then m + 9 else m - 3" and ?y = "if m \<le> 2 then y - 1 else y"
  have v: "1 \<le> m" "m \<le> 12" "1 \<le> d" "d \<le> daysInMonth y m"
    using assms by (auto simp: valid_date_def)
  have "0 \<le> month_start ?k" using v by (auto simp: month_start_def)
  with v show "0 \<le> month_start ?k + d - 1" by simp
  have "month_start ?k + d - 1 < march_days (?y + 1) - march_days ?y"
  proof (cases "m = 2")
    case True
    then show ?thesis using v february_end [of y] march_days_Suc [of "y - 1"] by (auto split: if_splits)
  next
    case False
    have "month_start (?k + 1) \<le> month_start 11"
      by (rule month_start_mono) (use v False in \<open>auto\<close>)
    moreover have "month_start 11 = 337" by (simp add: month_start_def)
    ultimately show ?thesis
      using month_start_Suc [OF v(1,2) False, of y] v march_days_Suc [of ?y] by (auto split: if_splits)
  qed
  then show "march_days ?y + month_start ?k + d - 1 < march_days (?y + 1)" by simp
qed

section \<open>Day numbers are faithful to the calendar\<close>

lemma month_start_less:
  assumes "1 \<le> m" "m \<le> 12" "d \<le> daysInMonth y m" "1 \<le> d'"
    and "(if m \<le> 2 then m + 9 else m - 3) < (if m' \<le> 2 then m' + 9 else m' - 3)" and "m' \<le> 12"
  shows "month_start (if m \<le> 2 then m + 9 else m - 3) + d < month_start (if m' \<le> 2 then m' + 9 else m' - 3) + d'"
proof -
  let ?k = "if m \<le> 2 then m + 9 else m - 3" and ?k' = "if m' \<le> 2 then m' + 9 else m' - 3"
  have "m \<noteq> 2" using assms(5,6) by (auto split: if_splits)
  then have "month_start (?k + 1) = month_start ?k + daysInMonth y m"
    by (rule month_start_Suc [OF assms(1,2)])
  moreover have "month_start (?k + 1) \<le> month_start ?k'"
    by (rule month_start_mono) (use assms(5) in linarith)
  ultimately show ?thesis using assms(3,4) by linarith
qed

lemma daysFromCivil_inj:
  assumes "valid_date y m d" and "valid_date y' m' d'" and "daysFromCivil y m d = daysFromCivil y' m' d'"
  shows "y = y' \<and> m = m' \<and> d = d'"
proof -
  let ?Y = "if m \<le> 2 then y - 1 else y" and ?Y' = "if m' \<le> 2 then y' - 1 else y'"
  let ?k = "if m \<le> 2 then m + 9 else m - 3" and ?k' = "if m' \<le> 2 then m' + 9 else m' - 3"
  have v: "0 \<le> y" "1 \<le> m" "m \<le> 12" "1 \<le> d" "d \<le> daysInMonth y m"
    "0 \<le> y'" "1 \<le> m'" "m' \<le> 12" "1 \<le> d'" "d' \<le> daysInMonth y' m'"
    using assms(1,2) by (auto simp: valid_date_def)
  have eq: "march_days ?Y + month_start ?k + d = march_days ?Y' + month_start ?k' + d'"
    using assms(3) v by (simp add: daysFromCivil_march)
  have Y: "?Y = ?Y'"
  proof (rule ccontr)
    assume "?Y \<noteq> ?Y'"
    then consider "?Y < ?Y'" | "?Y' < ?Y" by linarith
    then show False
      using doy_bounds [OF assms(1)] doy_bounds [OF assms(2)] march_days_less [of ?Y ?Y']
        march_days_less [of ?Y' ?Y] eq by cases linarith+
  qed
  have k: "?k = ?k'"
  proof (rule ccontr)
    assume "?k \<noteq> ?k'"
    then consider "?k < ?k'" | "?k' < ?k" by linarith
    then show False
      using month_start_less [of m d y d' m'] month_start_less [of m' d' y' d m] v eq unfolding Y
      by cases linarith+
  qed
  have m: "m = m'" using k v by (auto split: if_splits)
  moreover have "y = y'" using Y m by (auto split: if_splits)
  moreover have "d = d'" using eq Y m k by simp
  ultimately show ?thesis by simp
qed

lemma daysFromCivil_next:
  assumes "valid_date y m d" and "next_date y m d = (y', m', d')"
  shows "daysFromCivil y' m' d' = daysFromCivil y m d + 1" and "valid_date y' m' d'"
proof -
  have v: "0 \<le> y" "1 \<le> m" "m \<le> 12" "1 \<le> d" "d \<le> daysInMonth y m"
    using assms(1) by (auto simp: valid_date_def)
  show "valid_date y' m' d'"
    using assms(2) v daysInMonth_range [of "m + 1" y] daysInMonth_range [of 1 "y + 1"]
    by (auto simp: valid_date_def next_date_def split: if_splits)
  show "daysFromCivil y' m' d' = daysFromCivil y m d + 1"
  proof (cases "d < daysInMonth y m")
    case True
    then show ?thesis using assms(2) v by (auto simp: next_date_def daysFromCivil_march)
  next
    case False
    with v have d: "d = daysInMonth y m" by simp
    consider "m = 2" | "m = 12" | "m \<noteq> 2" "m < 12" using v by linarith
    then show ?thesis
    proof cases
      case 1
      then show ?thesis
        using assms(2) d v february_end [of y] march_days_Suc [of "y - 1"]
        by (auto simp: next_date_def daysFromCivil_march month_start_def)
    next
      case 2
      then show ?thesis
        using assms(2) d v month_start_Suc [of 12 y] by (auto simp: next_date_def daysFromCivil_march)
    next
      case 3
      then show ?thesis
        using assms(2) d v month_start_Suc [of m y] by (auto simp: next_date_def daysFromCivil_march)
    qed
  qed
qed

section \<open>Property\<close>

text \<open>
  Day numbers count civil days: 1 January 1970 is day 0, the day after a valid date (over month
  ends, leap days and new years) is a valid date with the next number, and two different valid dates
  never share a number.
\<close>

theorem calendar_day_numbers:
  assumes "valid_date y m d" and "next_date y m d = (y', m', d')" and "valid_date y2 m2 d2"
    and "(y2, m2, d2) \<noteq> (y, m, d)"
  shows "daysFromCivil 1970 1 1 = 0 \<and> valid_date y' m' d' \<and>
    daysFromCivil y' m' d' = daysFromCivil y m d + 1 \<and> daysFromCivil y2 m2 d2 \<noteq> daysFromCivil y m d"
proof -
  have "daysFromCivil 1970 1 1 = 0" by code_simp
  then show ?thesis
    using daysFromCivil_next [OF assms(1,2)] daysFromCivil_inj [OF assms(3,1)] assms(4) by blast
qed

theorem calendar_day_numbers_witness:
  "next_date 2024 2 29 = (2024, 3, 1) \<and> daysFromCivil 2024 3 1 = daysFromCivil 2024 2 29 + 1"
  using calendar_day_numbers [of 2024 2 29 2024 3 1 2000 1 1]
  by (simp add: valid_date_def next_date_def daysInMonth_def isLeapYear_def kDays_def)

end
