(* ===== verification/Binary64.thy ===== *)
theory Binary64
  imports Prelude Complex_Main
begin

text \<open>
  The \<^verbatim>\<open>double\<close> arithmetic the server uses: \<^verbatim>\<open>std::from_chars\<close> on a field of a log line, the running sum of
  the speeds, the final division, and the conversions of the CSV writer.  A finite double is the
  rational number it stands for, an operation is the exact result rounded to nearest, ties to even,
  in the binary64 format (53 bits of precision, subnormals below \<open>2 ^ -1022\<close>).  Only non-negative
  values are ever rounded here; a sign is put back after the magnitude is rounded.
\<close>

section \<open>Rounding\<close>

fun ilog2 :: "nat \<Rightarrow> nat" where
  "ilog2 n = (if n < 2 then 0 else Suc (ilog2 (n div 2)))"

declare ilog2.simps [simp del]

text \<open>The binary exponent of a positive rational: \<open>2 ^ e \<le> x < 2 ^ (e + 1)\<close>.\<close>

definition exponent :: "rat \<Rightarrow> int" where
  "exponent x =
    (let (p, q) = quotient_of x; e = int (ilog2 (nat p)) - int (ilog2 (nat q))
     in if 2 powi e \<le> x then e else e - 1)"

definition round_even :: "rat \<Rightarrow> int" where
  "round_even y =
    (let f = \<lfloor>y\<rfloor>; d = y - of_int f
     in if d < 1 / 2 then f else if 1 / 2 < d then f + 1 else if even f then f else f + 1)"

text \<open>The spacing of the doubles around a positive value.\<close>

definition ulp :: "rat \<Rightarrow> rat" where
  "ulp x = 2 powi (max (exponent x) (- 1022) - 52)"

definition rnd :: "rat \<Rightarrow> rat" where
  "rnd x = (if x \<le> 0 then 0 else of_int (round_even (x / ulp x)) * ulp x)"

definition max_double :: rat where
  "max_double = 2 powi 1024"

section \<open>Parsing\<close>

datatype dval = Finite rat | Infinity | NaN

definition lower_char :: "char \<Rightarrow> char" where
  "lower_char c = (if 65 \<le> byte_nat c \<and> byte_nat c \<le> 90 then chr_of (u8_of c + 32) else c)"

definition starts_ci :: "string \<Rightarrow> string \<Rightarrow> bool" where
  "starts_ci w s \<longleftrightarrow> map lower_char (take (length w) s) = w"

text \<open>
  The exponent part after the digits: the letter counts only with at least one digit behind it (and
  its optional sign).  Result: the exponent and how many characters it takes.
\<close>

definition scan_exponent :: "string \<Rightarrow> int \<times> nat" where
  "scan_exponent s =
    (if s \<noteq> [] \<and> (hd s = CHR ''e'' \<or> hd s = CHR ''E'') then
       let r = tl s; neg = (r \<noteq> [] \<and> hd r = CHR ''-''); sgn = (r \<noteq> [] \<and> (hd r = CHR ''-'' \<or> hd r = CHR ''+''));
           ds = takeWhile is_digit (if sgn then tl r else r) in
       if ds = [] then (0, 0)
       else (if neg then - int (digits_val ds) else int (digits_val ds),
             Suc (length ds + (if sgn then 1 else 0)))
     else (0, 0))"

text \<open>
  \<^verbatim>\<open>std::from_chars\<close> for \<^verbatim>\<open>double\<close> in the general format: an optional minus, then digits with an optional
  point and exponent, or \<^verbatim>\<open>inf\<close>, \<^verbatim>\<open>infinity\<close>, \<^verbatim>\<open>nan\<close>.  No plus sign and no leading blank.  A magnitude that
  rounds to \<open>2 ^ 1024\<close> or, not being zero, to zero is out of range.  Result: the error, the value, and
  the number of characters taken.
\<close>

definition from_chars_double :: "string \<Rightarrow> errc \<times> dval \<times> nat" where
  "from_chars_double s =
    (let neg = (s \<noteq> [] \<and> hd s = CHR ''-''); b = (if neg then tl s else s); o1 = (if neg then 1 else 0) in
     if starts_ci ''infinity'' b then (ErrcOk, Infinity, o1 + 8)
     else if starts_ci ''inf'' b then (ErrcOk, Infinity, o1 + 3)
     else if starts_ci ''nan'' b then (ErrcOk, NaN, o1 + 3)
     else
       let ip = takeWhile is_digit b; r1 = drop (length ip) b;
           pt = (r1 \<noteq> [] \<and> hd r1 = CHR ''.'');
           fp = (if pt then takeWhile is_digit (tl r1) else []);
           r2 = (if pt then drop (length fp) (tl r1) else r1);
           (ex, exn) = scan_exponent r2;
           n = o1 + length ip + (if pt then 1 else 0) + length fp + exn;
           mag = of_nat (digits_val (ip @ fp)) * 10 powi (ex - int (length fp)) in
       if ip @ fp = [] then (InvalidArgument, Finite 0, 0)
       else if max_double \<le> rnd mag \<or> (mag \<noteq> 0 \<and> rnd mag = 0) then (ResultOutOfRange, Finite 0, n)
       else (ErrcOk, Finite (if neg then - rnd mag else rnd mag), n))"

section \<open>Facts about exponents\<close>

lemma ilog2_bounds: "0 < n \<Longrightarrow> 2 ^ ilog2 n \<le> n \<and> n < 2 ^ Suc (ilog2 n)"
proof (induction n rule: ilog2.induct)
  case (1 n)
  show ?case
  proof (cases "n < 2")
    case True
    with 1 show ?thesis by (simp add: ilog2.simps)
  next
    case False
    then have "2 ^ ilog2 (n div 2) \<le> n div 2 \<and> n div 2 < 2 ^ Suc (ilog2 (n div 2))"
      using 1 by simp
    with False show ?thesis by (simp add: ilog2.simps [of n]) linarith
  qed
qed

lemma powi_le_mono: "a \<le> b \<Longrightarrow> (2 :: rat) powi a \<le> 2 powi b"
  by (rule power_int_increasing) simp_all

lemma powi_pos [simp]: "0 < (2 :: rat) powi a"
  by (simp add: zero_less_power_int)

lemma powi_Suc: "(2 :: rat) powi (a + 1) = 2 * 2 powi a"
  by (simp add: power_int_add)

lemma powi_nat: "(2 :: rat) powi int n = 2 ^ n"
  by simp

lemma ilog2_rat:
  assumes "0 < p"
  shows "(2 :: rat) ^ ilog2 (nat p) \<le> of_int p \<and> of_int p < 2 * (2 :: rat) ^ ilog2 (nat p)"
proof -
  have n: "of_int p = (of_nat (nat p) :: rat)" using assms by simp
  have "(of_nat (2 ^ ilog2 (nat p)) :: rat) \<le> of_nat (nat p)" "of_nat (nat p) < (of_nat (2 ^ Suc (ilog2 (nat p))) :: rat)"
    using ilog2_bounds [of "nat p"] assms unfolding of_nat_le_iff of_nat_less_iff by simp_all
  then show ?thesis unfolding n by simp
qed

lemma exponent_bounds:
  assumes "0 < x"
  shows "2 powi exponent x \<le> x" and "x < 2 powi (exponent x + 1)"
proof -
  obtain p q where pq: "quotient_of x = (p, q)" by fastforce
  have q: "0 < q" and x: "x = of_int p / of_int q"
    using quotient_of_denom_pos [OF pq] quotient_of_div [OF pq] by simp_all
  then have p: "0 < p" using assms by (simp add: zero_less_divide_iff)
  define A B where "A = (2 :: rat) ^ ilog2 (nat p)" and "B = (2 :: rat) ^ ilog2 (nat q)"
  define e where "e = int (ilog2 (nat p)) - int (ilog2 (nat q))"
  have AB: "A \<le> of_int p" "of_int p < 2 * A" "B \<le> of_int q" "of_int q < 2 * B" "0 < A" "0 < B"
    using ilog2_rat [OF p] ilog2_rat [OF q] by (simp_all add: A_def B_def)
  have e: "2 powi e = A / B" by (simp add: e_def A_def B_def power_int_diff)
  have "of_int p * B < 2 * A * of_int q"
    using AB p by (intro mult_less_le_imp_less) auto
  moreover have "A * of_int q < of_int p * (2 * B)"
    using AB q by (intro mult_le_less_imp_less) auto
  ultimately have hi: "x < 2 * 2 powi e" and lo: "2 powi e < 2 * x"
    using AB q by (simp_all add: x e field_simps)
  have ex: "exponent x = (if 2 powi e \<le> x then e else e - 1)"
    by (simp add: exponent_def pq e_def)
  have half: "2 * (2 :: rat) powi (e - 1) = 2 powi e" using powi_Suc [of "e - 1"] by simp
  show "2 powi exponent x \<le> x" using ex lo half by (auto split: if_splits)
  show "x < 2 powi (exponent x + 1)" using ex hi half by (auto simp: powi_Suc split: if_splits)
qed

section \<open>Facts about rounding\<close>

lemma round_even_of_int [simp]: "round_even (of_int n) = n"
  by (simp add: round_even_def)

lemma round_even_mono:
  assumes "x \<le> y"
  shows "round_even x \<le> round_even y"
proof (cases "\<lfloor>x\<rfloor> = \<lfloor>y\<rfloor>")
  case True
  with assms show ?thesis by (auto simp: round_even_def Let_def)
next
  case False
  with assms have lt: "\<lfloor>x\<rfloor> + 1 \<le> \<lfloor>y\<rfloor>" using floor_mono [OF assms] by linarith
  have "round_even x \<le> \<lfloor>x\<rfloor> + 1" and "\<lfloor>y\<rfloor> \<le> round_even y"
    by (simp_all add: round_even_def Let_def)
  with lt show ?thesis by linarith
qed

lemma round_even_le: "x \<le> of_int n \<Longrightarrow> round_even x \<le> n"
  and round_even_ge: "of_int n \<le> x \<Longrightarrow> n \<le> round_even x"
  using round_even_mono [of x "of_int n"] round_even_mono [of "of_int n" x] by simp_all

lemma ulp_pos [simp]: "0 < ulp x"
  by (simp add: ulp_def)

lemma rnd_nonneg [simp]: "0 \<le> rnd x"
proof (cases "x \<le> 0")
  case False
  then have "0 \<le> round_even (x / ulp x)"
    by (intro round_even_ge) (simp add: less_imp_le)
  then show ?thesis using False by (simp add: rnd_def less_imp_le)
qed (simp add: rnd_def)

text \<open>A value on the grid of its own spacing is a double, and rounding keeps it.\<close>

lemma rnd_grid:
  assumes "0 < x" and "x = of_int k * ulp x"
  shows "rnd x = x"
proof -
  have "x / ulp x = of_int k"
    using assms(2) ulp_pos [of x] by (metis nonzero_mult_div_cancel_right order_less_irrefl)
  then show ?thesis using assms by (simp add: rnd_def)
qed

lemma exponent_mono:
  assumes "0 < x" and "x \<le> y"
  shows "exponent x \<le> exponent y"
proof (rule ccontr)
  assume "\<not> exponent x \<le> exponent y"
  then have "(2 :: rat) powi (exponent y + 1) \<le> 2 powi exponent x" by (intro powi_le_mono) simp
  with exponent_bounds [of x] exponent_bounds [of y] assms show False by linarith
qed

text \<open>Rounding stays inside the binade: its upper end is itself a double.\<close>

lemma rnd_le_binade:
  assumes "0 < x" and "exponent x \<le> e" and "- 1022 \<le> e"
  shows "rnd x \<le> 2 powi (e + 1)"
proof -
  let ?e = "max (exponent x) (- 1022)"
  have "x < 2 powi (?e + 1)"
    using exponent_bounds(2) [OF assms(1)] powi_le_mono [of "exponent x + 1" "?e + 1"] by linarith
  then have "x / ulp x \<le> of_int (2 ^ 53)"
    by (simp add: ulp_def divide_le_eq flip: power_int_add) (simp add: power_int_add powi_Suc power_int_diff field_simps)
  then have "rnd x \<le> of_int (2 ^ 53) * ulp x"
    using assms(1) by (simp add: rnd_def round_even_le del: of_int_power)
  also have "\<dots> = 2 powi (?e + 1)"
    by (simp add: ulp_def power_int_add power_int_diff)
  also have "\<dots> \<le> 2 powi (e + 1)" by (rule powi_le_mono) (use assms in auto)
  finally show ?thesis .
qed

lemma rnd_ge_binade:
  assumes "0 < x" and "- 1022 \<le> exponent x"
  shows "2 powi exponent x \<le> rnd x"
proof -
  have u: "ulp x = 2 powi (exponent x - 52)" using assms(2) by (simp add: ulp_def)
  have "of_int (2 ^ 52) \<le> x / ulp x"
    using exponent_bounds(1) [OF assms(1)] by (simp add: u power_int_diff field_simps)
  then have "of_int (2 ^ 52) * ulp x \<le> rnd x"
    using assms(1) by (simp add: rnd_def round_even_ge del: of_int_power)
  then show ?thesis by (simp add: u power_int_diff)
qed

lemma rnd_mono:
  assumes "x \<le> y"
  shows "rnd x \<le> rnd y"
proof (cases "x \<le> 0")
  case True
  then show ?thesis by (simp add: rnd_def [of x])
next
  case False
  then have pos: "0 < x" "0 < y" using assms by simp_all
  let ?ex = "max (exponent x) (- 1022)" and ?ey = "max (exponent y) (- 1022)"
  have le: "?ex \<le> ?ey" using exponent_mono [OF pos(1) assms] by auto
  show ?thesis
  proof (cases "?ex = ?ey")
    case True
    then have u: "ulp y = ulp x" by (simp add: ulp_def)
    have "round_even (x / ulp x) \<le> round_even (y / ulp x)"
      using assms by (intro round_even_mono divide_right_mono) (simp_all add: less_imp_le)
    then show ?thesis using pos by (simp add: rnd_def u)
  next
    case False
    with le have ey: "?ey = exponent y" "?ex + 1 \<le> exponent y" by auto
    have "rnd x \<le> 2 powi (?ex + 1)" by (rule rnd_le_binade [OF pos(1)]) simp_all
    also have "\<dots> \<le> 2 powi exponent y" by (rule powi_le_mono [OF ey(2)])
    also have "\<dots> \<le> rnd y" by (rule rnd_ge_binade [OF pos(2)]) (use ey(1) in simp)
    finally show ?thesis .
  qed
qed

lemma rnd_of_nat:
  assumes "n < 2 ^ 53"
  shows "rnd (of_nat n) = of_nat n"
proof (cases "n = 0")
  case False
  define x e where "x = (of_nat n :: rat)" and "e = exponent x"
  have x: "0 < x" "1 \<le> x" using False by (simp_all add: x_def)
  have "x < 2 powi 53" using assms by (simp add: x_def)
  have lo: "0 \<le> e"
  proof (rule ccontr)
    assume "\<not> 0 \<le> e"
    then have "(2 :: rat) powi (e + 1) \<le> 2 powi 0" by (intro powi_le_mono) simp
    with exponent_bounds(2) [OF x(1)] x(2) show False by (simp add: e_def)
  qed
  have hi: "e \<le> 52"
  proof (rule ccontr)
    assume "\<not> e \<le> 52"
    then have "(2 :: rat) powi 53 \<le> 2 powi e" by (intro powi_le_mono) simp
    with exponent_bounds(1) [OF x(1)] \<open>x < 2 powi 53\<close> show False by (simp add: e_def)
  qed
  have u: "ulp x = 2 powi (e - 52)" using lo by (simp add: ulp_def e_def)
  have "(2 :: rat) powi (52 - e) * 2 powi (e - 52) = 2 powi ((52 - e) + (e - 52))"
    by (rule power_int_add [symmetric]) simp
  then have one: "(2 :: rat) powi (52 - e) * 2 powi (e - 52) = 1" by simp
  have "(2 :: rat) powi (52 - e) = of_int (2 ^ nat (52 - e))" using hi by (simp add: power_int_def)
  with one have "of_int (2 ^ nat (52 - e)) * ulp x = 1" by (simp only: u)
  moreover have "of_int (int n * 2 ^ nat (52 - e)) * ulp x = x * (of_int (2 ^ nat (52 - e)) * ulp x)"
    by (simp add: x_def)
  ultimately have "x = of_int (int n * 2 ^ nat (52 - e)) * ulp x" by (metis mult.right_neutral)
  then show ?thesis using rnd_grid [OF x(1)] unfolding x_def by blast
qed (simp add: rnd_def)

end
