(* ===== verification/LogLineParser.thy ===== *)
theory LogLineParser
  imports Calendar Binary64
begin

text \<open>
  The line validation pipeline of \<^verbatim>\<open>server/src/parser/LogLineParser.cpp\<close>, stage by stage: byte level,
  frame structure, timestamp, numbers, domain.  A line either yields a parsed record or the reason for
  skipping it; the only state is the time anchor, fixed by the first accepted line of a session.
\<close>

section \<open>Vocabulary\<close>

datatype SkipReason =
    LineTooLong | Empty | CtrlChar | BadFrame | BadBracket | BadTimestamp | TsOutOfRange
  | BadNumber | NumOutOfRange | UnknownModule | MapLimit

fun skipReasonCode :: "SkipReason \<Rightarrow> string" where
  "skipReasonCode LineTooLong = ''LINE_TOO_LONG''"
| "skipReasonCode Empty = ''EMPTY''"
| "skipReasonCode CtrlChar = ''CTRL_CHAR''"
| "skipReasonCode BadFrame = ''BAD_FRAME''"
| "skipReasonCode BadBracket = ''BAD_BRACKET''"
| "skipReasonCode BadTimestamp = ''BAD_TIMESTAMP''"
| "skipReasonCode TsOutOfRange = ''TS_OUT_OF_RANGE''"
| "skipReasonCode BadNumber = ''BAD_NUMBER''"
| "skipReasonCode NumOutOfRange = ''NUM_OUT_OF_RANGE''"
| "skipReasonCode UnknownModule = ''UNKNOWN_MODULE''"
| "skipReasonCode MapLimit = ''MAP_LIMIT''"

datatype ModuleId =
    RadarTrackNodeState | AntennaProfileSpec | BeamSteerCtrlUnitImpl | DetectionTaskRunner | SectorSchedulerRTS

definition all_modules :: "ModuleId list" where
  "all_modules = [RadarTrackNodeState, AntennaProfileSpec, BeamSteerCtrlUnitImpl, DetectionTaskRunner, SectorSchedulerRTS]"

record ModuleSpec =
  ms_name :: string
  ms_intFields :: "string list"
  ms_arrowField :: string

fun kModules :: "ModuleId \<Rightarrow> ModuleSpec" where
  "kModules RadarTrackNodeState =
    \<lparr>ms_name = ''RadarTrackNodeState'', ms_intFields = [''nodeUID'', ''rfLane''], ms_arrowField = ''lockState''\<rparr>"
| "kModules AntennaProfileSpec =
    \<lparr>ms_name = ''AntennaProfileSpec'', ms_intFields = [''sectorID'', ''''], ms_arrowField = ''''\<rparr>"
| "kModules BeamSteerCtrlUnitImpl =
    \<lparr>ms_name = ''BeamSteerCtrlUnitImpl'', ms_intFields = [''unitAddr'', ''''], ms_arrowField = ''''\<rparr>"
| "kModules DetectionTaskRunner =
    \<lparr>ms_name = ''DetectionTaskRunner'', ms_intFields = [''jobID'', ''''], ms_arrowField = ''''\<rparr>"
| "kModules SectorSchedulerRTS =
    \<lparr>ms_name = ''SectorSchedulerRTS'', ms_intFields = [''jobID'', ''gatedFlag''], ms_arrowField = ''''\<rparr>"

definition moduleName :: "ModuleId \<Rightarrow> string" where
  "moduleName i = ms_name (kModules i)"

definition kSpdMin :: rat where "kSpdMin = 0"
definition kSpdMax :: rat where "kSpdMax = 10000000"
definition kTsRangeHours :: int where "kTsRangeHours = 48"

record ParsedLine =
  pl_module :: ModuleId
  pl_year :: int
  pl_month :: int
  pl_day :: int
  pl_hour :: int
  pl_hasSpd :: bool
  pl_spdInRange :: bool
  pl_spd :: rat

record LogLineParser =
  lp_hasAnchor :: bool
  lp_anchorSeconds :: int

definition newParser :: LogLineParser where
  "newParser = \<lparr>lp_hasAnchor = False, lp_anchorSeconds = 0\<rparr>"

definition parser_reset :: "LogLineParser \<Rightarrow> LogLineParser" where
  "parser_reset p = p\<lparr>lp_hasAnchor := False, lp_anchorSeconds := 0\<rparr>"

section \<open>Field parsers\<close>

text \<open>\<open>None\<close> when the token is a number; the value itself is never used.\<close>

definition parseInt64Field :: "string \<Rightarrow> SkipReason option" where
  "parseInt64Field token =
    (if token = [] \<or> \<not> is_digit (hd token) then Some BadNumber
     else case from_chars_i64 token of (ec, v, n) \<Rightarrow>
       if ec = ResultOutOfRange then Some NumOutOfRange
       else if ec \<noteq> ErrcOk \<or> n \<noteq> length token then Some BadNumber
       else None)"

definition parseDoubleField :: "string \<Rightarrow> rat option" where
  "parseDoubleField token =
    (if token = [] then None
     else case from_chars_double token of (ec, v, n) \<Rightarrow>
       (case v of Finite x \<Rightarrow> if ec = ErrcOk \<and> n = length token then Some x else None
        | _ \<Rightarrow> None))"

definition allDigits :: "string \<Rightarrow> bool" where
  "allDigits s \<longleftrightarrow> s \<noteq> [] \<and> list_all is_digit s"

definition isArrowPair :: "string \<Rightarrow> bool" where
  "isArrowPair token =
    (case sv_find token ''->'' 0 of
       None \<Rightarrow> False
     | Some arrow \<Rightarrow> arrow \<noteq> 0 \<and> allDigits (take arrow token) \<and> allDigits (drop (arrow + 2) token))"

definition allDigitsAt :: "string \<Rightarrow> nat \<Rightarrow> nat \<Rightarrow> bool" where
  "allDigitsAt s pos count = list_all (\<lambda>i. is_digit (s ! i)) [pos..<pos + count]"

definition digitsToInt :: "string \<Rightarrow> nat \<Rightarrow> nat \<Rightarrow> int" where
  "digitsToInt s pos count = foldl (\<lambda>v i. v * 10 + int (digit_val (s ! i))) 0 [pos..<pos + count]"

definition timestamp_format :: "string \<Rightarrow> bool" where
  "timestamp_format ts \<longleftrightarrow>
    length ts = 26 \<and> ts ! 4 = CHR ''-'' \<and> ts ! 7 = CHR ''-'' \<and> ts ! 10 = CHR ''_'' \<and> ts ! 13 = CHR '':'' \<and>
    ts ! 16 = CHR '':'' \<and> ts ! 19 = CHR ''.'' \<and>
    allDigitsAt ts 0 4 \<and> allDigitsAt ts 5 2 \<and> allDigitsAt ts 8 2 \<and> allDigitsAt ts 11 2 \<and>
    allDigitsAt ts 14 2 \<and> allDigitsAt ts 17 2 \<and> allDigitsAt ts 20 6"

text \<open>Result: year, month, day, hour and the absolute second.\<close>

definition parseTimestamp :: "string \<Rightarrow> (int \<times> int \<times> int \<times> int \<times> int) option" where
  "parseTimestamp ts =
    (if \<not> timestamp_format ts then None
     else
       let year = digitsToInt ts 0 4; month = digitsToInt ts 5 2; day = digitsToInt ts 8 2;
           hour = digitsToInt ts 11 2; minute = digitsToInt ts 14 2; second = digitsToInt ts 17 2 in
       if month < 1 \<or> 12 < month \<or> day < 1 \<or> daysInMonth year month < day \<or> 23 < hour \<or>
          59 < minute \<or> 59 < second then None
       else Some (year, month, day, hour,
         daysFromCivil year month day * 86400 + hour * 3600 + minute * 60 + second))"

text \<open>The state of the bracket scan: whether a bracket is open, and how much it holds.\<close>

fun brackets_scan :: "bool \<Rightarrow> nat \<Rightarrow> string \<Rightarrow> bool" where
  "brackets_scan opn len [] = (\<not> opn)"
| "brackets_scan opn len (ch # s) =
    (if ch = CHR ''['' then (if opn then False else brackets_scan True 0 s)
     else if ch = CHR '']'' then (if \<not> opn \<or> len = 0 then False else brackets_scan False len s)
     else if opn then brackets_scan opn (len + 1) s
     else brackets_scan opn len s)"

definition bracketsSane :: "string \<Rightarrow> bool" where
  "bracketsSane message = brackets_scan False 0 message"

function findField_from :: "string \<Rightarrow> string \<Rightarrow> nat \<Rightarrow> string option" where
  "findField_from msg name pos =
    (if pos < length msg then
       (case sv_find msg name pos of
          None \<Rightarrow> None
        | Some found \<Rightarrow>
            let boundaryOk = (found = 0 \<or> msg ! (found - 1) \<in> {CHR '' '', CHR '','', CHR '':''});
                bracket = found + length name in
            if boundaryOk \<and> bracket < length msg \<and> msg ! bracket = CHR ''['' then
              (case sv_find_char msg (CHR '']'') (bracket + 1) of
                 None \<Rightarrow> None
               | Some close \<Rightarrow> Some (sv_substr msg (bracket + 1) (close - bracket - 1)))
            else findField_from msg name (found + 1))
     else None)"
  by auto
termination
proof (relation "measure (\<lambda>(msg, name, pos). length msg - pos)", goal_cases)
  case (2 msg name pos found x xa)
  then show ?case using sv_find_SomeD(1) [of msg name pos found] by auto
qed simp

declare findField_from.simps [simp del]

definition findField :: "string \<Rightarrow> string \<Rightarrow> string option" where
  "findField msg name = findField_from msg name 0"

section \<open>Stages\<close>

definition is_ctrl :: "char \<Rightarrow> bool" where
  "is_ctrl ch \<longleftrightarrow> byte_nat ch < 32 \<or> byte_nat ch = 127"

text \<open>The loop over the four bracketed header tokens, from position \<open>pos\<close>.\<close>

fun headerTokens :: "string \<Rightarrow> nat \<Rightarrow> nat \<Rightarrow> SkipReason + string list \<times> nat" where
  "headerTokens text 0 pos = Inr ([], pos)"
| "headerTokens text (Suc n) pos =
    (if length text \<le> pos \<or> text ! pos \<noteq> CHR ''['' then Inl BadFrame
     else case sv_find_char text (CHR '']'') (pos + 1) of
       None \<Rightarrow> Inl BadFrame
     | Some close \<Rightarrow>
         if close = pos + 1 then Inl BadFrame
         else case headerTokens text n (close + 1) of
           Inl r \<Rightarrow> Inl r
         | Inr (toks, p) \<Rightarrow> Inr (sv_substr text (pos + 1) (close - pos - 1) # toks, p))"

definition kSeparator :: string where
  "kSeparator = '' BYDA::''"

text \<open>The frame: header tokens, module name and message.\<close>

definition parseFrame :: "string \<Rightarrow> SkipReason + string list \<times> string \<times> string" where
  "parseFrame text =
    (case headerTokens text 4 0 of
       Inl r \<Rightarrow> Inl r
     | Inr (toks, pos0) \<Rightarrow>
         if sv_substr text pos0 (length kSeparator) \<noteq> kSeparator then Inl BadFrame
         else
           let pos = pos0 + length kSeparator in
           case sv_find_char text (CHR '':'') pos of
             None \<Rightarrow> Inl BadFrame
           | Some moduleEnd \<Rightarrow>
               if moduleEnd = pos \<or> length text \<le> moduleEnd + 1 \<or> text ! (moduleEnd + 1) \<noteq> CHR '' '' then Inl BadFrame
               else Inr (toks, sv_substr text pos (moduleEnd - pos), drop (moduleEnd + 2) text))"

fun firstBadInt :: "string list \<Rightarrow> SkipReason option" where
  "firstBadInt [] = None"
| "firstBadInt (t # ts) = (case parseInt64Field t of Some r \<Rightarrow> Some r | None \<Rightarrow> firstBadInt ts)"

text \<open>The documented integer fields of a module: strict when present, an empty name is no field.\<close>

fun checkIntFields :: "string \<Rightarrow> string list \<Rightarrow> SkipReason option" where
  "checkIntFields message [] = None"
| "checkIntFields message (f # fs) =
    (if f = [] then checkIntFields message fs
     else case findField message f of
       None \<Rightarrow> checkIntFields message fs
     | Some token \<Rightarrow> (case parseInt64Field token of Some r \<Rightarrow> Some r | None \<Rightarrow> checkIntFields message fs))"

definition find_module :: "string \<Rightarrow> ModuleId option" where
  "find_module name = List.find (\<lambda>i. moduleName i = name) all_modules"

text \<open>The speed fields of a BeamSteer line: whether there is a speed, whether it is in range, its value.\<close>

definition checkSpeed :: "string \<Rightarrow> SkipReason + bool \<times> bool \<times> rat" where
  "checkSpeed message =
    (let spdToken = findField message ''spd''; advToken = findField message ''advDelta'';
         spdVal = (case spdToken of None \<Rightarrow> Some 0 | Some t \<Rightarrow> parseDoubleField t);
         advVal = (case advToken of None \<Rightarrow> Some 0 | Some t \<Rightarrow> parseDoubleField t) in
     case spdVal of
       None \<Rightarrow> Inl BadNumber
     | Some spd \<Rightarrow>
         (case advVal of
            None \<Rightarrow> Inl BadNumber
          | Some _ \<Rightarrow>
              if spdToken = None then Inr (False, False, 0)
              else let ok = (kSpdMin \<le> spd \<and> spd < kSpdMax) in Inr (True, ok, if ok then spd else 0)))"

definition ts_in_range :: "LogLineParser \<Rightarrow> int \<Rightarrow> bool" where
  "ts_in_range p absSeconds \<longleftrightarrow>
    lp_hasAnchor p \<longrightarrow>
      (let limit = kTsRangeHours * 3600; delta = absSeconds - lp_anchorSeconds p in
       \<not> (limit < delta \<or> delta < - limit))"

text \<open>Stage 4: brackets, module whitelist, the module's fields, the speed.\<close>

definition parseDomain :: "string \<Rightarrow> string \<Rightarrow> SkipReason + ModuleId \<times> bool \<times> bool \<times> rat" where
  "parseDomain modname message =
    (if \<not> bracketsSane message then Inl BadBracket
     else case find_module modname of
       None \<Rightarrow> Inl UnknownModule
     | Some i \<Rightarrow>
         (case checkIntFields message (ms_intFields (kModules i)) of
            Some r \<Rightarrow> Inl r
          | None \<Rightarrow>
              let af = ms_arrowField (kModules i) in
              if af \<noteq> [] \<and> (case findField message af of None \<Rightarrow> False | Some t \<Rightarrow> \<not> isArrowPair t)
              then Inl BadNumber
              else if i = BeamSteerCtrlUnitImpl then
                (case checkSpeed message of Inl r \<Rightarrow> Inl r | Inr s \<Rightarrow> Inr (i, s))
              else Inr (i, False, False, 0)))"

text \<open>The checks of all stages, in order; an accepted line comes with its absolute second.\<close>

definition checkLine :: "LogLineParser \<Rightarrow> string \<Rightarrow> bool \<Rightarrow> SkipReason + ParsedLine \<times> int" where
  "checkLine p text tooLong =
    (if tooLong then Inl LineTooLong
     else if list_all (\<lambda>ch. ch = CHR '' '') text then Inl Empty
     else if list_ex is_ctrl text then Inl CtrlChar
     else case parseFrame text of
       Inl r \<Rightarrow> Inl r
     | Inr (toks, modname, message) \<Rightarrow>
         (case parseTimestamp (toks ! 0) of
            None \<Rightarrow> Inl BadTimestamp
          | Some (year, month, day, hour, absSeconds) \<Rightarrow>
              if \<not> ts_in_range p absSeconds then Inl TsOutOfRange
              else
                (case firstBadInt (tl toks) of
                   Some r \<Rightarrow> Inl r
                 | None \<Rightarrow>
                     (case parseDomain modname message of
                        Inl r \<Rightarrow> Inl r
                      | Inr (i, hasSpd, inRange, spd) \<Rightarrow>
                          Inr (\<lparr>pl_module = i, pl_year = year, pl_month = month, pl_day = day, pl_hour = hour,
                                pl_hasSpd = hasSpd, pl_spdInRange = inRange, pl_spd = spd\<rparr>, absSeconds)))))"

definition parse :: "LogLineParser \<Rightarrow> string \<Rightarrow> bool \<Rightarrow> LogLineParser \<times> (SkipReason + ParsedLine)" where
  "parse p text tooLong =
    (case checkLine p text tooLong of
       Inl r \<Rightarrow> (p, Inl r)
     | Inr (line, absSeconds) \<Rightarrow>
         (if lp_hasAnchor p then p else p\<lparr>lp_hasAnchor := True, lp_anchorSeconds := absSeconds\<rparr>, Inr line))"

section \<open>The frame, as text\<close>

definition bracketed :: "string list \<Rightarrow> string" where
  "bracketed toks = concat (map (\<lambda>t. ''['' @ t @ '']'') toks)"

definition frame_text :: "string list \<Rightarrow> string \<Rightarrow> string \<Rightarrow> string" where
  "frame_text toks modname message = bracketed toks @ kSeparator @ modname @ '': '' @ message"

definition token_ok :: "string \<Rightarrow> bool" where
  "token_ok t \<longleftrightarrow> t \<noteq> [] \<and> CHR '']'' \<notin> set t"

lemma bracketed_simps [simp]:
  "bracketed [] = []" "bracketed (t # ts) = CHR ''['' # t @ CHR '']'' # bracketed ts"
  by (simp_all add: bracketed_def)

lemma headerTokens_sound:
  assumes "headerTokens text n pos = Inr (toks, p)" and "pos \<le> length text"
  shows "length toks = n \<and> list_all token_ok toks \<and> p \<le> length text \<and> drop pos text = bracketed toks @ drop p text"
  using assms
proof (induction n arbitrary: pos toks)
  case (Suc n)
  then have lt: "pos < length text" and br: "text ! pos = CHR ''[''"
    by (auto split: if_splits)
  from Suc.prems(1) lt br obtain close ts where
    c: "sv_find_char text (CHR '']'') (pos + 1) = Some close" "close \<noteq> pos + 1" and
    h: "headerTokens text n (close + 1) = Inr (ts, p)" and
    t: "toks = sv_substr text (pos + 1) (close - pos - 1) # ts"
    by (auto split: option.splits if_splits sum.splits)
  note sp = sv_find_char_split [OF c(1)] and bd = sv_find_char_bounds [OF c(1)]
  have "drop pos text = CHR ''['' # drop (pos + 1) text"
    using lt br by (metis Cons_nth_drop_Suc Suc_eq_plus1)
  moreover have "sv_substr text (pos + 1) (close - (pos + 1)) \<noteq> []"
    using bd c(2) by (simp add: sv_substr_def)
  ultimately show ?case
    using Suc.IH [OF h] sp bd t by (simp add: token_ok_def)
qed simp

lemma headerTokens_complete:
  assumes "drop pos text = bracketed toks @ rest" and "list_all token_ok toks"
  shows "headerTokens text (length toks) pos = Inr (toks, pos + length (bracketed toks))"
  using assms
proof (induction toks arbitrary: pos)
  case (Cons t ts)
  let ?r = "bracketed ts @ rest"
  have dr: "drop pos text = CHR ''['' # t @ CHR '']'' # ?r" using Cons.prems(1) by simp
  then have lt: "pos < length text" by (metis drop_all not_le list.distinct(1))
  have br: "text ! pos = CHR ''[''" using dr lt by (metis Cons_nth_drop_Suc list.inject)
  have d1: "drop (pos + 1) text = t @ CHR '']'' # ?r"
    using dr lt by (metis Cons_nth_drop_Suc Suc_eq_plus1 list.inject)
  have t: "t \<noteq> []" "CHR '']'' \<notin> set t" using Cons.prems(2) by (simp_all add: token_ok_def)
  have c: "sv_find_char text (CHR '']'') (pos + 1) = Some (pos + 1 + length t)"
    by (rule sv_find_char_append [OF d1 t(2)])
  have d2: "drop (pos + 1 + length t + 1) text = ?r"
    using arg_cong [OF d1, of "drop (length t + 1)"] by (simp add: add.commute add.left_commute)
  have "headerTokens text (length ts) (pos + 1 + length t + 1) =
      Inr (ts, pos + 1 + length t + 1 + length (bracketed ts))"
    by (rule Cons.IH [OF d2]) (use Cons.prems(2) in simp)
  moreover have "sv_substr text (Suc pos) (length t) = t" using d1 by (simp add: sv_substr_def)
  ultimately show ?case using lt br c t(1) by simp
qed simp

text \<open>The frame check accepts exactly the texts of the documented shape, and returns their parts.\<close>

lemma parseFrame_iff:
  "parseFrame text = Inr (toks, modname, message) \<longleftrightarrow>
    length toks = 4 \<and> list_all token_ok toks \<and> modname \<noteq> [] \<and> CHR '':'' \<notin> set modname \<and>
    text = frame_text toks modname message"
proof
  assume "parseFrame text = Inr (toks, modname, message)"
  then obtain p e where
    h: "headerTokens text 4 0 = Inr (toks, p)" and
    sep: "sv_substr text p (length kSeparator) = kSeparator" and
    e: "sv_find_char text (CHR '':'') (p + length kSeparator) = Some e" "e \<noteq> p + length kSeparator" and
    sp: "e + 1 < length text" "text ! (e + 1) = CHR '' ''" and
    m: "modname = sv_substr text (p + length kSeparator) (e - (p + length kSeparator))"
      "message = drop (e + 2) text"
    by (auto simp: parseFrame_def Let_def split: sum.splits prod.splits if_splits option.splits)
  note H = headerTokens_sound [OF h] and S = sv_find_char_split [OF e(1)] and B = sv_find_char_bounds [OF e(1)]
  have ps: "drop p text = kSeparator @ drop (p + length kSeparator) text"
    using drop_split [of p "text" "length kSeparator"] sep by (simp add: sv_substr_def)
  have ms: "drop (e + 1) text = CHR '' '' # message"
    using sp m(2) by (metis Cons_nth_drop_Suc Suc_eq_plus1 add_Suc_right one_add_one)
  have "text = bracketed toks @ drop p text" using H by simp
  then have "text = frame_text toks modname message"
    unfolding ps S(2) m(1) [symmetric] ms frame_text_def by simp
  moreover have "modname \<noteq> []" using e(2) B m(1) by (simp add: sv_substr_def)
  ultimately show "length toks = 4 \<and> list_all token_ok toks \<and> modname \<noteq> [] \<and> CHR '':'' \<notin> set modname \<and>
      text = frame_text toks modname message"
    using H S(1) m(1) by simp
next
  assume a: "length toks = 4 \<and> list_all token_ok toks \<and> modname \<noteq> [] \<and> CHR '':'' \<notin> set modname \<and>
    text = frame_text toks modname message"
  let ?p = "length (bracketed toks)" and ?q = "length (bracketed toks) + length kSeparator"
  have d0: "drop 0 text = bracketed toks @ (kSeparator @ modname @ '': '' @ message)"
    using a by (simp add: frame_text_def)
  have h: "headerTokens text 4 0 = Inr (toks, ?p)"
    using headerTokens_complete [OF d0] a by simp
  have sep: "sv_substr text ?p (length kSeparator) = kSeparator"
    using a by (simp add: frame_text_def sv_substr_def)
  have d1: "drop ?q text = modname @ CHR '':'' # '' '' @ message"
    using a by (simp add: frame_text_def)
  have c: "sv_find_char text (CHR '':'') ?q = Some (?q + length modname)"
    by (rule sv_find_char_append [OF d1]) (use a in simp)
  have "text = (bracketed toks @ kSeparator @ modname @ '':'') @ CHR '' '' # message"
    using a by (simp add: frame_text_def)
  then have "text ! (?q + length modname + 1) = CHR '' ''" "?q + length modname + 1 < length text"
    "drop (?q + length modname + 2) text = message"
    by (simp_all add: nth_append)
  then show "parseFrame text = Inr (toks, modname, message)"
    using h sep c a d1 by (simp add: parseFrame_def Let_def sv_substr_def)
qed

section \<open>Fields\<close>

text \<open>An unsigned decimal that fits a signed 64-bit integer.\<close>

definition int_token :: "string \<Rightarrow> bool" where
  "int_token t \<longleftrightarrow> allDigits t \<and> digits_val t < 2 ^ 63"

lemma takeWhile_eq_length: "length (takeWhile P xs) = length xs \<longleftrightarrow> list_all P xs"
  by (induction xs) auto

lemma minus_not_digit [simp]: "\<not> is_digit (CHR ''-'')"
  by (simp add: is_digit_def byte_nat_def)

lemma parseInt64Field_None: "parseInt64Field t = None \<longleftrightarrow> int_token t"
proof (cases "t = [] \<or> \<not> is_digit (hd t)")
  case True
  then show ?thesis by (cases t) (auto simp: parseInt64Field_def int_token_def allDigits_def)
next
  case False
  then have hd: "hd t \<noteq> CHR ''-''" and tw: "takeWhile is_digit t \<noteq> []" by (cases t; auto)+
  show ?thesis
  proof (cases "list_all is_digit t")
    case all: True
    then have tw2: "takeWhile is_digit t = t" by (simp add: takeWhile_eq_all_conv list_all_iff)
    show ?thesis
      using False hd all
      by (auto simp: parseInt64Field_def from_chars_i64_def Let_def int_token_def allDigits_def tw2)
  next
    case nall: False
    then have "length (takeWhile is_digit t) \<noteq> length t" by (simp add: takeWhile_eq_length)
    with False hd tw nall show ?thesis
      by (auto simp: parseInt64Field_def from_chars_i64_def Let_def int_token_def allDigits_def)
  qed
qed

lemma firstBadInt_None: "firstBadInt ts = None \<longleftrightarrow> list_all int_token ts"
  by (induction ts) (auto simp flip: parseInt64Field_None split: option.splits)

definition int_field_ok :: "string \<Rightarrow> string \<Rightarrow> bool" where
  "int_field_ok msg f \<longleftrightarrow> f = [] \<or> (case findField msg f of None \<Rightarrow> True | Some t \<Rightarrow> int_token t)"

lemma checkIntFields_None: "checkIntFields msg fs = None \<longleftrightarrow> list_all (int_field_ok msg) fs"
  by (induction fs) (auto simp: int_field_ok_def simp flip: parseInt64Field_None split: option.splits)

definition arrow_field_ok :: "string \<Rightarrow> string \<Rightarrow> bool" where
  "arrow_field_ok msg f \<longleftrightarrow> f = [] \<or> (case findField msg f of None \<Rightarrow> True | Some t \<Rightarrow> isArrowPair t)"

lemma find_module_Some: "find_module name = Some i \<longleftrightarrow> moduleName i = name"
  by (cases i) (auto simp: find_module_def all_modules_def moduleName_def)

lemma parseDomain_Inr:
  "parseDomain modname msg = Inr (i, s) \<longleftrightarrow>
    bracketsSane msg \<and> modname = moduleName i \<and> list_all (int_field_ok msg) (ms_intFields (kModules i)) \<and>
    arrow_field_ok msg (ms_arrowField (kModules i)) \<and>
    (if i = BeamSteerCtrlUnitImpl then checkSpeed msg = Inr s else s = (False, False, 0))"
proof (cases "find_module modname")
  case None
  then have "modname \<noteq> moduleName i" using find_module_Some [of modname i] by auto
  with None show ?thesis by (simp add: parseDomain_def)
next
  case (Some j)
  then have j: "modname = moduleName i \<longleftrightarrow> j = i" using find_module_Some [of modname i] by auto
  show ?thesis
  proof (cases "checkIntFields msg (ms_intFields (kModules j))")
    case None
    with Some j show ?thesis
      by (auto simp: parseDomain_def Let_def arrow_field_ok_def simp flip: checkIntFields_None
          split: option.splits sum.splits if_splits)
  next
    case r: (Some r)
    with Some j show ?thesis by (auto simp: parseDomain_def simp flip: checkIntFields_None)
  qed
qed

lemma checkSpeed_range:
  assumes "checkSpeed msg = Inr (h, ok, v)"
  shows "h \<longleftrightarrow> findField msg ''spd'' \<noteq> None" and "ok \<longrightarrow> h" and "0 \<le> v \<and> v < kSpdMax" and "\<not> ok \<longrightarrow> v = 0"
  using assms
  by (auto simp: checkSpeed_def Let_def kSpdMin_def kSpdMax_def split: option.splits if_splits)

section \<open>Timestamps\<close>

definition hour_number :: "ParsedLine \<Rightarrow> int" where
  "hour_number l = daysFromCivil (pl_year l) (pl_month l) (pl_day l) * 24 + pl_hour l"

definition hour_of_second :: "int \<Rightarrow> int" where
  "hour_of_second t = t div 3600"

lemma digitsToInt_nonneg [simp]: "0 \<le> digitsToInt s pos n"
proof -
  have "0 \<le> v \<Longrightarrow> 0 \<le> foldl (\<lambda>v i. v * 10 + int (digit_val (s ! i))) v is" for v "is"
    by (induction "is" arbitrary: v) auto
  then show ?thesis by (simp add: digitsToInt_def)
qed

lemma parseTimestamp_Some:
  assumes "parseTimestamp ts = Some (y, mo, d, h, t)"
  shows "valid_date y mo d" and "0 \<le> h" and "h \<le> 23" and "t div 3600 = daysFromCivil y mo d * 24 + h"
proof -
  define mi se where "mi = digitsToInt ts 14 2" and "se = digitsToInt ts 17 2"
  have D: "1 \<le> mo" "mo \<le> 12" "1 \<le> d" "d \<le> daysInMonth y mo" "h \<le> 23" "mi \<le> 59" "se \<le> 59"
    "0 \<le> y" "0 \<le> h" "0 \<le> mi" "0 \<le> se"
    and t: "t = daysFromCivil y mo d * 86400 + h * 3600 + mi * 60 + se"
    using assms by (auto simp: parseTimestamp_def Let_def mi_def se_def split: if_splits)
  show "valid_date y mo d" "0 \<le> h" "h \<le> 23" using D by (simp_all add: valid_date_def)
  have "t = 3600 * (daysFromCivil y mo d * 24 + h) + (mi * 60 + se)" using t by simp
  moreover have "0 \<le> mi * 60 + se" "mi * 60 + se < 3600" using D by linarith+
  ultimately show "t div 3600 = daysFromCivil y mo d * 24 + h" by (rule int_div_pos_eq)
qed

section \<open>Accepted lines\<close>

lemma checkLine_Inr:
  "checkLine p text tooLong = Inr (line, t) \<longleftrightarrow>
    \<not> tooLong \<and> \<not> list_all (\<lambda>ch. ch = CHR '' '') text \<and> \<not> list_ex is_ctrl text \<and>
    (\<exists>toks modname msg. parseFrame text = Inr (toks, modname, msg) \<and>
      parseTimestamp (toks ! 0) = Some (pl_year line, pl_month line, pl_day line, pl_hour line, t) \<and>
      ts_in_range p t \<and> list_all int_token (tl toks) \<and>
      parseDomain modname msg = Inr (pl_module line, pl_hasSpd line, pl_spdInRange line, pl_spd line))"
proof -
  have "checkLine p text tooLong = Inr (line, t) \<longleftrightarrow>
    \<not> tooLong \<and> \<not> list_all (\<lambda>ch. ch = CHR '' '') text \<and> \<not> list_ex is_ctrl text \<and>
    (\<exists>toks modname msg. parseFrame text = Inr (toks, modname, msg) \<and>
      (\<exists>y mo d h. parseTimestamp (toks ! 0) = Some (y, mo, d, h, t) \<and>
      ts_in_range p t \<and> firstBadInt (tl toks) = None \<and>
      (\<exists>i a b c. parseDomain modname msg = Inr (i, a, b, c) \<and>
        line = \<lparr>pl_module = i, pl_year = y, pl_month = mo, pl_day = d, pl_hour = h,
          pl_hasSpd = a, pl_spdInRange = b, pl_spd = c\<rparr>)))"
    by (fastforce simp: checkLine_def split: if_splits sum.splits option.splits prod.splits)
  then show ?thesis unfolding firstBadInt_None by (cases line) fastforce
qed

text \<open>What acceptance by \<^const>\<open>parse\<close> means, over the text of the line.\<close>

definition accepts :: "LogLineParser \<Rightarrow> string \<Rightarrow> ParsedLine \<Rightarrow> int \<Rightarrow> bool" where
  "accepts p text line t \<longleftrightarrow>
    \<not> list_ex is_ctrl text \<and> ts_in_range p t \<and>
    (\<exists>ts pid tid sess msg. text = frame_text [ts, pid, tid, sess] (moduleName (pl_module line)) msg \<and>
      list_all token_ok [ts, pid, tid, sess] \<and>
      parseTimestamp ts = Some (pl_year line, pl_month line, pl_day line, pl_hour line, t) \<and>
      list_all int_token [pid, tid, sess] \<and> bracketsSane msg \<and>
      list_all (int_field_ok msg) (ms_intFields (kModules (pl_module line))) \<and>
      arrow_field_ok msg (ms_arrowField (kModules (pl_module line))) \<and>
      (if pl_module line = BeamSteerCtrlUnitImpl
       then checkSpeed msg = Inr (pl_hasSpd line, pl_spdInRange line, pl_spd line)
       else \<not> pl_hasSpd line \<and> \<not> pl_spdInRange line \<and> pl_spd line = 0))"

lemma length_4: "length xs = 4 \<longleftrightarrow> (\<exists>a b c d. xs = [a, b, c, d])"
  by (auto simp: length_Suc_conv numeral_eq_Suc)

lemma moduleName_ok: "moduleName i \<noteq> [] \<and> CHR '':'' \<notin> set (moduleName i)"
  by (cases i) (simp_all add: moduleName_def)

lemma frame_not_blank: "\<not> list_all (\<lambda>ch. ch = CHR '' '') (frame_text toks modname msg)"
  by (simp add: frame_text_def kSeparator_def)

lemma checkLine_accepts: "checkLine p text tooLong = Inr (line, t) \<longleftrightarrow> \<not> tooLong \<and> accepts p text line t"
proof
  assume "checkLine p text tooLong = Inr (line, t)"
  then show "\<not> tooLong \<and> accepts p text line t"
    unfolding checkLine_Inr parseFrame_iff parseDomain_Inr length_4 by (fastforce simp: accepts_def)
next
  assume a: "\<not> tooLong \<and> accepts p text line t"
  then obtain ts pid tid sess msg where
    A: "text = frame_text [ts, pid, tid, sess] (moduleName (pl_module line)) msg"
      "list_all token_ok [ts, pid, tid, sess]" and
    B: "parseTimestamp ts = Some (pl_year line, pl_month line, pl_day line, pl_hour line, t)"
      "list_all int_token [pid, tid, sess]" and
    C: "parseDomain (moduleName (pl_module line)) msg =
      Inr (pl_module line, pl_hasSpd line, pl_spdInRange line, pl_spd line)"
    unfolding accepts_def parseDomain_Inr by force
  have F: "parseFrame text = Inr ([ts, pid, tid, sess], moduleName (pl_module line), msg)"
    unfolding parseFrame_iff using A moduleName_ok by simp
  have nb: "\<not> list_all (\<lambda>ch. ch = CHR '' '') text" using A(1) frame_not_blank by simp
  show "checkLine p text tooLong = Inr (line, t)"
    unfolding checkLine_Inr using a nb F B C by (auto simp: accepts_def)
qed

lemma parse_Inr:
  "parse p text tooLong = (p', Inr line) \<longleftrightarrow>
    (\<exists>t. \<not> tooLong \<and> accepts p text line t \<and>
      p' = (if lp_hasAnchor p then p else p\<lparr>lp_hasAnchor := True, lp_anchorSeconds := t\<rparr>))"
  unfolding conj_assoc [symmetric] checkLine_accepts [symmetric]
  by (cases "checkLine p text tooLong") (auto simp: parse_def split: prod.splits)

lemma parse_Inl: "parse p text tooLong = (p', Inl r) \<Longrightarrow> p' = p"
  by (auto simp: parse_def split: sum.splits prod.splits)

text \<open>
  The window: an accepted line has a valid hour at most 48 hours from the anchor's hour, and the
  anchor never moves.
\<close>

lemma accepts_window:
  assumes "accepts p text line t"
  shows "valid_date (pl_year line) (pl_month line) (pl_day line)" and "0 \<le> pl_hour line" and "pl_hour line \<le> 23"
    and "hour_of_second t = hour_number line" and "ts_in_range p t"
proof -
  from assms obtain ts where "parseTimestamp ts = Some (pl_year line, pl_month line, pl_day line, pl_hour line, t)"
    by (auto simp: accepts_def)
  from parseTimestamp_Some [OF this] show "valid_date (pl_year line) (pl_month line) (pl_day line)"
    "0 \<le> pl_hour line" "pl_hour line \<le> 23" "hour_of_second t = hour_number line"
    by (simp_all add: hour_number_def hour_of_second_def)
  show "ts_in_range p t" using assms by (simp add: accepts_def)
qed

definition in_window :: "LogLineParser \<Rightarrow> int \<Rightarrow> bool" where
  "in_window p h \<longleftrightarrow> lp_hasAnchor p \<and> hour_of_second (lp_anchorSeconds p) - 48 \<le> h \<and>
    h \<le> hour_of_second (lp_anchorSeconds p) + 48"

lemma parse_window:
  assumes "parse p text tooLong = (p', Inr line)"
  shows "in_window p' (hour_number line)" and "lp_hasAnchor p \<longrightarrow> p' = p"
    and "valid_date (pl_year line) (pl_month line) (pl_day line)" and "0 \<le> pl_hour line" and "pl_hour line \<le> 23"
proof -
  from assms obtain t where a: "accepts p text line t"
    and p': "p' = (if lp_hasAnchor p then p else p\<lparr>lp_hasAnchor := True, lp_anchorSeconds := t\<rparr>)"
    by (auto simp: parse_Inr)
  note W = accepts_window [OF a]
  show "valid_date (pl_year line) (pl_month line) (pl_day line)" "0 \<le> pl_hour line" "pl_hour line \<le> 23"
    by (fact W)+
  show "lp_hasAnchor p \<longrightarrow> p' = p" using p' by simp
  have sh: "(a + 172800) div 3600 = a div 3600 + 48" for a :: int
    using div_mult_self1 [of 3600 a 48] by simp
  show "in_window p' (hour_number line)"
  proof (cases "lp_hasAnchor p")
    case True
    then have "lp_anchorSeconds p \<le> t + 172800" "t \<le> lp_anchorSeconds p + 172800"
      using W(5) by (auto simp: ts_in_range_def Let_def kTsRangeHours_def)
    then have "lp_anchorSeconds p div 3600 \<le> t div 3600 + 48" "t div 3600 \<le> lp_anchorSeconds p div 3600 + 48"
      unfolding sh [symmetric] by (auto intro: zdiv_mono1)
    with True p' show ?thesis by (simp add: in_window_def W(4) [symmetric] hour_of_second_def)
  next
    case False
    with p' show ?thesis by (simp add: in_window_def W(4) [symmetric] hour_of_second_def)
  qed
qed

section \<open>A session of lines\<close>

fun parses :: "LogLineParser \<Rightarrow> (string \<times> bool) list \<Rightarrow> LogLineParser \<times> ParsedLine list" where
  "parses p [] = (p, [])"
| "parses p ((text, tooLong) # ls) =
    (case parse p text tooLong of
       (p1, Inl r) \<Rightarrow> parses p1 ls
     | (p1, Inr line) \<Rightarrow> (let (p2, acc) = parses p1 ls in (p2, line # acc)))"

lemma parses_anchor: "lp_hasAnchor p \<Longrightarrow> fst (parses p ls) = p"
proof (induction ls arbitrary: p)
  case (Cons l ls)
  obtain tx tl where l: "l = (tx, tl)" by fastforce
  obtain p1 res where r: "parse p tx tl = (p1, res)" by fastforce
  have "p1 = p" using r Cons.prems parse_Inl parse_window(2) by (cases res) auto
  with Cons.IH [of p] Cons.prems show ?case using r l by (cases res) (auto split: prod.splits)
qed simp

lemma parses_window: "l \<in> set (snd (parses p ls)) \<Longrightarrow> in_window (fst (parses p ls)) (hour_number l)"
proof (induction ls arbitrary: p)
  case (Cons x ls)
  obtain tx tl where x: "x = (tx, tl)" by fastforce
  obtain p1 res where r: "parse p tx tl = (p1, res)" by fastforce
  show ?case
  proof (cases res)
    case (Inl e)
    with Cons r x show ?thesis by simp
  next
    case (Inr line)
    have w: "in_window p1 (hour_number line)" using parse_window(1) r Inr by blast
    then have "fst (parses p1 ls) = p1" by (simp add: parses_anchor in_window_def)
    with w Cons.IH [of p1] Cons.prems r x Inr show ?thesis by (auto split: prod.splits)
  qed
qed simp

lemma window_card: "finite {h. in_window p h} \<and> card {h. in_window p h} \<le> 97"
proof (cases "lp_hasAnchor p")
  case True
  let ?a = "hour_of_second (lp_anchorSeconds p)"
  have "{h. in_window p h} = {?a - 48 .. ?a + 48}" using True by (auto simp: in_window_def)
  then show ?thesis by simp
qed (simp add: in_window_def)

lemma parse_example:
  "snd (parse newParser ''[2026-06-19_22:00:01.000000][1][2][3] BYDA::DetectionTaskRunner: jobID[7] command[RUN]'' False) =
    Inr \<lparr>pl_module = DetectionTaskRunner, pl_year = 2026, pl_month = 6, pl_day = 19, pl_hour = 22,
      pl_hasSpd = False, pl_spdInRange = False, pl_spd = 0\<rparr>"
  by code_simp

section \<open>Properties\<close>

text \<open>
  The lines accepted in one session fall, whatever the input, in at most 97 distinct hours: those
  of the 48 hours on both sides of the first accepted line.
\<close>

theorem parser_hour_window: "card (hour_number ` set (snd (parses newParser ls))) \<le> 97"
proof -
  let ?p = "fst (parses newParser ls)"
  have "hour_number ` set (snd (parses newParser ls)) \<subseteq> {h. in_window ?p h}"
    using parses_window by auto
  then show ?thesis using window_card [of ?p] by (meson card_mono le_trans)
qed

end
