(* ===== verification/OrderedMap.thy ===== *)
theory OrderedMap
  imports Prelude
begin

text \<open>
  \<^verbatim>\<open>std::map\<close> as the server uses it for its counters: an association list in strictly ascending key
  order, so that iterating over the list is iterating over the map.  The locale \<open>counter_map\<close> states
  what the two collectors (hour buckets, unknown module names) rely on: a find-or-emplace-one step
  that counts, and the size that bounds new keys.
\<close>

section \<open>Operations\<close>

fun om_find :: "('k \<times> 'v) list \<Rightarrow> 'k \<Rightarrow> 'v option" where
  "om_find [] k = None"
| "om_find ((k', v) # m) k = (if k' = k then Some v else om_find m k)"

fun om_emplace :: "('k::linorder \<times> 'v) list \<Rightarrow> 'k \<Rightarrow> 'v \<Rightarrow> ('k \<times> 'v) list" where
  "om_emplace [] k v = [(k, v)]"
| "om_emplace ((k', v') # m) k v =
    (if k < k' then (k, v) # (k', v') # m else if k' = k then (k', v') # m else (k', v') # om_emplace m k v)"

fun om_modify :: "('k \<times> 'v) list \<Rightarrow> 'k \<Rightarrow> ('v \<Rightarrow> 'v) \<Rightarrow> ('k \<times> 'v) list" where
  "om_modify [] k f = []"
| "om_modify ((k', v) # m) k f = (if k' = k then (k', f v) # m else (k', v) # om_modify m k f)"

definition om_wf :: "('k::linorder \<times> 'v) list \<Rightarrow> bool" where
  "om_wf m \<longleftrightarrow> sorted_wrt (<) (map fst m)"

definition om_sum :: "('k \<times> nat) list \<Rightarrow> nat" where
  "om_sum m = sum_list (map snd m)"

section \<open>Laws\<close>

lemma om_find_None: "om_find m k = None \<longleftrightarrow> k \<notin> fst ` set m"
  by (induction m k rule: om_find.induct) auto

lemma om_find_Some_mem: "om_find m k = Some v \<Longrightarrow> (k, v) \<in> set m"
  by (induction m k rule: om_find.induct) (auto split: if_splits)

lemma om_wf_simps [simp]:
  "om_wf []" "om_wf ((k, v) # m) \<longleftrightarrow> (\<forall>x \<in> fst ` set m. k < x) \<and> om_wf m"
  by (auto simp: om_wf_def)

lemma om_wf_distinct: "om_wf m \<Longrightarrow> distinct (map fst m)"
  by (simp add: om_wf_def strict_sorted_iff)

lemma om_find_mem: "om_wf m \<Longrightarrow> (k, v) \<in> set m \<Longrightarrow> om_find m k = Some v"
  by (induction m k rule: om_find.induct) force+

lemma om_emplace_keys: "fst ` set (om_emplace m k v) = insert k (fst ` set m)"
  by (induction m k v rule: om_emplace.induct) auto

lemma om_modify_keys [simp]: "map fst (om_modify m k f) = map fst m"
  by (induction m k f rule: om_modify.induct) auto

lemma om_wf_emplace: "om_wf m \<Longrightarrow> om_wf (om_emplace m k v)"
  by (induction m k v rule: om_emplace.induct) (auto simp: om_emplace_keys)

lemma om_wf_modify: "om_wf m \<Longrightarrow> om_wf (om_modify m k f)"
  by (simp add: om_wf_def)

lemma om_find_emplace: "om_find m k = None \<Longrightarrow> om_find (om_emplace m k v) x = (if x = k then Some v else om_find m x)"
  by (induction m k v rule: om_emplace.induct) (auto split: if_splits)

lemma om_find_modify: "om_find (om_modify m k f) x = (if x = k then map_option f (om_find m k) else om_find m x)"
  by (induction m k f rule: om_modify.induct) auto

lemma om_length_emplace: "om_find m k = None \<Longrightarrow> length (om_emplace m k v) = Suc (length m)"
  by (induction m k v rule: om_emplace.induct) (auto split: if_splits)

lemma om_length_modify [simp]: "length (om_modify m k f) = length m"
  by (induction m k f rule: om_modify.induct) auto

lemma om_sum_emplace: "om_find m k = None \<Longrightarrow> om_sum (om_emplace m k v) = om_sum m + v"
  by (induction m k v rule: om_emplace.induct) (auto simp: om_sum_def split: if_splits)

lemma om_sum_modify: "om_find m k = Some v \<Longrightarrow> om_sum (om_modify m k Suc) = Suc (om_sum m)"
  by (induction m k "Suc" rule: om_modify.induct) (auto simp: om_sum_def split: if_splits)

lemma om_sum_Nil [simp]: "om_sum [] = 0"
  by (simp add: om_sum_def)

section \<open>Counting\<close>

text \<open>
  One count: an existing key is incremented, a new one starts at one unless \<open>room\<close> is refused; the
  flag tells whether the event was counted.
\<close>

definition om_count :: "bool \<Rightarrow> ('k::linorder \<times> nat) list \<Rightarrow> 'k \<Rightarrow> ('k \<times> nat) list \<times> bool" where
  "om_count room m k =
    (case om_find m k of
       None \<Rightarrow> if room then (om_emplace m k 1, True) else (m, False)
     | Some _ \<Rightarrow> (om_modify m k Suc, True))"

locale counter_map =
  fixes wf :: "'m \<Rightarrow> bool"
    and count_of :: "'m \<Rightarrow> 'k \<Rightarrow> nat option"
    and size_of :: "'m \<Rightarrow> nat"
    and total_of :: "'m \<Rightarrow> nat"
    and bump :: "bool \<Rightarrow> 'm \<Rightarrow> 'k \<Rightarrow> 'm \<times> bool"
  assumes wf_bump: "wf m \<Longrightarrow> wf (fst (bump room m k))"
    and bump_ok: "snd (bump room m k) \<longleftrightarrow> room \<or> count_of m k \<noteq> None"
    and bump_count: "snd (bump room m k) \<Longrightarrow> count_of (fst (bump room m k)) x =
      (if x = k then Some (Suc (case count_of m k of None \<Rightarrow> 0 | Some n \<Rightarrow> n)) else count_of m x)"
    and bump_refused: "\<not> snd (bump room m k) \<Longrightarrow> fst (bump room m k) = m"
    and bump_size: "size_of (fst (bump room m k)) =
      (if snd (bump room m k) \<and> count_of m k = None then Suc (size_of m) else size_of m)"
    and bump_total: "total_of (fst (bump room m k)) = (if snd (bump room m k) then Suc (total_of m) else total_of m)"
begin

lemma size_bounded: "size_of m \<le> n \<Longrightarrow> (room \<longrightarrow> size_of m < n) \<Longrightarrow> size_of (fst (bump room m k)) \<le> n"
  using bump_ok [of room m k] by (auto simp: bump_size)

lemma size_mono: "size_of m \<le> size_of (fst (bump room m k))"
  by (simp add: bump_size)

end

interpretation om: counter_map om_wf om_find length om_sum om_count
  by unfold_locales
    (auto simp: om_count_def om_wf_emplace om_wf_modify om_find_emplace om_find_modify om_length_emplace
      om_sum_emplace om_sum_modify split: option.splits)

lemma om_count_keys: "fst ` set (fst (om_count room m k)) \<subseteq> insert k (fst ` set m)"
proof -
  have "fst ` set (om_modify m k Suc) = fst ` set m"
    by (metis list.set_map om_modify_keys)
  then show ?thesis by (auto simp: om_count_def om_emplace_keys split: option.splits)
qed

end
