(* ===== verification/StatsCollector.thy ===== *)
theory StatsCollector
  imports LogLineParser OrderedMap
begin

text \<open>
  The statistics of \<^verbatim>\<open>server/src/stats/StatsCollector\<close>: per module a map from hour key to line count, and
  the speed samples of BeamSteer lines.  Counters are naturals (an upload has fewer lines than bytes,
  at most 8 GiB); the running sum and the average are doubles, rounded after every operation.
\<close>

section \<open>Hour keys\<close>

definition kMaxStatsEntries :: nat where
  "kMaxStatsEntries = 10000"

type_synonym HourKey = nat

definition makeHourKey :: "int \<Rightarrow> int \<Rightarrow> int \<Rightarrow> int \<Rightarrow> HourKey" where
  "makeHourKey year month day hour = nat year * 1000000 + nat month * 10000 + nat day * 100 + nat hour"

text \<open>The lambda \<^verbatim>\<open>put\<close>: the last \<open>digits\<close> decimal digits of a value.\<close>

fun put_digits :: "nat \<Rightarrow> nat \<Rightarrow> string" where
  "put_digits 0 value = []"
| "put_digits (Suc n) value = put_digits n (value div 10) @ [digit_char (value mod 10)]"

definition formatHourKey :: "HourKey \<Rightarrow> string" where
  "formatHourKey key =
    (let year = key div 1000000; month = (key div 10000) mod 100; day = (key div 100) mod 100; hour = key mod 100
     in put_digits 4 year @ ''-'' @ put_digits 2 month @ ''-'' @ put_digits 2 day @ '' '' @ put_digits 2 hour)"

section \<open>The collector\<close>

record StatsCollector =
  st_buckets :: "ModuleId \<Rightarrow> (HourKey \<times> nat) list"
  st_validSpdSamples :: nat
  st_excludedSpdSamples :: nat
  st_missingSpdSamples :: nat
  st_spdSum :: rat

definition newStats :: StatsCollector where
  "newStats = \<lparr>st_buckets = (\<lambda>_. []), st_validSpdSamples = 0, st_excludedSpdSamples = 0,
    st_missingSpdSamples = 0, st_spdSum = 0\<rparr>"

definition totalEntries :: "StatsCollector \<Rightarrow> nat" where
  "totalEntries st = sum_list (map (\<lambda>i. length (st_buckets st i)) all_modules)"

definition stats_record :: "StatsCollector \<Rightarrow> ParsedLine \<Rightarrow> StatsCollector \<times> bool" where
  "stats_record st line =
    (let i = pl_module line;
         key = makeHourKey (pl_year line) (pl_month line) (pl_day line) (pl_hour line);
         (bucket, counted) = om_count (\<not> kMaxStatsEntries \<le> totalEntries st) (st_buckets st i) key;
         st1 = st\<lparr>st_buckets := (st_buckets st)(i := bucket)\<rparr> in
     if \<not> counted then (st, False)
     else if pl_hasSpd line then
       (if pl_spdInRange line
        then (st1\<lparr>st_spdSum := rnd (st_spdSum st + pl_spd line), st_validSpdSamples := st_validSpdSamples st + 1\<rparr>, True)
        else (st1\<lparr>st_excludedSpdSamples := st_excludedSpdSamples st + 1\<rparr>, True))
     else if i = BeamSteerCtrlUnitImpl then
       (st1\<lparr>st_missingSpdSamples := st_missingSpdSamples st + 1\<rparr>, True)
     else (st1, True))"

definition averageSpeed :: "StatsCollector \<Rightarrow> rat" where
  "averageSpeed st =
    (if st_validSpdSamples st = 0 then 0 else rnd (st_spdSum st / rnd (of_nat (st_validSpdSamples st))))"

text \<open>The order of output: modules sorted by name, hours ascending.\<close>

definition forEachBucket :: "StatsCollector \<Rightarrow> (ModuleId \<times> HourKey \<times> nat) list" where
  "forEachBucket st =
    concat (map (\<lambda>i. map (\<lambda>(h, c). (i, h, c)) (st_buckets st i)) (sort_key moduleName all_modules))"

definition stats_reset :: "StatsCollector \<Rightarrow> StatsCollector" where
  "stats_reset st = st\<lparr>st_buckets := (\<lambda>_. []), st_validSpdSamples := 0, st_excludedSpdSamples := 0,
    st_missingSpdSamples := 0, st_spdSum := 0\<rparr>"

section \<open>Keys stand for hours\<close>

text \<open>The dates and hours the parser lets through.\<close>

definition line_hour_ok :: "ParsedLine \<Rightarrow> bool" where
  "line_hour_ok l \<longleftrightarrow> valid_date (pl_year l) (pl_month l) (pl_day l) \<and> 0 \<le> pl_hour l \<and> pl_hour l \<le> 23"

definition line_key :: "ParsedLine \<Rightarrow> HourKey" where
  "line_key l = makeHourKey (pl_year l) (pl_month l) (pl_day l) (pl_hour l)"

lemma line_hour_ok_bounds:
  assumes "line_hour_ok l"
  shows "0 \<le> pl_year l" "1 \<le> pl_month l" "pl_month l \<le> 12" "1 \<le> pl_day l" "pl_day l \<le> 31"
    "0 \<le> pl_hour l" "pl_hour l \<le> 23"
  using assms daysInMonth_range [of "pl_month l" "pl_year l"] by (auto simp: line_hour_ok_def valid_date_def)

text \<open>The fields of a packed key.\<close>

lemma key_fields:
  assumes "line_hour_ok l"
  shows "line_key l div 1000000 = nat (pl_year l)" "line_key l div 10000 mod 100 = nat (pl_month l)"
    "line_key l div 100 mod 100 = nat (pl_day l)" "line_key l mod 100 = nat (pl_hour l)"
proof -
  define y m d h where "y = nat (pl_year l)" and "m = nat (pl_month l)" and "d = nat (pl_day l)" and "h = nat (pl_hour l)"
  have b: "m < 100" "d < 100" "h < 100"
    using line_hour_ok_bounds [OF assms] by (simp_all add: m_def d_def h_def)
  have k: "line_key l = y * 1000000 + m * 10000 + d * 100 + h"
    by (simp add: line_key_def makeHourKey_def y_def m_def d_def h_def)
  have split: "(100 * q + r) div 100 = q" "(100 * q + r) mod 100 = r" if "r < 100" for q r :: nat
    using that by simp_all
  have 1: "line_key l = 100 * (100 * (100 * y + m) + d) + h" by (simp add: k)
  have 2: "line_key l div 100 = 100 * (100 * y + m) + d" "line_key l mod 100 = h"
    unfolding 1 by (rule split [OF b(3)])+
  have 3: "line_key l div 10000 = line_key l div 100 div 100" "line_key l div 1000000 = line_key l div 100 div 100 div 100"
    by (simp_all add: div_mult2_eq [symmetric])
  have 4: "line_key l div 100 div 100 = 100 * y + m" unfolding 2(1) by (rule split(1) [OF b(2)])
  show "line_key l div 1000000 = nat (pl_year l)" "line_key l div 10000 mod 100 = nat (pl_month l)"
    "line_key l div 100 mod 100 = nat (pl_day l)" "line_key l mod 100 = nat (pl_hour l)"
    unfolding 3 4 2 split [OF b(2)] split [OF b(1)] by (simp_all add: y_def m_def d_def h_def)
qed

lemma line_key_eq_iff:
  assumes "line_hour_ok a" and "line_hour_ok b"
  shows "line_key a = line_key b \<longleftrightarrow> hour_number a = hour_number b"
proof
  note A = line_hour_ok_bounds [OF assms(1)] and B = line_hour_ok_bounds [OF assms(2)]
  assume eq: "line_key a = line_key b"
  have "nat (pl_year a) = nat (pl_year b)" "nat (pl_month a) = nat (pl_month b)"
    "nat (pl_day a) = nat (pl_day b)" "nat (pl_hour a) = nat (pl_hour b)"
    using key_fields [OF assms(1)] key_fields [OF assms(2)] eq by simp_all
  then have "pl_year a = pl_year b" "pl_month a = pl_month b" "pl_day a = pl_day b" "pl_hour a = pl_hour b"
    using A B by (simp_all add: eq_nat_nat_iff)
  then show "hour_number a = hour_number b" by (simp add: hour_number_def)
next
  note A = line_hour_ok_bounds [OF assms(1)] and B = line_hour_ok_bounds [OF assms(2)]
  assume eq: "hour_number a = hour_number b"
  let ?da = "daysFromCivil (pl_year a) (pl_month a) (pl_day a)" and ?db = "daysFromCivil (pl_year b) (pl_month b) (pl_day b)"
  have "?da = ?db" "pl_hour a = pl_hour b"
    using eq A(6,7) B(6,7) unfolding hour_number_def by presburger+
  moreover have "pl_year a = pl_year b \<and> pl_month a = pl_month b \<and> pl_day a = pl_day b"
    by (rule daysFromCivil_inj) (use assms \<open>?da = ?db\<close> in \<open>auto simp: line_hour_ok_def\<close>)
  ultimately show "line_key a = line_key b" by (simp add: line_key_def)
qed

section \<open>One record\<close>

lemma stats_record_refused: "\<not> snd (stats_record st l) \<Longrightarrow> fst (stats_record st l) = st"
  by (auto simp: stats_record_def Let_def split: prod.splits if_splits)

lemma stats_record_counted:
  "snd (stats_record st l) \<longleftrightarrow>
    totalEntries st < kMaxStatsEntries \<or> om_find (st_buckets st (pl_module l)) (line_key l) \<noteq> None"
  using om.bump_ok [of "\<not> kMaxStatsEntries \<le> totalEntries st" "st_buckets st (pl_module l)" "line_key l"]
  by (auto simp: stats_record_def Let_def line_key_def split: prod.splits if_splits)

lemma stats_record_buckets:
  "st_buckets (fst (stats_record st l)) i =
    (if i = pl_module l
     then fst (om_count (\<not> kMaxStatsEntries \<le> totalEntries st) (st_buckets st i) (line_key l))
     else st_buckets st i)"
  using om.bump_refused [of "\<not> kMaxStatsEntries \<le> totalEntries st" "st_buckets st (pl_module l)" "line_key l"]
  by (auto simp: stats_record_def Let_def line_key_def split: prod.splits)

lemma stats_record_count:
  assumes "snd (stats_record st l)"
  shows "om_find (st_buckets (fst (stats_record st l)) i) k =
    (if i = pl_module l \<and> k = line_key l
     then Some (Suc (case om_find (st_buckets st i) k of None \<Rightarrow> 0 | Some n \<Rightarrow> n))
     else om_find (st_buckets st i) k)"
proof -
  have "snd (om_count (\<not> kMaxStatsEntries \<le> totalEntries st) (st_buckets st (pl_module l)) (line_key l))"
    using assms by (auto simp: stats_record_def Let_def line_key_def split: prod.splits if_splits)
  from om.bump_count [OF this] show ?thesis by (simp add: stats_record_buckets)
qed

lemma stats_record_wf: "om_wf (st_buckets st i) \<Longrightarrow> om_wf (st_buckets (fst (stats_record st l)) i)"
  unfolding stats_record_buckets using om.wf_bump by auto

lemma stats_record_keys:
  "fst ` set (st_buckets (fst (stats_record st l)) i) \<subseteq> insert (line_key l) (fst ` set (st_buckets st i))"
  unfolding stats_record_buckets
  using om_count_keys [of "\<not> kMaxStatsEntries \<le> totalEntries st" "st_buckets st i" "line_key l"]
  by (cases "i = pl_module l") (simp_all add: subset_insertI)

text \<open>What the parser guarantees of a speed.\<close>

definition line_speed_ok :: "ParsedLine \<Rightarrow> bool" where
  "line_speed_ok l \<longleftrightarrow> (pl_hasSpd l \<longrightarrow> pl_module l = BeamSteerCtrlUnitImpl) \<and> 0 \<le> pl_spd l \<and> pl_spd l < kSpdMax"

definition sample_count :: "StatsCollector \<Rightarrow> nat" where
  "sample_count st = st_validSpdSamples st + st_excludedSpdSamples st + st_missingSpdSamples st"

lemma stats_record_samples:
  assumes "line_speed_ok l" and "om_sum (st_buckets st BeamSteerCtrlUnitImpl) = sample_count st"
  shows "om_sum (st_buckets (fst (stats_record st l)) BeamSteerCtrlUnitImpl) = sample_count (fst (stats_record st l))"
proof -
  let ?room = "\<not> kMaxStatsEntries \<le> totalEntries st" and ?b = "st_buckets st (pl_module l)"
  have cnt: "snd (stats_record st l) = snd (om_count ?room ?b (line_key l))"
    by (auto simp: stats_record_def Let_def line_key_def split: prod.splits)
  have samples: "sample_count (fst (stats_record st l)) =
      (if snd (stats_record st l) \<and> pl_module l = BeamSteerCtrlUnitImpl then Suc (sample_count st) else sample_count st)"
    using assms(1) by (auto simp: stats_record_def Let_def sample_count_def line_speed_ok_def split: prod.splits)
  show ?thesis
    unfolding samples stats_record_buckets using assms(2) om.bump_total [of ?room ?b "line_key l"] cnt by auto
qed

text \<open>The sum of the speeds stays under the number of samples times the limit: rounding cannot push it over.\<close>

lemma stats_record_sum:
  assumes "line_speed_ok l" and "0 \<le> st_spdSum st" and "st_spdSum st \<le> of_nat (st_validSpdSamples st * 10000000)"
    and "Suc (st_validSpdSamples st) * 10000000 < 2 ^ 53"
  shows "0 \<le> st_spdSum (fst (stats_record st l)) \<and>
    st_spdSum (fst (stats_record st l)) \<le> of_nat (st_validSpdSamples (fst (stats_record st l)) * 10000000)"
proof -
  have "rnd (st_spdSum st + pl_spd l) \<le> rnd (of_nat (Suc (st_validSpdSamples st) * 10000000))"
    by (rule rnd_mono) (use assms(1,3) in \<open>simp add: line_speed_ok_def kSpdMax_def\<close>)
  also have "\<dots> = of_nat (Suc (st_validSpdSamples st) * 10000000)"
    by (rule rnd_of_nat [OF assms(4)])
  finally show ?thesis
    using assms(2,3) by (auto simp: stats_record_def Let_def split: prod.splits)
qed

section \<open>Many records\<close>

definition stats_of :: "ParsedLine list \<Rightarrow> StatsCollector" where
  "stats_of ls = foldl (\<lambda>st l. fst (stats_record st l)) newStats ls"

lemma stats_of_Nil [simp]: "stats_of [] = newStats"
  and stats_of_snoc [simp]: "stats_of (ls @ [l]) = fst (stats_record (stats_of ls) l)"
  by (simp_all add: stats_of_def)

lemma stats_of_wf: "om_wf (st_buckets (stats_of ls) i)"
  by (induction ls rule: rev_induct) (simp_all add: newStats_def stats_record_wf)

lemma stats_of_keys: "fst ` set (st_buckets (stats_of ls) i) \<subseteq> line_key ` set ls"
proof (induction ls rule: rev_induct)
  case (snoc l ls)
  then show ?case
    using order_trans [OF stats_record_keys [of "stats_of ls" l i] insert_mono [OF snoc]] by simp
qed (simp add: newStats_def)

lemma stats_of_samples:
  assumes "list_all line_speed_ok ls"
  shows "om_sum (st_buckets (stats_of ls) BeamSteerCtrlUnitImpl) = sample_count (stats_of ls)"
  using assms
proof (induction ls rule: rev_induct)
  case (snoc l ls)
  then show ?case by (simp add: stats_record_samples)
qed (simp add: newStats_def sample_count_def)

lemma stats_of_valid_le: "st_validSpdSamples (stats_of ls) \<le> length ls"
proof (induction ls rule: rev_induct)
  case (snoc l ls)
  then show ?case by (auto simp: stats_record_def Let_def split: prod.splits)
qed (simp add: newStats_def)

lemma stats_of_sum:
  assumes "list_all line_speed_ok ls" and "length ls * 10000000 < 2 ^ 53"
  shows "0 \<le> st_spdSum (stats_of ls) \<and> st_spdSum (stats_of ls) \<le> of_nat (st_validSpdSamples (stats_of ls) * 10000000)"
  using assms
proof (induction ls rule: rev_induct)
  case (snoc l ls)
  have "Suc (st_validSpdSamples (stats_of ls)) * 10000000 < 2 ^ 53"
    using stats_of_valid_le [of ls] snoc.prems(2) by simp
  then show ?case using snoc stats_record_sum [of l "stats_of ls"] by simp
qed (simp add: newStats_def)

text \<open>Few hours mean few entries, in each of the five modules.\<close>

lemma line_keys_card:
  assumes "list_all line_hour_ok ls"
  shows "card (line_key ` set ls) \<le> card (hour_number ` set ls)"
proof -
  define f where "f h = line_key (SOME l. l \<in> set ls \<and> hour_number l = h)" for h
  have "line_key l = f (hour_number l)" if "l \<in> set ls" for l
  proof -
    let ?c = "SOME x. x \<in> set ls \<and> hour_number x = hour_number l"
    have c: "?c \<in> set ls \<and> hour_number ?c = hour_number l" by (rule someI [of _ l]) (use that in simp)
    then have "line_key ?c = line_key l"
      using assms that line_key_eq_iff [of ?c l] by (auto simp: list_all_iff)
    then show ?thesis by (simp add: f_def)
  qed
  then have "line_key ` set ls = f ` (hour_number ` set ls)" by (auto simp: image_image)
  then show ?thesis by (simp add: card_image_le)
qed

lemma stats_of_bucket_length: "length (st_buckets (stats_of ls) i) \<le> card (line_key ` set ls)"
proof -
  have "length (st_buckets (stats_of ls) i) = card (fst ` set (st_buckets (stats_of ls) i))"
    using distinct_card [OF om_wf_distinct [OF stats_of_wf [of ls i]]] by simp
  also have "\<dots> \<le> card (line_key ` set ls)"
    by (rule card_mono [OF _ stats_of_keys]) simp
  finally show ?thesis .
qed

lemma totalEntries_le:
  assumes "\<And>i. length (st_buckets st i) \<le> n"
  shows "totalEntries st \<le> 5 * n"
  using assms [of RadarTrackNodeState] assms [of AntennaProfileSpec] assms [of BeamSteerCtrlUnitImpl]
    assms [of DetectionTaskRunner] assms [of SectorSchedulerRTS]
  by (simp add: totalEntries_def all_modules_def)

lemma totalEntries_window:
  assumes "list_all line_hour_ok ls" and "card (hour_number ` set ls) \<le> 97"
  shows "totalEntries (stats_of ls) \<le> 485"
proof -
  have "length (st_buckets (stats_of ls) i) \<le> 97" for i
    using stats_of_bucket_length [of ls i] line_keys_card [OF assms(1)] assms(2) by linarith
  then show ?thesis using totalEntries_le [of "stats_of ls" 97] by simp
qed

text \<open>In a window nothing is refused and every count is exact.\<close>

definition lines_at :: "ParsedLine list \<Rightarrow> ModuleId \<Rightarrow> HourKey \<Rightarrow> nat" where
  "lines_at ls i k = length (filter (\<lambda>l. pl_module l = i \<and> line_key l = k) ls)"

lemma lines_at_snoc:
  "lines_at (ls @ [l]) i k = lines_at ls i k + (if i = pl_module l \<and> k = line_key l then 1 else 0)"
  by (auto simp: lines_at_def)

lemma window_not_refused:
  assumes "list_all line_hour_ok ls" and "card (hour_number ` set ls) \<le> 97"
  shows "snd (stats_record (stats_of ls) l)"
  using totalEntries_window [OF assms] by (simp add: stats_record_counted kMaxStatsEntries_def)

lemma stats_of_exact:
  assumes "list_all line_hour_ok ls" and "card (hour_number ` set ls) \<le> 97"
  shows "om_find (st_buckets (stats_of ls) i) k = (if lines_at ls i k = 0 then None else Some (lines_at ls i k))"
  using assms
proof (induction ls rule: rev_induct)
  case (snoc l ls)
  have sub: "card (hour_number ` set ls) \<le> 97"
    using snoc.prems(2) card_insert_le [of "hour_number ` set ls" "hour_number l"] by simp
  have ok: "snd (stats_record (stats_of ls) l)" using window_not_refused snoc.prems(1) sub by simp
  show ?case
    using snoc sub by (auto simp: stats_record_count [OF ok] lines_at_snoc)
qed (simp add: newStats_def lines_at_def)

text \<open>The average stays in range, whatever the roundings.\<close>

lemma averageSpeed_bounds:
  assumes "list_all line_speed_ok ls" and "length ls * 10000000 < 2 ^ 53"
  shows "0 \<le> averageSpeed (stats_of ls) \<and> averageSpeed (stats_of ls) \<le> 10000000"
proof -
  let ?st = "stats_of ls" let ?n = "st_validSpdSamples (stats_of ls)"
  have s: "st_spdSum ?st \<le> of_nat (?n * 10000000)"
    using stats_of_sum [OF assms] by blast
  have n: "rnd (of_nat ?n) = of_nat ?n"
    by (rule rnd_of_nat) (use assms(2) stats_of_valid_le [of ls] in simp)
  show ?thesis
  proof (cases "?n = 0")
    case False
    then have "st_spdSum ?st / of_nat ?n \<le> of_nat 10000000"
      using s by (simp add: divide_le_eq)
    then have "rnd (st_spdSum ?st / of_nat ?n) \<le> rnd (of_nat 10000000)" by (rule rnd_mono)
    then show ?thesis using False rnd_of_nat [of 10000000] n by (simp add: averageSpeed_def)
  qed (simp add: averageSpeed_def)
qed

lemma stats_of_samples_le:
  "st_excludedSpdSamples (stats_of ls) \<le> length ls" "st_missingSpdSamples (stats_of ls) \<le> length ls"
proof (induction ls rule: rev_induct)
  case (snoc l ls)
  {
    case 1 show ?case using snoc(1) by (auto simp: stats_record_def Let_def split: prod.splits)
  next
    case 2 show ?case using snoc(2) by (auto simp: stats_record_def Let_def split: prod.splits)
  }
qed (simp_all add: newStats_def)

text \<open>The parser's lines meet all of this.\<close>

lemma parses_length: "length (snd (parses p ls)) \<le> length ls"
proof (induction ls arbitrary: p)
  case (Cons x ls)
  obtain tx tl where x: "x = (tx, tl)" by fastforce
  obtain p1 res where r: "parse p tx tl = (p1, res)" by fastforce
  show ?case using Cons.IH [of p1] x r by (cases res) (auto split: prod.splits)
qed simp

lemma parse_line_ok:
  assumes "parse p text tooLong = (p', Inr line)"
  shows "line_hour_ok line" and "line_speed_ok line"
proof -
  show "line_hour_ok line" using parse_window(3-5) [OF assms] by (simp add: line_hour_ok_def)
  show "line_speed_ok line"
    using assms checkSpeed_range
    by (fastforce simp: parse_Inr accepts_def line_speed_ok_def kSpdMax_def split: if_splits)
qed

lemma parses_ok: "list_all line_hour_ok (snd (parses p ls)) \<and> list_all line_speed_ok (snd (parses p ls))"
proof (induction ls arbitrary: p)
  case (Cons x ls)
  obtain tx tl where x: "x = (tx, tl)" by fastforce
  obtain p1 res where r: "parse p tx tl = (p1, res)" by fastforce
  show ?case using Cons.IH [of p1] x r parse_line_ok by (cases res) (auto split: prod.splits)
qed simp

section \<open>Properties\<close>

text \<open>
  C26. The counts are exact: for the lines a session's parser accepted, each module and hour holds
  exactly the number of accepted lines of that module in that hour (absent when there are none), no
  line is ever refused by the entry limit, and the maps hold at most 485 entries.
\<close>

theorem stats_exact:
  "let ls = snd (parses newParser input) in
     om_find (st_buckets (stats_of ls) i) k = (if lines_at ls i k = 0 then None else Some (lines_at ls i k)) \<and>
     totalEntries (stats_of ls) \<le> 485 \<and> snd (stats_record (stats_of ls) l)"
proof -
  let ?ls = "snd (parses newParser input)"
  have ok: "list_all line_hour_ok ?ls" using parses_ok by simp
  have "hour_number ` set ?ls \<subseteq> {h. in_window (fst (parses newParser input)) h}"
    using parses_window by auto
  then have w: "card (hour_number ` set ?ls) \<le> 97"
    using window_card [of "fst (parses newParser input)"] by (meson card_mono le_trans)
  show ?thesis
    unfolding Let_def using stats_of_exact [OF ok w] totalEntries_window [OF ok w] window_not_refused [OF ok w] by simp
qed

text \<open>
  The BeamSteer identity: the number of counted BeamSteer lines is always the sum of the valid,
  the excluded and the missing speed samples.
\<close>

theorem stats_beamsteer_identity:
  "let st = stats_of (snd (parses newParser input)) in
     om_sum (st_buckets st BeamSteerCtrlUnitImpl) =
       st_validSpdSamples st + st_excludedSpdSamples st + st_missingSpdSamples st"
  using stats_of_samples [of "snd (parses newParser input)"] parses_ok by (simp add: sample_count_def Let_def)

end
