(* ===== verification/SkipReporter.thy ===== *)
theory SkipReporter
  imports LogLineParser OrderedMap
begin

text \<open>
  The skip reporter of \<^verbatim>\<open>server/src/parser/SkipReporter\<close>: counts per reason, the first skipped lines as
  escaped samples, and the names of unknown modules, all bounded.  The text of the report is modelled;
  opening and writing \<^verbatim>\<open>skip_report.txt\<close> is not.
\<close>

section \<open>State and operations\<close>

definition kMaxSkipSamples :: nat where "kMaxSkipSamples = 100"
definition kMaxSkipSampleBytes :: nat where "kMaxSkipSampleBytes = 200"
definition kSkipReasonCount :: nat where "kSkipReasonCount = 11"
definition kMaxUnknownModules :: nat where "kMaxUnknownModules = 50"
definition kMaxModuleNameBytes :: nat where "kMaxModuleNameBytes = 64"

lemmas skip_limits = kMaxSkipSamples_def kMaxSkipSampleBytes_def kMaxUnknownModules_def kMaxModuleNameBytes_def

text \<open>The reasons in the order of their codes.\<close>

definition all_reasons :: "SkipReason list" where
  "all_reasons = [LineTooLong, Empty, CtrlChar, BadFrame, BadBracket, BadTimestamp, TsOutOfRange,
    BadNumber, NumOutOfRange, UnknownModule, MapLimit]"

record Sample =
  sm_reason :: SkipReason
  sm_offset :: nat
  sm_text :: string

record SkipReporter =
  sr_counts :: "SkipReason \<Rightarrow> nat"
  sr_unknownModules :: "(string \<times> nat) list"
  sr_unlistedUnknownLines :: nat
  sr_samples :: "Sample list"
  sr_total :: nat

definition newReporter :: SkipReporter where
  "newReporter = \<lparr>sr_counts = (\<lambda>_. 0), sr_unknownModules = [], sr_unlistedUnknownLines = 0,
    sr_samples = [], sr_total = 0\<rparr>"

definition kHex :: string where
  "kHex = ''0123456789ABCDEF''"

definition escape_char :: "char \<Rightarrow> string" where
  "escape_char ch =
    (let byte = byte_nat ch in
     if byte < 32 \<or> byte = 127 then [CHR 0x5C, CHR ''x'', kHex ! (byte div 16), kHex ! (byte mod 16)] else [ch])"

definition escapeNonPrintable :: "string \<Rightarrow> string" where
  "escapeNonPrintable s = concat (map escape_char s)"

definition recordUnknownModule :: "SkipReporter \<Rightarrow> string \<Rightarrow> SkipReporter" where
  "recordUnknownModule sr text =
    (let unlisted = sr\<lparr>sr_unlistedUnknownLines := sr_unlistedUnknownLines sr + 1\<rparr> in
     case sv_find text '' BYDA::'' 0 of
       None \<Rightarrow> unlisted
     | Some marker \<Rightarrow>
         (let begn = marker + 7 in
          case sv_find text '': '' begn of
            None \<Rightarrow> unlisted
          | Some colon \<Rightarrow>
              if colon = begn then unlisted
              else
                let len = min (colon - begn) kMaxModuleNameBytes;
                    name = escapeNonPrintable (sv_substr text begn len);
                    (m, counted) = om_count (\<not> kMaxUnknownModules \<le> length (sr_unknownModules sr))
                      (sr_unknownModules sr) name
                in if counted then sr\<lparr>sr_unknownModules := m\<rparr> else unlisted))"

definition skip_record :: "SkipReporter \<Rightarrow> SkipReason \<Rightarrow> nat \<Rightarrow> string \<Rightarrow> SkipReporter" where
  "skip_record sr reason offset text =
    (let sr1 = sr\<lparr>sr_total := sr_total sr + 1, sr_counts := (sr_counts sr)(reason := sr_counts sr reason + 1)\<rparr>;
         sr2 = (if reason = UnknownModule then recordUnknownModule sr1 text else sr1) in
     if length (sr_samples sr2) < kMaxSkipSamples then
       sr2\<lparr>sr_samples := sr_samples sr2 @
         [\<lparr>sm_reason = reason, sm_offset = offset, sm_text = escapeNonPrintable (take kMaxSkipSampleBytes text)\<rparr>]\<rparr>
     else sr2)"

definition unknownModuleCount :: "SkipReporter \<Rightarrow> string \<Rightarrow> nat" where
  "unknownModuleCount sr name = (case om_find (sr_unknownModules sr) name of None \<Rightarrow> 0 | Some n \<Rightarrow> n)"

definition skip_reset :: "SkipReporter \<Rightarrow> SkipReporter" where
  "skip_reset sr = sr\<lparr>sr_counts := (\<lambda>_. 0), sr_samples := [], sr_unknownModules := [],
    sr_unlistedUnknownLines := 0, sr_total := 0\<rparr>"

definition nl :: string where
  "nl = [CHR 0x0A]"

text \<open>The names in the order of the report: by count descending, then by name.\<close>

definition ordered_names :: "(string \<times> nat) list \<Rightarrow> (string \<times> nat) list" where
  "ordered_names m = sort_key (\<lambda>e. (- int (snd e), fst e)) m"

definition report_text :: "SkipReporter \<Rightarrow> string" where
  "report_text sr =
    ''=== Skip Report ==='' @ nl @ ''Total skipped lines: '' @ to_string (sr_total sr) @ nl @ nl @
    ''[Counts by reason]'' @ nl @
    concat (map (\<lambda>r. skipReasonCode r @ '' '' @ to_string (sr_counts sr r) @ nl) all_reasons) @
    (if 0 < sr_counts sr UnknownModule then
       nl @ ''[Unknown module names]'' @ nl @
       concat (map (\<lambda>(name, c). name @ '' '' @ to_string c @ nl) (ordered_names (sr_unknownModules sr))) @
       (if 0 < sr_unlistedUnknownLines sr then
          ''... '' @ to_string (sr_unlistedUnknownLines sr) @
          '' more skipped lines whose module name is not listed (distinct-name limit '' @
          to_string kMaxUnknownModules @ '')'' @ nl
        else [])
     else []) @
    nl @ ''[First '' @ to_string kMaxSkipSamples @ '' skipped lines: reason, byte offset, raw prefix]'' @ nl @
    concat (map (\<lambda>s. ''['' @ skipReasonCode (sm_reason s) @ ''] offset='' @ to_string (sm_offset s) @ '' | '' @
      sm_text s @ nl) (sr_samples sr)) @
    (if length (sr_samples sr) < sr_total sr then
       ''... '' @ to_string (sr_total sr - length (sr_samples sr)) @
       '' more skipped lines not shown (sample limit)'' @ nl
     else [])"

section \<open>Escaping\<close>

lemma kHex_nth: "i < 16 \<Longrightarrow> kHex ! i \<in> set kHex"
  by (rule nth_mem) (simp add: kHex_def)

lemma kHex_not_ctrl: "c \<in> set kHex \<Longrightarrow> \<not> is_ctrl c"
  by (auto simp: kHex_def is_ctrl_def byte_nat_def)

lemma escape_char_not_ctrl: "c \<in> set (escape_char ch) \<Longrightarrow> \<not> is_ctrl c"
proof (cases "is_ctrl ch")
  case True
  have "byte_nat ch div 16 < 16" "byte_nat ch mod 16 < 16"
    using byte_nat_less [of ch] by (simp_all add: less_mult_imp_div_less)
  moreover assume "c \<in> set (escape_char ch)"
  ultimately show ?thesis
    using True kHex_nth kHex_not_ctrl by (auto simp: escape_char_def Let_def is_ctrl_def byte_nat_def split: if_splits)
next
  case False
  moreover assume "c \<in> set (escape_char ch)"
  ultimately show ?thesis by (auto simp: escape_char_def Let_def is_ctrl_def split: if_splits)
qed

lemma escape_not_ctrl: "\<not> list_ex is_ctrl (escapeNonPrintable s)"
  using escape_char_not_ctrl by (auto simp: escapeNonPrintable_def list_ex_iff)

lemma escape_id: "\<not> list_ex is_ctrl s \<Longrightarrow> escapeNonPrintable s = s"
  by (induction s) (auto simp: escapeNonPrintable_def escape_char_def is_ctrl_def Let_def)

lemma escape_length: "length (escapeNonPrintable s) \<le> 4 * length s"
  by (induction s) (auto simp: escapeNonPrintable_def escape_char_def Let_def)

section \<open>Invariant\<close>

definition reason_sum :: "(SkipReason \<Rightarrow> nat) \<Rightarrow> nat" where
  "reason_sum f = sum_list (map f all_reasons)"

lemma reason_sum_upd: "reason_sum (f(r := Suc (f r))) = Suc (reason_sum f)"
  by (cases r) (simp_all add: reason_sum_def all_reasons_def)

definition sample_ok :: "Sample \<Rightarrow> bool" where
  "sample_ok s \<longleftrightarrow> length (sm_text s) \<le> 800 \<and> \<not> list_ex is_ctrl (sm_text s)"

definition skip_inv :: "SkipReporter \<Rightarrow> bool" where
  "skip_inv sr \<longleftrightarrow>
    sr_total sr = reason_sum (sr_counts sr) \<and>
    om_sum (sr_unknownModules sr) + sr_unlistedUnknownLines sr = sr_counts sr UnknownModule \<and>
    om_wf (sr_unknownModules sr) \<and> length (sr_unknownModules sr) \<le> kMaxUnknownModules \<and>
    length (sr_samples sr) = min (sr_total sr) kMaxSkipSamples \<and> list_all sample_ok (sr_samples sr)"

lemma skip_inv_new: "skip_inv newReporter"
  by (simp add: skip_inv_def newReporter_def reason_sum_def all_reasons_def)

lemma unknown_frame:
  "sr_total (recordUnknownModule sr tx) = sr_total sr" "sr_counts (recordUnknownModule sr tx) = sr_counts sr"
  "sr_samples (recordUnknownModule sr tx) = sr_samples sr"
  by (auto simp: recordUnknownModule_def Let_def split: option.splits prod.splits)

lemma unknown_counts:
  assumes "om_wf (sr_unknownModules sr)" and "length (sr_unknownModules sr) \<le> kMaxUnknownModules"
  shows "om_sum (sr_unknownModules (recordUnknownModule sr tx)) + sr_unlistedUnknownLines (recordUnknownModule sr tx) =
      Suc (om_sum (sr_unknownModules sr) + sr_unlistedUnknownLines sr)"
    and "om_wf (sr_unknownModules (recordUnknownModule sr tx))"
    and "length (sr_unknownModules (recordUnknownModule sr tx)) \<le> kMaxUnknownModules"
proof -
  let ?room = "\<not> kMaxUnknownModules \<le> length (sr_unknownModules sr)"
  have len: "length (fst (om_count ?room (sr_unknownModules sr) k)) \<le> kMaxUnknownModules" for k
    by (rule om.size_bounded) (use assms(2) in auto)
  have tot: "om_sum m = Suc (om_sum (sr_unknownModules sr))" if "om_count ?room (sr_unknownModules sr) k = (m, True)" for k m
    using om.bump_total [of ?room "sr_unknownModules sr" k] that by simp
  have wf: "om_wf m" if "om_count ?room (sr_unknownModules sr) k = (m, b)" for k m b
    using om.wf_bump [OF assms(1), of ?room k] that by simp
  have len': "length m \<le> kMaxUnknownModules" if "om_count ?room (sr_unknownModules sr) k = (m, b)" for k m b
    using len [of k] that by simp
  show "om_sum (sr_unknownModules (recordUnknownModule sr tx)) + sr_unlistedUnknownLines (recordUnknownModule sr tx) =
      Suc (om_sum (sr_unknownModules sr) + sr_unlistedUnknownLines sr)"
    "om_wf (sr_unknownModules (recordUnknownModule sr tx))"
    "length (sr_unknownModules (recordUnknownModule sr tx)) \<le> kMaxUnknownModules"
    using assms tot wf len' by (auto simp: recordUnknownModule_def Let_def split: option.splits prod.splits)
qed

lemma sample_new_ok: "sample_ok \<lparr>sm_reason = r, sm_offset = off, sm_text = escapeNonPrintable (take kMaxSkipSampleBytes tx)\<rparr>"
proof -
  have "length (escapeNonPrintable (take kMaxSkipSampleBytes tx)) \<le> 4 * 200"
    by (rule order_trans [OF escape_length]) (simp add: skip_limits)
  then show ?thesis by (simp add: sample_ok_def escape_not_ctrl)
qed

lemma skip_inv_record:
  assumes "skip_inv sr"
  shows "skip_inv (skip_record sr r off tx)"
proof -
  let ?sr1 = "sr\<lparr>sr_total := sr_total sr + 1, sr_counts := (sr_counts sr)(r := sr_counts sr r + 1)\<rparr>"
  define sr2 where "sr2 = (if r = UnknownModule then recordUnknownModule ?sr1 tx else ?sr1)"
  have frame: "sr_total sr2 = Suc (sr_total sr)" "sr_counts sr2 = (sr_counts sr)(r := sr_counts sr r + 1)"
    "sr_samples sr2 = sr_samples sr"
    by (simp_all add: sr2_def unknown_frame)
  have u: "om_sum (sr_unknownModules sr2) + sr_unlistedUnknownLines sr2 = sr_counts sr2 UnknownModule"
    "om_wf (sr_unknownModules sr2)" "length (sr_unknownModules sr2) \<le> kMaxUnknownModules"
    using assms unknown_counts [of ?sr1 tx] by (auto simp: sr2_def frame skip_inv_def unknown_frame)
  have rec: "skip_record sr r off tx =
      (if length (sr_samples sr2) < kMaxSkipSamples then
         sr2\<lparr>sr_samples := sr_samples sr2 @ [\<lparr>sm_reason = r, sm_offset = off,
           sm_text = escapeNonPrintable (take kMaxSkipSampleBytes tx)\<rparr>]\<rparr> else sr2)"
    unfolding skip_record_def sr2_def Let_def ..
  show ?thesis
    using u assms by (auto simp: skip_inv_def rec frame reason_sum_upd sample_new_ok)
qed

lemma skip_reset_new: "skip_reset sr = newReporter"
  by (simp add: skip_reset_def newReporter_def)

section \<open>Names of unknown modules\<close>

lemma parseInt64Field_not_module: "parseInt64Field t \<noteq> Some UnknownModule"
  by (auto simp: parseInt64Field_def split: prod.splits)

lemma parseDomain_UnknownModule:
  assumes "parseDomain modname msg = Inl UnknownModule"
  shows "find_module modname = None"
proof -
  have "checkIntFields msg fs \<noteq> Some UnknownModule" for fs
    by (induction fs) (auto simp: parseInt64Field_not_module split: option.splits)
  moreover have "checkSpeed msg \<noteq> Inl UnknownModule"
    by (auto simp: checkSpeed_def Let_def split: option.splits)
  ultimately show ?thesis
    using assms by (auto simp: parseDomain_def Let_def split: option.splits if_splits sum.splits)
qed

lemma checkLine_UnknownModule:
  assumes "checkLine p text tooLong = Inl UnknownModule"
  shows "\<exists>toks modname msg. parseFrame text = Inr (toks, modname, msg) \<and> \<not> list_ex is_ctrl text \<and>
    parseTimestamp (toks ! 0) \<noteq> None \<and> list_all int_token (tl toks) \<and> find_module modname = None"
proof -
  have hdr: "headerTokens text n pos \<noteq> Inl UnknownModule" for n pos
    by (induction n arbitrary: pos) (auto split: option.splits sum.splits)
  have frame: "parseFrame text \<noteq> Inl UnknownModule"
    using hdr by (auto simp: parseFrame_def Let_def split: sum.splits option.splits)
  have ints: "firstBadInt ts \<noteq> Some UnknownModule" for ts
    by (induction ts) (auto simp: parseInt64Field_not_module split: option.splits)
  obtain toks modname msg where f: "parseFrame text = Inr (toks, modname, msg)"
    using assms frame by (auto simp: checkLine_def split: if_splits sum.splits)
  from assms f ints [of "tl toks"] parseDomain_UnknownModule [of modname msg] show ?thesis
    by (auto simp: checkLine_def firstBadInt_None [symmetric] split: if_splits sum.splits option.splits prod.splits)
qed

lemma timestamp_no_space:
  assumes "parseTimestamp ts \<noteq> None"
  shows "CHR '' '' \<notin> set ts"
proof
  have fmt: "timestamp_format ts" using assms by (auto simp: parseTimestamp_def split: if_splits)
  assume "CHR '' '' \<in> set ts"
  then obtain i where i: "i < 26" "ts ! i = CHR '' ''"
    using fmt by (auto simp: in_set_conv_nth timestamp_format_def)
  have nd: "\<not> is_digit (CHR '' '')" by (simp add: is_digit_def byte_nat_def)
  have "i \<in> {0,1,2,3,5,6,8,9,11,12,14,15,17,18,20,21,22,23,24,25} \<or> i \<in> {4,7,10,13,16,19}"
    using i(1) by (simp only: insert_iff empty_iff) presburger
  then show False
    using fmt i(2) nd by (auto simp: timestamp_format_def allDigitsAt_def upt_rec numeral_2_eq_2 numeral_3_eq_3)
qed

lemma space_not_digit [simp]: "\<not> is_digit (CHR '' '')"
  by (simp add: is_digit_def byte_nat_def)

lemma bracketed_no_space:
  assumes "list_all (\<lambda>t. CHR '' '' \<notin> set t) toks"
  shows "CHR '' '' \<notin> set (bracketed toks)"
  using assms by (induction toks) auto

text \<open>A pattern that starts with a character not in the front part is found right behind it.\<close>

lemma sv_find_after:
  assumes "c \<notin> set xs" and "drop pos s = xs @ (c # pat) @ ys"
  shows "sv_find s (c # pat) pos = Some (pos + length xs)"
proof (rule sv_findI)
  have len: "length s = pos + length (xs @ (c # pat) @ ys)"
    using assms(2) by (metis length_drop add_diff_inverse_nat less_imp_not_less append_Nil2 append_is_Nil_conv
        drop_all list.distinct(1) not_le_imp_less less_imp_le_nat)
  then show "pos + length xs \<le> length s" by simp
  show "prefix (c # pat) (drop (pos + length xs) s)"
    using arg_cong [OF assms(2), of "drop (length xs)"] by (simp add: add.commute)
  fix j assume j: "pos \<le> j" "j < pos + length xs"
  then have "drop j s = drop (j - pos) xs @ (c # pat) @ ys"
    using arg_cong [OF assms(2), of "drop (j - pos)"] by simp
  moreover have "drop (j - pos) xs = xs ! (j - pos) # drop (Suc (j - pos)) xs"
    using j by (intro Cons_nth_drop_Suc [symmetric]) simp
  moreover have "xs ! (j - pos) \<noteq> c" using assms(1) j by (metis less_diff_conv2 add.commute nth_mem)
  ultimately show "\<not> prefix (c # pat) (drop j s)" by simp
qed simp

text \<open>The name the reporter lists for a line rejected for its module is the module name of the line.\<close>

lemma recordUnknownModule_frame:
  assumes "text = frame_text toks modname msg" and "CHR '' '' \<notin> set (bracketed toks)"
    and "modname \<noteq> []" and "CHR '':'' \<notin> set modname" and "\<not> list_ex is_ctrl text"
  shows "recordUnknownModule sr text =
    (let (m, counted) = om_count (\<not> kMaxUnknownModules \<le> length (sr_unknownModules sr))
       (sr_unknownModules sr) (take kMaxModuleNameBytes modname)
     in if counted then sr\<lparr>sr_unknownModules := m\<rparr>
        else sr\<lparr>sr_unlistedUnknownLines := sr_unlistedUnknownLines sr + 1\<rparr>)"
proof -
  let ?k = "length (bracketed toks)"
  have 1: "sv_find text '' BYDA::'' 0 = Some ?k"
    using sv_find_after [of "CHR '' ''" "bracketed toks" 0 "text" "''BYDA::''" "modname @ '': '' @ msg"] assms(1,2)
    by (simp add: frame_text_def kSeparator_def)
  have d: "drop (?k + 7) text = modname @ '': '' @ msg"
    using assms(1) by (simp add: frame_text_def kSeparator_def)
  have 2: "sv_find text '': '' (?k + 7) = Some (?k + 7 + length modname)"
    by (rule sv_find_after) (use assms(4) d in auto)
  have 3: "sv_substr text (?k + 7) (min (length modname) kMaxModuleNameBytes) = take kMaxModuleNameBytes modname"
    using d by (simp add: sv_substr_def min_def)
  have "\<not> list_ex is_ctrl (take kMaxModuleNameBytes modname)"
    using assms(1,5) by (auto simp: frame_text_def list_ex_iff dest: in_set_takeD)
  then have 4: "escapeNonPrintable (take kMaxModuleNameBytes modname) = take kMaxModuleNameBytes modname"
    by (rule escape_id)
  show ?thesis
    unfolding recordUnknownModule_def 1 Let_def option.case 2 using assms(3) by (simp add: 3 4)
qed

section \<open>Properties\<close>

text \<open>The reporter after a list of skipped lines.\<close>

definition report_of :: "(SkipReason \<times> nat \<times> string) list \<Rightarrow> SkipReporter" where
  "report_of rs = foldl (\<lambda>sr (r, off, tx). skip_record sr r off tx) newReporter rs"

lemma skip_inv_report: "skip_inv (report_of rs)"
proof -
  have "skip_inv sr \<Longrightarrow> skip_inv (foldl (\<lambda>sr (r, off, tx). skip_record sr r off tx) sr rs)" for sr
    by (induction rs arbitrary: sr) (auto simp: skip_inv_record)
  then show ?thesis by (simp add: report_of_def skip_inv_new)
qed

text \<open>
  Whatever is skipped, the report adds up and stays bounded: the total is the sum of the reason
  counts, listed plus unlisted unknown modules are the UNKNOWN_MODULE count, at most 50 names and the
  first 100 lines are kept, and no sample text is over 800 bytes or holds a control character.
\<close>

theorem skip_report_adds_up:
  "let sr = report_of rs in
     sr_total sr = reason_sum (sr_counts sr) \<and>
     om_sum (sr_unknownModules sr) + sr_unlistedUnknownLines sr = sr_counts sr UnknownModule \<and>
     length (sr_unknownModules sr) \<le> 50 \<and> length (sr_samples sr) = min (sr_total sr) 100 \<and>
     list_all (\<lambda>s. length (sm_text s) \<le> 800 \<and> \<not> list_ex is_ctrl (sm_text s)) (sr_samples sr)"
  using skip_inv_report [of rs] by (simp add: skip_inv_def Let_def skip_limits sample_ok_def [abs_def])

text \<open>
  A line the parser rejects for its module is listed under the module name written in it (its
  first 64 bytes): the search by marker and colon finds exactly the name of the frame, so only the
  limit on names can leave a line unlisted.
\<close>

theorem unknown_module_name:
  assumes "parse p text tooLong = (p', Inl UnknownModule)"
  shows "\<exists>toks modname msg. text = frame_text toks modname msg \<and> find_module modname = None \<and>
    recordUnknownModule sr text =
    (let (m, counted) = om_count (\<not> kMaxUnknownModules \<le> length (sr_unknownModules sr))
       (sr_unknownModules sr) (take kMaxModuleNameBytes modname)
     in if counted then sr\<lparr>sr_unknownModules := m\<rparr>
        else sr\<lparr>sr_unlistedUnknownLines := sr_unlistedUnknownLines sr + 1\<rparr>)"
proof -
  from assms have "checkLine p text tooLong = Inl UnknownModule"
    by (auto simp: parse_def split: sum.splits prod.splits)
  from checkLine_UnknownModule [OF this] obtain toks modname msg where
    f: "parseFrame text = Inr (toks, modname, msg)" and c: "\<not> list_ex is_ctrl text" and
    t: "parseTimestamp (toks ! 0) \<noteq> None" and i: "list_all int_token (tl toks)" and m: "find_module modname = None"
    by blast
  note F = parseFrame_iff [THEN iffD1, OF f]
  obtain t0 ts where toks: "toks = t0 # ts" using F by (cases toks) auto
  have "CHR '' '' \<notin> set (bracketed toks)"
  proof (rule bracketed_no_space)
    have "CHR '' '' \<notin> set x" if "int_token x" for x
      using that space_not_digit by (auto simp: int_token_def allDigits_def list_all_iff)
    then show "list_all (\<lambda>t. CHR '' '' \<notin> set t) toks"
      using toks i timestamp_no_space [OF t] by (auto simp: list_all_iff)
  qed
  with F c m recordUnknownModule_frame [of "text" toks modname msg sr] show ?thesis by blast
qed

theorem unknown_module_name_witness:
  "let tx = ''[2026-06-19_22:00:01.000000][1][2][3] BYDA::Foo: x[1]'' in
   snd (parse newParser tx False) = Inl UnknownModule \<and>
   (\<exists>toks modname msg. tx = frame_text toks modname msg \<and> find_module modname = None)"
proof -
  let ?tx = "''[2026-06-19_22:00:01.000000][1][2][3] BYDA::Foo: x[1]''"
  have p: "snd (parse newParser ?tx False) = Inl UnknownModule" by code_simp
  then obtain p' where "parse newParser ?tx False = (p', Inl UnknownModule)" by (metis prod.collapse)
  from unknown_module_name [OF this, of newReporter] p show ?thesis unfolding Let_def by blast
qed

end
