(* ===== verification/CsvBuilder.thy ===== *)
theory CsvBuilder
  imports StatsCollector SkipReporter Protocol
begin

text \<open>
  The result file of \<^verbatim>\<open>server/src/csv/CsvBuilder\<close>: the bucket block, a blank line and the metric block.
  \<^verbatim>\<open>formatFixed6\<close> follows the double arithmetic of the code step by step.  Writing the file to disk is
  not modelled.
\<close>

section \<open>Definitions\<close>

definition formatFixed6 :: "rat \<Rightarrow> string" where
  "formatFixed6 value =
    (if \<not> 0 < value then ''0.000000''
     else
       let whole = nat \<lfloor>value\<rfloor>;
           fractional = rnd (value - rnd (of_nat whole));
           micros = nat \<lfloor>rnd (rnd (fractional * 1000000) + 1 / 2)\<rfloor>;
           integral = (if 1000000 \<le> micros then whole + 1 else whole);
           micros' = (if 1000000 \<le> micros then micros - 1000000 else micros)
       in to_string integral @ ''.'' @ put_digits 6 micros')"

definition bucket_row :: "ModuleId \<times> HourKey \<times> nat \<Rightarrow> string" where
  "bucket_row b = (case b of (i, key, count) \<Rightarrow>
    moduleName i @ '','' @ formatHourKey key @ '','' @ to_string count @ nl)"

text \<open>The nonzero reasons with their codes, in the order of the codes.\<close>

definition reason_rows :: "SkipReporter \<Rightarrow> (string \<times> nat) list" where
  "reason_rows sr = sort_key fst
    (map (\<lambda>r. (skipReasonCode r, sr_counts sr r)) (filter (\<lambda>r. 0 < sr_counts sr r) all_reasons))"

definition reason_row :: "string \<times> nat \<Rightarrow> string" where
  "reason_row e = ''skip_reason_'' @ fst e @ '','' @ to_string (snd e) @ nl"

definition buildResultCsv :: "StatsCollector \<Rightarrow> SkipReporter \<Rightarrow> nat \<Rightarrow> string" where
  "buildResultCsv st sr totalLines =
    ''module,hour,count'' @ nl @ concat (map bucket_row (forEachBucket st)) @
    nl @
    ''metric,value'' @ nl @
    ''total_lines,'' @ to_string totalLines @ nl @
    ''avg_speed,'' @ formatFixed6 (averageSpeed st) @ nl @
    ''valid_spd_samples,'' @ to_string (st_validSpdSamples st) @ nl @
    ''excluded_spd_samples,'' @ to_string (st_excludedSpdSamples st) @ nl @
    ''missing_spd_samples,'' @ to_string (st_missingSpdSamples st) @ nl @
    ''skipped_lines,'' @ to_string (sr_total sr) @ nl @
    concat (map reason_row (reason_rows sr))"

section \<open>Sizes\<close>

lemma length_put_digits [simp]: "length (put_digits n v) = n"
  by (induction n arbitrary: v) auto

lemma length_nl [simp]: "length nl = 1"
  by (simp add: nl_def)

lemma length_formatHourKey [simp]: "length (formatHourKey k) = 13"
  by (simp add: formatHourKey_def Let_def)

lemma length_moduleName: "length (moduleName i) \<le> 21"
  by (cases i) (simp_all add: moduleName_def)

lemma length_skipReasonCode: "length (skipReasonCode r) \<le> 16"
  by (cases r) simp_all

lemma length_bucket_row: "c < 2 ^ 64 \<Longrightarrow> length (bucket_row (i, k, c)) \<le> 57"
  using to_string_u64_length [of c] length_moduleName [of i] by (simp add: bucket_row_def)

lemma length_concat_le:
  assumes "\<And>x. x \<in> set xs \<Longrightarrow> length (f x) \<le> n"
  shows "length (concat (map f xs)) \<le> n * length xs"
  using assms by (induction xs) force+

lemma modules_by_name: "sort_key moduleName all_modules =
    [AntennaProfileSpec, BeamSteerCtrlUnitImpl, DetectionTaskRunner, RadarTrackNodeState, SectorSchedulerRTS]"
  by code_simp

lemma length_forEachBucket: "length (forEachBucket st) = totalEntries st"
  by (simp add: forEachBucket_def modules_by_name totalEntries_def all_modules_def)

lemma forEachBucket_mem: "(i, k, c) \<in> set (forEachBucket st) \<longleftrightarrow> (k, c) \<in> set (st_buckets st i)"
  by (cases i) (auto simp: forEachBucket_def modules_by_name)

lemma formatFixed6_length:
  assumes "v \<le> 10000000"
  shows "length (formatFixed6 v) \<le> 15"
proof (cases "0 < v")
  case True
  have "\<lfloor>v\<rfloor> \<le> 10000000" using assms by (simp add: floor_le_iff)
  then have "nat \<lfloor>v\<rfloor> \<le> 10000000" by (subst nat_le_iff) simp
  moreover have "(10 :: nat) ^ 8 = 100000000" by simp
  ultimately have "nat \<lfloor>v\<rfloor> + 1 < 10 ^ 8" by linarith
  then have "length (to_string (nat \<lfloor>v\<rfloor>)) \<le> 8" "length (to_string (nat \<lfloor>v\<rfloor> + 1)) \<le> 8"
    by (intro length_to_string_le; simp)+
  then show ?thesis using True by (simp add: formatFixed6_def Let_def)
qed (simp add: formatFixed6_def)

lemma length_reason_rows: "length (reason_rows sr) \<le> 11"
  using length_filter_le [of "\<lambda>r. 0 < sr_counts sr r" all_reasons]
  by (simp add: reason_rows_def all_reasons_def)

lemma reason_rows_mem:
  "(code, c) \<in> set (reason_rows sr) \<longleftrightarrow> (\<exists>r. code = skipReasonCode r \<and> c = sr_counts sr r \<and> 0 < c)"
proof -
  have "r \<in> set all_reasons" for r by (cases r) (simp_all add: all_reasons_def)
  then show ?thesis by (auto simp: reason_rows_def)
qed

lemma length_reason_row:
  assumes "e \<in> set (reason_rows sr)" and "\<And>r. sr_counts sr r < 2 ^ 64"
  shows "length (reason_row e) \<le> 50"
proof -
  obtain r where "fst e = skipReasonCode r" "snd e = sr_counts sr r"
    using assms(1) reason_rows_mem [of "fst e" "snd e" sr] by auto
  then show ?thesis
    using length_skipReasonCode [of r] to_string_u64_length [OF assms(2), of r] by (simp add: reason_row_def)
qed

text \<open>The size of the file, from the number of entries and the width of its numbers.\<close>

lemma length_buildResultCsv:
  assumes "\<And>i k c. (k, c) \<in> set (st_buckets st i) \<Longrightarrow> c < 2 ^ 64" and "averageSpeed st \<le> 10000000"
    and "st_validSpdSamples st < 2 ^ 64" "st_excludedSpdSamples st < 2 ^ 64" "st_missingSpdSamples st < 2 ^ 64"
    and "\<And>r. sr_counts sr r < 2 ^ 64" and "sr_total sr < 2 ^ 64" and "tot < 2 ^ 64"
  shows "length (buildResultCsv st sr tot) \<le> 57 * totalEntries st + 798"
proof -
  have b: "length (bucket_row e) \<le> 57" if "e \<in> set (forEachBucket st)" for e
    using that length_bucket_row assms(1) forEachBucket_mem by (metis prod_cases3)
  have "length (concat (map bucket_row (forEachBucket st))) \<le> 57 * totalEntries st"
    using length_concat_le [of "forEachBucket st" bucket_row 57] b by (simp add: length_forEachBucket)
  moreover have "length (concat (map reason_row (reason_rows sr))) \<le> 50 * length (reason_rows sr)"
    by (rule length_concat_le) (rule length_reason_row [OF _ assms(6)])
  moreover note length_reason_rows [of sr] formatFixed6_length [OF assms(2)]
    to_string_u64_length [OF assms(3)] to_string_u64_length [OF assms(4)] to_string_u64_length [OF assms(5)]
    to_string_u64_length [OF assms(7)] to_string_u64_length [OF assms(8)]
  ultimately show ?thesis by (simp add: buildResultCsv_def del: length_concat)
qed

end
