(* ===== verification/Crc32.thy ===== *)
theory Crc32
  imports Prelude
begin

text \<open>
  CRC-32 of \<^verbatim>\<open>common/util/Crc32.cpp\<close>: the table built at compile time and the table-driven update,
  with the bit-serial reference it has to agree with. The running value between calls is the finished
  CRC of what was fed so far (each call undoes and redoes the final XOR), which is what lets the two
  programs checksum a stream chunk by chunk.
\<close>

section \<open>Definitions\<close>

definition kPolynomial :: u32 where
  "kPolynomial = 0xEDB88320"

definition crc_bit :: "u32 \<Rightarrow> u32" where
  "crc_bit c = (if c AND 1 \<noteq> 0 then kPolynomial XOR drop_bit 1 c else drop_bit 1 c)"

definition makeTable :: "u32 list" where
  "makeTable = map (\<lambda>i. (crc_bit ^^ 8) (of_nat i)) [0..<256]"

definition kTable :: "u32 list" where
  "kTable = makeTable"

definition crc_step :: "u32 \<Rightarrow> char \<Rightarrow> u32" where
  "crc_step c ch = (kTable ! unat ((c XOR ucast (u8_of ch)) AND 0xFF)) XOR drop_bit 8 c"

definition crc32 :: "u32 \<Rightarrow> string \<Rightarrow> u32" where
  "crc32 crc data = foldl crc_step (crc XOR 0xFFFFFFFF) data XOR 0xFFFFFFFF"

text \<open>The reference: shift the register bit by bit, no table.\<close>

definition crc_ref_step :: "u32 \<Rightarrow> char \<Rightarrow> u32" where
  "crc_ref_step c ch = (crc_bit ^^ 8) (c XOR ucast (u8_of ch))"

definition crc32_ref :: "u32 \<Rightarrow> string \<Rightarrow> u32" where
  "crc32_ref crc data = foldl crc_ref_step (crc XOR 0xFFFFFFFF) data XOR 0xFFFFFFFF"

section \<open>The table agrees with the shift register\<close>

lemma kTable_nth [simp]: "i < 256 \<Longrightarrow> kTable ! i = (crc_bit ^^ 8) (of_nat i)"
  by (simp add: kTable_def makeTable_def)

lemma length_kTable [simp]: "length kTable = 256"
  by (simp add: kTable_def makeTable_def)

lemma and_1_bit: "(c :: u32) AND 1 \<noteq> 0 \<longleftrightarrow> bit c 0"
  by (simp add: and_one_eq bit_0 odd_iff_mod_2_eq_one)

lemma xor_left_cancel: "(a :: 'a::len word) XOR b = a XOR c \<longleftrightarrow> b = c"
proof
  assume "a XOR b = a XOR c"
  then have "a XOR (a XOR b) = a XOR (a XOR c)" by simp
  then show "b = c" by (simp add: xor.assoc [symmetric])
qed simp

lemma crc_bit_alt: "crc_bit c = (if bit c 0 then kPolynomial XOR drop_bit 1 c else drop_bit 1 c)"
  by (simp add: crc_bit_def and_1_bit)

lemma crc_bit_xor: "crc_bit (a XOR b) = crc_bit a XOR crc_bit b"
proof -
  have "drop_bit 1 (a XOR b) = drop_bit 1 a XOR drop_bit 1 b"
    by simp
  then show ?thesis
    by (auto simp: crc_bit_alt bit_xor_iff xor.assoc xor.left_commute)
qed

lemma crc_bit_pow_xor: "(crc_bit ^^ n) (a XOR b) = (crc_bit ^^ n) a XOR (crc_bit ^^ n) b"
  by (induction n) (simp_all add: crc_bit_xor)

lemma crc_bit_pow_high:
  assumes "\<And>i. i < n \<Longrightarrow> \<not> bit c i"
  shows "(crc_bit ^^ n) c = drop_bit n c"
  using assms
proof (induction n arbitrary: c)
  case (Suc n)
  then have "\<not> bit c 0" by blast
  then have "crc_bit c = drop_bit 1 c"
    by (simp add: crc_bit_def and_1_bit)
  moreover have "(crc_bit ^^ n) (drop_bit 1 c) = drop_bit n (drop_bit 1 c)"
    by (rule Suc.IH) (use Suc.prems in \<open>simp add: bit_drop_bit_eq\<close>)
  ultimately show ?case
    by (simp add: funpow_swap1 funpow_Suc_right del: funpow.simps)
qed simp

lemma split_low_byte: "(c :: u32) = (c AND 0xFF) XOR push_bit 8 (drop_bit 8 c)"
proof (rule bit_word_eqI)
  fix i
  have "bit (0xFF :: u32) i \<longleftrightarrow> i < 8"
  proof -
    have "(0xFF :: u32) = mask 8" by (simp add: mask_eq_exp_minus_1)
    then show ?thesis by (simp only: bit_mask_iff) auto
  qed
  then show "bit c i \<longleftrightarrow> bit ((c AND 0xFF) XOR push_bit 8 (drop_bit 8 c)) i"
    by (auto simp: bit_simps dest: bit_imp_le_length)
qed

lemma crc_bit_pow8: "(crc_bit ^^ 8) c = (crc_bit ^^ 8) (c AND 0xFF) XOR drop_bit 8 c"
proof -
  have "(crc_bit ^^ 8) (push_bit 8 (drop_bit 8 c)) = drop_bit 8 (push_bit 8 (drop_bit 8 c))"
    by (rule crc_bit_pow_high) (simp add: bit_push_bit_iff)
  also have "\<dots> = drop_bit 8 c"
    by (rule bit_word_eqI) (auto simp: bit_simps dest: bit_imp_le_length)
  finally have "(crc_bit ^^ 8) (push_bit 8 (drop_bit 8 c)) = drop_bit 8 c" .
  then show ?thesis
    by (subst split_low_byte) (simp only: crc_bit_pow_xor)
qed

lemma unat_and_FF: "unat ((c :: u32) AND 0xFF) < 256"
proof -
  have "unat (c AND 0xFF) \<le> unat (0xFF :: u32)"
    by (rule word_and_le1 [THEN word_le_nat_alt [THEN iffD1]])
  then show ?thesis by simp
qed

lemma drop_bit8_byte: "drop_bit 8 (ucast (b :: u8) :: u32) = 0"
  by (rule bit_word_eqI) (auto simp: bit_simps dest: bit_imp_le_length)

lemma crc_step_eq_ref: "crc_step c ch = crc_ref_step c ch"
proof -
  let ?x = "c XOR ucast (u8_of ch)"
  have "crc_step c ch = (crc_bit ^^ 8) (?x AND 0xFF) XOR drop_bit 8 c"
    by (simp add: crc_step_def unat_and_FF)
  moreover have "drop_bit 8 ?x = drop_bit 8 c"
    by (simp add: drop_bit8_byte)
  ultimately show ?thesis
    by (simp add: crc_ref_step_def crc_bit_pow8 [of ?x])
qed

section \<open>The register never loses information\<close>

lemma crc_bit_msb: "bit (crc_bit c) 31 \<longleftrightarrow> bit c 0"
proof -
  have "\<not> bit (drop_bit 1 c) 31"
    by (auto simp: bit_drop_bit_eq dest: bit_imp_le_length)
  moreover have "bit kPolynomial 31"
    by (simp add: kPolynomial_def)
  ultimately show ?thesis
    by (simp add: crc_bit_def and_1_bit bit_xor_iff)
qed

lemma crc_bit_inj: "crc_bit a = crc_bit b \<Longrightarrow> a = b"
proof -
  assume eq: "crc_bit a = crc_bit b"
  then have lsb: "bit a 0 \<longleftrightarrow> bit b 0"
    by (metis crc_bit_msb)
  with eq have "drop_bit 1 a = drop_bit 1 b"
    by (auto simp: crc_bit_alt xor_left_cancel split: if_splits)
  then have "bit (drop_bit 1 a) i = bit (drop_bit 1 b) i" for i
    by simp
  then have "bit a (Suc i) = bit b (Suc i)" for i
    by (simp add: bit_drop_bit_eq)
  with lsb show "a = b"
    by (metis bit_word_eqI not0_implies_Suc)
qed

lemma crc_bit_pow_inj: "(crc_bit ^^ n) a = (crc_bit ^^ n) b \<Longrightarrow> a = b"
  by (induction n) (auto dest: crc_bit_inj)

lemma crc_ref_step_inj: "crc_ref_step a ch = crc_ref_step b ch \<Longrightarrow> a = b"
  unfolding crc_ref_step_def
  by (drule crc_bit_pow_inj) (simp add: xor.commute [of _ "ucast (u8_of ch)"] xor_left_cancel)

lemma crc_fold_inj: "foldl crc_step a s = foldl crc_step b s \<Longrightarrow> a = b"
  by (induction s arbitrary: a b) (auto simp: crc_step_eq_ref dest: crc_ref_step_inj)

lemma crc_step_byte_inj: "crc_step c x = crc_step c y \<Longrightarrow> x = y"
proof -
  assume "crc_step c x = crc_step c y"
  then have "c XOR ucast (u8_of x) = c XOR (ucast (u8_of y) :: u32)"
    by (auto simp: crc_step_eq_ref crc_ref_step_def dest: crc_bit_pow_inj)
  then have "ucast (u8_of x) = (ucast (u8_of y) :: u32)"
    by (simp add: xor_left_cancel)
  then have "u8_of x = u8_of y"
    by (simp add: word_unat_eq_iff unsigned_ucast_eq take_bit_eq_mod unat_u8_of)
  then show "x = y" by simp
qed

lemma xor_ones_cancel [simp]: "((a :: u32) XOR 0xFFFFFFFF) XOR 0xFFFFFFFF = a"
  by (simp add: xor.assoc)

lemma crc32_append: "crc32 crc (a @ b) = crc32 (crc32 crc a) b"
  by (simp add: crc32_def)

lemma crc32_Nil [simp]: "crc32 crc [] = crc"
  by (simp add: crc32_def)

lemma crc32_concat: "crc32 crc (concat cs) = foldl crc32 crc cs"
  by (induction cs arbitrary: crc) (simp_all add: crc32_append)

section \<open>Bursts\<close>

text \<open>The four bytes of a window, least significant first, as the register sees them.\<close>

fun burst_word :: "string \<Rightarrow> u32" where
  "burst_word [] = 0"
| "burst_word (b # bs) = ucast (u8_of b) XOR push_bit 8 (burst_word bs)"

lemma burst_word_bits: "bit (burst_word bs) i \<Longrightarrow> i < 8 * length bs"
proof (induction bs arbitrary: i)
  case (Cons b bs)
  show ?case
  proof (cases "i < 8")
    case False
    with Cons.prems have "bit (burst_word bs) (i - 8)"
      by (auto simp: bit_simps dest: bit_imp_le_length)
    with Cons.IH False show ?thesis by fastforce
  qed simp
qed simp

lemma drop_push_burst:
  assumes "length bs \<le> 3"
  shows "drop_bit 8 (push_bit 8 (burst_word bs)) = burst_word bs"
proof (rule bit_word_eqI)
  fix i
  show "bit (drop_bit 8 (push_bit 8 (burst_word bs))) i = bit (burst_word bs) i"
    using burst_word_bits [of bs i] assms by (auto simp: bit_simps)
qed

lemma crc_fold_burst:
  assumes "length bs \<le> 4"
  shows "foldl crc_step c bs = (crc_bit ^^ (8 * length bs)) (c XOR burst_word bs)"
  using assms
proof (induction bs arbitrary: c)
  case (Cons b bs)
  let ?w = "burst_word bs" and ?x = "c XOR ucast (u8_of b)"
  have "(crc_bit ^^ 8) (push_bit 8 ?w) = drop_bit 8 (push_bit 8 ?w)"
    by (rule crc_bit_pow_high) (simp add: bit_push_bit_iff)
  also have "\<dots> = ?w" by (rule drop_push_burst) (use Cons.prems in simp)
  finally have high: "(crc_bit ^^ 8) (push_bit 8 ?w) = ?w" .
  have "(crc_bit ^^ 8) (c XOR burst_word (b # bs)) = (crc_bit ^^ 8) (?x XOR push_bit 8 ?w)"
    unfolding burst_word.simps xor.assoc ..
  also have "\<dots> = (crc_bit ^^ 8) ?x XOR (crc_bit ^^ 8) (push_bit 8 ?w)" by (rule crc_bit_pow_xor)
  finally have step: "(crc_bit ^^ 8) (c XOR burst_word (b # bs)) = crc_step c b XOR ?w"
    unfolding high crc_step_eq_ref crc_ref_step_def .
  have "foldl crc_step (crc_step c b) bs = (crc_bit ^^ (8 * length bs)) (crc_step c b XOR ?w)"
    by (rule Cons.IH) (use Cons.prems in simp)
  then have "foldl crc_step c (b # bs) = (crc_bit ^^ (8 * length bs)) (crc_step c b XOR ?w)"
    unfolding foldl_Cons .
  also have "\<dots> = (crc_bit ^^ (8 * length bs + 8)) (c XOR burst_word (b # bs))"
    unfolding funpow_add o_apply step ..
  finally show ?case by (simp only: length_Cons mult_Suc_right add.commute)
qed simp

lemma burst_word_inj:
  assumes "length a = length b" and "length a \<le> 4" and "burst_word a = burst_word b"
  shows "a = b"
  using assms
proof (induction a b rule: list_induct2)
  case (Cons x xs y ys)
  have low: "bit (ucast (u8_of z) XOR push_bit 8 w) i \<longleftrightarrow> bit (u8_of z) i" if "i < 8" for z i and w :: u32
    using that by (simp add: bit_simps)
  have "bit (u8_of x) i = bit (u8_of y) i" if "i < 8" for i
    using Cons.prems(2) low [OF that] by (metis burst_word.simps(2))
  then have "u8_of x = u8_of y" by (intro bit_word_eqI) simp
  then have xy: "x = y" by simp
  with Cons.prems(2) have "push_bit 8 (burst_word xs) = push_bit 8 (burst_word ys)"
    by (simp add: xor_left_cancel)
  moreover have "length xs \<le> 3" "length ys \<le> 3" using Cons.hyps Cons.prems(1) by simp_all
  ultimately have "burst_word xs = burst_word ys" by (metis drop_push_burst)
  with Cons.IH Cons.prems(1) xy show ?case by simp
qed simp

lemma crc32_eq_ref: "crc32 crc s = crc32_ref crc s"
proof -
  have "crc_step = crc_ref_step" by (intro ext) (rule crc_step_eq_ref)
  then show ?thesis by (simp add: crc32_def crc32_ref_def)
qed

lemma crc_bit_pow8_unfold:
  "(crc_bit ^^ 8) c = crc_bit (crc_bit (crc_bit (crc_bit (crc_bit (crc_bit (crc_bit (crc_bit c)))))))"
  by (simp add: numeral_eq_Suc)

lemma crc32_check_value: "crc32 0 ''123456789'' = 0xCBF43926"
  by (simp add: crc32_eq_ref crc32_ref_def crc_ref_step_def crc_bit_pow8_unfold crc_bit_def
      kPolynomial_def u8_of_def)

section \<open>Properties\<close>

text \<open>
  C32. The table-driven checksum, fed chunk by chunk with each call continuing from the last value,
  is the bitwise CRC-32 of the whole byte stream, whatever the chunk boundaries: the running value
  the client and the server each keep is the checksum of the file.
\<close>

theorem crc32_stream: "foldl crc32 0 cs = crc32_ref 0 (concat cs)"
  by (simp add: crc32_concat [symmetric] crc32_eq_ref)

text \<open>
  C33. Any corruption confined to four consecutive bytes changes the checksum, so the server's CRC
  comparison catches it.
\<close>

theorem crc32_detects_burst:
  assumes "length a = length b" and "length a \<le> 4" and "a \<noteq> b"
  shows "crc32 0 (xs @ a @ ys) \<noteq> crc32 0 (xs @ b @ ys)"
proof
  assume "crc32 0 (xs @ a @ ys) = crc32 0 (xs @ b @ ys)"
  then have "foldl crc_step (foldl crc_step 0xFFFFFFFF xs) a = foldl crc_step (foldl crc_step 0xFFFFFFFF xs) b"
    unfolding crc32_def foldl_append xor.commute [of _ "0xFFFFFFFF"] xor_left_cancel
    by (simp add: crc_fold_inj)
  then have "burst_word a = burst_word b"
    using assms(1,2) crc_bit_pow_inj by (metis crc_fold_burst xor_left_cancel)
  with burst_word_inj [OF assms(1,2)] assms(3) show False by blast
qed

theorem crc32_detects_burst_witness:
  "crc32 0 ''[log] speed=1.5'' \<noteq> crc32 0 ''[log] speed=9.9''"
  using crc32_detects_burst [of "''1.5''" "''9.9''" "''[log] speed=''" "[]"] by simp

end
