(* ===== verification/ParserThread.thy ===== *)
theory ParserThread
  imports RingBuffer LineReassembler CsvBuilder Crc32
begin

text \<open>
  The parser thread of \<^verbatim>\<open>server/src/parser/ParserThread.cpp\<close>: the pipeline from ring slots through the
  reassembler, the line parser, the statistics and the skip reporter to the result, and the protocol
  between the parser thread and the event loop.  The thread's main loop is cut into atomic steps at
  the points where the loop thread can intervene; \<open>pt_exec\<close> runs one step of either side.  Waking by
  condition variable is modelled as a step enabled when its predicate holds (the mutex excludes lost
  wake-ups), \<^verbatim>\<open>uv_async_send\<close> as a flag (sends coalesce).  Log output is not modelled.
\<close>

section \<open>The pipeline\<close>

record AnalysisResult =
  ar_csv :: string
  ar_crc32 :: u32
  ar_totalLines :: nat
  ar_skippedLines :: nat

definition noResult :: AnalysisResult where
  "noResult = \<lparr>ar_csv = [], ar_crc32 = 0, ar_totalLines = 0, ar_skippedLines = 0\<rparr>"

record ParserThread =
  pt_ring :: SpscRingBuffer
  pt_reassembler :: LineReassembler
  pt_parser :: LogLineParser
  pt_stats :: StatsCollector
  pt_reporter :: SkipReporter
  pt_totalLines :: nat
  pt_stopRequested :: bool
  pt_uploadComplete :: bool
  pt_abortRequested :: bool
  pt_readStopped :: bool
  pt_result :: AnalysisResult
  pt_completionSent :: bool
  pt_resumeSent :: bool
  pt_abortDoneSent :: bool
  pt_csvPath :: string
  pt_skipReportPath :: string
  pt_csvFile :: "string option"
  pt_skipFile :: "string option"

definition newParserThread :: "nat \<Rightarrow> nat \<Rightarrow> ParserThread" where
  "newParserThread slotCount slotSize =
    \<lparr>pt_ring = newRing slotCount slotSize, pt_reassembler = newReassembler kMaxLineLength,
     pt_parser = newParser, pt_stats = newStats, pt_reporter = newReporter, pt_totalLines = 0,
     pt_stopRequested = False, pt_uploadComplete = False, pt_abortRequested = False,
     pt_readStopped = False, pt_result = noResult, pt_completionSent = False, pt_resumeSent = False,
     pt_abortDoneSent = False, pt_csvPath = [], pt_skipReportPath = [], pt_csvFile = None, pt_skipFile = None\<rparr>"

text \<open>The callback of the reassembler, in \<^verbatim>\<open>consumeReadySlots\<close> and in \<^verbatim>\<open>finishSession\<close>.\<close>

definition processLine :: "ParserThread \<Rightarrow> Line \<Rightarrow> ParserThread" where
  "processLine pt line =
    (let pt1 = pt\<lparr>pt_totalLines := pt_totalLines pt + 1\<rparr> in
     case parse (pt_parser pt) (ln_text line) (ln_tooLong line) of
       (p', Inl reason) \<Rightarrow>
         pt1\<lparr>pt_parser := p', pt_reporter := skip_record (pt_reporter pt) reason (ln_offset line) (ln_text line)\<rparr>
     | (p', Inr l) \<Rightarrow>
         (case stats_record (pt_stats pt) l of
            (st', True) \<Rightarrow> pt1\<lparr>pt_parser := p', pt_stats := st'\<rparr>
          | (st', False) \<Rightarrow>
              pt1\<lparr>pt_parser := p', pt_stats := st',
                pt_reporter := skip_record (pt_reporter pt) MapLimit (ln_offset line) (ln_text line)\<rparr>))"

text \<open>One turn of the loop of \<^verbatim>\<open>consumeReadySlots\<close>: feed the slot, release it, wake a stopped receiver.\<close>

definition consumeSlot :: "ParserThread \<Rightarrow> string \<Rightarrow> ParserThread" where
  "consumeSlot pt view =
    (let (r', ls) = reasm_feed (pt_reassembler pt) view;
         pt1 = foldl processLine (pt\<lparr>pt_reassembler := r'\<rparr>) ls;
         pt2 = pt1\<lparr>pt_ring := release (pt_ring pt1)\<rparr> in
     if pt_readStopped pt2 then pt2\<lparr>pt_resumeSent := True\<rparr> else pt2)"

text \<open>Discarding all slots: \<^verbatim>\<open>while (tryPeek) release\<close> moves the head to the tail.\<close>

function drain_ring :: "SpscRingBuffer \<Rightarrow> SpscRingBuffer" where
  "drain_ring rb = (case tryPeek rb of None \<Rightarrow> rb | Some _ \<Rightarrow> drain_ring (release rb))"
  by auto
termination
proof (relation "measure ring_count", goal_cases)
  case (2 rb x)
  then have "ring_count rb \<noteq> 0" by (auto simp: tryPeek_def split: if_splits)
  then have "ring_count (release rb) < ring_count rb"
    using ring_count_release [of rb] by linarith
  then show ?case by simp
qed simp

declare drain_ring.simps [simp del]

definition resetSessionState :: "ParserThread \<Rightarrow> ParserThread" where
  "resetSessionState pt =
    (let pt1 = pt\<lparr>pt_ring := drain_ring (pt_ring pt), pt_reassembler := reasm_reset (pt_reassembler pt),
         pt_parser := parser_reset (pt_parser pt), pt_stats := stats_reset (pt_stats pt),
         pt_reporter := skip_reset (pt_reporter pt), pt_totalLines := 0\<rparr> in
     if pt_readStopped pt1 then pt1\<lparr>pt_resumeSent := True\<rparr> else pt1)"

definition makeResult :: "ParserThread \<Rightarrow> AnalysisResult" where
  "makeResult pt =
    (let csv = buildResultCsv (pt_stats pt) (pt_reporter pt) (pt_totalLines pt) in
     \<lparr>ar_csv = csv, ar_crc32 = crc32 0 csv, ar_totalLines = pt_totalLines pt,
      ar_skippedLines = sr_total (pt_reporter pt)\<rparr>)"

text \<open>
  \<^verbatim>\<open>finishSession\<close> in its two halves: the last line, the result and the files; then the reset and the
  announcement.  The loop thread can act between them.
\<close>

definition finishResult :: "ParserThread \<Rightarrow> ParserThread" where
  "finishResult pt =
    (let (r', ls) = reasm_finish (pt_reassembler pt);
         pt1 = foldl processLine (pt\<lparr>pt_reassembler := r'\<rparr>) ls;
         result = makeResult pt1 in
     pt1\<lparr>pt_csvFile := (if pt_csvPath pt1 = [] then pt_csvFile pt1 else Some (ar_csv result)),
         pt_skipFile := (if pt_skipReportPath pt1 = [] then pt_skipFile pt1 else Some (report_text (pt_reporter pt1))),
         pt_result := result\<rparr>)"

definition finishReset :: "ParserThread \<Rightarrow> ParserThread" where
  "finishReset pt = (resetSessionState pt)\<lparr>pt_completionSent := True\<rparr>"

definition finishSession :: "ParserThread \<Rightarrow> ParserThread" where
  "finishSession pt = finishReset (finishResult pt)"

section \<open>Operations of the loop thread\<close>

definition beginSession :: "string \<Rightarrow> string \<Rightarrow> ParserThread \<Rightarrow> ParserThread" where
  "beginSession skipReportPath csvPath pt =
    pt\<lparr>pt_skipReportPath := skipReportPath, pt_csvPath := csvPath, pt_uploadComplete := False, pt_readStopped := False\<rparr>"

definition tryAcquireSlot :: "ParserThread \<Rightarrow> (nat \<times> nat) option" where
  "tryAcquireSlot pt = tryAcquire (pt_ring pt)"

definition commitSlot :: "nat \<Rightarrow> ParserThread \<Rightarrow> ParserThread" where
  "commitSlot n pt = pt\<lparr>pt_ring := commit n (pt_ring pt)\<rparr>"

definition ringFull :: "ParserThread \<Rightarrow> bool" where
  "ringFull pt = ring_full (pt_ring pt)"

definition markUploadComplete :: "ParserThread \<Rightarrow> ParserThread" where
  "markUploadComplete pt = pt\<lparr>pt_uploadComplete := True\<rparr>"

definition abortSession :: "ParserThread \<Rightarrow> ParserThread" where
  "abortSession pt = pt\<lparr>pt_abortRequested := True\<rparr>"

definition setReadStopped :: "bool \<Rightarrow> ParserThread \<Rightarrow> ParserThread" where
  "setReadStopped b pt = pt\<lparr>pt_readStopped := b\<rparr>"

text \<open>The completion callback on the loop: takes the result and leaves an empty one.\<close>

definition onCompletionAsync :: "ParserThread \<Rightarrow> AnalysisResult \<times> ParserThread" where
  "onCompletionAsync pt = (pt_result pt, pt\<lparr>pt_result := noResult, pt_completionSent := False\<rparr>)"

section \<open>Analysis of a whole upload\<close>

text \<open>The reference: split the whole stream into lines and process them one after the other.\<close>

definition analysis_of :: "string \<Rightarrow> AnalysisResult" where
  "analysis_of s = makeResult (foldl processLine (newParserThread 1 1) (lines_of kMaxLineLength s))"

text \<open>The part of the state that lines touch.\<close>

definition core :: "ParserThread \<Rightarrow> LogLineParser \<times> StatsCollector \<times> SkipReporter \<times> nat" where
  "core pt = (pt_parser pt, pt_stats pt, pt_reporter pt, pt_totalLines pt)"

definition core_step :: "LogLineParser \<times> StatsCollector \<times> SkipReporter \<times> nat \<Rightarrow> Line \<Rightarrow>
    LogLineParser \<times> StatsCollector \<times> SkipReporter \<times> nat" where
  "core_step c line = (case c of (p, st, sr, n) \<Rightarrow>
    (case parse p (ln_text line) (ln_tooLong line) of
       (p', Inl reason) \<Rightarrow> (p', st, skip_record sr reason (ln_offset line) (ln_text line), n + 1)
     | (p', Inr l) \<Rightarrow>
         (case stats_record st l of
            (st', True) \<Rightarrow> (p', st', sr, n + 1)
          | (st', False) \<Rightarrow> (p', st', skip_record sr MapLimit (ln_offset line) (ln_text line), n + 1))))"

text \<open>The three outcomes of a line.\<close>

lemma processLine_cases:
  obtains (skip) p' r where "parse (pt_parser pt) (ln_text l) (ln_tooLong l) = (p', Inl r)"
  | (count) p' x st' where "parse (pt_parser pt) (ln_text l) (ln_tooLong l) = (p', Inr x)" "stats_record (pt_stats pt) x = (st', True)"
  | (limit) p' x st' where "parse (pt_parser pt) (ln_text l) (ln_tooLong l) = (p', Inr x)" "stats_record (pt_stats pt) x = (st', False)"
proof -
  obtain p' res where r: "parse (pt_parser pt) (ln_text l) (ln_tooLong l) = (p', res)" by fastforce
  show thesis
  proof (cases res)
    case (Inl e)
    with r that(1) show thesis by blast
  next
    case (Inr x)
    obtain st' ok where s: "stats_record (pt_stats pt) x = (st', ok)" by fastforce
    show thesis
    proof (cases ok)
      case True
      then show thesis using that(2) r Inr s by simp
    next
      case False
      then show thesis using that(3) r Inr s by simp
    qed
  qed
qed

lemma core_processLine_step: "core (processLine pt l) = core_step (core pt) l"
  by (cases rule: processLine_cases [of pt l])
    (unfold core_def core_step_def processLine_def Let_def, simp_all only: prod.case sum.case bool.case, simp_all)

lemma core_foldl: "core (foldl processLine pt ls) = foldl core_step (core pt) ls"
  by (induction ls arbitrary: pt) (simp_all add: core_processLine_step)

lemma makeResult_core: "core a = core b \<Longrightarrow> makeResult a = makeResult b"
  by (simp add: core_def makeResult_def)

text \<open>What lines do not touch.\<close>

definition rest :: "ParserThread \<Rightarrow> _" where
  "rest pt = (pt_ring pt, pt_reassembler pt, pt_stopRequested pt, pt_uploadComplete pt, pt_abortRequested pt,
    pt_readStopped pt, pt_result pt, pt_completionSent pt)"

lemma rest_processLine [simp]: "rest (processLine pt l) = rest pt"
  by (cases rule: processLine_cases [of pt l])
    (unfold rest_def processLine_def Let_def, simp_all only: prod.case sum.case bool.case, simp_all)

lemma rest_foldl [simp]: "rest (foldl processLine pt ls) = rest pt"
  by (induction ls arbitrary: pt) auto

lemmas rest_eqs = rest_foldl [unfolded rest_def, simplified prod.inject]

section \<open>The state after a stream\<close>

definition core0 :: "LogLineParser \<times> StatsCollector \<times> SkipReporter \<times> nat" where
  "core0 = (newParser, newStats, newReporter, 0)"

definition at_stream :: "string \<Rightarrow> ParserThread \<Rightarrow> bool" where
  "at_stream s pt \<longleftrightarrow> reasm_at kMaxLineLength s (pt_reassembler pt) \<and>
    core pt = foldl core_step core0 (emitted_at kMaxLineLength s)"

lemma at_stream_new: "at_stream [] (newParserThread n sz)"
  by (simp add: at_stream_def newParserThread_def reasm_at_new emitted_at_Nil core_def core0_def)

lemma analysis_of_core:
  assumes "core pt = foldl core_step core0 (lines_of kMaxLineLength s)"
  shows "makeResult pt = analysis_of s"
proof -
  have "core (newParserThread 1 1) = core0" by (simp add: core_def core0_def newParserThread_def)
  then show ?thesis unfolding analysis_of_def by (intro makeResult_core) (simp add: core_foldl assms)
qed

lemma consumeSlot_at:
  assumes "at_stream s pt"
  shows "at_stream (s @ view) (consumeSlot pt view)"
proof -
  obtain r' ls where f: "reasm_feed (pt_reassembler pt) view = (r', ls)" by fastforce
  have r: "reasm_at kMaxLineLength s (pt_reassembler pt)" using assms by (simp add: at_stream_def)
  note F = reasm_feed_at [OF r f]
  define pt1 where "pt1 = foldl processLine (pt\<lparr>pt_reassembler := r'\<rparr>) ls"
  have c: "core pt1 = foldl core_step (core pt) ls" by (simp add: pt1_def core_foldl) (simp add: core_def)
  have re: "pt_reassembler pt1 = r'" using rest_eqs [of "pt\<lparr>pt_reassembler := r'\<rparr>" ls] by (simp add: pt1_def)
  have "pt_reassembler (consumeSlot pt view) = r'" "core (consumeSlot pt view) = core pt1"
    by (simp_all add: consumeSlot_def f pt1_def [symmetric] re core_def Let_def)
  then show ?thesis using F c assms by (simp add: at_stream_def)
qed

lemma consumeSlot_rest:
  "pt_ring (consumeSlot pt view) = release (pt_ring pt)"
  "pt_stopRequested (consumeSlot pt view) = pt_stopRequested pt"
  "pt_uploadComplete (consumeSlot pt view) = pt_uploadComplete pt"
  "pt_abortRequested (consumeSlot pt view) = pt_abortRequested pt"
  "pt_result (consumeSlot pt view) = pt_result pt"
  "pt_completionSent (consumeSlot pt view) = pt_completionSent pt"
  using rest_eqs [of "pt\<lparr>pt_reassembler := fst (reasm_feed (pt_reassembler pt) view)\<rparr>" "snd (reasm_feed (pt_reassembler pt) view)"]
  by (simp_all add: consumeSlot_def Let_def split_beta)

lemma drain_ring_empty:
  assumes "ring_inv rb"
  shows "ring_inv (drain_ring rb) \<and> ring_contents (drain_ring rb) = []"
  using assms
proof (induction rb rule: drain_ring.induct)
  case (1 rb)
  show ?case
  proof (cases "tryPeek rb")
    case None
    then have "ring_contents rb = []" by (auto simp: tryPeek_contents split: list.splits)
    with None 1 show ?thesis by (simp add: drain_ring.simps)
  next
    case (Some v)
    then have "ring_contents rb \<noteq> []" by (auto simp: tryPeek_contents split: list.splits)
    with 1 Some ring_inv_release show ?thesis by (simp add: drain_ring.simps [of rb])
  qed
qed

lemma reset_at:
  assumes "lr_maxLen (pt_reassembler pt) = kMaxLineLength"
  shows "at_stream [] (resetSessionState pt)"
proof -
  have "parser_reset p = newParser" "stats_reset st = newStats" for p st
    by (simp_all add: parser_reset_def newParser_def stats_reset_def newStats_def)
  with assms show ?thesis
    by (simp add: at_stream_def resetSessionState_def Let_def reasm_reset_new skip_reset_new reasm_at_new
        emitted_at_Nil core_def core0_def)
qed

lemma reset_rest:
  "pt_ring (resetSessionState pt) = drain_ring (pt_ring pt)"
  "pt_stopRequested (resetSessionState pt) = pt_stopRequested pt"
  "pt_uploadComplete (resetSessionState pt) = pt_uploadComplete pt"
  "pt_abortRequested (resetSessionState pt) = pt_abortRequested pt"
  "pt_result (resetSessionState pt) = pt_result pt"
  "pt_completionSent (resetSessionState pt) = pt_completionSent pt"
  by (simp_all add: resetSessionState_def Let_def)

lemma reasm_at_maxLen: "reasm_at n s r \<Longrightarrow> lr_maxLen r = n"
  by (auto simp: reasm_at_def follows_def split: prod.splits)

lemma reasm_finish_maxLen: "reasm_finish r = (r', ls) \<Longrightarrow> lr_maxLen r' = lr_maxLen r"
  by (auto simp: reasm_finish_def)

lemma finishResult_at:
  assumes "at_stream s pt"
  shows "pt_result (finishResult pt) = analysis_of s" and "lr_maxLen (pt_reassembler (finishResult pt)) = kMaxLineLength"
proof -
  obtain r' ls where f: "reasm_finish (pt_reassembler pt) = (r', ls)" by fastforce
  have r: "reasm_at kMaxLineLength s (pt_reassembler pt)" using assms by (simp add: at_stream_def)
  define pt1 where "pt1 = foldl processLine (pt\<lparr>pt_reassembler := r'\<rparr>) ls"
  have "core pt1 = foldl core_step (core pt) ls" by (simp add: pt1_def core_foldl) (simp add: core_def)
  then have c: "core pt1 = foldl core_step core0 (lines_of kMaxLineLength s)"
    using assms finish_at [OF r] f by (simp add: at_stream_def flip: foldl_append)
  show "pt_result (finishResult pt) = analysis_of s"
    using analysis_of_core [OF c] by (simp add: finishResult_def f Let_def pt1_def)
  have "pt_reassembler (finishResult pt) = r'"
    using rest_eqs [of "pt\<lparr>pt_reassembler := r'\<rparr>" ls] by (simp add: finishResult_def f Let_def)
  then show "lr_maxLen (pt_reassembler (finishResult pt)) = kMaxLineLength"
    using reasm_at_maxLen [OF r] reasm_finish_maxLen [OF f] by simp
qed

lemma finishResult_rest:
  "pt_ring (finishResult pt) = pt_ring pt" "pt_completionSent (finishResult pt) = pt_completionSent pt"
  "pt_uploadComplete (finishResult pt) = pt_uploadComplete pt"
  "pt_abortRequested (finishResult pt) = pt_abortRequested pt"
  "pt_stopRequested (finishResult pt) = pt_stopRequested pt"
  using rest_eqs [of "pt\<lparr>pt_reassembler := fst (reasm_finish (pt_reassembler pt))\<rparr>" "snd (reasm_finish (pt_reassembler pt))"]
  by (simp_all add: finishResult_def Let_def split_beta)

lemma finishReset_rest:
  "pt_ring (finishReset pt) = drain_ring (pt_ring pt)" "pt_completionSent (finishReset pt)"
  "pt_uploadComplete (finishReset pt) = pt_uploadComplete pt"
  "pt_abortRequested (finishReset pt) = pt_abortRequested pt"
  "pt_stopRequested (finishReset pt) = pt_stopRequested pt" "pt_result (finishReset pt) = pt_result pt"
  by (simp_all add: finishReset_def reset_rest)

section \<open>Two threads\<close>

text \<open>
  The points of \<^verbatim>\<open>run()\<close> between which the loop thread may act: waiting, woken, after the reset of an
  abort, in the consume loop, before the end-of-upload test, before and between the halves of
  \<^verbatim>\<open>finishSession\<close>, and before the completion flag is cleared.  The loop's side is the phase of the
  session it serves, with the gate of \<^verbatim>\<open>SessionManager\<close>: a session begins only when none is active and no
  abort is pending; every session, completed or not, ends in \<^verbatim>\<open>cleanup\<close>, which requests an abort.  The
  chunks committed and consumed in the session and the result it was given are recorded for the
  statements, and whether ever a session was cut off while it waited for its analysis.
\<close>

datatype ParserPc = AtWait | AtWoke | AtAborted | AtConsume | AtCheck | AtFinish | AtReset | AtClear | AtStopped

datatype LoopPhase = Idle | Uploading | Analyzing | Sending

record World =
  w_pt :: ParserThread
  w_pc :: ParserPc
  w_phase :: LoopPhase
  w_sent :: "string list"
  w_got :: "string list"
  w_delivered :: AnalysisResult
  w_cutOff :: bool

definition initWorld :: "nat \<Rightarrow> nat \<Rightarrow> World" where
  "initWorld n sz = \<lparr>w_pt = newParserThread n sz, w_pc = AtWait, w_phase = Idle, w_sent = [], w_got = [],
    w_delivered = noResult, w_cutOff = False\<rparr>"

text \<open>One step of the parser thread's main loop; \<open>None\<close> while it sleeps or has stopped.\<close>

definition parser_run :: "World \<Rightarrow> World option" where
  "parser_run w =
    (let pt = w_pt w in
     case w_pc w of
       AtWait \<Rightarrow>
         if pt_stopRequested pt then Some (w\<lparr>w_pc := AtStopped\<rparr>)
         else if pt_abortRequested pt \<or> pt_uploadComplete pt \<or> \<not> ring_empty (pt_ring pt) then Some (w\<lparr>w_pc := AtWoke\<rparr>)
         else None
     | AtWoke \<Rightarrow>
         if pt_abortRequested pt then Some (w\<lparr>w_pt := resetSessionState pt, w_pc := AtAborted\<rparr>)
         else Some (w\<lparr>w_pc := AtConsume\<rparr>)
     | AtAborted \<Rightarrow> Some (w\<lparr>w_pt := pt\<lparr>pt_abortRequested := False, pt_abortDoneSent := True\<rparr>, w_pc := AtWait\<rparr>)
     | AtConsume \<Rightarrow>
         (case tryPeek (pt_ring pt) of
            None \<Rightarrow> Some (w\<lparr>w_pc := AtCheck\<rparr>)
          | Some view \<Rightarrow>
              if pt_abortRequested pt \<or> pt_stopRequested pt then Some (w\<lparr>w_pc := AtCheck\<rparr>)
              else Some (w\<lparr>w_pt := consumeSlot pt view, w_got := w_got w @ [view]\<rparr>))
     | AtCheck \<Rightarrow>
         if pt_uploadComplete pt \<and> ring_empty (pt_ring pt) then Some (w\<lparr>w_pc := AtFinish\<rparr>)
         else Some (w\<lparr>w_pc := AtWait\<rparr>)
     | AtFinish \<Rightarrow> Some (w\<lparr>w_pt := finishResult pt, w_pc := AtReset\<rparr>)
     | AtReset \<Rightarrow> Some (w\<lparr>w_pt := finishReset pt, w_pc := AtClear\<rparr>)
     | AtClear \<Rightarrow> Some (w\<lparr>w_pt := pt\<lparr>pt_uploadComplete := False\<rparr>, w_pc := AtWait\<rparr>)
     | AtStopped \<Rightarrow> None)"

text \<open>
  The actions.  A commit hands over the first bytes of what was received into the slot; a session's end
  requests the abort, also of one that failed to start; the loop clears the signals it has seen.
\<close>

datatype Action =
  LBegin string string | LCommit string string | LMark | LComplete | LEnd | LReadStopped bool | LResumeSeen |
  LAbortDoneSeen | LStop | PRun

fun pt_exec :: "Action \<Rightarrow> World \<Rightarrow> World option" where
  "pt_exec PRun w = parser_run w"
| "pt_exec (LBegin sp cp) w =
    (if w_phase w = Idle \<and> \<not> pt_abortRequested (w_pt w)
     then Some (w\<lparr>w_pt := beginSession sp cp (w_pt w), w_phase := Uploading, w_sent := [], w_got := []\<rparr>)
     else None)"
| "pt_exec (LCommit bs extra) w =
    (if w_phase w = Uploading \<and> chunk_fits (bs @ extra) (pt_ring (w_pt w)) then
       (case tryAcquireSlot (w_pt w) of
          None \<Rightarrow> None
        | Some (off, cap) \<Rightarrow>
            Some (w\<lparr>w_pt := commitSlot (length bs) ((w_pt w)\<lparr>pt_ring := writeAt off (bs @ extra) (pt_ring (w_pt w))\<rparr>),
                    w_sent := w_sent w @ [bs]\<rparr>))
     else None)"
| "pt_exec LMark w =
    (if w_phase w = Uploading then Some (w\<lparr>w_pt := markUploadComplete (w_pt w), w_phase := Analyzing\<rparr>) else None)"
| "pt_exec LComplete w =
    (if pt_completionSent (w_pt w) then
       let (result, pt') = onCompletionAsync (w_pt w) in
       if w_phase w = Analyzing then Some (w\<lparr>w_pt := pt', w_phase := Sending, w_delivered := result\<rparr>)
       else Some (w\<lparr>w_pt := pt'\<rparr>)
     else None)"
| "pt_exec LEnd w =
    Some (w\<lparr>w_pt := abortSession (w_pt w), w_phase := Idle, w_cutOff := (w_cutOff w \<or> w_phase w = Analyzing)\<rparr>)"
| "pt_exec LResumeSeen w = Some (w\<lparr>w_pt := (w_pt w)\<lparr>pt_resumeSent := False\<rparr>\<rparr>)"
| "pt_exec LAbortDoneSeen w = Some (w\<lparr>w_pt := (w_pt w)\<lparr>pt_abortDoneSent := False\<rparr>\<rparr>)"
| "pt_exec (LReadStopped b) w = Some (w\<lparr>w_pt := setReadStopped b (w_pt w)\<rparr>)"
| "pt_exec LStop w = Some (w\<lparr>w_pt := (w_pt w)\<lparr>pt_stopRequested := True\<rparr>\<rparr>)"

fun pt_run :: "Action list \<Rightarrow> World \<Rightarrow> World option" where
  "pt_run [] w = Some w"
| "pt_run (a # as) w = (case pt_exec a w of None \<Rightarrow> None | Some w' \<Rightarrow> pt_run as w')"

inductive pt_reach :: "nat \<Rightarrow> nat \<Rightarrow> World \<Rightarrow> bool" for n sz :: nat where
  start: "pt_reach n sz (initWorld n sz)"
| step: "pt_reach n sz w \<Longrightarrow> pt_exec a w = Some w' \<Longrightarrow> pt_reach n sz w'"

lemma pt_run_reach: "pt_run as w = Some w' \<Longrightarrow> pt_reach n sz w \<Longrightarrow> pt_reach n sz w'"
  by (induction as arbitrary: w) (auto split: option.splits intro: pt_reach.step)

lemma pt_run_append: "pt_run (as @ bs) w = (case pt_run as w of None \<Rightarrow> None | Some w' \<Rightarrow> pt_run bs w')"
  by (induction as arbitrary: w) (auto split: option.split)

lemma parser_run_frame:
  "parser_run w = Some w' \<Longrightarrow> w_cutOff w' = w_cutOff w \<and> w_phase w' = w_phase w \<and> w_sent w' = w_sent w \<and> w_delivered w' = w_delivered w"
  by (cases "w_pc w") (auto simp: parser_run_def Let_def split: if_splits option.splits)

lemma cutOff_stays: "pt_exec a w = Some w' \<Longrightarrow> w_cutOff w \<Longrightarrow> w_cutOff w'"
  by (cases a) (auto simp: parser_run_frame onCompletionAsync_def split: if_splits option.splits)

section \<open>Sessions are kept apart\<close>

text \<open>The states of the pipeline: reset, or holding what the session's consumed chunks left.\<close>

definition fresh :: "World \<Rightarrow> bool" where
  "fresh w \<longleftrightarrow> at_stream [] (w_pt w) \<and> ring_contents (pt_ring (w_pt w)) = []"

definition live :: "World \<Rightarrow> bool" where
  "live w \<longleftrightarrow> at_stream (concat (w_got w)) (w_pt w) \<and> w_got w @ ring_contents (pt_ring (w_pt w)) = w_sent w"

definition before_finish :: "ParserPc \<Rightarrow> bool" where
  "before_finish pc \<longleftrightarrow> pc \<in> {AtWait, AtWoke, AtConsume, AtCheck, AtStopped}"

definition analyzing_ok :: "World \<Rightarrow> bool" where
  "analyzing_ok w \<longleftrightarrow>
    (if pt_completionSent (w_pt w)
     then fresh w \<and> pt_result (w_pt w) = analysis_of (concat (w_sent w)) \<and>
       (w_pc w = AtClear \<or> \<not> pt_uploadComplete (w_pt w) \<and> w_pc w \<in> {AtWait, AtStopped})
     else pt_uploadComplete (w_pt w) \<and>
       (w_pc w = AtReset \<and> pt_result (w_pt w) = analysis_of (concat (w_sent w)) \<or>
        w_pc w = AtFinish \<and> live w \<and> ring_contents (pt_ring (w_pt w)) = [] \<or>
        before_finish (w_pc w) \<and> live w))"

definition world_inv :: "World \<Rightarrow> bool" where
  "world_inv w \<longleftrightarrow>
    ring_inv (pt_ring (w_pt w)) \<and> lr_maxLen (pt_reassembler (w_pt w)) = kMaxLineLength \<and>
    (case w_phase w of
       Uploading \<Rightarrow> \<not> pt_abortRequested (w_pt w) \<and> \<not> pt_completionSent (w_pt w) \<and>
         \<not> pt_uploadComplete (w_pt w) \<and> before_finish (w_pc w) \<and> live w
     | Analyzing \<Rightarrow> \<not> pt_abortRequested (w_pt w) \<and> analyzing_ok w
     | Sending \<Rightarrow> \<not> pt_abortRequested (w_pt w) \<and> \<not> pt_completionSent (w_pt w) \<and> fresh w \<and>
         w_delivered w = analysis_of (concat (w_sent w)) \<and>
         (w_pc w = AtClear \<or> \<not> pt_uploadComplete (w_pt w) \<and> w_pc w \<in> {AtWait, AtStopped})
     | Idle \<Rightarrow> \<not> pt_completionSent (w_pt w) \<and> (pt_uploadComplete (w_pt w) \<longrightarrow> w_pc w = AtClear) \<and>
         (if pt_abortRequested (w_pt w)
          then (w_pc w = AtAborted \<and> fresh w \<or> w_pc w = AtClear \<or> before_finish (w_pc w))
          else w_pc w \<in> {AtWait, AtStopped} \<and> fresh w))"

lemma at_stream_upd [simp]:
  "at_stream s (pt\<lparr>pt_ring := rb\<rparr>) = at_stream s pt" "at_stream s (pt\<lparr>pt_uploadComplete := b\<rparr>) = at_stream s pt"
  "at_stream s (pt\<lparr>pt_abortRequested := b\<rparr>) = at_stream s pt" "at_stream s (pt\<lparr>pt_abortDoneSent := b\<rparr>) = at_stream s pt"
  "at_stream s (pt\<lparr>pt_readStopped := b\<rparr>) = at_stream s pt" "at_stream s (pt\<lparr>pt_stopRequested := b\<rparr>) = at_stream s pt"
  "at_stream s (pt\<lparr>pt_completionSent := b\<rparr>) = at_stream s pt" "at_stream s (pt\<lparr>pt_result := r\<rparr>) = at_stream s pt"
  "at_stream s (pt\<lparr>pt_resumeSent := b\<rparr>) = at_stream s pt"
  "at_stream s (pt\<lparr>pt_csvPath := x\<rparr>) = at_stream s pt" "at_stream s (pt\<lparr>pt_skipReportPath := x\<rparr>) = at_stream s pt"
  by (simp_all add: at_stream_def core_def)

lemmas loop_ops = beginSession_def markUploadComplete_def abortSession_def setReadStopped_def onCompletionAsync_def

lemmas world_defs = world_inv_def analyzing_ok_def fresh_def live_def before_finish_def

lemma ring_empty_contents: "ring_empty rb \<longleftrightarrow> ring_contents rb = []"
  by (metis length_0_conv length_ring_contents ring_count_0 ring_empty_def)

lemma tryPeek_Some_Cons: "tryPeek rb = Some v \<Longrightarrow> ring_contents rb = v # tl (ring_contents rb)"
  by (auto simp: tryPeek_contents split: list.splits)

lemma tryPeek_None_Nil: "tryPeek rb = None \<Longrightarrow> ring_contents rb = []"
  by (auto simp: tryPeek_contents split: list.splits)

lemma reset_maxLen [simp]: "lr_maxLen (pt_reassembler (resetSessionState pt)) = lr_maxLen (pt_reassembler pt)"
  by (simp add: resetSessionState_def Let_def reasm_reset_def)

lemma world_inv_init: "0 < n \<Longrightarrow> n < 2 ^ 64 \<Longrightarrow> world_inv (initWorld n sz)"
  using at_stream_new [of n sz] ring_inv_new [of n sz]
  by (simp add: world_defs initWorld_def) (simp add: newParserThread_def newReassembler_def)

lemma at_stream_maxLen: "at_stream s pt \<Longrightarrow> lr_maxLen (pt_reassembler pt) = kMaxLineLength"
  using reasm_at_maxLen by (auto simp: at_stream_def)

lemma live_consume:
  assumes "live w" and "ring_inv (pt_ring (w_pt w))" and "tryPeek (pt_ring (w_pt w)) = Some v"
  shows "live (w\<lparr>w_pt := consumeSlot (w_pt w) v, w_got := w_got w @ [v]\<rparr>)"
    and "ring_inv (release (pt_ring (w_pt w)))"
proof -
  note c = tryPeek_Some_Cons [OF assms(3)]
  then have ne: "ring_contents (pt_ring (w_pt w)) \<noteq> []" by (metis list.discI)
  show "ring_inv (release (pt_ring (w_pt w)))" by (rule ring_inv_release [OF assms(2) ne])
  have "ring_contents (release (pt_ring (w_pt w))) = tl (ring_contents (pt_ring (w_pt w)))"
    by (rule ring_contents_release [OF assms(2) ne])
  then show "live (w\<lparr>w_pt := consumeSlot (w_pt w) v, w_got := w_got w @ [v]\<rparr>)"
    using assms(1) c consumeSlot_at [of "concat (w_got w)" "w_pt w" v] by (simp add: live_def consumeSlot_rest)
qed

text \<open>The steps of the parser thread, point by point.\<close>

lemma inv_AtWait: "world_inv w \<Longrightarrow> w_pc w = AtWait \<Longrightarrow> parser_run w = Some w' \<Longrightarrow> world_inv w'"
  by (cases "w_phase w") (auto simp: world_defs parser_run_def Let_def ring_empty_contents split: if_splits)

lemma inv_AtWoke:
  assumes "world_inv w" and "w_pc w = AtWoke" and "parser_run w = Some w'"
  shows "world_inv w'"
proof (cases "pt_abortRequested (w_pt w)")
  case True
  have f: "at_stream [] (resetSessionState (w_pt w))" by (rule reset_at) (use assms(1) in \<open>simp add: world_inv_def\<close>)
  have "w' = w\<lparr>w_pt := resetSessionState (w_pt w), w_pc := AtAborted\<rparr>"
    using assms(2,3) True by (simp add: parser_run_def)
  then show ?thesis
    using assms(1,2) True f drain_ring_empty [of "pt_ring (w_pt w)"]
    by (cases "w_phase w") (auto simp: world_defs reset_rest)
next
  case False
  with assms show ?thesis by (cases "w_phase w") (auto simp: world_defs parser_run_def)
qed

lemma inv_AtAborted: "world_inv w \<Longrightarrow> w_pc w = AtAborted \<Longrightarrow> parser_run w = Some w' \<Longrightarrow> world_inv w'"
  by (cases "w_phase w") (auto simp: world_defs parser_run_def split: if_splits)

lemma inv_AtConsume:
  assumes "world_inv w" and "w_pc w = AtConsume" and "parser_run w = Some w'"
  shows "world_inv w'"
proof -
  have w'_check: "world_inv (w\<lparr>w_pc := AtCheck\<rparr>)"
    using assms(1,2) by (cases "w_phase w") (auto simp: world_defs split: if_splits)
  show ?thesis
  proof (cases "tryPeek (pt_ring (w_pt w))")
    case None
    with assms(2,3) w'_check show ?thesis by (auto simp: parser_run_def)
  next
    case (Some v)
    show ?thesis
    proof (cases "pt_abortRequested (w_pt w) \<or> pt_stopRequested (w_pt w)")
      case True
      with Some assms(2,3) w'_check show ?thesis by (auto simp: parser_run_def)
    next
      case False
      then have w': "w' = w\<lparr>w_pt := consumeSlot (w_pt w) v, w_got := w_got w @ [v]\<rparr>"
        using Some assms(2,3) by (auto simp: parser_run_def)
      have inv: "ring_inv (pt_ring (w_pt w))" using assms(1) by (simp add: world_inv_def)
      have l: "live w" using assms(1,2) False tryPeek_Some_Cons [OF Some]
        by (cases "w_phase w") (auto simp: world_inv_def analyzing_ok_def fresh_def split: if_splits)
      note L = live_consume [OF l inv Some]
      have "lr_maxLen (pt_reassembler (consumeSlot (w_pt w) v)) = kMaxLineLength"
        using at_stream_maxLen consumeSlot_at [of "concat (w_got w)" "w_pt w" v] l by (auto simp: live_def)
      then show ?thesis
        using assms(1,2) L False unfolding w'
        by (cases "w_phase w") (auto simp: world_inv_def analyzing_ok_def before_finish_def consumeSlot_rest split: if_splits)
    qed
  qed
qed

lemma inv_AtCheck: "world_inv w \<Longrightarrow> w_pc w = AtCheck \<Longrightarrow> parser_run w = Some w' \<Longrightarrow> world_inv w'"
  by (cases "w_phase w") (auto simp: world_defs parser_run_def Let_def ring_empty_contents split: if_splits)

lemma inv_AtFinish:
  assumes "world_inv w" and "w_pc w = AtFinish" and "parser_run w = Some w'"
  shows "world_inv w'"
proof -
  have w': "w' = w\<lparr>w_pt := finishResult (w_pt w), w_pc := AtReset\<rparr>" using assms(2,3) by (simp add: parser_run_def)
  have D: "w_phase w = Analyzing" "\<not> pt_completionSent (w_pt w)" "live w" "ring_contents (pt_ring (w_pt w)) = []"
    using assms(1,2) by (cases "w_phase w"; auto simp: world_inv_def analyzing_ok_def before_finish_def split: if_splits)+
  then have s: "at_stream (concat (w_sent w)) (w_pt w)" by (auto simp: live_def)
  show ?thesis
    using assms(1) D finishResult_at [OF s] unfolding w' by (simp add: world_inv_def analyzing_ok_def finishResult_rest)
qed

lemma inv_AtReset:
  assumes "world_inv w" and "w_pc w = AtReset" and "parser_run w = Some w'"
  shows "world_inv w'"
proof -
  have w': "w' = w\<lparr>w_pt := finishReset (w_pt w), w_pc := AtClear\<rparr>" using assms(2,3) by (simp add: parser_run_def)
  have D: "w_phase w = Analyzing" "\<not> pt_completionSent (w_pt w)" "pt_result (w_pt w) = analysis_of (concat (w_sent w))"
    using assms(1,2) by (cases "w_phase w"; auto simp: world_inv_def analyzing_ok_def before_finish_def split: if_splits)+
  have m: "lr_maxLen (pt_reassembler (w_pt w)) = kMaxLineLength" "ring_inv (pt_ring (w_pt w))"
    using assms(1) by (simp_all add: world_inv_def)
  have f: "at_stream [] (finishReset (w_pt w))" using reset_at [OF m(1)] by (simp add: finishReset_def)
  show ?thesis
    using assms(1) D f m drain_ring_empty [OF m(2)] at_stream_maxLen [OF f] unfolding w'
    by (simp add: world_inv_def analyzing_ok_def finishReset_rest fresh_def)
qed

lemma inv_AtClear: "world_inv w \<Longrightarrow> w_pc w = AtClear \<Longrightarrow> parser_run w = Some w' \<Longrightarrow> world_inv w'"
  by (cases "w_phase w") (auto simp: world_defs parser_run_def split: if_splits)

lemma world_inv_parser:
  assumes "world_inv w" and "parser_run w = Some w'"
  shows "world_inv w'"
proof (cases "w_pc w")
  case AtStopped
  with assms(2) show ?thesis by (simp add: parser_run_def)
qed (use assms inv_AtWait inv_AtWoke inv_AtAborted inv_AtConsume inv_AtCheck inv_AtFinish inv_AtReset inv_AtClear in blast)+

text \<open>The steps of the loop thread.\<close>

lemma inv_commit:
  assumes "world_inv w" and "pt_exec (LCommit bs extra) w = Some w'"
  shows "world_inv w'"
proof -
  let ?rb = "pt_ring (w_pt w)"
  obtain off cap where c: "w_phase w = Uploading" "chunk_fits (bs @ extra) ?rb" and acq: "tryAcquire ?rb = Some (off, cap)"
    and w': "w' = w\<lparr>w_pt := commitSlot (length bs) ((w_pt w)\<lparr>pt_ring := writeAt off (bs @ extra) ?rb\<rparr>), w_sent := w_sent w @ [bs]\<rparr>"
    using assms(2) by (auto simp: tryAcquireSlot_def split: if_splits option.splits)
  have inv: "ring_inv ?rb" using assms(1) by (simp add: world_inv_def)
  note P = commit_prefix [OF inv c(2) acq]
  show ?thesis
    using assms(1) c(1) P unfolding w' by (simp add: world_defs commitSlot_def flip: append_assoc)
qed

lemma world_inv_flags:
  "world_inv (w\<lparr>w_pt := (w_pt w)\<lparr>pt_readStopped := b\<rparr>\<rparr>) = world_inv w"
  "world_inv (w\<lparr>w_pt := (w_pt w)\<lparr>pt_stopRequested := b\<rparr>\<rparr>) = world_inv w"
  "world_inv (w\<lparr>w_pt := (w_pt w)\<lparr>pt_resumeSent := b\<rparr>\<rparr>) = world_inv w"
  "world_inv (w\<lparr>w_pt := (w_pt w)\<lparr>pt_abortDoneSent := b\<rparr>\<rparr>) = world_inv w"
  by (cases "w_phase w"; simp add: world_defs)+

lemma world_inv_exec:
  assumes "world_inv w" and "pt_exec a w = Some w'" and "\<not> (a = LEnd \<and> w_phase w = Analyzing)"
  shows "world_inv w'"
proof (cases a)
  case PRun
  with assms world_inv_parser show ?thesis by simp
next
  case (LCommit bs extra)
  with assms inv_commit show ?thesis by blast
next
  case (LBegin sp cp)
  with assms show ?thesis by (auto simp: world_defs beginSession_def split: if_splits)
next
  case LMark
  with assms show ?thesis by (auto simp: world_defs markUploadComplete_def split: if_splits)
next
  case LComplete
  with assms show ?thesis
    by (cases "w_phase w") (auto simp: world_defs onCompletionAsync_def split: if_splits)
next
  case LEnd
  with assms have w': "w' = w\<lparr>w_pt := abortSession (w_pt w), w_phase := Idle\<rparr>" "w_phase w \<noteq> Analyzing" by auto
  from assms(1) w'(2) show ?thesis unfolding w'
    by (cases "w_phase w"; cases "pt_abortRequested (w_pt w)") (simp_all add: world_defs abortSession_def, blast+)
next
  case (LReadStopped b)
  then have "w' = w\<lparr>w_pt := (w_pt w)\<lparr>pt_readStopped := b\<rparr>\<rparr>" using assms(2) by (simp add: setReadStopped_def)
  then show ?thesis using assms(1) by (simp add: world_inv_flags)
next
  case LResumeSeen
  then have "w' = w\<lparr>w_pt := (w_pt w)\<lparr>pt_resumeSent := False\<rparr>\<rparr>" using assms(2) by simp
  then show ?thesis using assms(1) by (simp add: world_inv_flags)
next
  case LAbortDoneSeen
  then have "w' = w\<lparr>w_pt := (w_pt w)\<lparr>pt_abortDoneSent := False\<rparr>\<rparr>" using assms(2) by simp
  then show ?thesis using assms(1) by (simp add: world_inv_flags)
next
  case LStop
  then have "w' = w\<lparr>w_pt := (w_pt w)\<lparr>pt_stopRequested := True\<rparr>\<rparr>" using assms(2) by simp
  then show ?thesis using assms(1) by (simp add: world_inv_flags)
qed

lemma pt_reach_inv: "pt_reach n sz w \<Longrightarrow> \<not> w_cutOff w \<Longrightarrow> 0 < n \<Longrightarrow> n < 2 ^ 64 \<Longrightarrow> world_inv w"
proof (induction rule: pt_reach.induct)
  case start
  then show ?case by (simp add: world_inv_init)
next
  case (step w a w')
  then have "world_inv w" using cutOff_stays by blast
  then show ?case by (rule world_inv_exec [OF _ step.hyps(2)]) (use step in auto)
qed

section \<open>What the result says\<close>

text \<open>The lines a session rejects, as the reporter sees them.\<close>

fun rejected :: "LogLineParser \<Rightarrow> Line list \<Rightarrow> (SkipReason \<times> nat \<times> string) list" where
  "rejected p [] = []"
| "rejected p (l # ls) =
    (case parse p (ln_text l) (ln_tooLong l) of
       (p1, Inl r) \<Rightarrow> (r, ln_offset l, ln_text l) # rejected p1 ls
     | (p1, Inr _) \<Rightarrow> rejected p1 ls)"

definition accepted :: "LogLineParser \<Rightarrow> Line list \<Rightarrow> ParsedLine list" where
  "accepted p ls = snd (parses p (map (\<lambda>l. (ln_text l, ln_tooLong l)) ls))"

definition parser_after :: "LogLineParser \<Rightarrow> Line list \<Rightarrow> LogLineParser" where
  "parser_after p ls = fst (parses p (map (\<lambda>l. (ln_text l, ln_tooLong l)) ls))"

lemma accepted_Inl:
  assumes "parse p (ln_text x) (ln_tooLong x) = (p1, Inl r)"
  shows "accepted p (x # ls) = accepted p1 ls" "parser_after p (x # ls) = parser_after p1 ls"
    "rejected p (x # ls) = (r, ln_offset x, ln_text x) # rejected p1 ls"
  using assms by (simp_all add: accepted_def parser_after_def)

lemma accepted_Inr:
  assumes "parse p (ln_text x) (ln_tooLong x) = (p1, Inr y)"
  shows "accepted p (x # ls) = y # accepted p1 ls" "parser_after p (x # ls) = parser_after p1 ls"
    "rejected p (x # ls) = rejected p1 ls"
  using assms by (simp_all add: accepted_def parser_after_def split_beta)

lemma accepted_Nil [simp]: "accepted p [] = []" "parser_after p [] = p"
  by (simp_all add: accepted_def parser_after_def)

lemma accepted_snoc:
  "parser_after p (ls @ [l]) = fst (parse (parser_after p ls) (ln_text l) (ln_tooLong l)) \<and>
   accepted p (ls @ [l]) = accepted p ls @
    (case snd (parse (parser_after p ls) (ln_text l) (ln_tooLong l)) of Inl _ \<Rightarrow> [] | Inr x \<Rightarrow> [x]) \<and>
   rejected p (ls @ [l]) = rejected p ls @
    (case snd (parse (parser_after p ls) (ln_text l) (ln_tooLong l)) of
       Inl r \<Rightarrow> [(r, ln_offset l, ln_text l)] | Inr _ \<Rightarrow> [])"
proof (induction ls arbitrary: p)
  case Nil
  obtain p1 res where r: "parse p (ln_text l) (ln_tooLong l) = (p1, res)" by fastforce
  show ?case
  proof (cases res)
    case (Inl e)
    then show ?thesis using accepted_Inl [of p l p1 e "[]"] r by simp
  next
    case (Inr y)
    then show ?thesis using accepted_Inr [of p l p1 y "[]"] r by simp
  qed
next
  case (Cons x ls)
  obtain p1 res where r: "parse p (ln_text x) (ln_tooLong x) = (p1, res)" by fastforce
  show ?case
  proof (cases res)
    case (Inl e)
    then show ?thesis using Cons [of p1] accepted_Inl [of p x p1 e] r by simp
  next
    case (Inr y)
    then show ?thesis using Cons [of p1] accepted_Inr [of p x p1 y] r by simp
  qed
qed

lemma accepted_window: "list_all line_hour_ok (accepted newParser ls)" "card (hour_number ` set (accepted newParser ls)) \<le> 97"
proof -
  let ?in = "map (\<lambda>l. (ln_text l, ln_tooLong l)) ls"
  show "list_all line_hour_ok (accepted newParser ls)" using parses_ok by (simp add: accepted_def)
  have "hour_number ` set (accepted newParser ls) \<subseteq> {h. in_window (parser_after newParser ls) h}"
    using parses_window by (auto simp: accepted_def parser_after_def)
  then show "card (hour_number ` set (accepted newParser ls)) \<le> 97"
    using window_card by (meson card_mono le_trans)
qed

text \<open>The pipeline computes the statistics of the accepted and the report of the rejected lines.\<close>

lemma core_of_lines:
  "foldl core_step core0 ls =
    (parser_after newParser ls, stats_of (accepted newParser ls), report_of (rejected newParser ls), length ls)"
proof (induction ls rule: rev_induct)
  case Nil
  show ?case by (simp add: core0_def parser_after_def accepted_def report_of_def)
next
  case (snoc l ls)
  let ?p = "parser_after newParser ls"
  obtain p1 res where r: "parse ?p (ln_text l) (ln_tooLong l) = (p1, res)" by fastforce
  have ok: "snd (stats_record (stats_of (accepted newParser ls)) x)" for x
    by (rule window_not_refused [OF accepted_window])
  show ?case
  proof (cases res)
    case (Inl e)
    with r snoc show ?thesis by (simp add: core_step_def accepted_snoc report_of_def)
  next
    case (Inr x)
    obtain st' where "stats_record (stats_of (accepted newParser ls)) x = (st', True)"
      using ok [of x] by (metis prod.collapse)
    then show ?thesis using r Inr snoc by (simp add: core_step_def accepted_snoc)
  qed
qed

lemma length_accepted_rejected: "length (accepted p ls) + length (rejected p ls) = length ls"
proof (induction ls rule: rev_induct)
  case (snoc l ls)
  then show ?case by (simp add: accepted_snoc split: sum.split)
qed (simp add: accepted_def)

lemma report_total: "sr_total (report_of rs) = length rs"
proof (induction rs rule: rev_induct)
  case (snoc x rs)
  obtain r off tx where x: "x = (r, off, tx)" by (metis prod_cases3)
  have "sr_total (skip_record sr r off tx) = Suc (sr_total sr)" for sr
    by (auto simp: skip_record_def Let_def unknown_frame)
  then show ?case using snoc by (simp add: report_of_def x)
qed (simp add: report_of_def newReporter_def)

lemma analysis_of_lines:
  "analysis_of s =
    (let ls = lines_of kMaxLineLength s;
         csv = buildResultCsv (stats_of (accepted newParser ls)) (report_of (rejected newParser ls)) (length ls)
     in \<lparr>ar_csv = csv, ar_crc32 = crc32 0 csv, ar_totalLines = length ls, ar_skippedLines = length (rejected newParser ls)\<rparr>)"
proof -
  let ?ls = "lines_of kMaxLineLength s"
  have "core (foldl processLine (newParserThread 1 1) ?ls) = foldl core_step core0 ?ls"
    by (simp add: core_foldl) (simp add: core_def core0_def newParserThread_def)
  then show ?thesis
    unfolding analysis_of_def makeResult_def core_of_lines by (simp add: core_def Let_def report_total)
qed

section \<open>Sizes\<close>

lemma accepts_length:
  assumes "accepts p text line t"
  shows "64 \<le> length text"
proof -
  from assms obtain ts pid tid sess msg where
    t: "text = frame_text [ts, pid, tid, sess] (moduleName (pl_module line)) msg" and
    ok: "list_all token_ok [ts, pid, tid, sess]" and
    ts: "parseTimestamp ts = Some (pl_year line, pl_month line, pl_day line, pl_hour line, t)"
    by (auto simp: accepts_def)
  have "length ts = 26" using ts by (auto simp: parseTimestamp_def timestamp_format_def split: if_splits)
  moreover have "1 \<le> length pid" "1 \<le> length tid" "1 \<le> length sess"
    using ok by (auto simp: token_ok_def Suc_le_eq)
  moreover have "18 \<le> length (moduleName (pl_module line))"
    by (cases "pl_module line") (simp_all add: moduleName_def)
  ultimately show ?thesis by (simp add: t frame_text_def kSeparator_def)
qed

lemma accepted_bytes: "64 * length (accepted p ls) \<le> text_bytes ls"
proof (induction ls rule: rev_induct)
  case (snoc l ls)
  let ?q = "parser_after p ls"
  obtain q res where r: "parse ?q (ln_text l) (ln_tooLong l) = (q, res)" by fastforce
  show ?case
  proof (cases res)
    case (Inl e)
    with r snoc show ?thesis by (simp add: accepted_snoc text_bytes_def)
  next
    case (Inr x)
    then have "64 \<le> length (ln_text l)" using r accepts_length by (auto simp: parse_Inr)
    with r snoc Inr show ?thesis by (simp add: accepted_snoc text_bytes_def)
  qed
qed (simp add: text_bytes_def)

lemma bucket_count_le:
  assumes "(k, c) \<in> set (st_buckets (stats_of (accepted newParser ls)) i)"
  shows "c \<le> length (accepted newParser ls)"
proof -
  let ?acc = "accepted newParser ls"
  have "om_find (st_buckets (stats_of ?acc) i) k = Some c"
    by (rule om_find_mem [OF stats_of_wf assms])
  then have "c = lines_at ?acc i k"
    using stats_of_exact [OF accepted_window, of ls i k] by (simp split: if_splits)
  then show ?thesis by (simp add: lines_at_def)
qed

lemma reason_count_le: "sr_counts (report_of rs) r \<le> length rs"
proof -
  have "sr_counts sr r \<le> reason_sum (sr_counts sr)" for sr
    by (cases r) (simp_all add: reason_sum_def all_reasons_def)
  then show ?thesis using skip_inv_report [of rs] report_total [of rs] by (simp add: skip_inv_def)
qed

lemma analysis_bounds:
  assumes "length s \<le> 8 * 1024 * 1024 * 1024"
  shows "0 \<le> averageSpeed (stats_of (accepted newParser (lines_of kMaxLineLength s)))"
    and "averageSpeed (stats_of (accepted newParser (lines_of kMaxLineLength s))) \<le> 10000000"
    and "length (ar_csv (analysis_of s)) \<le> 28443"
proof -
  let ?ls = "lines_of kMaxLineLength s"
  let ?acc = "accepted newParser ?ls" and ?rej = "rejected newParser ?ls"
  have n: "length ?ls \<le> 8589934592" and b: "text_bytes ?ls \<le> 8589934592"
    using lines_of_bytes [of kMaxLineLength s] assms by simp_all
  have acc: "length ?acc \<le> 134217728" using accepted_bytes [of newParser ?ls] b by linarith
  have rej: "length ?rej \<le> 8589934592" using length_accepted_rejected [of newParser ?ls] n by linarith
  have sp: "list_all line_speed_ok ?acc" using parses_ok by (simp add: accepted_def)
  have "length ?acc * 10000000 < 2 ^ 53" using acc by simp
  note avg = averageSpeed_bounds [OF sp this]
  then show "0 \<le> averageSpeed (stats_of ?acc)" "averageSpeed (stats_of ?acc) \<le> 10000000" by simp_all
  have "length (buildResultCsv (stats_of ?acc) (report_of ?rej) (length ?ls)) \<le> 57 * totalEntries (stats_of ?acc) + 798"
  proof (rule length_buildResultCsv)
    show "c < 2 ^ 64" if "(k, c) \<in> set (st_buckets (stats_of ?acc) i)" for i k c
      using bucket_count_le [OF that] acc by simp
    show "sr_counts (report_of ?rej) r < 2 ^ 64" for r using reason_count_le [of ?rej r] rej by simp
    show "averageSpeed (stats_of ?acc) \<le> 10000000" using avg by simp
    show "st_validSpdSamples (stats_of ?acc) < 2 ^ 64" using stats_of_valid_le [of ?acc] acc by simp
    show "st_excludedSpdSamples (stats_of ?acc) < 2 ^ 64" using stats_of_samples_le(1) [of ?acc] acc by simp
    show "st_missingSpdSamples (stats_of ?acc) < 2 ^ 64" using stats_of_samples_le(2) [of ?acc] acc by simp
    show "sr_total (report_of ?rej) < 2 ^ 64" using rej by (simp add: report_total)
    show "length ?ls < 2 ^ 64" using n by simp
  qed
  moreover have "totalEntries (stats_of ?acc) \<le> 485" by (rule totalEntries_window [OF accepted_window])
  ultimately show "length (ar_csv (analysis_of s)) \<le> 28443" by (simp add: analysis_of_lines Let_def)
qed

section \<open>Concrete runs\<close>

lemma drain_new [simp]: "drain_ring (newRing n sz) = newRing n sz" "tryPeek (newRing n sz) = None"
  "ring_empty (newRing n sz)"
  by (simp_all add: drain_ring.simps tryPeek_def newRing_def ring_empty_def)

lemma newParserThread_sel [simp]:
  "pt_ring (newParserThread n sz) = newRing n sz" "\<not> pt_abortRequested (newParserThread n sz)"
  "\<not> pt_stopRequested (newParserThread n sz)" "\<not> pt_completionSent (newParserThread n sz)"
  by (simp_all add: newParserThread_def)

lemmas run_simps = initWorld_def parser_run_def loop_ops finishResult_rest finishReset_rest reset_rest Let_def

section \<open>Properties\<close>

text \<open>
  C11. Whatever the interleaving of the event loop and the parser thread, over any number of sessions,
  completed or cut off during their upload, the result a session is given is the analysis of exactly
  the bytes uploaded in it: nothing of another session leaks in, nothing is lost, and the chunking does
  not matter.  (Runs in which a session was cut off while it waited for its analysis are excluded.)
\<close>

theorem parser_result_correct:
  assumes "pt_reach n sz w" and "\<not> w_cutOff w" and "0 < n" and "n < 2 ^ 64" and "w_phase w = Sending"
  shows "w_delivered w = analysis_of (concat (w_sent w))"
  using pt_reach_inv [OF assms(1-4)] assms(5) by (simp add: world_inv_def)

theorem parser_result_correct_witness:
  "\<exists>w. pt_reach 2 4 w \<and> w_phase w = Sending \<and> w_delivered w = analysis_of []"
proof -
  obtain w where r: "pt_run [LBegin [] [], LMark, PRun, PRun, PRun, PRun, PRun, PRun, LComplete] (initWorld 2 4) = Some w"
    and s: "w_phase w = Sending" "w_sent w = []" "\<not> w_cutOff w"
    by (simp add: run_simps)
  have "pt_reach 2 4 w" by (rule pt_run_reach [OF r pt_reach.start])
  with s parser_result_correct [of 2 4 w] show ?thesis by auto
qed

text \<open>
  C25. The result accounts for every line of the upload: each is either counted in the statistics or
  reported with its reason, the CSV is built from just these, its checksum is the CRC-32 of its
  bytes, and no line is dropped for lack of room in the statistics.
\<close>

theorem analysis_accounts:
  "let ls = lines_of kMaxLineLength s; acc = accepted newParser ls; rej = rejected newParser ls; r = analysis_of s in
     ar_csv r = buildResultCsv (stats_of acc) (report_of rej) (length ls) \<and>
     ar_crc32 r = crc32_ref 0 (ar_csv r) \<and>
     ar_totalLines r = length ls \<and> ar_skippedLines r = length rej \<and> length acc + length rej = length ls"
  by (simp add: analysis_of_lines Let_def crc32_eq_ref length_accepted_rejected)

text \<open>
  For any upload the protocol allows (8 GiB), the average speed reported lies between 0 and ten
  million, and the result is at most 28443 bytes, far under the limit above which the client refuses it.
\<close>

theorem analysis_result_fits:
  assumes "length s \<le> unat kMaxFileSize"
  shows "0 \<le> averageSpeed (stats_of (accepted newParser (lines_of kMaxLineLength s))) \<and>
    averageSpeed (stats_of (accepted newParser (lines_of kMaxLineLength s))) \<le> 10000000 \<and>
    length (ar_csv (analysis_of s)) \<le> 28443 \<and> length (ar_csv (analysis_of s)) < unat kMaxCsvSize"
proof -
  have "length s \<le> 8 * 1024 * 1024 * 1024" using assms by (simp add: kMaxFileSize_def)
  from analysis_bounds [OF this] show ?thesis by (simp add: kMaxCsvSize_def)
qed

theorem analysis_result_fits_witness:
  "length (ar_csv (analysis_of ''[2026-06-19_22:00:01.000000][1][2][3] BYDA::Foo: x[1]'')) \<le> 28443"
  using analysis_result_fits [of "''[2026-06-19_22:00:01.000000][1][2][3] BYDA::Foo: x[1]''"]
  by (simp add: kMaxFileSize_def)

end
