(* ===== verification/Session.thy ===== *)
theory Session
  imports Net Framer ParserThread
begin

text \<open>
  The session state machine of \<^verbatim>\<open>server/src/session/Session.cpp\<close>.  The handlers are functions on a
  context: the session with the objects it reaches through pointers, the parser thread and what the
  observer (the session manager) keeps for it.  The server builds every session with a parser and an
  observer, so the tests for null pointers are left out; so is log output.  For the statements only, the
  bytes handed to the parser are recorded in \<open>cx_uploaded\<close>, and in \<open>cx_cutOff\<close> that a session was ended while
  it waited for its analysis.
\<close>

section \<open>Data\<close>

datatype SessionState = WaitHeader | Receiving | Verifying | Analyzing | SendingResult | WaitDone | Cleanup

fun stateName :: "SessionState \<Rightarrow> string" where
  "stateName WaitHeader = ''WAIT_HEADER''"
| "stateName Receiving = ''RECEIVING''"
| "stateName Verifying = ''VERIFYING''"
| "stateName Analyzing = ''ANALYZING''"
| "stateName SendingResult = ''SENDING_RESULT''"
| "stateName WaitDone = ''WAIT_DONE''"
| "stateName Cleanup = ''CLEANUP''"

definition kResultCsvPath :: string where "kResultCsvPath = ''./result.csv''"
definition kSkipReportPath :: string where "kSkipReportPath = ''./skip_report.txt''"

record SessionTimeouts =
  to_idleMs :: nat
  to_responseMs :: nat

definition defaultTimeouts :: SessionTimeouts where
  "defaultTimeouts = \<lparr>to_idleMs = kIdleTimeoutMs, to_responseMs = kResponseTimeoutMs\<rparr>"

record RetainedResult =
  rt_filename :: string
  rt_fileSize :: u64
  rt_uploadCrc32 :: u32
  rt_csv :: string
  rt_csvCrc32 :: u32

record Session =
  ss_socket :: TcpSocket
  ss_timer :: Timer
  ss_timeouts :: SessionTimeouts
  ss_state :: SessionState
  ss_framer :: Framer
  ss_readBufferSize :: nat
  ss_slotAcquired :: bool
  ss_fileSize :: u64
  ss_receivedBytes :: u64
  ss_payloadCrc :: u32
  ss_filename :: string
  ss_csv :: string
  ss_finishReason :: string
  ss_closeAfterSend :: bool
  ss_pendingFailReason :: string
  ss_cleanupStarted :: bool
  ss_finished :: bool

definition newSession :: "TcpSocket \<Rightarrow> nat \<Rightarrow> SessionTimeouts \<Rightarrow> Session" where
  "newSession socket chunkSize timeouts =
    \<lparr>ss_socket = socket, ss_timer = newTimer, ss_timeouts = timeouts, ss_state = WaitHeader,
     ss_framer = newFramer UploadHeaderMsg ResultRequestMsg, ss_readBufferSize = chunkSize,
     ss_slotAcquired = False, ss_fileSize = 0, ss_receivedBytes = 0, ss_payloadCrc = 0, ss_filename = [],
     ss_csv = [], ss_finishReason = [], ss_closeAfterSend = False, ss_pendingFailReason = [],
     ss_cleanupStarted = False, ss_finished = False\<rparr>"

record Ctx =
  cx_session :: Session
  cx_parser :: ParserThread
  cx_retained :: "RetainedResult option"
  cx_notified :: bool
  cx_uploaded :: "string list"
  cx_cutOff :: bool

text \<open>
  What a handler meets while it runs: the answers of libuv, and how many slots the parser thread frees
  at the two points of \<^verbatim>\<open>applyBackpressure\<close> where that matters.
\<close>

record Env =
  en_uv :: Uv
  en_before :: nat
  en_after :: nat

fun consume_n :: "nat \<Rightarrow> ParserThread \<Rightarrow> ParserThread" where
  "consume_n 0 pt = pt"
| "consume_n (Suc n) pt =
    (case tryPeek (pt_ring pt) of
       None \<Rightarrow> pt
     | Some view \<Rightarrow> if pt_abortRequested pt \<or> pt_stopRequested pt then pt else consume_n n (consumeSlot pt view))"

section \<open>The observer's side\<close>

definition retainedResult :: "RetainedResult option \<Rightarrow> string \<Rightarrow> u64 \<Rightarrow> u32 \<Rightarrow> RetainedResult option" where
  "retainedResult kept filename fileSize uploadCrc32 =
    (case kept of
       None \<Rightarrow> None
     | Some r \<Rightarrow>
         if rt_filename r \<noteq> filename \<or> rt_fileSize r \<noteq> fileSize \<or> rt_uploadCrc32 r \<noteq> uploadCrc32 then None
         else Some r)"

definition onResultRetained :: "RetainedResult \<Rightarrow> Ctx \<Rightarrow> Ctx" where
  "onResultRetained r cx = cx\<lparr>cx_retained := Some r\<rparr>"

section \<open>Timers, transitions and the end of a session\<close>

fun timeoutForState :: "SessionState \<Rightarrow> SessionTimeouts \<Rightarrow> nat" where
  "timeoutForState WaitHeader t = to_responseMs t"
| "timeoutForState WaitDone t = to_responseMs t"
| "timeoutForState Receiving t = to_idleMs t"
| "timeoutForState SendingResult t = to_idleMs t"
| "timeoutForState Verifying t = 0"
| "timeoutForState Analyzing t = 0"
| "timeoutForState Cleanup t = 0"

definition armTimer :: "Session \<Rightarrow> Session" where
  "armTimer s =
    (let timeout = timeoutForState (ss_state s) (ss_timeouts s) in
     if timeout = 0 then s\<lparr>ss_timer := timer_stop (ss_timer s)\<rparr>
     else s\<lparr>ss_timer := timer_start timeout (ss_timer s)\<rparr>)"

definition resumeReading :: "Env \<Rightarrow> Ctx \<Rightarrow> Ctx" where
  "resumeReading en cx =
    (let s = cx_session cx in
     if ss_cleanupStarted s \<or> sk_reading (ss_socket s) then cx
     else if ss_state s = Receiving \<and> ss_receivedBytes s < ss_fileSize s \<and> ringFull (cx_parser cx) then cx
     else cx\<lparr>cx_parser := setReadStopped False (cx_parser cx),
             cx_session := s\<lparr>ss_socket := snd (sock_startRead (en_uv en) (ss_socket s))\<rparr>\<rparr>)"

definition transition :: "Env \<Rightarrow> SessionState \<Rightarrow> Ctx \<Rightarrow> Ctx" where
  "transition en nxt cx =
    (if ss_state (cx_session cx) = nxt then cx
     else let cx1 = cx\<lparr>cx_session := armTimer ((cx_session cx)\<lparr>ss_state := nxt\<rparr>)\<rparr> in
       if nxt \<noteq> Receiving \<and> nxt \<noteq> Cleanup then resumeReading en cx1 else cx1)"

definition cleanup :: "Env \<Rightarrow> string \<Rightarrow> Ctx \<Rightarrow> Ctx" where
  "cleanup en reason cx =
    (let s = cx_session cx in
     if ss_cleanupStarted s then cx
     else cx\<lparr>cx_parser := abortSession (cx_parser cx), cx_cutOff := (cx_cutOff cx \<or> ss_state s = Analyzing),
             cx_session := s\<lparr>ss_cleanupStarted := True, ss_finishReason := reason, ss_state := Cleanup,
               ss_timer := timer_stop (ss_timer s), ss_socket := sock_close (en_uv en) (ss_socket s)\<rparr>\<rparr>)"

definition closeSilently :: "Env \<Rightarrow> string \<Rightarrow> Ctx \<Rightarrow> Ctx" where
  "closeSilently en reason cx = cleanup en reason cx"

definition onTimeout :: "Env \<Rightarrow> Ctx \<Rightarrow> Ctx" where
  "onTimeout en cx = cleanup en (''timeout in '' @ stateName (ss_state (cx_session cx))) cx"

text \<open>Sending through the session's socket: the result code and the context after it.\<close>

definition sendBytes :: "Env \<Rightarrow> string \<Rightarrow> Ctx \<Rightarrow> int \<times> Ctx" where
  "sendBytes en bytes cx =
    (let (rc, sk) = sock_send (en_uv en) bytes (ss_socket (cx_session cx)) in
     (rc, cx\<lparr>cx_session := (cx_session cx)\<lparr>ss_socket := sk\<rparr>\<rparr>))"

definition failWithAck :: "Env \<Rightarrow> AckStatus \<Rightarrow> string \<Rightarrow> Ctx \<Rightarrow> Ctx" where
  "failWithAck en status reason cx =
    (let bytes = encodeAck \<lparr>ack_status = status, ack_receivedBytes = ss_receivedBytes (cx_session cx)\<rparr>;
         (rc, cx1) = sendBytes en bytes cx in
     if rc \<noteq> 0 then cleanup en reason cx1
     else let s = cx_session cx1 in
       cx1\<lparr>cx_session := s\<lparr>ss_socket := snd (sock_stopRead (en_uv en) (ss_socket s)),
             ss_closeAfterSend := True, ss_pendingFailReason := reason\<rparr>\<rparr>)"

definition onError :: "Env \<Rightarrow> int \<Rightarrow> string \<Rightarrow> Ctx \<Rightarrow> Ctx" where
  "onError en status place cx = cleanup en (place @ '': '' @ uv_describe (en_uv en) status) cx"

definition onClosed :: "Ctx \<Rightarrow> Ctx" where
  "onClosed cx =
    (if ss_finished (cx_session cx) then cx
     else cx\<lparr>cx_session := (cx_session cx)\<lparr>ss_finished := True\<rparr>, cx_notified := True\<rparr>)"

definition session_start :: "Env \<Rightarrow> Ctx \<Rightarrow> Ctx \<times> bool" where
  "session_start en cx =
    (let (rc, sk) = sock_startRead (en_uv en) (ss_socket (cx_session cx));
         cx1 = cx\<lparr>cx_session := (cx_session cx)\<lparr>ss_socket := sk\<rparr>\<rparr> in
     if rc \<noteq> 0 then (cleanup en ''startRead failed'' cx1, False)
     else (cx1\<lparr>cx_parser := beginSession kSkipReportPath kResultCsvPath (cx_parser cx1),
               cx_session := armTimer (cx_session cx1)\<rparr>, True))"

section \<open>Receiving\<close>

datatype WritableBuffer = RingSlot nat nat | ReadBuffer nat

definition onAllocate :: "nat \<Rightarrow> Ctx \<Rightarrow> WritableBuffer \<times> Ctx" where
  "onAllocate suggestedSize cx =
    (let s = cx_session cx;
         fallback = (ReadBuffer (min suggestedSize (ss_readBufferSize s)),
                     cx\<lparr>cx_session := s\<lparr>ss_slotAcquired := False\<rparr>\<rparr>) in
     if ss_state s = Receiving \<and> ss_receivedBytes s < ss_fileSize s then
       (case tryAcquireSlot (cx_parser cx) of
          Some (off, capacity) \<Rightarrow> (RingSlot off capacity, cx\<lparr>cx_session := s\<lparr>ss_slotAcquired := True\<rparr>\<rparr>)
        | None \<Rightarrow> fallback)
     else fallback)"

definition applyBackpressure :: "Env \<Rightarrow> Ctx \<Rightarrow> Ctx" where
  "applyBackpressure en cx =
    (let s = cx_session cx in
     if ringFull (cx_parser cx) \<and> sk_reading (ss_socket s) then
       let pt1 = setReadStopped True (consume_n (en_before en) (cx_parser cx));
           pt2 = consume_n (en_after en) pt1;
           cx1 = cx\<lparr>cx_session := s\<lparr>ss_socket := snd (sock_stopRead (en_uv en) (ss_socket s))\<rparr>, cx_parser := pt2\<rparr> in
       if \<not> ringFull pt2 then resumeReading en cx1 else cx1
     else cx)"

text \<open>Handing the first bytes of a slot to the parser.\<close>

definition commitChunk :: "string \<Rightarrow> Ctx \<Rightarrow> Ctx" where
  "commitChunk payload cx =
    cx\<lparr>cx_parser := commitSlot (length payload) (cx_parser cx), cx_uploaded := cx_uploaded cx @ [payload]\<rparr>"

definition writeSlot :: "nat \<Rightarrow> string \<Rightarrow> Ctx \<Rightarrow> Ctx" where
  "writeSlot off bytes cx =
    cx\<lparr>cx_parser := (cx_parser cx)\<lparr>pt_ring := writeAt off bytes (pt_ring (cx_parser cx))\<rparr>\<rparr>"

text \<open>The payload's share of received bytes is added to the checksum and the count.\<close>

definition countPayload :: "string \<Rightarrow> Session \<Rightarrow> Session" where
  "countPayload payload s =
    s\<lparr>ss_payloadCrc := crc32 (ss_payloadCrc s) payload,
      ss_receivedBytes := ss_receivedBytes s + of_nat (length payload)\<rparr>"

definition payloadShare :: "Session \<Rightarrow> string \<Rightarrow> nat" where
  "payloadShare s bytes = min (unat (ss_fileSize s - ss_receivedBytes s)) (length bytes)"

text \<open>
  The copying loop of \<^verbatim>\<open>consumePayload\<close>; \<open>None\<close> when no slot is free, or when slots have no room at all
  (the loop would not end; rings are built with a positive slot size).
\<close>

function copyPayload :: "string \<Rightarrow> Ctx \<Rightarrow> Ctx \<times> bool" where
  "copyPayload payload cx =
    (if payload = [] then (cx, True)
     else case tryAcquireSlot (cx_parser cx) of
       None \<Rightarrow> (cx, False)
     | Some (off, capacity) \<Rightarrow>
         if capacity = 0 then (cx, False)
         else let chunk = take capacity payload in
           copyPayload (drop capacity payload) (commitChunk chunk (writeSlot off chunk cx)))"
  by pat_completeness auto
termination
  by (relation "measure (\<lambda>(payload, cx). length payload)") auto

declare copyPayload.simps [simp del]

definition consumePayload :: "Env \<Rightarrow> string \<Rightarrow> Ctx \<Rightarrow> nat \<times> Ctx" where
  "consumePayload en bytes cx =
    (let payload = take (payloadShare (cx_session cx) bytes) bytes;
         (cx1, ok) = copyPayload payload (cx\<lparr>cx_session := countPayload payload (cx_session cx)\<rparr>) in
     if \<not> ok then (0, cleanup en ''ring slot unavailable for transition chunk'' cx1)
     else (length payload, applyBackpressure en cx1))"

section \<open>Messages\<close>

definition analyzeAndSendResult :: "Env \<Rightarrow> Ctx \<Rightarrow> Ctx" where
  "analyzeAndSendResult en cx =
    (let cx1 = transition en Analyzing cx in cx1\<lparr>cx_parser := markUploadComplete (cx_parser cx1)\<rparr>)"

definition verifyAndAck :: "Env \<Rightarrow> Ctx \<Rightarrow> Ctx" where
  "verifyAndAck en cx0 =
    (let cx = transition en Verifying cx0; s = cx_session cx in
     case decodeUploadTrailer (message (ss_framer s)) of
       Inl _ \<Rightarrow> closeSilently en ''trailer decode failed'' cx
     | Inr trailer \<Rightarrow>
         if ut_crc32 trailer \<noteq> ss_payloadCrc s then failWithAck en CrcMismatch ''payload CRC mismatch'' cx
         else
           let (rc, cx1) = sendBytes en (encodeAck \<lparr>ack_status = AckOk, ack_receivedBytes = ss_receivedBytes s\<rparr>) cx in
           if rc \<noteq> 0 then cleanup en ''failed to send Ack'' cx1
           else analyzeAndSendResult en cx1)"

text \<open>Feeding the framer of the session.\<close>

definition feedFramer :: "string \<Rightarrow> Ctx \<Rightarrow> DecodeStatus \<times> nat \<times> Ctx" where
  "feedFramer bytes cx =
    (let (f, consumed) = feed (ss_framer (cx_session cx)) bytes in
     (fr_status f, consumed, cx\<lparr>cx_session := (cx_session cx)\<lparr>ss_framer := f\<rparr>\<rparr>))"

definition consumeTrailer :: "Env \<Rightarrow> string \<Rightarrow> Ctx \<Rightarrow> nat \<times> Ctx" where
  "consumeTrailer en bytes cx =
    (case feedFramer bytes cx of (status, consumed, cx1) \<Rightarrow>
      (case status of
         NeedMoreData \<Rightarrow> (consumed, cx1)
       | Ok \<Rightarrow> (consumed, verifyAndAck en cx1)
       | BadValue \<Rightarrow> (0, failWithAck en ProtocolError ''invalid trailer value'' cx1)
       | _ \<Rightarrow> (0, closeSilently en ''bad preamble in trailer'' cx1)))"

definition handleResultRequest :: "Env \<Rightarrow> Ctx \<Rightarrow> Ctx" where
  "handleResultRequest en cx =
    (case decodeResultRequest (message (ss_framer (cx_session cx))) of
       Inl BadValue \<Rightarrow> failWithAck en ProtocolError ''invalid result request value'' cx
     | Inl _ \<Rightarrow> closeSilently en ''result request decode failed'' cx
     | Inr request \<Rightarrow>
         (case retainedResult (cx_retained cx) (rr_filename request) (rr_fileSize request) (rr_crc32 request) of
            None \<Rightarrow> failWithAck en NoSuchResult ''no retained result for this claim'' cx
          | Some kept \<Rightarrow>
              if unat (rr_startOffset request) > length (rt_csv kept)
              then failWithAck en ProtocolError ''result offset beyond csv size'' cx
              else
                let cx1 = cx\<lparr>cx_session := (cx_session cx)\<lparr>ss_filename := rr_filename request, ss_csv := rt_csv kept\<rparr>\<rparr>;
                    header = encodeResultHeader \<lparr>rh_csvSize = of_nat (length (rt_csv kept)), rh_crc32 = rt_csvCrc32 kept\<rparr>;
                    (rc, cx2) = sendBytes en header (transition en SendingResult cx1);
                    body = drop (unat (rr_startOffset request)) (rt_csv kept) in
                if rc \<noteq> 0 then cleanup en ''failed to send ResultHeader'' cx2
                else if body = [] then cx2
                else let (rc2, cx3) = sendBytes en body cx2 in
                  if rc2 \<noteq> 0 then cleanup en ''failed to send result.csv'' cx3 else cx3))"

definition consumeHeader :: "Env \<Rightarrow> string \<Rightarrow> Ctx \<Rightarrow> nat \<times> Ctx" where
  "consumeHeader en bytes cx =
    (case feedFramer bytes cx of (status, consumed, cx1) \<Rightarrow>
      (case status of
         NeedMoreData \<Rightarrow> (consumed, cx1)
       | BadValue \<Rightarrow> (0, failWithAck en ProtocolError ''header value out of range'' cx1)
       | Ok \<Rightarrow>
           if messageType (ss_framer (cx_session cx1)) = Some ResultRequestMsg
           then (consumed, handleResultRequest en cx1)
           else
             (case decodeUploadHeader (message (ss_framer (cx_session cx1))) of
                Inl BadValue \<Rightarrow> (0, failWithAck en ProtocolError ''invalid header value'' cx1)
              | Inl _ \<Rightarrow> (0, closeSilently en ''header decode failed'' cx1)
              | Inr header \<Rightarrow>
                  (consumed,
                   transition en Receiving
                     (cx1\<lparr>cx_session := (cx_session cx1)\<lparr>ss_fileSize := uh_fileSize header,
                        ss_filename := uh_filename header,
                        ss_framer := framerReset UploadTrailerMsg (ss_framer (cx_session cx1))\<rparr>\<rparr>)))
       | _ \<Rightarrow> (0, closeSilently en ''bad preamble in header'' cx1)))"

definition consumeDone :: "Env \<Rightarrow> string \<Rightarrow> Ctx \<Rightarrow> nat \<times> Ctx" where
  "consumeDone en bytes cx =
    (case feedFramer bytes cx of (status, consumed, cx1) \<Rightarrow>
       if status = NeedMoreData then (consumed, cx1)
       else if status \<noteq> Ok then (0, closeSilently en ''bad DownloadDone'' cx1)
       else (consumed, cleanup en ''completed'' cx1))"

text \<open>The loop of \<^verbatim>\<open>onRead\<close>: each state consumes its share and leaves the rest to the next.\<close>

definition consumeStep :: "Env \<Rightarrow> string \<Rightarrow> Ctx \<Rightarrow> nat \<times> Ctx" where
  "consumeStep en bytes cx =
    (let s = cx_session cx in
     case ss_state s of
       WaitHeader \<Rightarrow> consumeHeader en bytes cx
     | Receiving \<Rightarrow>
         if ss_receivedBytes s < ss_fileSize s then consumePayload en bytes cx else consumeTrailer en bytes cx
     | WaitDone \<Rightarrow> consumeDone en bytes cx
     | st \<Rightarrow> (0, closeSilently en (''unexpected data in '' @ stateName st) cx))"

function readLoop :: "Env \<Rightarrow> string \<Rightarrow> Ctx \<Rightarrow> Ctx" where
  "readLoop en bytes cx =
    (if bytes = [] \<or> ss_cleanupStarted (cx_session cx) \<or> ss_closeAfterSend (cx_session cx) then cx
     else case consumeStep en bytes cx of (consumed, cx1) \<Rightarrow>
       if consumed = 0 then cx1 else readLoop en (drop consumed bytes) cx1)"
  by pat_completeness auto
termination
  by (relation "measure (\<lambda>(en, bytes, cx). length bytes)") auto

declare readLoop.simps [simp del]

definition readIntoSlot :: "Env \<Rightarrow> string \<Rightarrow> Ctx \<Rightarrow> Ctx" where
  "readIntoSlot en bytes cx =
    (let take_n = payloadShare (cx_session cx) bytes; tail = drop take_n bytes;
         s = countPayload (take take_n bytes) ((cx_session cx)\<lparr>ss_slotAcquired := False\<rparr>);
         cx1 = applyBackpressure en (commitChunk (take take_n bytes) (cx\<lparr>cx_session := s\<rparr>)) in
     if tail = [] then cx1 else snd (consumeTrailer en tail cx1))"

definition onRead :: "Env \<Rightarrow> string \<Rightarrow> Ctx \<Rightarrow> Ctx" where
  "onRead en bytes cx0 =
    (let s = cx_session cx0; cx = cx0\<lparr>cx_session := s\<lparr>ss_timer := timer_restart (ss_timer s)\<rparr>\<rparr> in
     if ss_slotAcquired s then readIntoSlot en bytes cx else readLoop en bytes cx)"

section \<open>Results and completions\<close>

definition onAnalysisComplete :: "Env \<Rightarrow> AnalysisResult \<Rightarrow> Ctx \<Rightarrow> Ctx" where
  "onAnalysisComplete en result cx =
    (let s = cx_session cx in
     if ss_cleanupStarted s \<or> ss_state s \<noteq> Analyzing then cx
     else
       let cx1 = onResultRetained
             \<lparr>rt_filename = ss_filename s, rt_fileSize = ss_fileSize s, rt_uploadCrc32 = ss_payloadCrc s,
              rt_csv = ar_csv result, rt_csvCrc32 = ar_crc32 result\<rparr>
             (cx\<lparr>cx_session := s\<lparr>ss_csv := ar_csv result\<rparr>\<rparr>);
           header = encodeResultHeader \<lparr>rh_csvSize = of_nat (length (ar_csv result)), rh_crc32 = ar_crc32 result\<rparr>;
           (rc, cx2) = sendBytes en header (transition en SendingResult cx1) in
       if rc \<noteq> 0 then cleanup en ''failed to send ResultHeader'' cx2
       else let (rc2, cx3) = sendBytes en (ar_csv result) cx2 in
         if rc2 \<noteq> 0 then cleanup en ''failed to send result.csv'' cx3 else cx3)"

definition onSendComplete :: "Env \<Rightarrow> int \<Rightarrow> Ctx \<Rightarrow> Ctx" where
  "onSendComplete en status cx0 =
    (if status \<noteq> 0 then cx0
     else if ss_closeAfterSend (cx_session cx0) then cleanup en (ss_pendingFailReason (cx_session cx0)) cx0
     else
       let s = cx_session cx0; cx = cx0\<lparr>cx_session := s\<lparr>ss_timer := timer_restart (ss_timer s)\<rparr>\<rparr> in
       if ss_state s = SendingResult then
         transition en WaitDone
           (cx\<lparr>cx_session := (cx_session cx)\<lparr>ss_framer := framerReset DownloadDoneMsg (ss_framer s)\<rparr>\<rparr>)
       else cx)"

section \<open>Events\<close>

text \<open>
  What the event loop can deliver: a read callback with libuv's suggestion, its result and the bytes
  in the buffer; the end of a write; passing time; a finished analysis; the parser's wake-up; the end of
  the close.  A step is \<open>None\<close> where libuv would not deliver the event.
\<close>

datatype SessionEvent =
  EvRead nat int string | EvSent int | EvElapse nat | EvAnalysis AnalysisResult | EvResume | EvClosed

fun fillBuffer :: "WritableBuffer \<Rightarrow> string \<Rightarrow> Ctx \<Rightarrow> Ctx" where
  "fillBuffer (RingSlot off _) bytes cx = writeSlot off bytes cx"
| "fillBuffer (ReadBuffer _) bytes cx = cx"

fun bufferSize :: "WritableBuffer \<Rightarrow> nat" where
  "bufferSize (RingSlot _ capacity) = capacity"
| "bufferSize (ReadBuffer n) = n"

definition dispatchRead :: "Env \<Rightarrow> WritableBuffer \<Rightarrow> ReadEvent \<Rightarrow> Ctx \<Rightarrow> Ctx" where
  "dispatchRead en wb ev cx =
    (case ev of
       ReadData bytes \<Rightarrow> onRead en bytes (fillBuffer wb bytes cx)
     | ReadNothing \<Rightarrow> cx
     | ReadError status place \<Rightarrow> onError en status place cx)"

definition dispatchWrite :: "Env \<Rightarrow> int \<Rightarrow> Ctx \<Rightarrow> Ctx" where
  "dispatchWrite en status cx =
    (let cx1 = cx\<lparr>cx_session := (cx_session cx)\<lparr>ss_socket := onWriteCb (ss_socket (cx_session cx))\<rparr>\<rparr>;
         cx2 = onSendComplete en status cx1 in
     if status \<noteq> 0 then onError en status ''write'' cx2 else cx2)"

definition dispatchElapse :: "Env \<Rightarrow> nat \<Rightarrow> Ctx \<Rightarrow> Ctx" where
  "dispatchElapse en ms cx =
    (let (t, fired) = timer_elapse ms (ss_timer (cx_session cx));
         cx1 = cx\<lparr>cx_session := (cx_session cx)\<lparr>ss_timer := t\<rparr>\<rparr> in
     if fired then onTimeout en cx1 else cx1)"

fun session_exec :: "Env \<Rightarrow> SessionEvent \<Rightarrow> Ctx \<Rightarrow> Ctx option" where
  "session_exec en (EvRead suggested nread buf) cx =
    (let sk = ss_socket (cx_session cx); (wb, cx1) = onAllocate suggested cx in
     if sk_reading sk \<and> \<not> sk_closing sk \<and> length buf \<le> bufferSize wb \<and> nread \<le> int (length buf)
     then Some (dispatchRead en wb (onReadCb nread buf) cx1) else None)"
| "session_exec en (EvSent status) cx =
    (if 0 < sk_pendingWrites (ss_socket (cx_session cx)) then Some (dispatchWrite en status cx) else None)"
| "session_exec en (EvElapse ms) cx = Some (dispatchElapse en ms cx)"
| "session_exec en (EvAnalysis result) cx = Some (onAnalysisComplete en result cx)"
| "session_exec en EvResume cx = Some (resumeReading en cx)"
| "session_exec en EvClosed cx =
    (let sk = ss_socket (cx_session cx) in
     if sk_closing sk \<and> \<not> sk_closed sk
     then Some (onClosed (cx\<lparr>cx_session := (cx_session cx)\<lparr>ss_socket := onCloseCb sk\<rparr>\<rparr>)) else None)"

text \<open>
  The contexts a session can reach, whatever the parser thread does to its side in between.  Analyses
  come from the parser's \<^verbatim>\<open>finishSession\<close>, and so does a result kept from an earlier session.
\<close>

definition kept_ok :: "RetainedResult option \<Rightarrow> bool" where
  "kept_ok kept \<longleftrightarrow> (case kept of None \<Rightarrow> True | Some r \<Rightarrow> rt_csvCrc32 r = crc32 0 (rt_csv r))"

definition freshCtx :: "nat \<Rightarrow> SessionTimeouts \<Rightarrow> ParserThread \<Rightarrow> RetainedResult option \<Rightarrow> Ctx" where
  "freshCtx chunkSize timeouts pt kept =
    \<lparr>cx_session = newSession (newSocket True) chunkSize timeouts, cx_parser = pt, cx_retained = kept,
     cx_notified = False, cx_uploaded = [], cx_cutOff = False\<rparr>"

inductive session_reach :: "nat \<Rightarrow> SessionTimeouts \<Rightarrow> Ctx \<Rightarrow> bool" for chunkSize timeouts where
  start: "kept_ok kept \<Longrightarrow> session_start en (freshCtx chunkSize timeouts pt kept) = (cx, True) \<Longrightarrow>
    session_reach chunkSize timeouts cx"
| event: "session_reach chunkSize timeouts cx \<Longrightarrow> (\<forall>r. ev = EvAnalysis r \<longrightarrow> (\<exists>pt. r = makeResult pt)) \<Longrightarrow>
    session_exec en ev cx = Some cx' \<Longrightarrow> session_reach chunkSize timeouts cx'"
| parser: "session_reach chunkSize timeouts cx \<Longrightarrow> session_reach chunkSize timeouts (cx\<lparr>cx_parser := pt\<rparr>)"

section \<open>The invariant\<close>

text \<open>What a session may have sent: nothing, one refusal, an upload's answer, or a resumed result.\<close>

definition okAck :: "Session \<Rightarrow> string" where
  "okAck s = encodeAck \<lparr>ack_status = AckOk, ack_receivedBytes = ss_receivedBytes s\<rparr>"

definition csvHeader :: "Session \<Rightarrow> string" where
  "csvHeader s = encodeResultHeader \<lparr>rh_csvSize = of_nat (length (ss_csv s)), rh_crc32 = crc32 0 (ss_csv s)\<rparr>"

definition out_refused :: "Session \<Rightarrow> bool" where
  "out_refused s \<longleftrightarrow> (\<exists>st. st \<noteq> AckOk \<and>
    sk_written (ss_socket s) = [encodeAck \<lparr>ack_status = st, ack_receivedBytes = ss_receivedBytes s\<rparr>])"

definition out_acked :: "Session \<Rightarrow> bool" where
  "out_acked s \<longleftrightarrow> sk_written (ss_socket s) = [okAck s]"

definition out_upload :: "Session \<Rightarrow> bool" where
  "out_upload s \<longleftrightarrow> sk_written (ss_socket s) = [okAck s, csvHeader s, ss_csv s]"

definition out_resumed :: "Session \<Rightarrow> bool" where
  "out_resumed s \<longleftrightarrow> (\<exists>n\<le>length (ss_csv s).
    sk_written (ss_socket s) = (if n = length (ss_csv s) then [csvHeader s] else [csvHeader s, drop n (ss_csv s)]))"

definition out_broken :: "Session \<Rightarrow> bool" where
  "out_broken s \<longleftrightarrow> sk_written (ss_socket s) = [okAck s, csvHeader s] \<or> sk_written (ss_socket s) = [csvHeader s]"

definition received_all :: "Session \<Rightarrow> bool" where
  "received_all s \<longleftrightarrow> ss_receivedBytes s = ss_fileSize s"

definition outputs_ok :: "Session \<Rightarrow> bool" where
  "outputs_ok s \<longleftrightarrow> sk_written (ss_socket s) = [] \<or> out_refused s \<or> out_resumed s \<or>
     (received_all s \<and> (out_acked s \<or> out_upload s)) \<or> out_broken s"

definition counts_ok :: "Session \<Rightarrow> string list \<Rightarrow> bool" where
  "counts_ok s up \<longleftrightarrow> unat (ss_receivedBytes s) = length (concat up) \<and> ss_receivedBytes s \<le> ss_fileSize s \<and>
    ss_payloadCrc s = crc32 0 (concat up) \<and> ss_fileSize s \<le> kMaxFileSize"

definition timer_ok :: "Session \<Rightarrow> bool" where
  "timer_ok s \<longleftrightarrow>
    (timeoutForState (ss_state s) (ss_timeouts s) = 0 \<longrightarrow> tm_due (ss_timer s) = None) \<and>
    (timeoutForState (ss_state s) (ss_timeouts s) > 0 \<longrightarrow>
       tm_timeoutMs (ss_timer s) = timeoutForState (ss_state s) (ss_timeouts s) \<and>
       (\<exists>d\<le>timeoutForState (ss_state s) (ss_timeouts s). tm_due (ss_timer s) = Some d))"

definition trailer_ok :: "Session \<Rightarrow> bool" where
  "trailer_ok s \<longleftrightarrow>
    (\<exists>t. decodeUploadTrailer (message (ss_framer s)) = Inr t \<and> ut_crc32 t = ss_payloadCrc s)"

definition phase_ok :: "Session \<Rightarrow> bool" where
  "phase_ok s \<longleftrightarrow>
    (case ss_state s of
       WaitHeader \<Rightarrow> ss_receivedBytes s = 0 \<and>
         (if ss_closeAfterSend s then out_refused s else sk_written (ss_socket s) = [])
     | Receiving \<Rightarrow> if ss_closeAfterSend s then out_refused s \<and> received_all s else sk_written (ss_socket s) = []
     | Verifying \<Rightarrow> ss_closeAfterSend s \<and> out_refused s
     | Analyzing \<Rightarrow> \<not> ss_closeAfterSend s \<and> out_acked s \<and> received_all s \<and> trailer_ok s
     | SendingResult \<Rightarrow> \<not> ss_closeAfterSend s \<and> (out_upload s \<and> received_all s \<or> out_resumed s)
     | WaitDone \<Rightarrow> \<not> ss_closeAfterSend s \<and> (out_upload s \<and> received_all s \<or> out_resumed s)
     | Cleanup \<Rightarrow> False)"

definition sess_inv :: "Session \<Rightarrow> string list \<Rightarrow> bool" where
  "sess_inv s up \<longleftrightarrow> sk_valid (ss_socket s) \<and>
    (if ss_cleanupStarted s
     then ss_state s = Cleanup \<and> tm_due (ss_timer s) = None \<and> sk_closing (ss_socket s) \<and> outputs_ok s
     else \<not> sk_closing (ss_socket s) \<and> counts_ok s up \<and> timer_ok s \<and> phase_ok s)"

definition ctx_inv :: "Ctx \<Rightarrow> bool" where
  "ctx_inv cx \<longleftrightarrow> sess_inv (cx_session cx) (cx_uploaded cx) \<and> kept_ok (cx_retained cx)"

lemmas out_defs = out_refused_def out_acked_def out_upload_def out_resumed_def out_broken_def okAck_def
  csvHeader_def received_all_def

lemmas sess_defs = sess_inv_def phase_ok_def counts_ok_def timer_ok_def trailer_ok_def outputs_ok_def out_defs

text \<open>Reading flags and pending writes do not matter to it.\<close>

lemma sess_inv_socket:
  assumes "sk_written sk = sk_written (ss_socket s)" "sk_valid sk = sk_valid (ss_socket s)"
    "sk_closing sk = sk_closing (ss_socket s)"
  shows "sess_inv (s\<lparr>ss_socket := sk\<rparr>) up = sess_inv s up"
  using assms by (cases "ss_state s") (simp_all add: sess_defs)

definition same_but_reading :: "Session \<Rightarrow> Session \<Rightarrow> bool" where
  "same_but_reading s s' \<longleftrightarrow> (\<exists>b. s' = s\<lparr>ss_socket := (ss_socket s)\<lparr>sk_reading := b\<rparr>\<rparr>)"

lemma same_but_reading_refl [simp]: "same_but_reading s s"
  unfolding same_but_reading_def by (rule exI [of _ "sk_reading (ss_socket s)"]) simp

lemma startRead_reading: "\<exists>b. snd (sock_startRead uv sk) = sk\<lparr>sk_reading := b\<rparr>"
  by (rule exI [of _ "sk_reading (snd (sock_startRead uv sk))"]) (simp add: sock_startRead_def)

lemma stopRead_reading: "\<exists>b. snd (sock_stopRead uv sk) = sk\<lparr>sk_reading := b\<rparr>"
  by (rule exI [of _ "sk_reading (snd (sock_stopRead uv sk))"]) (simp add: sock_stopRead_def)

lemma same_start: "same_but_reading s (s\<lparr>ss_socket := snd (sock_startRead uv (ss_socket s))\<rparr>)"
  using startRead_reading [of uv "ss_socket s"] by (auto simp: same_but_reading_def)

lemma same_stop: "same_but_reading s (s\<lparr>ss_socket := snd (sock_stopRead uv (ss_socket s))\<rparr>)"
  using stopRead_reading [of uv "ss_socket s"] by (auto simp: same_but_reading_def)

lemma resumeReading_frame:
  "same_but_reading (cx_session cx) (cx_session (resumeReading en cx))"
  "cx_uploaded (resumeReading en cx) = cx_uploaded cx" "cx_retained (resumeReading en cx) = cx_retained cx"
  by (simp_all add: resumeReading_def Let_def same_start)

lemma same_but_reading_trans: "same_but_reading a b \<Longrightarrow> same_but_reading b c \<Longrightarrow> same_but_reading a c"
  by (auto simp: same_but_reading_def)

lemma applyBackpressure_frame:
  "same_but_reading (cx_session cx) (cx_session (applyBackpressure en cx))"
  "cx_uploaded (applyBackpressure en cx) = cx_uploaded cx" "cx_retained (applyBackpressure en cx) = cx_retained cx"
proof -
  define cx1 where "cx1 = cx\<lparr>cx_session := (cx_session cx)\<lparr>ss_socket := snd (sock_stopRead (en_uv en) (ss_socket (cx_session cx)))\<rparr>,
    cx_parser := consume_n (en_after en) (setReadStopped True (consume_n (en_before en) (cx_parser cx)))\<rparr>"
  have 1: "same_but_reading (cx_session cx) (cx_session cx1)"
    by (simp add: cx1_def same_stop)
  have 2: "applyBackpressure en cx \<in> {cx, cx1, resumeReading en cx1}"
    by (simp add: applyBackpressure_def Let_def cx1_def)
  show "same_but_reading (cx_session cx) (cx_session (applyBackpressure en cx))"
    using 1 2 same_but_reading_trans [OF 1 resumeReading_frame(1) [of cx1 en]] by auto
  show "cx_uploaded (applyBackpressure en cx) = cx_uploaded cx" "cx_retained (applyBackpressure en cx) = cx_retained cx"
    using 2 resumeReading_frame(2,3) [of en cx1] by (auto simp: cx1_def)
qed

lemma sess_inv_same: "same_but_reading s s' \<Longrightarrow> sess_inv s' up = sess_inv s up"
  unfolding same_but_reading_def by (elim exE) (simp add: sess_inv_socket)

text \<open>Ending a session, from any state whose output is in order.\<close>

lemma cleanup_frame [simp]:
  "cx_uploaded (cleanup en r cx) = cx_uploaded cx" "cx_retained (cleanup en r cx) = cx_retained cx"
  by (simp_all add: cleanup_def Let_def)

lemma outputs_cong:
  assumes "sk_written (ss_socket s') = sk_written (ss_socket s)" "ss_csv s' = ss_csv s"
    "ss_receivedBytes s' = ss_receivedBytes s" "ss_fileSize s' = ss_fileSize s"
  shows "outputs_ok s' = outputs_ok s"
  by (simp add: outputs_ok_def out_defs assms)

lemma cleanup_inv:
  assumes "sk_valid (ss_socket (cx_session cx))" and "outputs_ok (cx_session cx)" and "\<not> ss_cleanupStarted (cx_session cx)"
  shows "sess_inv (cx_session (cleanup en r cx)) up"
proof -
  have "outputs_ok (cx_session (cleanup en r cx)) = outputs_ok (cx_session cx)"
    using assms(3) by (intro outputs_cong) (simp_all add: cleanup_def Let_def)
  with assms show ?thesis by (simp add: cleanup_def Let_def sess_inv_def timer_stop_def)
qed

lemma outputs_of_inv: "sess_inv s up \<Longrightarrow> outputs_ok s"
  by (cases "ss_state s") (auto simp: sess_inv_def phase_ok_def outputs_ok_def split: if_splits)

lemma cleanup_ctx: "ctx_inv cx \<Longrightarrow> ctx_inv (cleanup en r cx)"
proof (cases "ss_cleanupStarted (cx_session cx)")
  case False
  assume i: "ctx_inv cx"
  then have "sk_valid (ss_socket (cx_session cx))" "outputs_ok (cx_session cx)"
    using outputs_of_inv by (auto simp: ctx_inv_def sess_inv_def)
  from cleanup_inv [OF this False] i show ?thesis by (simp add: ctx_inv_def)
qed (simp add: cleanup_def)

text \<open>A session that is still alive and has said nothing.\<close>

definition quiet :: "Session \<Rightarrow> string list \<Rightarrow> bool" where
  "quiet s up \<longleftrightarrow> sk_valid (ss_socket s) \<and> \<not> sk_closing (ss_socket s) \<and> \<not> ss_cleanupStarted s \<and>
    \<not> ss_closeAfterSend s \<and> sk_written (ss_socket s) = [] \<and> counts_ok s up \<and> timer_ok s"

lemma quiet_of_inv:
  "sess_inv s up \<Longrightarrow> ss_state s \<in> {WaitHeader, Receiving} \<Longrightarrow> \<not> ss_closeAfterSend s \<Longrightarrow> quiet s up"
  by (auto simp: sess_inv_def quiet_def phase_ok_def split: if_splits)

lemma inv_of_quiet:
  assumes "quiet s up" and "ss_state s = WaitHeader \<and> ss_receivedBytes s = 0 \<or> ss_state s = Receiving"
  shows "sess_inv s up"
  using assms by (auto simp: sess_inv_def quiet_def phase_ok_def)

lemma quiet_cleanup: "quiet (cx_session cx) up \<Longrightarrow> sess_inv (cx_session (cleanup en r cx)) up'"
  by (intro cleanup_inv) (simp_all add: quiet_def outputs_ok_def)

lemma sendBytes_cases:
  obtains (ok) sk where "sendBytes en bytes cx = (0, cx\<lparr>cx_session := (cx_session cx)\<lparr>ss_socket := sk\<rparr>\<rparr>)"
    "sk_written sk = sk_written (ss_socket (cx_session cx)) @ [bytes]" "sk_valid sk" "\<not> sk_closing sk"
    "sk_reading sk = sk_reading (ss_socket (cx_session cx))"
  | (fail) rc where "sendBytes en bytes cx = (rc, cx)" "rc \<noteq> 0"
proof (cases rule: sock_send_cases [of "en_uv en" bytes "ss_socket (cx_session cx)"])
  case ok
  then show thesis
    using that(1) [of "snd (sock_send (en_uv en) bytes (ss_socket (cx_session cx)))"] by (simp add: sendBytes_def)
next
  case (fail rc)
  then show thesis using that(2) [of rc] by (simp add: sendBytes_def)
qed

lemma fail_inv:
  assumes q: "quiet (cx_session cx) up" and st: "st \<noteq> AckOk"
    and ph: "ss_state (cx_session cx) = WaitHeader \<and> ss_receivedBytes (cx_session cx) = 0 \<or>
      ss_state (cx_session cx) = Receiving \<and> received_all (cx_session cx) \<or> ss_state (cx_session cx) = Verifying"
  shows "sess_inv (cx_session (failWithAck en st r cx)) up"
proof -
  let ?s = "cx_session cx"
  let ?b = "encodeAck \<lparr>ack_status = st, ack_receivedBytes = ss_receivedBytes ?s\<rparr>"
  show ?thesis
  proof (cases rule: sendBytes_cases [of en ?b cx])
    case (ok sk)
    define s' where "s' = ?s\<lparr>ss_socket := sk, ss_closeAfterSend := True, ss_pendingFailReason := r\<rparr>"
    have w: "sk_written sk = [?b]" using ok(2) q by (simp add: quiet_def)
    have "sess_inv s' up"
      using q ph ok(3,4) w st
      by (elim disjE) (auto simp: s'_def sess_inv_def quiet_def phase_ok_def counts_ok_def timer_ok_def Let_def out_refused_def received_all_def)
    moreover have "cx_session (failWithAck en st r cx) = s'\<lparr>ss_socket := snd (sock_stopRead (en_uv en) (ss_socket s'))\<rparr>"
      using ok(1) by (simp add: failWithAck_def Let_def s'_def)
    ultimately show ?thesis using sess_inv_same [OF same_stop] by simp
  next
    case (fail rc)
    then show ?thesis using quiet_cleanup [OF q] by (simp add: failWithAck_def Let_def)
  qed
qed

lemma fail_frame [simp]:
  "cx_uploaded (failWithAck en st r cx) = cx_uploaded cx" "cx_retained (failWithAck en st r cx) = cx_retained cx"
  by (cases rule: sendBytes_cases [of en "encodeAck \<lparr>ack_status = st, ack_receivedBytes = ss_receivedBytes (cx_session cx)\<rparr>" cx];
      simp add: failWithAck_def Let_def)+

text \<open>Transitions arm the timer the new state wants.\<close>

lemma armTimer_frame [simp]:
  "ss_socket (armTimer s) = ss_socket s" "ss_state (armTimer s) = ss_state s" "ss_framer (armTimer s) = ss_framer s"
  "ss_fileSize (armTimer s) = ss_fileSize s" "ss_receivedBytes (armTimer s) = ss_receivedBytes s"
  "ss_payloadCrc (armTimer s) = ss_payloadCrc s" "ss_csv (armTimer s) = ss_csv s" "ss_filename (armTimer s) = ss_filename s"
  "ss_closeAfterSend (armTimer s) = ss_closeAfterSend s" "ss_cleanupStarted (armTimer s) = ss_cleanupStarted s"
  "ss_timeouts (armTimer s) = ss_timeouts s" "ss_slotAcquired (armTimer s) = ss_slotAcquired s"
  by (simp_all add: armTimer_def Let_def)

lemma armTimer_ok [simp]: "timer_ok (armTimer s)"
  by (simp add: timer_ok_def armTimer_def Let_def timer_start_def timer_stop_def)

lemma transition_session:
  assumes "ss_state (cx_session cx) \<noteq> nxt"
  shows "same_but_reading (armTimer ((cx_session cx)\<lparr>ss_state := nxt\<rparr>)) (cx_session (transition en nxt cx))"
  using assms resumeReading_frame(1) [of "cx\<lparr>cx_session := armTimer ((cx_session cx)\<lparr>ss_state := nxt\<rparr>)\<rparr>" en]
  by (simp add: transition_def Let_def)

lemma transition_frame [simp]:
  "cx_uploaded (transition en nxt cx) = cx_uploaded cx" "cx_retained (transition en nxt cx) = cx_retained cx"
  by (simp_all add: transition_def Let_def resumeReading_frame)

lemma same_but_reading_simps:
  assumes "same_but_reading s s'"
  shows "ss_state s' = ss_state s" "ss_framer s' = ss_framer s" "ss_fileSize s' = ss_fileSize s"
    "ss_receivedBytes s' = ss_receivedBytes s" "ss_payloadCrc s' = ss_payloadCrc s" "ss_csv s' = ss_csv s"
    "ss_filename s' = ss_filename s" "ss_closeAfterSend s' = ss_closeAfterSend s"
    "ss_cleanupStarted s' = ss_cleanupStarted s" "ss_timer s' = ss_timer s" "ss_timeouts s' = ss_timeouts s"
    "ss_slotAcquired s' = ss_slotAcquired s"
    "sk_written (ss_socket s') = sk_written (ss_socket s)" "sk_valid (ss_socket s') = sk_valid (ss_socket s)"
    "sk_closing (ss_socket s') = sk_closing (ss_socket s)"
  using assms by (auto simp: same_but_reading_def)

lemma quiet_same: "same_but_reading s s' \<Longrightarrow> quiet s' up = quiet s up"
  by (simp add: quiet_def counts_ok_def timer_ok_def same_but_reading_simps)

lemma quiet_transition:
  assumes "quiet (cx_session cx) up" and "ss_state (cx_session cx) \<noteq> nxt"
  shows "quiet (cx_session (transition en nxt cx)) up" and "ss_state (cx_session (transition en nxt cx)) = nxt"
proof -
  have "quiet (armTimer ((cx_session cx)\<lparr>ss_state := nxt\<rparr>)) up" using assms(1) by (simp add: quiet_def counts_ok_def)
  then show "quiet (cx_session (transition en nxt cx)) up" using quiet_same [OF transition_session [OF assms(2)]] by simp
  show "ss_state (cx_session (transition en nxt cx)) = nxt"
    using same_but_reading_simps(1) [OF transition_session [OF assms(2)]] by simp
qed

section \<open>Every handler keeps it\<close>

lemma quiet_upd [simp]:
  "quiet (s\<lparr>ss_framer := f\<rparr>) up = quiet s up" "quiet (s\<lparr>ss_slotAcquired := b\<rparr>) up = quiet s up"
  "quiet (s\<lparr>ss_filename := x\<rparr>) up = quiet s up" "quiet (s\<lparr>ss_csv := x\<rparr>) up = quiet s up"
  by (simp_all add: quiet_def counts_ok_def timer_ok_def)

lemma received_all_upd [simp]:
  "received_all (s\<lparr>ss_framer := f\<rparr>) = received_all s" "received_all (s\<lparr>ss_socket := sk\<rparr>) = received_all s"
  "received_all (s\<lparr>ss_state := st\<rparr>) = received_all s" "received_all (armTimer s) = received_all s"
  "received_all (s\<lparr>ss_slotAcquired := b\<rparr>) = received_all s"
  by (simp_all add: received_all_def)

lemma received_all_same: "same_but_reading s s' \<Longrightarrow> received_all s' = received_all s"
  by (simp add: received_all_def same_but_reading_simps)

lemma analyze_inv:
  assumes "quiet s up" and "received_all s" and "trailer_ok s" and "sk_valid sk" "\<not> sk_closing sk"
    and "sk_written sk = [okAck s]" and "ss_state s \<noteq> Analyzing" and "cx_session cx = s\<lparr>ss_socket := sk\<rparr>"
  shows "sess_inv (cx_session (analyzeAndSendResult en cx)) up"
proof -
  let ?t = "armTimer ((cx_session cx)\<lparr>ss_state := Analyzing\<rparr>)"
  have "sess_inv ?t up"
    using assms by (simp add: sess_inv_def quiet_def counts_ok_def phase_ok_def out_acked_def okAck_def trailer_ok_def)
  moreover have "same_but_reading ?t (cx_session (analyzeAndSendResult en cx))"
    using transition_session [of cx Analyzing en] assms(7,8) by (simp add: analyzeAndSendResult_def Let_def)
  ultimately show ?thesis by (simp add: sess_inv_same)
qed

lemma analyze_frame [simp]:
  "cx_uploaded (analyzeAndSendResult en cx) = cx_uploaded cx" "cx_retained (analyzeAndSendResult en cx) = cx_retained cx"
  by (simp_all add: analyzeAndSendResult_def Let_def)

lemma verify_inv:
  assumes "quiet (cx_session cx0) up" and "ss_state (cx_session cx0) = Receiving" and "received_all (cx_session cx0)"
  shows "sess_inv (cx_session (verifyAndAck en cx0)) up"
proof -
  define cx where "cx = transition en Verifying cx0"
  have q: "quiet (cx_session cx) up" and st: "ss_state (cx_session cx) = Verifying"
    using quiet_transition [OF assms(1), of Verifying en] assms(2) by (simp_all add: cx_def)
  have ra: "received_all (cx_session cx)"
    using received_all_same [OF transition_session, of cx0 Verifying en] assms(2,3) by (simp add: cx_def)
  show ?thesis
  proof (cases "decodeUploadTrailer (message (ss_framer (cx_session cx)))")
    case (Inl e)
    with quiet_cleanup [OF q] show ?thesis by (simp add: verifyAndAck_def cx_def [symmetric] closeSilently_def Let_def)
  next
    case (Inr t)
    show ?thesis
    proof (cases "ut_crc32 t = ss_payloadCrc (cx_session cx)")
      case False
      then show ?thesis
        using fail_inv [OF q, of CrcMismatch] Inr st by (simp add: verifyAndAck_def cx_def [symmetric] Let_def)
    next
      case True
      then have tr: "trailer_ok (cx_session cx)" using Inr by (simp add: trailer_ok_def)
      show ?thesis
      proof (cases rule: sendBytes_cases [of en "okAck (cx_session cx)" cx])
        case (ok sk)
        have "verifyAndAck en cx0 = analyzeAndSendResult en (cx\<lparr>cx_session := (cx_session cx)\<lparr>ss_socket := sk\<rparr>\<rparr>)"
          using ok(1) Inr True by (simp add: verifyAndAck_def cx_def [symmetric] Let_def okAck_def)
        then show ?thesis
          using analyze_inv [OF q ra tr ok(3,4)] ok(2) st q by (simp add: quiet_def)
      next
        case (fail rc)
        then show ?thesis
          using quiet_cleanup [OF q] Inr True by (simp add: verifyAndAck_def cx_def [symmetric] Let_def okAck_def)
      qed
    qed
  qed
qed

lemma sendBytes_frame [simp]:
  "cx_uploaded (snd (sendBytes en bytes cx)) = cx_uploaded cx" "cx_retained (snd (sendBytes en bytes cx)) = cx_retained cx"
  by (simp_all add: sendBytes_def split_beta)

lemma verify_frame [simp]:
  "cx_uploaded (verifyAndAck en cx) = cx_uploaded cx" "cx_retained (verifyAndAck en cx) = cx_retained cx"
  by (simp_all add: verifyAndAck_def Let_def closeSilently_def split_beta split: sum.split)

lemma feedFramer_eq:
  obtains f n where "feed (ss_framer (cx_session cx)) bytes = (f, n)"
    "feedFramer bytes cx = (fr_status f, n, cx\<lparr>cx_session := (cx_session cx)\<lparr>ss_framer := f\<rparr>\<rparr>)"
  by (cases "feed (ss_framer (cx_session cx)) bytes") (simp add: feedFramer_def)

lemma trailer_inv:
  assumes "quiet (cx_session cx) up" and "ss_state (cx_session cx) = Receiving" and "received_all (cx_session cx)"
  shows "sess_inv (cx_session (snd (consumeTrailer en bytes cx))) up"
proof -
  obtain f n where F: "feedFramer bytes cx = (fr_status f, n, cx\<lparr>cx_session := (cx_session cx)\<lparr>ss_framer := f\<rparr>\<rparr>)"
    by (rule feedFramer_eq)
  define cx1 where "cx1 = cx\<lparr>cx_session := (cx_session cx)\<lparr>ss_framer := f\<rparr>\<rparr>"
  have q: "quiet (cx_session cx1) up" "ss_state (cx_session cx1) = Receiving" "received_all (cx_session cx1)"
    using assms by (simp_all add: cx1_def)
  show ?thesis
    using verify_inv [OF q] fail_inv [OF q(1), of ProtocolError] quiet_cleanup [OF q(1)] inv_of_quiet [OF q(1)] q(2,3)
    by (cases "fr_status f") (simp_all add: consumeTrailer_def F cx1_def [symmetric] closeSilently_def)
qed

lemma trailer_frame [simp]:
  "cx_uploaded (snd (consumeTrailer en bytes cx)) = cx_uploaded cx"
  "cx_retained (snd (consumeTrailer en bytes cx)) = cx_retained cx"
  by (simp_all add: consumeTrailer_def feedFramer_def split_beta closeSilently_def split: DecodeStatus.split)

text \<open>Sending a result: both ways into \<open>SendingResult\<close>.\<close>

definition sending :: "Session \<Rightarrow> string list \<Rightarrow> bool" where
  "sending s up \<longleftrightarrow> sk_valid (ss_socket s) \<and> \<not> sk_closing (ss_socket s) \<and> \<not> ss_cleanupStarted s \<and>
    \<not> ss_closeAfterSend s \<and> counts_ok s up \<and> timer_ok s \<and> ss_state s = SendingResult"

lemma sending_inv: "sending s up \<Longrightarrow> out_upload s \<and> received_all s \<or> out_resumed s \<Longrightarrow> sess_inv s up"
  by (simp add: sending_def sess_inv_def phase_ok_def)

lemma sending_socket:
  "sending s up \<Longrightarrow> sk_valid sk \<Longrightarrow> \<not> sk_closing sk \<Longrightarrow> sending (s\<lparr>ss_socket := sk\<rparr>) up"
  by (auto simp: sending_def counts_ok_def timer_ok_def)

lemma sending_cleanup:
  "sending (cx_session cx) up \<Longrightarrow> outputs_ok (cx_session cx) \<Longrightarrow> sess_inv (cx_session (cleanup en r cx)) up'"
  by (intro cleanup_inv) (simp_all add: sending_def)

lemma sending_transition:
  fixes en :: Env and cx :: Ctx
  assumes "sk_valid (ss_socket s)" "\<not> sk_closing (ss_socket s)" "\<not> ss_cleanupStarted s" "\<not> ss_closeAfterSend s"
    "counts_ok s up" "ss_state s \<noteq> SendingResult" "cx_session cx = s"
  defines "s' \<equiv> cx_session (transition en SendingResult cx)"
  shows "sending s' up" "sk_written (ss_socket s') = sk_written (ss_socket s)" "ss_csv s' = ss_csv s"
    "received_all s' = received_all s" "okAck s' = okAck s" "csvHeader s' = csvHeader s"
proof -
  have sb: "same_but_reading (armTimer (s\<lparr>ss_state := SendingResult\<rparr>)) s'"
    using transition_session [of cx SendingResult en] assms(6,7) by (simp add: s'_def)
  note R = same_but_reading_simps [OF sb]
  have "timer_ok s'" using armTimer_ok [of "s\<lparr>ss_state := SendingResult\<rparr>"] by (simp add: timer_ok_def R)
  with assms(1-5) show "sending s' up" by (simp add: sending_def R counts_ok_def)
  show "sk_written (ss_socket s') = sk_written (ss_socket s)" "ss_csv s' = ss_csv s"
    "received_all s' = received_all s" "okAck s' = okAck s" "csvHeader s' = csvHeader s"
    by (simp_all add: R received_all_def okAck_def csvHeader_def)
qed

lemma resumed_inv:
  assumes sd: "sending (cx_session cx) up" and w: "sk_written (ss_socket (cx_session cx)) = []"
    and n: "n \<le> length (ss_csv (cx_session cx))"
  shows "sess_inv (cx_session (let (rc, cx2) = sendBytes en (csvHeader (cx_session cx)) cx; body = drop n (ss_csv (cx_session cx)) in
      if rc \<noteq> 0 then cleanup en r1 cx2 else if body = [] then cx2
      else let (rc2, cx3) = sendBytes en body cx2 in if rc2 \<noteq> 0 then cleanup en r2 cx3 else cx3)) up"
proof -
  let ?s = "cx_session cx"
  show ?thesis
  proof (cases rule: sendBytes_cases [of en "csvHeader ?s" cx])
    case (fail rc)
    then show ?thesis using sending_cleanup [OF sd] w by (simp add: outputs_ok_def Let_def)
  next
    case (ok sk)
    define cx2 where "cx2 = cx\<lparr>cx_session := ?s\<lparr>ss_socket := sk\<rparr>\<rparr>"
    have s2: "sending (cx_session cx2) up" using sending_socket [OF sd ok(3,4)] by (simp add: cx2_def)
    have w2: "sk_written (ss_socket (cx_session cx2)) = [csvHeader ?s]" "ss_csv (cx_session cx2) = ss_csv ?s"
      "csvHeader (cx_session cx2) = csvHeader ?s"
      using ok(2) w by (simp_all add: cx2_def csvHeader_def)
    show ?thesis
    proof (cases "drop n (ss_csv ?s) = []")
      case True
      then have "out_resumed (cx_session cx2)" using n w2 by (auto simp: out_resumed_def intro: exI [of _ n])
      then show ?thesis using sending_inv [OF s2] ok(1) True by (simp add: cx2_def Let_def)
    next
      case ne: False
      show ?thesis
      proof (cases rule: sendBytes_cases [of en "drop n (ss_csv ?s)" cx2])
        case (ok sk3)
        have "out_resumed (cx_session cx2\<lparr>ss_socket := sk3\<rparr>)"
          using n w2 ok(2) ne by (auto simp: out_resumed_def csvHeader_def intro: exI [of _ n])
        then show ?thesis
          using sending_inv [OF sending_socket [OF s2 ok(3,4)]] ok(1) \<open>sendBytes en (csvHeader ?s) cx = _\<close> ne
          by (simp add: cx2_def Let_def)
      next
        case (fail rc)
        have "outputs_ok (cx_session cx2)" using w2 by (simp add: outputs_ok_def out_broken_def)
        then show ?thesis
          using sending_cleanup [OF s2] fail \<open>sendBytes en (csvHeader ?s) cx = _\<close> ne by (simp add: cx2_def Let_def)
      qed
    qed
  qed
qed

lemma uploaded_inv:
  assumes sd: "sending (cx_session cx) up" and w: "sk_written (ss_socket (cx_session cx)) = [okAck (cx_session cx)]"
    and ra: "received_all (cx_session cx)"
  shows "sess_inv (cx_session (let (rc, cx2) = sendBytes en (csvHeader (cx_session cx)) cx in
      if rc \<noteq> 0 then cleanup en r1 cx2
      else let (rc2, cx3) = sendBytes en (ss_csv (cx_session cx)) cx2 in if rc2 \<noteq> 0 then cleanup en r2 cx3 else cx3)) up"
proof -
  let ?s = "cx_session cx"
  show ?thesis
  proof (cases rule: sendBytes_cases [of en "csvHeader ?s" cx])
    case (fail rc)
    then show ?thesis using sending_cleanup [OF sd] w ra by (simp add: outputs_ok_def out_acked_def)
  next
    case (ok sk)
    define cx2 where "cx2 = cx\<lparr>cx_session := ?s\<lparr>ss_socket := sk\<rparr>\<rparr>"
    have s2: "sending (cx_session cx2) up" using sending_socket [OF sd ok(3,4)] by (simp add: cx2_def)
    have w2: "sk_written (ss_socket (cx_session cx2)) = [okAck ?s, csvHeader ?s]" "ss_csv (cx_session cx2) = ss_csv ?s"
      "csvHeader (cx_session cx2) = csvHeader ?s" "okAck (cx_session cx2) = okAck ?s"
      using ok(2) w by (simp_all add: cx2_def csvHeader_def okAck_def)
    show ?thesis
    proof (cases rule: sendBytes_cases [of en "ss_csv ?s" cx2])
      case (ok sk3)
      have "out_upload (cx_session cx2\<lparr>ss_socket := sk3\<rparr>)"
        using w2 ok(2) by (simp add: out_upload_def csvHeader_def okAck_def)
      then show ?thesis
        using sending_inv [OF sending_socket [OF s2 ok(3,4)]] ok(1) \<open>sendBytes en (csvHeader ?s) cx = _\<close> ra
        by (simp add: cx2_def)
    next
      case (fail rc)
      have "outputs_ok (cx_session cx2)" using w2 by (simp add: outputs_ok_def out_broken_def)
      then show ?thesis
        using sending_cleanup [OF s2] fail \<open>sendBytes en (csvHeader ?s) cx = _\<close> by (simp add: cx2_def)
    qed
  qed
qed

lemma request_inv:
  assumes q: "quiet (cx_session cx) up" and st: "ss_state (cx_session cx) = WaitHeader" "ss_receivedBytes (cx_session cx) = 0"
    and k: "kept_ok (cx_retained cx)"
  shows "sess_inv (cx_session (handleResultRequest en cx)) up"
proof (cases "decodeResultRequest (message (ss_framer (cx_session cx)))")
  case (Inl e)
  then show ?thesis
    using fail_inv [OF q, of ProtocolError] quiet_cleanup [OF q] st
    by (cases e) (simp_all add: handleResultRequest_def closeSilently_def)
next
  case (Inr rq)
  show ?thesis
  proof (cases "retainedResult (cx_retained cx) (rr_filename rq) (rr_fileSize rq) (rr_crc32 rq)")
    case None
    then show ?thesis using fail_inv [OF q, of NoSuchResult] Inr st by (simp add: handleResultRequest_def)
  next
    case (Some kept)
    have crc: "rt_csvCrc32 kept = crc32 0 (rt_csv kept)"
      using Some k by (auto simp: retainedResult_def kept_ok_def split: option.splits if_splits)
    show ?thesis
    proof (cases "unat (rr_startOffset rq) > length (rt_csv kept)")
      case True
      then show ?thesis using fail_inv [OF q, of ProtocolError] Inr Some st by (simp add: handleResultRequest_def)
    next
      case False
      define cx1 where "cx1 = cx\<lparr>cx_session := (cx_session cx)\<lparr>ss_filename := rr_filename rq, ss_csv := rt_csv kept\<rparr>\<rparr>"
      define cx2 where "cx2 = transition en SendingResult cx1"
      have q1: "quiet (cx_session cx1) up" "ss_state (cx_session cx1) \<noteq> SendingResult" using q st by (simp_all add: cx1_def)
      note T = sending_transition [of "cx_session cx1" up cx1 en, folded cx2_def]
      have sd: "sending (cx_session cx2) up" "sk_written (ss_socket (cx_session cx2)) = []"
        "ss_csv (cx_session cx2) = rt_csv kept"
        using T q1 by (simp_all add: quiet_def) (simp add: cx1_def)
      have hd: "encodeResultHeader \<lparr>rh_csvSize = of_nat (length (rt_csv kept)), rh_crc32 = rt_csvCrc32 kept\<rparr> = csvHeader (cx_session cx2)"
        by (simp add: csvHeader_def sd(3) crc)
      show ?thesis
        using resumed_inv [OF sd(1,2), of "unat (rr_startOffset rq)"] False Inr Some
        by (simp add: handleResultRequest_def Let_def hd sd(3) flip: cx1_def cx2_def)
    qed
  qed
qed

lemma request_frame [simp]:
  "cx_uploaded (handleResultRequest en cx) = cx_uploaded cx" "cx_retained (handleResultRequest en cx) = cx_retained cx"
  by (auto simp: handleResultRequest_def Let_def closeSilently_def split_beta
      split: sum.split option.split DecodeStatus.split)

lemma header_inv:
  assumes q: "quiet (cx_session cx) up" and st: "ss_state (cx_session cx) = WaitHeader" "ss_receivedBytes (cx_session cx) = 0"
    and k: "kept_ok (cx_retained cx)"
  shows "sess_inv (cx_session (snd (consumeHeader en bytes cx))) up"
proof -
  obtain f n where F: "feedFramer bytes cx = (fr_status f, n, cx\<lparr>cx_session := (cx_session cx)\<lparr>ss_framer := f\<rparr>\<rparr>)"
    by (rule feedFramer_eq)
  define cx1 where "cx1 = cx\<lparr>cx_session := (cx_session cx)\<lparr>ss_framer := f\<rparr>\<rparr>"
  have q1: "quiet (cx_session cx1) up" "ss_state (cx_session cx1) = WaitHeader" "ss_receivedBytes (cx_session cx1) = 0"
    "kept_ok (cx_retained cx1)"
    using assms by (simp_all add: cx1_def)
  have accept: "sess_inv (cx_session (transition en Receiving (cx1\<lparr>cx_session := (cx_session cx1)\<lparr>ss_fileSize := uh_fileSize h,
      ss_filename := uh_filename h, ss_framer := fr\<rparr>\<rparr>))) up"
    if "decodeUploadHeader (message (ss_framer (cx_session cx1))) = Inr h" for h fr
  proof -
    have "uh_fileSize h \<le> kMaxFileSize" using decodeUploadHeader_sound [OF that] by (simp add: validUploadHeader_def)
    then have "quiet ((cx_session cx1)\<lparr>ss_fileSize := uh_fileSize h, ss_filename := uh_filename h, ss_framer := fr\<rparr>) up"
      using q1 by (simp add: quiet_def counts_ok_def timer_ok_def)
    then show ?thesis
      using quiet_transition [of "cx1\<lparr>cx_session := (cx_session cx1)\<lparr>ss_fileSize := uh_fileSize h,
        ss_filename := uh_filename h, ss_framer := fr\<rparr>\<rparr>" up Receiving en] q1(2) inv_of_quiet by simp
  qed
  show ?thesis
  proof (cases "fr_status f")
    case Ok
    then show ?thesis
      using request_inv [OF q1] accept fail_inv [OF q1(1), of ProtocolError] quiet_cleanup [OF q1(1)] q1(2,3)
      by (auto simp: consumeHeader_def F closeSilently_def cx1_def [symmetric] split: sum.split DecodeStatus.split)
  qed (use fail_inv [OF q1(1), of ProtocolError] quiet_cleanup [OF q1(1)] inv_of_quiet [OF q1(1)] q1(2,3) in
      \<open>simp_all add: consumeHeader_def F closeSilently_def cx1_def [symmetric]\<close>)
qed

lemma header_frame [simp]:
  "cx_uploaded (snd (consumeHeader en bytes cx)) = cx_uploaded cx"
  "cx_retained (snd (consumeHeader en bytes cx)) = cx_retained cx"
  by (auto simp: consumeHeader_def feedFramer_def split_beta closeSilently_def split: DecodeStatus.split sum.split)

text \<open>Counting and committing payload bytes.\<close>

lemma payloadShare_le: "payloadShare s bytes \<le> length bytes"
  by (simp add: payloadShare_def)

lemma countPayload_ok:
  assumes "counts_ok s up" and "n = payloadShare s bytes" and "concat up' = concat up @ take n bytes"
  shows "counts_ok (countPayload (take n bytes) s) up'"
    and "n < length bytes \<Longrightarrow> received_all (countPayload (take n bytes) s)"
proof -
  have le: "ss_receivedBytes s \<le> ss_fileSize s" using assms(1) by (simp add: counts_ok_def)
  then have sub: "unat (ss_fileSize s - ss_receivedBytes s) = unat (ss_fileSize s) - unat (ss_receivedBytes s)"
    by (simp add: unat_sub)
  have n: "n \<le> length bytes" "n \<le> unat (ss_fileSize s) - unat (ss_receivedBytes s)"
    using assms(2) sub by (simp_all add: payloadShare_def)
  have le': "unat (ss_receivedBytes s) \<le> unat (ss_fileSize s)" using le by (simp add: word_le_nat_alt)
  have sum: "unat (ss_receivedBytes s) + n \<le> unat (ss_fileSize s)" using n(2) le' by linarith
  moreover have "unat (ss_fileSize s) < 2 ^ 64" using unsigned_less [of "ss_fileSize s"] by simp
  ultimately have u: "unat (ss_receivedBytes s + of_nat n) = unat (ss_receivedBytes s) + n"
    by (simp add: unat_word_ariths unat_of_nat)
  have r: "ss_receivedBytes (countPayload (take n bytes) s) = ss_receivedBytes s + of_nat n"
    "ss_payloadCrc (countPayload (take n bytes) s) = crc32 (ss_payloadCrc s) (take n bytes)"
    "ss_fileSize (countPayload (take n bytes) s) = ss_fileSize s"
    using n(1) by (simp_all add: countPayload_def min_def)
  show "counts_ok (countPayload (take n bytes) s) up'"
    using assms(1,3) u sum n(1) by (simp add: counts_ok_def r word_le_nat_alt min_def crc32_append)
  show "received_all (countPayload (take n bytes) s)" if "n < length bytes"
  proof -
    have "n = unat (ss_fileSize s) - unat (ss_receivedBytes s)" using assms(2) that sub by (simp add: payloadShare_def)
    then have "unat (ss_receivedBytes s + of_nat n) = unat (ss_fileSize s)" using u le' by simp
    then have "ss_receivedBytes s + of_nat n = ss_fileSize s" by (simp only: word_unat_eq_iff)
    then show ?thesis by (simp add: received_all_def r)
  qed
qed

lemma copyPayload_frame:
  "cx_session (fst (copyPayload payload cx)) = cx_session cx \<and> cx_retained (fst (copyPayload payload cx)) = cx_retained cx \<and>
   (snd (copyPayload payload cx) \<longrightarrow> concat (cx_uploaded (fst (copyPayload payload cx))) = concat (cx_uploaded cx) @ payload)"
proof (induction payload cx rule: copyPayload.induct)
  case (1 payload cx)
  show ?case
  proof (cases "payload = [] \<or> tryAcquireSlot (cx_parser cx) = None")
    case True
    then show ?thesis by (subst copyPayload.simps, subst copyPayload.simps, subst copyPayload.simps, subst copyPayload.simps) auto
  next
    case False
    then obtain off cap where a: "payload \<noteq> []" "tryAcquireSlot (cx_parser cx) = Some (off, cap)" by auto
    show ?thesis
    proof (cases "cap = 0")
      case True
      then have "copyPayload payload cx = (cx, False)" using a by (simp add: copyPayload.simps [of payload])
      then show ?thesis by simp
    next
      case cap: False
      let ?cx = "commitChunk (take cap payload) (writeSlot off (take cap payload) cx)"
      have "copyPayload payload cx = copyPayload (drop cap payload) ?cx"
        using a cap by (simp add: copyPayload.simps [of payload] Let_def)
      then show ?thesis using 1 [OF a(1,2) refl cap refl] by (simp add: commitChunk_def writeSlot_def)
    qed
  qed
qed

lemma countPayload_frame [simp]:
  "ss_socket (countPayload p s) = ss_socket s" "ss_state (countPayload p s) = ss_state s"
  "ss_timer (countPayload p s) = ss_timer s" "ss_timeouts (countPayload p s) = ss_timeouts s"
  "ss_closeAfterSend (countPayload p s) = ss_closeAfterSend s" "ss_cleanupStarted (countPayload p s) = ss_cleanupStarted s"
  "ss_csv (countPayload p s) = ss_csv s" "ss_framer (countPayload p s) = ss_framer s"
  "ss_fileSize (countPayload p s) = ss_fileSize s" "ss_slotAcquired (countPayload p s) = ss_slotAcquired s"
  "ss_filename (countPayload p s) = ss_filename s"
  by (simp_all add: countPayload_def)

lemma quiet_count:
  assumes "quiet s up" and "n = payloadShare s bytes" and "concat up' = concat up @ take n bytes"
  shows "quiet (countPayload (take n bytes) s) up'"
  using assms(1) countPayload_ok(1) [OF _ assms(2,3)] by (simp add: quiet_def timer_ok_def)

lemma payload_inv:
  assumes q: "quiet (cx_session cx) (cx_uploaded cx)" and st: "ss_state (cx_session cx) = Receiving"
  shows "sess_inv (cx_session (snd (consumePayload en bytes cx))) (cx_uploaded (snd (consumePayload en bytes cx)))"
proof -
  define n where "n = payloadShare (cx_session cx) bytes"
  define cx0 where "cx0 = cx\<lparr>cx_session := countPayload (take n bytes) (cx_session cx)\<rparr>"
  obtain cx1 ok where c: "copyPayload (take n bytes) cx0 = (cx1, ok)" by fastforce
  have f: "cx_session cx1 = countPayload (take n bytes) (cx_session cx)"
    "ok \<Longrightarrow> concat (cx_uploaded cx1) = concat (cx_uploaded cx) @ take n bytes"
    using copyPayload_frame [of "take n bytes" cx0, unfolded c] by (simp_all add: cx0_def)
  have r: "snd (consumePayload en bytes cx) =
      (if ok then applyBackpressure en cx1 else cleanup en ''ring slot unavailable for transition chunk'' cx1)"
    by (simp add: consumePayload_def c flip: n_def cx0_def)
  show ?thesis
  proof (cases ok)
    case True
    then have "quiet (cx_session cx1) (cx_uploaded cx1)" using quiet_count [OF q n_def f(2)] f(1) by simp
    then have "sess_inv (cx_session cx1) (cx_uploaded cx1)" using inv_of_quiet st f(1) by simp
    then show ?thesis using r True sess_inv_same [OF applyBackpressure_frame(1)] by (simp add: applyBackpressure_frame)
  next
    case False
    then show ?thesis using r q f(1) by (simp add: cleanup_inv quiet_def outputs_ok_def)
  qed
qed

lemma payload_frame [simp]: "cx_retained (snd (consumePayload en bytes cx)) = cx_retained cx"
  using copyPayload_frame [of "take (payloadShare (cx_session cx) bytes) bytes"
      "cx\<lparr>cx_session := countPayload (take (payloadShare (cx_session cx) bytes) bytes) (cx_session cx)\<rparr>"]
  by (simp add: consumePayload_def Let_def split_beta applyBackpressure_frame)

lemma sess_inv_framer: "ss_state s \<noteq> Analyzing \<Longrightarrow> sess_inv (s\<lparr>ss_framer := f\<rparr>) up = sess_inv s up"
  by (cases "ss_state s") (simp_all add: sess_defs)

lemma done_inv:
  assumes "sess_inv (cx_session cx) up" and "ss_state (cx_session cx) = WaitDone"
  shows "sess_inv (cx_session (snd (consumeDone en bytes cx))) up"
proof -
  obtain f n where F: "feedFramer bytes cx = (fr_status f, n, cx\<lparr>cx_session := (cx_session cx)\<lparr>ss_framer := f\<rparr>\<rparr>)"
    by (rule feedFramer_eq)
  define cx1 where "cx1 = cx\<lparr>cx_session := (cx_session cx)\<lparr>ss_framer := f\<rparr>\<rparr>"
  have i: "sess_inv (cx_session cx1) up" "\<not> ss_cleanupStarted (cx_session cx1)"
    using assms by (auto simp: cx1_def sess_inv_framer) (simp add: sess_inv_def)
  then have "sess_inv (cx_session (cleanup en r cx1)) up" for r
    using cleanup_inv [OF _ outputs_of_inv [OF i(1)] i(2)] by (simp add: sess_inv_def)
  with i show ?thesis by (simp add: consumeDone_def F closeSilently_def flip: cx1_def)
qed

lemma done_frame [simp]:
  "cx_uploaded (snd (consumeDone en bytes cx)) = cx_uploaded cx" "cx_retained (snd (consumeDone en bytes cx)) = cx_retained cx"
  by (simp_all add: consumeDone_def feedFramer_def split_beta closeSilently_def)

lemma step_inv:
  assumes i: "ctx_inv cx" and a: "\<not> ss_cleanupStarted (cx_session cx)" "\<not> ss_closeAfterSend (cx_session cx)"
  shows "ctx_inv (snd (consumeStep en bytes cx))"
proof -
  let ?s = "cx_session cx"
  have s: "sess_inv ?s (cx_uploaded cx)" "kept_ok (cx_retained cx)" using i by (simp_all add: ctx_inv_def)
  have q: "ss_state ?s \<in> {WaitHeader, Receiving} \<Longrightarrow> quiet ?s (cx_uploaded cx)" using quiet_of_inv [OF s(1)] a(2) by simp
  have le: "ss_receivedBytes ?s \<le> ss_fileSize ?s" using s(1) a(1) by (simp add: sess_inv_def counts_ok_def)
  show ?thesis
  proof (cases "ss_state ?s")
    case WaitHeader
    then have "ss_receivedBytes ?s = 0" using s(1) a by (simp add: sess_inv_def phase_ok_def)
    then show ?thesis using header_inv [OF q] WaitHeader s by (simp add: consumeStep_def ctx_inv_def)
  next
    case Receiving
    then show ?thesis
      using payload_inv [OF q] trailer_inv [OF q] s(2) le
      by (cases "ss_receivedBytes ?s < ss_fileSize ?s") (simp_all add: consumeStep_def ctx_inv_def received_all_def)
  next
    case WaitDone
    then show ?thesis using done_inv [OF s(1)] s(2) by (simp add: consumeStep_def ctx_inv_def)
  qed (simp_all add: consumeStep_def closeSilently_def cleanup_ctx [OF i])
qed

lemma readLoop_inv: "ctx_inv cx \<Longrightarrow> ctx_inv (readLoop en bytes cx)"
proof (induction en bytes cx rule: readLoop.induct)
  case (1 en bytes cx)
  show ?case
  proof (cases "bytes = [] \<or> ss_cleanupStarted (cx_session cx) \<or> ss_closeAfterSend (cx_session cx)")
    case True
    then have "readLoop en bytes cx = cx" by (simp add: readLoop.simps [of en bytes])
    with 1 show ?thesis by simp
  next
    case False
    obtain n cx1 where c: "consumeStep en bytes cx = (n, cx1)" by fastforce
    have "ctx_inv cx1" using step_inv [OF 1(2), of en bytes] False c by simp
    then show ?thesis using 1(1) [OF False c [symmetric]] False c by (simp add: readLoop.simps [of en bytes])
  qed
qed

lemma slot_inv:
  assumes i: "ctx_inv cx" and st: "ss_state (cx_session cx) = Receiving" "ss_receivedBytes (cx_session cx) < ss_fileSize (cx_session cx)"
  shows "ctx_inv (readIntoSlot en bytes cx)"
proof -
  define n where "n = payloadShare (cx_session cx) bytes"
  define s where "s = countPayload (take n bytes) ((cx_session cx)\<lparr>ss_slotAcquired := False\<rparr>)"
  define cx1 where "cx1 = applyBackpressure en (commitChunk (take n bytes) (cx\<lparr>cx_session := s\<rparr>))"
  have n: "n = payloadShare ((cx_session cx)\<lparr>ss_slotAcquired := False\<rparr>) bytes" by (simp add: n_def payloadShare_def)
  have "\<not> ss_closeAfterSend (cx_session cx)" using i st by (auto simp: ctx_inv_def sess_inv_def phase_ok_def received_all_def split: if_splits)
  then have q0: "quiet (cx_session cx) (cx_uploaded cx)" using quiet_of_inv i st(1) by (simp add: ctx_inv_def)
  then have "quiet s (cx_uploaded cx @ [take n bytes])" unfolding s_def by (intro quiet_count [OF _ n]) simp_all
  then have q: "quiet (cx_session cx1) (cx_uploaded cx1)"
    using quiet_same [OF applyBackpressure_frame(1), of en "commitChunk (take n bytes) (cx\<lparr>cx_session := s\<rparr>)"]
    by (simp add: cx1_def applyBackpressure_frame) (simp add: commitChunk_def)
  have st1: "ss_state (cx_session cx1) = Receiving" and k: "kept_ok (cx_retained cx1)"
    using same_but_reading_simps(1) [OF applyBackpressure_frame(1), of en "commitChunk (take n bytes) (cx\<lparr>cx_session := s\<rparr>)"] st(1) i
    by (simp_all add: cx1_def applyBackpressure_frame commitChunk_def s_def ctx_inv_def)
  have ra: "received_all (cx_session cx1)" if "n < length bytes"
  proof -
    have "counts_ok ((cx_session cx)\<lparr>ss_slotAcquired := False\<rparr>) (cx_uploaded cx)" using q0 by (simp add: quiet_def counts_ok_def)
    from countPayload_ok(2) [OF this n _ that, of "cx_uploaded cx @ [take n bytes]"]
    have "received_all s" by (simp add: s_def)
    then show ?thesis
      using received_all_same [OF applyBackpressure_frame(1), of en "commitChunk (take n bytes) (cx\<lparr>cx_session := s\<rparr>)"]
      by (simp add: cx1_def) (simp add: commitChunk_def)
  qed
  have r: "readIntoSlot en bytes cx = (if drop n bytes = [] then cx1 else snd (consumeTrailer en (drop n bytes) cx1))"
    unfolding readIntoSlot_def Let_def n_def [symmetric] s_def [symmetric] cx1_def [symmetric] ..
  show ?thesis
    using r inv_of_quiet [OF q] st1 k trailer_inv [OF q st1] ra by (auto simp: ctx_inv_def)
qed

lemma sess_inv_slot [simp]: "sess_inv (s\<lparr>ss_slotAcquired := b\<rparr>) up = sess_inv s up"
  by (cases "ss_state s") (simp_all add: sess_defs)

lemma sess_inv_restart: "sess_inv s up \<Longrightarrow> sess_inv (s\<lparr>ss_timer := timer_restart (ss_timer s)\<rparr>) up"
  by (cases "ss_state s"; cases "tm_due (ss_timer s)") (auto simp: sess_defs timer_restart_def timer_isActive_def split: if_splits)

lemma onAllocate_eq:
  obtains b wb where "onAllocate n cx = (wb, cx\<lparr>cx_session := (cx_session cx)\<lparr>ss_slotAcquired := b\<rparr>\<rparr>)"
    "b \<Longrightarrow> ss_state (cx_session cx) = Receiving \<and> ss_receivedBytes (cx_session cx) < ss_fileSize (cx_session cx)"
  by (cases "ss_state (cx_session cx) = Receiving \<and> ss_receivedBytes (cx_session cx) < ss_fileSize (cx_session cx)";
      cases "tryAcquireSlot (cx_parser cx)") (auto simp: onAllocate_def Let_def)

lemma fillBuffer_frame [simp]:
  "cx_session (fillBuffer wb bytes cx) = cx_session cx" "cx_uploaded (fillBuffer wb bytes cx) = cx_uploaded cx"
  "cx_retained (fillBuffer wb bytes cx) = cx_retained cx"
  by (cases wb; simp add: writeSlot_def)+

lemma onRead_inv:
  assumes "ctx_inv cx" and "ss_slotAcquired (cx_session cx) \<Longrightarrow>
    ss_state (cx_session cx) = Receiving \<and> ss_receivedBytes (cx_session cx) < ss_fileSize (cx_session cx)"
  shows "ctx_inv (onRead en bytes cx)"
proof -
  define cx1 where "cx1 = cx\<lparr>cx_session := (cx_session cx)\<lparr>ss_timer := timer_restart (ss_timer (cx_session cx))\<rparr>\<rparr>"
  have "ctx_inv cx1" using assms(1) sess_inv_restart by (simp add: cx1_def ctx_inv_def)
  from slot_inv [OF this] readLoop_inv [OF this] assms(2) show ?thesis
    by (simp add: onRead_def Let_def flip: cx1_def) (simp add: cx1_def)
qed

lemma read_inv:
  assumes "ctx_inv cx" and "onAllocate n cx = (wb, cx1)"
  shows "ctx_inv (dispatchRead en wb ev cx1)"
proof -
  obtain b where cx1: "cx1 = cx\<lparr>cx_session := (cx_session cx)\<lparr>ss_slotAcquired := b\<rparr>\<rparr>"
    and b: "b \<Longrightarrow> ss_state (cx_session cx) = Receiving \<and> ss_receivedBytes (cx_session cx) < ss_fileSize (cx_session cx)"
    by (rule onAllocate_eq [of n cx]) (use assms(2) in auto)
  have i: "ctx_inv cx1" using assms(1) by (simp add: cx1 ctx_inv_def)
  then have f: "ctx_inv (fillBuffer wb bytes cx1)" for bytes by (simp add: ctx_inv_def)
  show ?thesis
    using onRead_inv [OF f] b cleanup_ctx [OF i] i by (cases ev) (simp_all add: dispatchRead_def onError_def cx1)
qed

lemma out_arm [simp]:
  "out_upload (armTimer (s\<lparr>ss_state := st\<rparr>)) = out_upload s" "out_resumed (armTimer (s\<lparr>ss_state := st\<rparr>)) = out_resumed s"
  by (simp_all add: out_upload_def out_resumed_def okAck_def csvHeader_def)

lemma sendComplete_inv:
  assumes "ctx_inv cx"
  shows "ctx_inv (onSendComplete en status cx)"
proof (cases "status \<noteq> 0 \<or> ss_closeAfterSend (cx_session cx)")
  case True
  with assms cleanup_ctx show ?thesis by (auto simp: onSendComplete_def)
next
  case False
  define cx1 where "cx1 = cx\<lparr>cx_session := (cx_session cx)\<lparr>ss_timer := timer_restart (ss_timer (cx_session cx))\<rparr>\<rparr>"
  have i: "sess_inv (cx_session cx1) (cx_uploaded cx)" using assms sess_inv_restart by (simp add: cx1_def ctx_inv_def)
  show ?thesis
  proof (cases "ss_state (cx_session cx) = SendingResult")
    case True
    define s where "s = (cx_session cx1)\<lparr>ss_framer := framerReset DownloadDoneMsg (ss_framer (cx_session cx))\<rparr>"
    have st: "ss_state s = SendingResult" using True by (simp add: s_def cx1_def)
    have "sess_inv s (cx_uploaded cx)" using i True sess_inv_framer [of "cx_session cx1"] by (simp add: s_def) (simp add: cx1_def)
    with st have "sess_inv (armTimer (s\<lparr>ss_state := WaitDone\<rparr>)) (cx_uploaded cx)"
      by (auto simp: sess_inv_def phase_ok_def counts_ok_def)
    then have "sess_inv (cx_session (transition en WaitDone (cx1\<lparr>cx_session := s\<rparr>))) (cx_uploaded cx)"
      using sess_inv_same [OF transition_session, of "cx1\<lparr>cx_session := s\<rparr>" WaitDone] st by simp
    then show ?thesis
      using False True assms by (simp add: onSendComplete_def Let_def ctx_inv_def s_def cx1_def)
  next
    case other: False
    then show ?thesis using i assms False by (simp add: onSendComplete_def Let_def ctx_inv_def cx1_def)
  qed
qed

lemma write_inv:
  assumes "ctx_inv cx"
  shows "ctx_inv (dispatchWrite en status cx)"
proof -
  define cx1 where "cx1 = cx\<lparr>cx_session := (cx_session cx)\<lparr>ss_socket := onWriteCb (ss_socket (cx_session cx))\<rparr>\<rparr>"
  have "ctx_inv cx1" using assms by (simp add: cx1_def ctx_inv_def sess_inv_socket onWriteCb_def)
  from sendComplete_inv [OF this] show ?thesis
    by (simp add: dispatchWrite_def Let_def onError_def cleanup_ctx flip: cx1_def)
qed

lemma elapse_inv:
  assumes "ctx_inv cx"
  shows "ctx_inv (dispatchElapse en ms cx)"
proof -
  obtain t fired where t: "timer_elapse ms (ss_timer (cx_session cx)) = (t, fired)" by fastforce
  define cx1 where "cx1 = cx\<lparr>cx_session := (cx_session cx)\<lparr>ss_timer := t\<rparr>\<rparr>"
  show ?thesis
  proof (cases fired)
    case True
    then have nc: "\<not> ss_cleanupStarted (cx_session cx)"
      using t assms by (auto simp: timer_elapse_def ctx_inv_def sess_inv_def split: option.splits)
    have "outputs_ok (cx_session cx1) = outputs_ok (cx_session cx)" by (rule outputs_cong) (simp_all add: cx1_def)
    then have "outputs_ok (cx_session cx1)" using assms outputs_of_inv by (auto simp: ctx_inv_def)
    then have "sess_inv (cx_session (onTimeout en cx1)) (cx_uploaded cx)"
      unfolding onTimeout_def using assms nc by (intro cleanup_inv) (simp_all add: cx1_def ctx_inv_def sess_inv_def)
    then show ?thesis using True t assms by (simp add: dispatchElapse_def ctx_inv_def cx1_def onTimeout_def)
  next
    case False
    then have "sess_inv (cx_session cx1) (cx_uploaded cx)"
      using t assms
      by (cases "ss_state (cx_session cx)")
        (auto simp: cx1_def timer_elapse_def ctx_inv_def sess_defs split: option.splits if_splits)
    then show ?thesis using False t assms by (simp add: dispatchElapse_def ctx_inv_def cx1_def)
  qed
qed

lemma analysis_inv:
  assumes i: "ctx_inv cx" and r: "ar_crc32 r = crc32 0 (ar_csv r)"
  shows "ctx_inv (onAnalysisComplete en r cx)"
proof (cases "ss_cleanupStarted (cx_session cx) \<or> ss_state (cx_session cx) \<noteq> Analyzing")
  case True
  with i show ?thesis by (auto simp: onAnalysisComplete_def Let_def)
next
  case False
  let ?s = "cx_session cx"
  define kept where "kept = \<lparr>rt_filename = ss_filename ?s, rt_fileSize = ss_fileSize ?s, rt_uploadCrc32 = ss_payloadCrc ?s,
    rt_csv = ar_csv r, rt_csvCrc32 = ar_crc32 r\<rparr>"
  define cx1 where "cx1 = onResultRetained kept (cx\<lparr>cx_session := ?s\<lparr>ss_csv := ar_csv r\<rparr>\<rparr>)"
  define cx2 where "cx2 = transition en SendingResult cx1"
  have D: "sk_valid (ss_socket ?s)" "\<not> sk_closing (ss_socket ?s)" "\<not> ss_closeAfterSend ?s" "counts_ok ?s (cx_uploaded cx)"
    "received_all ?s" "sk_written (ss_socket ?s) = [okAck ?s]"
    using i False by (auto simp: ctx_inv_def sess_inv_def phase_ok_def out_acked_def)
  note T = sending_transition [of "cx_session cx1" "cx_uploaded cx" cx1 en, folded cx2_def]
  have sd: "sending (cx_session cx2) (cx_uploaded cx)" "received_all (cx_session cx2)" "ss_csv (cx_session cx2) = ar_csv r"
    "sk_written (ss_socket (cx_session cx2)) = [okAck (cx_session cx2)]"
    using T D False by (simp_all add: cx1_def onResultRetained_def counts_ok_def received_all_def) (simp add: okAck_def)
  have hd: "encodeResultHeader \<lparr>rh_csvSize = of_nat (length (ar_csv r)), rh_crc32 = ar_crc32 r\<rparr> = csvHeader (cx_session cx2)"
    by (simp add: csvHeader_def sd(3) r)
  have eq: "onAnalysisComplete en r cx =
      (let (rc, cx3) = sendBytes en (csvHeader (cx_session cx2)) cx2 in
       if rc \<noteq> 0 then cleanup en ''failed to send ResultHeader'' cx3
       else let (rc2, cx4) = sendBytes en (ss_csv (cx_session cx2)) cx3 in
         if rc2 \<noteq> 0 then cleanup en ''failed to send result.csv'' cx4 else cx4)"
    unfolding sd(3) using False by (simp add: onAnalysisComplete_def Let_def hd flip: kept_def cx1_def cx2_def)
  have "cx_uploaded (onAnalysisComplete en r cx) = cx_uploaded cx" "cx_retained (onAnalysisComplete en r cx) = Some kept"
    unfolding eq by (simp_all add: split_beta cx2_def cx1_def onResultRetained_def)
  then show ?thesis
    using uploaded_inv [OF sd(1,4,2), of en] r unfolding ctx_inv_def eq [symmetric] by (simp add: kept_ok_def kept_def eq)
qed

lemma sess_inv_finished [simp]: "sess_inv (s\<lparr>ss_finished := b\<rparr>) up = sess_inv s up"
  by (cases "ss_state s") (simp_all add: sess_defs)

lemma start_inv:
  assumes "kept_ok kept" and "session_start en (freshCtx chunkSize timeouts pt kept) = (cx, True)"
  shows "ctx_inv cx"
proof -
  define s where "s = newSession (newSocket True) chunkSize timeouts"
  have "quiet (armTimer s) []"
    by (simp add: quiet_def counts_ok_def s_def newSession_def newSocket_def kMaxFileSize_def)
  then have "sess_inv (armTimer s) []" by (intro inv_of_quiet) (simp_all add: s_def newSession_def)
  moreover have "same_but_reading (armTimer s) (cx_session cx)" "cx_uploaded cx = []" "cx_retained cx = kept"
    using assms(2) by (auto simp: session_start_def freshCtx_def s_def [symmetric] split_beta Let_def armTimer_def
        sock_startRead_def s_def newSession_def newSocket_def same_but_reading_def split: if_splits)
  ultimately show ?thesis using assms(1) by (simp add: ctx_inv_def sess_inv_same)
qed

lemma exec_inv:
  assumes i: "ctx_inv cx" and e: "session_exec en ev cx = Some cx'" and r: "\<And>r. ev = EvAnalysis r \<Longrightarrow> \<exists>pt. r = makeResult pt"
  shows "ctx_inv cx'"
proof (cases ev)
  case (EvRead n nread buf)
  then show ?thesis using e read_inv [OF i] by (auto simp: Let_def split: prod.splits if_splits)
next
  case (EvSent status)
  then show ?thesis using e write_inv [OF i] by (auto split: if_splits)
next
  case (EvElapse ms)
  then show ?thesis using e elapse_inv [OF i] by auto
next
  case (EvAnalysis x)
  then obtain pt where "x = makeResult pt" using r by blast
  then have "ar_crc32 x = crc32 0 (ar_csv x)" by (simp add: makeResult_def Let_def)
  then show ?thesis using e analysis_inv [OF i, of x en] EvAnalysis by auto
next
  case EvResume
  then show ?thesis
    using e i sess_inv_same [OF resumeReading_frame(1)] by (auto simp: ctx_inv_def resumeReading_frame)
next
  case EvClosed
  define sk where "sk = onCloseCb (ss_socket (cx_session cx))"
  have "sess_inv ((cx_session cx)\<lparr>ss_socket := sk\<rparr>) (cx_uploaded cx)"
    using i by (simp add: ctx_inv_def sess_inv_socket sk_def onCloseCb_def)
  then show ?thesis
    using e i EvClosed by (auto simp: ctx_inv_def onClosed_def Let_def sk_def [symmetric] split: if_splits)
qed

lemma session_reach_inv: "session_reach n t cx \<Longrightarrow> ctx_inv cx"
proof (induction rule: session_reach.induct)
  case (start kept en pt cx)
  then show ?case by (rule start_inv)
next
  case (event cx ev en cx')
  then show ?case using exec_inv by blast
next
  case (parser cx pt)
  then show ?case by (simp add: ctx_inv_def)
qed

end
