(* ===== verification/SessionManager.thy ===== *)
theory SessionManager
  imports Session
begin

text \<open>
  The session manager of \<^verbatim>\<open>server/src/session/SessionManager.cpp\<close>: one session at a time, the accept gate,
  the retained result, deferred destruction, and the routing of the parser's signals.  Together with the
  parser thread's program point it is the state of the whole server, on which \<open>server_exec\<close> runs one event
  of the loop or one step of the parser thread.  Whether a connection waits in the kernel's backlog is an
  input of the events that try to accept one.
\<close>

section \<open>State\<close>

record SessionManager =
  mg_session :: "Session option"
  mg_parser :: ParserThread
  mg_chunkSize :: nat
  mg_timeouts :: SessionTimeouts
  mg_listenerClosing :: bool
  mg_reaper :: bool
  mg_idleStarted :: bool
  mg_completedSessions :: nat
  mg_retained :: "RetainedResult option"
  mg_pendingConnection :: bool
  mg_sessionFinished :: bool
  mg_closing :: bool
  mg_uploaded :: "string list"
  mg_cutOff :: bool

definition newManager :: "nat \<Rightarrow> nat \<Rightarrow> SessionTimeouts \<Rightarrow> SessionManager" where
  "newManager chunkSize ringSlots timeouts =
    \<lparr>mg_session = None, mg_parser = newParserThread ringSlots chunkSize, mg_chunkSize = chunkSize,
     mg_timeouts = timeouts, mg_listenerClosing = False, mg_reaper = True, mg_idleStarted = False,
     mg_completedSessions = 0, mg_retained = None, mg_pendingConnection = False, mg_sessionFinished = False,
     mg_closing = False, mg_uploaded = [], mg_cutOff = False\<rparr>"

section \<open>Sessions and their observer\<close>

definition onSessionFinished :: "SessionManager \<Rightarrow> SessionManager" where
  "onSessionFinished m =
    (let m1 = m\<lparr>mg_sessionFinished := True\<rparr> in
     if mg_reaper m1 \<and> \<not> mg_closing m1 then m1\<lparr>mg_idleStarted := True\<rparr> else m1)"

text \<open>Running a handler of a session; the manager is its observer.\<close>

definition ctx_of :: "Session \<Rightarrow> SessionManager \<Rightarrow> Ctx" where
  "ctx_of s m = \<lparr>cx_session = s, cx_parser = mg_parser m, cx_retained = mg_retained m, cx_notified = False,
    cx_uploaded = mg_uploaded m, cx_cutOff = mg_cutOff m\<rparr>"

definition absorb :: "Ctx \<Rightarrow> SessionManager \<Rightarrow> SessionManager" where
  "absorb cx m =
    (let m1 = m\<lparr>mg_session := Some (cx_session cx), mg_parser := cx_parser cx, mg_retained := cx_retained cx,
       mg_uploaded := cx_uploaded cx, mg_cutOff := cx_cutOff cx\<rparr> in
     if cx_notified cx then onSessionFinished m1 else m1)"

definition abortPending :: "ParserThread \<Rightarrow> bool" where
  "abortPending pt = pt_abortRequested pt"

definition acceptPending :: "bool \<Rightarrow> SessionManager \<Rightarrow> TcpSocket option" where
  "acceptPending waiting m = (if mg_listenerClosing m \<or> \<not> waiting then None else Some (newSocket True))"

definition acceptIfIdle :: "Env \<Rightarrow> bool \<Rightarrow> SessionManager \<Rightarrow> SessionManager" where
  "acceptIfIdle en waiting m =
    (if mg_closing m \<or> mg_session m \<noteq> None then m
     else case acceptPending waiting m of
       None \<Rightarrow> m
     | Some socket \<Rightarrow>
         let m1 = m\<lparr>mg_pendingConnection := False, mg_uploaded := []\<rparr>;
             (cx, started) = session_start en (ctx_of (newSession socket (mg_chunkSize m) (mg_timeouts m)) m1);
             m2 = absorb cx m1 in
         if started then m2 else m2\<lparr>mg_session := None\<rparr>)"

definition acceptWhenParserIdle :: "Env \<Rightarrow> bool \<Rightarrow> SessionManager \<Rightarrow> SessionManager" where
  "acceptWhenParserIdle en waiting m =
    (if abortPending (mg_parser m) then m else acceptIfIdle en waiting m)"

definition onConnection :: "Env \<Rightarrow> bool \<Rightarrow> SessionManager \<Rightarrow> SessionManager" where
  "onConnection en waiting m =
    (if mg_closing m then m
     else if mg_session m \<noteq> None then m\<lparr>mg_pendingConnection := True\<rparr>
     else acceptWhenParserIdle en waiting m)"

definition onReapCb :: "Env \<Rightarrow> bool \<Rightarrow> SessionManager \<Rightarrow> SessionManager" where
  "onReapCb en waiting m =
    (let m1 = m\<lparr>mg_idleStarted := False\<rparr> in
     if \<not> mg_sessionFinished m1 then m1
     else acceptWhenParserIdle en waiting
       (m1\<lparr>mg_sessionFinished := False, mg_session := None, mg_completedSessions := mg_completedSessions m1 + 1\<rparr>))"

definition manager_close :: "SessionManager \<Rightarrow> SessionManager" where
  "manager_close m =
    m\<lparr>mg_closing := True, mg_listenerClosing := True, mg_session := None,
      mg_parser := (mg_parser m)\<lparr>pt_stopRequested := True\<rparr>, mg_reaper := False, mg_idleStarted := False\<rparr>"

text \<open>The three signals of the parser, routed to the session there is.\<close>

definition onAnalysisSignal :: "Env \<Rightarrow> SessionManager \<Rightarrow> SessionManager" where
  "onAnalysisSignal en m =
    (let (result, pt) = onCompletionAsync (mg_parser m); m1 = m\<lparr>mg_parser := pt\<rparr> in
     case mg_session m1 of
       None \<Rightarrow> m1
     | Some s \<Rightarrow> absorb (onAnalysisComplete en result (ctx_of s m1)) m1)"

definition onResumeSignal :: "Env \<Rightarrow> SessionManager \<Rightarrow> SessionManager" where
  "onResumeSignal en m =
    (let m1 = m\<lparr>mg_parser := (mg_parser m)\<lparr>pt_resumeSent := False\<rparr>\<rparr> in
     case mg_session m1 of
       None \<Rightarrow> m1
     | Some s \<Rightarrow> absorb (resumeReading en (ctx_of s m1)) m1)"

definition onAbortDoneSignal :: "Env \<Rightarrow> bool \<Rightarrow> SessionManager \<Rightarrow> SessionManager" where
  "onAbortDoneSignal en waiting m =
    acceptWhenParserIdle en waiting (m\<lparr>mg_parser := (mg_parser m)\<lparr>pt_abortDoneSent := False\<rparr>\<rparr>)"

section \<open>The whole server\<close>

record Server =
  sv_mgr :: SessionManager
  sv_pc :: ParserPc

datatype ServerEvent =
  SvConnection bool | SvSession SessionEvent | SvAnalysis | SvResume | SvAbortDone bool | SvReap bool | SvClose | SvParser

definition parser_step :: "Server \<Rightarrow> Server option" where
  "parser_step sv =
    (case parser_run \<lparr>w_pt = mg_parser (sv_mgr sv), w_pc = sv_pc sv, w_phase = Idle, w_sent = [], w_got = [],
         w_delivered = noResult, w_cutOff = False\<rparr> of
       None \<Rightarrow> None
     | Some w \<Rightarrow> Some (sv\<lparr>sv_mgr := (sv_mgr sv)\<lparr>mg_parser := w_pt w\<rparr>, sv_pc := w_pc w\<rparr>))"

text \<open>Events of the socket and the timer reach the session while it exists and is not yet finished.\<close>

definition socket_event :: "SessionEvent \<Rightarrow> bool" where
  "socket_event ev \<longleftrightarrow> (case ev of EvAnalysis _ \<Rightarrow> False | EvResume \<Rightarrow> False | _ \<Rightarrow> True)"

fun server_exec :: "Env \<Rightarrow> ServerEvent \<Rightarrow> Server \<Rightarrow> Server option" where
  "server_exec en (SvConnection waiting) sv = Some (sv\<lparr>sv_mgr := onConnection en waiting (sv_mgr sv)\<rparr>)"
| "server_exec en (SvSession ev) sv =
    (case mg_session (sv_mgr sv) of
       None \<Rightarrow> None
     | Some s \<Rightarrow>
         if \<not> socket_event ev then None
         else case session_exec en ev (ctx_of s (sv_mgr sv)) of
           None \<Rightarrow> None
         | Some cx \<Rightarrow> Some (sv\<lparr>sv_mgr := absorb cx (sv_mgr sv)\<rparr>))"
| "server_exec en SvAnalysis sv =
    (if pt_completionSent (mg_parser (sv_mgr sv)) then Some (sv\<lparr>sv_mgr := onAnalysisSignal en (sv_mgr sv)\<rparr>) else None)"
| "server_exec en SvResume sv =
    (if pt_resumeSent (mg_parser (sv_mgr sv)) then Some (sv\<lparr>sv_mgr := onResumeSignal en (sv_mgr sv)\<rparr>) else None)"
| "server_exec en (SvAbortDone waiting) sv =
    (if pt_abortDoneSent (mg_parser (sv_mgr sv)) then Some (sv\<lparr>sv_mgr := onAbortDoneSignal en waiting (sv_mgr sv)\<rparr>) else None)"
| "server_exec en (SvReap waiting) sv =
    (if mg_idleStarted (sv_mgr sv) then Some (sv\<lparr>sv_mgr := onReapCb en waiting (sv_mgr sv)\<rparr>) else None)"
| "server_exec en SvClose sv = Some (sv\<lparr>sv_mgr := manager_close (sv_mgr sv)\<rparr>)"
| "server_exec en SvParser sv = parser_step sv"

definition newServer :: "nat \<Rightarrow> nat \<Rightarrow> SessionTimeouts \<Rightarrow> Server" where
  "newServer chunkSize ringSlots timeouts = \<lparr>sv_mgr = newManager chunkSize ringSlots timeouts, sv_pc = AtWait\<rparr>"

text \<open>
  The runs of the server.  While a handler runs, the parser thread may consume slots only where its own
  loop does.
\<close>

definition env_ok :: "ParserPc \<Rightarrow> Env \<Rightarrow> bool" where
  "env_ok pc en \<longleftrightarrow> pc = AtConsume \<or> en_before en = 0 \<and> en_after en = 0"

inductive server_reach :: "nat \<Rightarrow> nat \<Rightarrow> SessionTimeouts \<Rightarrow> Server \<Rightarrow> bool" for chunkSize ringSlots timeouts where
  init: "server_reach chunkSize ringSlots timeouts (newServer chunkSize ringSlots timeouts)"
| step: "server_reach chunkSize ringSlots timeouts sv \<Longrightarrow> env_ok (sv_pc sv) en \<Longrightarrow> server_exec en ev sv = Some sv' \<Longrightarrow>
    server_reach chunkSize ringSlots timeouts sv'"

end
