(* ===== verification/ServerMatch.thy ===== *)
theory ServerMatch
  imports SessionManager
begin

text \<open>
  Every handler of a session acts on the parser thread by the actions of \<open>ParserThread\<close>: a simulation of the
  session's contexts by the two-thread model, from which \<open>ServerCorrect\<close> derives what the whole server does.
\<close>

section \<open>Matching the server with the two-thread model\<close>

definition phase_match :: "LoopPhase \<Rightarrow> RetainedResult option \<Rightarrow> Session \<Rightarrow> bool" where
  "phase_match ph kept s \<longleftrightarrow>
    (if ss_cleanupStarted s then ph = Idle
     else case ss_state s of
       WaitHeader \<Rightarrow> ph = Uploading
     | Receiving \<Rightarrow> ph = Uploading
     | Verifying \<Rightarrow> ph = Uploading
     | SessionState.Analyzing \<Rightarrow> ph = LoopPhase.Analyzing
     | SendingResult \<Rightarrow> ph \<in> {Uploading, Sending} \<and> (\<exists>r. kept = Some r \<and> rt_csv r = ss_csv s)
     | WaitDone \<Rightarrow> ph \<in> {Uploading, Sending} \<and> (\<exists>r. kept = Some r \<and> rt_csv r = ss_csv s)
     | Cleanup \<Rightarrow> False)"

definition linked :: "World \<Rightarrow> ParserPc \<Rightarrow> Ctx \<Rightarrow> bool" where
  "linked w pc cx \<longleftrightarrow> w_pt w = cx_parser cx \<and> w_pc w = pc \<and> w_sent w = cx_uploaded cx \<and> w_cutOff w = cx_cutOff cx \<and>
    phase_match (w_phase w) (cx_retained cx) (cx_session cx)"

text \<open>The slot count divides the range of the ring's indices, as for every power of two.\<close>

definition matches :: "World \<Rightarrow> ParserPc \<Rightarrow> Ctx \<Rightarrow> bool" where
  "matches w pc cx \<longleftrightarrow> linked w pc cx \<and> rb_slotCount (pt_ring (w_pt w)) dvd 2 ^ 64"

lemma slotCount_drain [simp]: "rb_slotCount (drain_ring rb) = rb_slotCount rb"
  by (induction rb rule: drain_ring.induct) (subst drain_ring.simps, auto simp: release_def split: option.split)

lemma slotCount_parser: "parser_run w = Some w' \<Longrightarrow> rb_slotCount (pt_ring (w_pt w')) = rb_slotCount (pt_ring (w_pt w))"
  by (cases "w_pc w")
    (auto simp: parser_run_def Let_def reset_rest finishResult_rest finishReset_rest consumeSlot_rest release_def
      split: if_splits option.splits)

lemma slotCount_exec: "pt_exec a w = Some w' \<Longrightarrow> rb_slotCount (pt_ring (w_pt w')) = rb_slotCount (pt_ring (w_pt w))"
  by (cases a) (auto simp: slotCount_parser loop_ops commitSlot_def commit_def split: if_splits option.splits)

text \<open>
  One context follows from another by actions of the two-thread model, none of which begins another session
  or stops the parser thread.
\<close>

fun session_act :: "Action \<Rightarrow> bool" where
  "session_act (LBegin _ _) = False"
| "session_act LStop = False"
| "session_act _ = True"

lemma session_acts: "session_act LEnd" "session_act (LReadStopped b)" "session_act PRun" "session_act (LCommit bs extra)" "session_act LMark"
  by simp_all

definition follows_by :: "ParserPc \<Rightarrow> Ctx \<Rightarrow> Ctx \<Rightarrow> bool" where
  "follows_by pc cx cx' \<longleftrightarrow>
    (\<forall>w. matches w pc cx \<longrightarrow> (\<exists>as w'. list_all session_act as \<and> pt_run as w = Some w' \<and> matches w' pc cx'))"

lemma follows_unchanged: "(\<And>w. matches w pc cx \<Longrightarrow> matches w pc cx') \<Longrightarrow> follows_by pc cx cx'"
  unfolding follows_by_def by (metis pt_run.simps(1) list.pred_inject(1))

lemma follows_refl [simp]: "follows_by pc cx cx"
  by (rule follows_unchanged)

lemma follows_trans: "follows_by pc a b \<Longrightarrow> follows_by pc b c \<Longrightarrow> follows_by pc a c"
  unfolding follows_by_def by (metis pt_run_append list_all_append option.simps(5))

text \<open>A single action.\<close>

lemma follows_action:
  assumes "session_act a" and "\<And>w. matches w pc cx \<Longrightarrow> \<exists>w'. pt_exec a w = Some w' \<and> linked w' pc cx'"
  shows "follows_by pc cx cx'"
  unfolding follows_by_def
proof (intro allI impI)
  fix w assume m: "matches w pc cx"
  then obtain w' where w': "pt_exec a w = Some w'" "linked w' pc cx'" using assms(2) by blast
  then have "pt_run [a] w = Some w'" "matches w' pc cx'" using m slotCount_exec [OF w'(1)] by (simp_all add: matches_def)
  moreover have "list_all session_act [a]" using assms(1) by simp
  ultimately show "\<exists>as w'. list_all session_act as \<and> pt_run as w = Some w' \<and> matches w' pc cx'" by blast
qed

text \<open>A change of the session alone that keeps its phase.\<close>

lemma follows_session:
  assumes "\<And>ph. phase_match ph (cx_retained cx) (cx_session cx) \<Longrightarrow> phase_match ph (cx_retained cx') (cx_session cx')" and "cx_parser cx' = cx_parser cx"
    "cx_uploaded cx' = cx_uploaded cx" "cx_cutOff cx' = cx_cutOff cx"
  shows "follows_by pc cx cx'"
proof -
  have "matches w pc cx'" if "matches w pc cx" for w using that assms by (auto simp: matches_def linked_def)
  then show ?thesis by (rule follows_unchanged)
qed

lemma follows_cleanup: "follows_by pc cx (cleanup en r cx)"
proof (cases "ss_cleanupStarted (cx_session cx)")
  case True
  then show ?thesis by (simp add: cleanup_def)
next
  case False
  show ?thesis
  proof (rule follows_action [OF session_acts(1)])
    fix w assume m: "matches w pc cx"
    have ph: "w_phase w = LoopPhase.Analyzing \<longleftrightarrow> ss_state (cx_session cx) = SessionState.Analyzing"
      using m False by (cases "ss_state (cx_session cx)") (auto simp: matches_def linked_def phase_match_def)
    show "\<exists>w'. pt_exec LEnd w = Some w' \<and> linked w' pc (cleanup en r cx)"
      using m False ph by (simp add: matches_def linked_def cleanup_def phase_match_def Let_def)
  qed
qed

lemma phase_match_cong:
  "ss_state s' = ss_state s \<Longrightarrow> ss_cleanupStarted s' = ss_cleanupStarted s \<Longrightarrow> ss_csv s' = ss_csv s \<Longrightarrow>
   phase_match ph kept s' = phase_match ph kept s"
  by (cases "ss_state s") (simp_all add: phase_match_def)

lemma follows_same:
  assumes "ss_state (cx_session cx') = ss_state (cx_session cx)" "ss_cleanupStarted (cx_session cx') = ss_cleanupStarted (cx_session cx)"
    "ss_csv (cx_session cx') = ss_csv (cx_session cx)" "cx_parser cx' = cx_parser cx" "cx_uploaded cx' = cx_uploaded cx"
    "cx_cutOff cx' = cx_cutOff cx" "cx_retained cx' = cx_retained cx"
  shows "follows_by pc cx cx'"
  by (rule follows_session) (use assms phase_match_cong [OF assms(1-3)] in simp_all)

lemma follows_readStopped:
  assumes "ss_state (cx_session cx') = ss_state (cx_session cx)" "ss_cleanupStarted (cx_session cx') = ss_cleanupStarted (cx_session cx)"
    "ss_csv (cx_session cx') = ss_csv (cx_session cx)" "cx_parser cx' = setReadStopped b (cx_parser cx)"
    "cx_uploaded cx' = cx_uploaded cx" "cx_cutOff cx' = cx_cutOff cx" "cx_retained cx' = cx_retained cx"
  shows "follows_by pc cx cx'"
  by (rule follows_action [OF session_acts(2)]) (simp add: matches_def linked_def assms phase_match_cong [OF assms(1-3)])

lemma follows_resume: "follows_by pc cx (resumeReading en cx)"
proof (cases "resumeReading en cx = cx")
  case False
  then show ?thesis
    by (intro follows_readStopped [of _ _ False]) (auto simp: resumeReading_def Let_def split: if_splits)
qed simp

lemma follows_transition:
  assumes "\<And>ph. phase_match ph (cx_retained cx) (cx_session cx) \<Longrightarrow> phase_match ph (cx_retained cx) ((cx_session cx)\<lparr>ss_state := nxt\<rparr>)"
  shows "follows_by pc cx (transition en nxt cx)"
proof (cases "ss_state (cx_session cx) = nxt")
  case False
  define cx1 where "cx1 = cx\<lparr>cx_session := armTimer ((cx_session cx)\<lparr>ss_state := nxt\<rparr>)\<rparr>"
  have 1: "follows_by pc cx cx1"
    by (rule follows_session) (use assms phase_match_cong [of "armTimer ((cx_session cx)\<lparr>ss_state := nxt\<rparr>)" "(cx_session cx)\<lparr>ss_state := nxt\<rparr>"] in
        \<open>simp_all add: cx1_def\<close>)
  have "transition en nxt cx = (if nxt \<noteq> Receiving \<and> nxt \<noteq> Cleanup then resumeReading en cx1 else cx1)"
    using False by (simp add: transition_def cx1_def Let_def)
  then show ?thesis using 1 follows_trans [OF 1 follows_resume] by auto
qed (simp add: transition_def)

lemma follows_send: "follows_by pc cx (snd (sendBytes en bytes cx))"
  by (rule follows_same) (simp_all add: sendBytes_def split_beta)

lemma follows_fail: "follows_by pc cx (failWithAck en st r cx)"
proof -
  let ?b = "encodeAck \<lparr>ack_status = st, ack_receivedBytes = ss_receivedBytes (cx_session cx)\<rparr>"
  obtain rc cx1 where s: "sendBytes en ?b cx = (rc, cx1)" by fastforce
  have 1: "follows_by pc cx cx1" using follows_send [of pc cx en ?b] s by simp
  show ?thesis
  proof (cases "rc = 0")
    case True
    have "follows_by pc cx1 (failWithAck en st r cx)"
      by (rule follows_same) (use s True in \<open>simp_all add: failWithAck_def Let_def\<close>)
    then show ?thesis using follows_trans [OF 1] by blast
  next
    case False
    then show ?thesis using s follows_trans [OF 1 follows_cleanup] by (simp add: failWithAck_def Let_def)
  qed
qed

section \<open>Handlers of the session\<close>

lemma follows_consume:
  assumes "n = 0 \<or> pc = AtConsume"
  shows "follows_by pc cx (cx\<lparr>cx_parser := consume_n n (cx_parser cx)\<rparr>)"
  using assms
proof (induction n arbitrary: cx)
  case (Suc n)
  then have pc: "pc = AtConsume" by simp
  show ?case
  proof (cases "tryPeek (pt_ring (cx_parser cx)) = None \<or> pt_abortRequested (cx_parser cx) \<or> pt_stopRequested (cx_parser cx)")
    case True
    then show ?thesis by (auto split: option.split)
  next
    case False
    then obtain v where v: "tryPeek (pt_ring (cx_parser cx)) = Some v" by auto
    define cx1 where "cx1 = cx\<lparr>cx_parser := consumeSlot (cx_parser cx) v\<rparr>"
    have "follows_by pc cx cx1"
      by (rule follows_action [OF session_acts(3)]) (use v False pc in \<open>auto simp: matches_def linked_def parser_run_def cx1_def\<close>)
    moreover have "follows_by pc cx1 (cx1\<lparr>cx_parser := consume_n n (cx_parser cx1)\<rparr>)" using Suc.IH pc by simp
    ultimately show ?thesis using follows_trans v False by (simp add: cx1_def)
  qed
qed simp

lemma follows_backpressure:
  assumes "env_ok pc en"
  shows "follows_by pc cx (applyBackpressure en cx)"
proof -
  define cx0 where "cx0 = cx\<lparr>cx_session := (cx_session cx)\<lparr>ss_socket := snd (sock_stopRead (en_uv en) (ss_socket (cx_session cx)))\<rparr>\<rparr>"
  define cx1 where "cx1 = cx0\<lparr>cx_parser := consume_n (en_before en) (cx_parser cx0)\<rparr>"
  define cx2 where "cx2 = cx1\<lparr>cx_parser := setReadStopped True (cx_parser cx1)\<rparr>"
  define cx3 where "cx3 = cx2\<lparr>cx_parser := consume_n (en_after en) (cx_parser cx2)\<rparr>"
  have "follows_by pc cx cx0" by (rule follows_same) (simp_all add: cx0_def)
  moreover have "follows_by pc cx0 cx1" unfolding cx1_def by (rule follows_consume) (use assms in \<open>auto simp: env_ok_def\<close>)
  moreover have "follows_by pc cx1 cx2" by (rule follows_readStopped [of _ _ True]) (simp_all add: cx2_def)
  moreover have "follows_by pc cx2 cx3" unfolding cx3_def by (rule follows_consume) (use assms in \<open>auto simp: env_ok_def\<close>)
  ultimately have 3: "follows_by pc cx cx3" by (blast intro: follows_trans)
  have "applyBackpressure en cx \<in> {cx, cx3, resumeReading en cx3}"
    by (simp add: applyBackpressure_def Let_def cx3_def cx2_def cx1_def cx0_def)
  then show ?thesis using 3 follows_trans [OF 3 follows_resume] by auto
qed

text \<open>Committing the first bytes of what was written into the acquired slot.\<close>

lemma follows_commit:
  assumes a: "tryAcquireSlot (cx_parser cx) = Some (off, cap)" and l: "length (bs @ extra) \<le> cap"
    and st: "\<not> ss_cleanupStarted (cx_session cx)" "ss_state (cx_session cx) = Receiving"
  shows "follows_by pc cx (commitChunk bs (writeSlot off (bs @ extra) cx))"
proof (rule follows_action [OF session_acts(4)])
  fix w assume m: "matches w pc cx"
  then have "chunk_fits (bs @ extra) (pt_ring (cx_parser cx))"
    using l tryAcquire_Some(3) [OF a [unfolded tryAcquireSlot_def]] by (auto simp: chunk_fits_def matches_def linked_def commit_ok_def)
  moreover have "w_phase w = Uploading" using m st by (simp add: matches_def linked_def phase_match_def)
  ultimately show "\<exists>w'. pt_exec (LCommit bs extra) w = Some w' \<and> linked w' pc (commitChunk bs (writeSlot off (bs @ extra) cx))"
    using m a by (simp add: matches_def linked_def commitChunk_def writeSlot_def)
qed

lemma follows_copy:
  assumes "\<not> ss_cleanupStarted (cx_session cx)" "ss_state (cx_session cx) = Receiving"
  shows "follows_by pc cx (fst (copyPayload payload cx))"
  using assms
proof (induction payload cx rule: copyPayload.induct)
  case (1 payload cx)
  show ?case
  proof (cases "payload = [] \<or> tryAcquireSlot (cx_parser cx) = None")
    case True
    then have "fst (copyPayload payload cx) = cx" by (subst copyPayload.simps) auto
    then show ?thesis by simp
  next
    case False
    then obtain off cap where a: "payload \<noteq> []" "tryAcquireSlot (cx_parser cx) = Some (off, cap)" by auto
    show ?thesis
    proof (cases "cap = 0")
      case True
      then have "fst (copyPayload payload cx) = cx" using a by (subst copyPayload.simps) auto
      then show ?thesis by simp
    next
      case cap: False
      let ?cx = "commitChunk (take cap payload) (writeSlot off (take cap payload) cx)"
      have e: "copyPayload payload cx = copyPayload (drop cap payload) ?cx"
        using a cap by (simp add: copyPayload.simps [of payload] Let_def)
      have "follows_by pc cx ?cx" using follows_commit [OF a(2), of "take cap payload" "[]" pc] 1(2,3) by simp
      moreover have "follows_by pc ?cx (fst (copyPayload (drop cap payload) ?cx))"
        by (rule 1(1) [OF a(1,2) refl cap refl]) (use 1(2,3) in \<open>simp_all add: commitChunk_def writeSlot_def\<close>)
      ultimately show ?thesis using follows_trans e by simp
    qed
  qed
qed

lemma follows_payload:
  assumes "env_ok pc en" and "\<not> ss_cleanupStarted (cx_session cx)" "ss_state (cx_session cx) = Receiving"
  shows "follows_by pc cx (snd (consumePayload en bytes cx))"
proof -
  define payload where "payload = take (payloadShare (cx_session cx) bytes) bytes"
  define cx0 where "cx0 = cx\<lparr>cx_session := countPayload payload (cx_session cx)\<rparr>"
  obtain cx1 ok where c: "copyPayload payload cx0 = (cx1, ok)" by fastforce
  have "follows_by pc cx cx0" by (rule follows_same) (simp_all add: cx0_def)
  moreover have "follows_by pc cx0 cx1" using follows_copy [of cx0 pc payload] c assms(2,3) by (simp add: cx0_def)
  ultimately have 1: "follows_by pc cx cx1" by (rule follows_trans)
  have "snd (consumePayload en bytes cx) =
      (if ok then applyBackpressure en cx1 else cleanup en ''ring slot unavailable for transition chunk'' cx1)"
    using c by (simp add: consumePayload_def Let_def flip: payload_def cx0_def)
  then show ?thesis using follows_trans [OF 1 follows_backpressure [OF assms(1)]] follows_trans [OF 1 follows_cleanup] by simp
qed

lemma follows_analyze:
  assumes "\<not> ss_cleanupStarted (cx_session cx)" "ss_state (cx_session cx) = Verifying"
  shows "follows_by pc cx (analyzeAndSendResult en cx)"
proof -
  define cx1 where "cx1 = cx\<lparr>cx_session := armTimer ((cx_session cx)\<lparr>ss_state := SessionState.Analyzing\<rparr>),
    cx_parser := markUploadComplete (cx_parser cx)\<rparr>"
  have 1: "follows_by pc cx cx1"
    by (rule follows_action [OF session_acts(5)]) (use assms in \<open>auto simp: matches_def linked_def phase_match_def cx1_def\<close>)
  have e: "analyzeAndSendResult en cx = resumeReading en cx1"
    using assms by (simp add: analyzeAndSendResult_def transition_def resumeReading_def cx1_def Let_def ringFull_def
        markUploadComplete_def setReadStopped_def)
  show ?thesis unfolding e by (rule follows_trans [OF 1 follows_resume])
qed

lemma follows_verify:
  assumes "\<not> ss_cleanupStarted (cx_session cx0)" "ss_state (cx_session cx0) = Receiving"
  shows "follows_by pc cx0 (verifyAndAck en cx0)"
proof -
  define cx where "cx = transition en Verifying cx0"
  have 1: "follows_by pc cx0 cx"
    unfolding cx_def by (rule follows_transition) (use assms in \<open>simp add: phase_match_def\<close>)
  have st: "\<not> ss_cleanupStarted (cx_session cx)" "ss_state (cx_session cx) = Verifying"
    using same_but_reading_simps [OF transition_session, of cx0 Verifying en] assms by (simp_all add: cx_def)
  let ?ack = "encodeAck \<lparr>ack_status = AckOk, ack_receivedBytes = ss_receivedBytes (cx_session cx)\<rparr>"
  obtain rc cx1 where s: "sendBytes en ?ack cx = (rc, cx1)" by fastforce
  have 2: "follows_by pc cx cx1" using follows_send [of pc cx en ?ack] s by simp
  have st1: "\<not> ss_cleanupStarted (cx_session cx1)" "ss_state (cx_session cx1) = Verifying"
    using s st by (auto simp: sendBytes_def split_beta)
  have "follows_by pc cx (verifyAndAck en cx0)"
    using s follows_trans [OF 2 follows_cleanup] follows_trans [OF 2 follows_analyze [OF st1]] follows_fail follows_cleanup
    by (auto simp: verifyAndAck_def Let_def closeSilently_def cx_def [symmetric] split: sum.split)
  then show ?thesis by (rule follows_trans [OF 1])
qed

lemma follows_framer: "follows_by pc cx (cx\<lparr>cx_session := (cx_session cx)\<lparr>ss_framer := f\<rparr>\<rparr>)"
  by (rule follows_same) simp_all

lemma follows_trailer:
  assumes "\<not> ss_cleanupStarted (cx_session cx)" "ss_state (cx_session cx) = Receiving"
  shows "follows_by pc cx (snd (consumeTrailer en bytes cx))"
proof -
  obtain f n where F: "feedFramer bytes cx = (fr_status f, n, cx\<lparr>cx_session := (cx_session cx)\<lparr>ss_framer := f\<rparr>\<rparr>)"
    by (rule feedFramer_eq)
  define cx1 where "cx1 = cx\<lparr>cx_session := (cx_session cx)\<lparr>ss_framer := f\<rparr>\<rparr>"
  have 1: "follows_by pc cx cx1" unfolding cx1_def by (rule follows_framer)
  have "follows_by pc cx1 (verifyAndAck en cx1)" by (rule follows_verify) (use assms in \<open>simp_all add: cx1_def\<close>)
  then show ?thesis
    using follows_trans [OF 1] 1 follows_fail follows_cleanup
    by (cases "fr_status f") (simp_all add: consumeTrailer_def F closeSilently_def flip: cx1_def)
qed

text \<open>Sending a header and a body.\<close>

lemma follows_sends:
  "follows_by pc cx (let (rc, cx2) = sendBytes en h cx in
     if rc \<noteq> 0 then cleanup en r1 cx2 else if skip then cx2
     else let (rc2, cx3) = sendBytes en body cx2 in if rc2 \<noteq> 0 then cleanup en r2 cx3 else cx3)"
proof -
  obtain rc cx2 where s: "sendBytes en h cx = (rc, cx2)" by fastforce
  obtain rc2 cx3 where s2: "sendBytes en body cx2 = (rc2, cx3)" by fastforce
  have 1: "follows_by pc cx cx2" using follows_send [of pc cx en h] s by simp
  have 2: "follows_by pc cx2 cx3" using follows_send [of pc cx2 en body] s2 by simp
  show ?thesis
    using s s2 1 follows_trans [OF 1 2] follows_trans [OF 1 follows_cleanup] follows_trans [OF follows_trans [OF 1 2] follows_cleanup]
    by simp
qed

lemma follows_request:
  assumes "\<not> ss_cleanupStarted (cx_session cx)" "ss_state (cx_session cx) = WaitHeader"
  shows "follows_by pc cx (handleResultRequest en cx)"
proof (cases "decodeResultRequest (message (ss_framer (cx_session cx)))")
  case (Inl e)
  then show ?thesis using follows_fail follows_cleanup by (cases e) (simp_all add: handleResultRequest_def closeSilently_def)
next
  case (Inr rq)
  show ?thesis
  proof (cases "retainedResult (cx_retained cx) (rr_filename rq) (rr_fileSize rq) (rr_crc32 rq)")
    case None
    then show ?thesis using Inr follows_fail by (simp add: handleResultRequest_def)
  next
    case (Some kept)
    then have k: "cx_retained cx = Some kept" by (simp add: retainedResult_def split: option.splits if_splits)
    define cx1 where "cx1 = cx\<lparr>cx_session := (cx_session cx)\<lparr>ss_filename := rr_filename rq, ss_csv := rt_csv kept\<rparr>\<rparr>"
    have 1: "follows_by pc cx cx1" by (rule follows_session) (use assms in \<open>simp_all add: cx1_def phase_match_def\<close>)
    have 2: "follows_by pc cx1 (transition en SendingResult cx1)"
      by (rule follows_transition) (use assms k in \<open>simp add: cx1_def phase_match_def\<close>)
    show ?thesis
      using Inr Some follows_fail follows_trans [OF follows_trans [OF 1 2] follows_sends]
      by (simp add: handleResultRequest_def Let_def flip: cx1_def)
  qed
qed

lemma follows_header:
  assumes "\<not> ss_cleanupStarted (cx_session cx)" "ss_state (cx_session cx) = WaitHeader"
  shows "follows_by pc cx (snd (consumeHeader en bytes cx))"
proof -
  obtain f n where F: "feedFramer bytes cx = (fr_status f, n, cx\<lparr>cx_session := (cx_session cx)\<lparr>ss_framer := f\<rparr>\<rparr>)"
    by (rule feedFramer_eq)
  define cx1 where "cx1 = cx\<lparr>cx_session := (cx_session cx)\<lparr>ss_framer := f\<rparr>\<rparr>"
  have 1: "follows_by pc cx cx1" unfolding cx1_def by (rule follows_framer)
  have st: "\<not> ss_cleanupStarted (cx_session cx1)" "ss_state (cx_session cx1) = WaitHeader" using assms by (simp_all add: cx1_def)
  have acc: "follows_by pc cx1 (transition en Receiving (cx1\<lparr>cx_session := (cx_session cx1)\<lparr>ss_fileSize := a, ss_filename := b, ss_framer := g\<rparr>\<rparr>))"
    for a b g
  proof -
    let ?cx = "cx1\<lparr>cx_session := (cx_session cx1)\<lparr>ss_fileSize := a, ss_filename := b, ss_framer := g\<rparr>\<rparr>"
    have "follows_by pc cx1 ?cx" by (rule follows_same) simp_all
    moreover have "follows_by pc ?cx (transition en Receiving ?cx)"
      by (rule follows_transition) (use st in \<open>simp add: phase_match_def\<close>)
    ultimately show ?thesis by (rule follows_trans)
  qed
  have "follows_by pc cx1 (snd (consumeHeader en bytes cx))"
  proof (cases "fr_status f")
    case Ok
    show ?thesis
    proof (cases "messageType f = Some ResultRequestMsg")
      case True
      then show ?thesis using Ok follows_request [OF st] by (simp add: consumeHeader_def F cx1_def)
    next
      case False
      show ?thesis
      proof (cases "decodeUploadHeader (message f)")
        case (Inl e)
        then show ?thesis using Ok False follows_fail [of pc cx1] follows_cleanup [of pc cx1]
          by (cases e) (simp_all add: consumeHeader_def F closeSilently_def cx1_def)
      next
        case (Inr h)
        then show ?thesis using Ok False acc by (simp add: consumeHeader_def F cx1_def)
      qed
    qed
  qed (use follows_fail [of pc cx1] follows_cleanup [of pc cx1] in \<open>simp_all add: consumeHeader_def F closeSilently_def flip: cx1_def\<close>)
  then show ?thesis by (rule follows_trans [OF 1])
qed

lemma follows_done: "follows_by pc cx (snd (consumeDone en bytes cx))"
proof -
  obtain f n where F: "feedFramer bytes cx = (fr_status f, n, cx\<lparr>cx_session := (cx_session cx)\<lparr>ss_framer := f\<rparr>\<rparr>)"
    by (rule feedFramer_eq)
  show ?thesis
    using follows_framer [of pc cx f] follows_trans [OF follows_framer [of pc cx f] follows_cleanup]
    by (simp add: consumeDone_def F closeSilently_def)
qed

lemma follows_step:
  assumes "env_ok pc en" and "\<not> ss_cleanupStarted (cx_session cx)"
  shows "follows_by pc cx (snd (consumeStep en bytes cx))"
proof (cases "ss_state (cx_session cx)")
  case WaitHeader
  then show ?thesis using follows_header [OF assms(2)] by (simp add: consumeStep_def)
next
  case Receiving
  then show ?thesis using follows_payload [OF assms] follows_trailer [OF assms(2)]
    by (cases "ss_receivedBytes (cx_session cx) < ss_fileSize (cx_session cx)") (simp_all add: consumeStep_def)
next
  case WaitDone
  then show ?thesis using follows_done by (simp add: consumeStep_def)
qed (simp_all add: consumeStep_def closeSilently_def follows_cleanup)

lemma follows_loop: "env_ok pc en \<Longrightarrow> follows_by pc cx (readLoop en bytes cx)"
proof (induction en bytes cx rule: readLoop.induct)
  case (1 en bytes cx)
  show ?case
  proof (cases "bytes = [] \<or> ss_cleanupStarted (cx_session cx) \<or> ss_closeAfterSend (cx_session cx)")
    case True
    then have "readLoop en bytes cx = cx" by (simp add: readLoop.simps [of en bytes])
    then show ?thesis by simp
  next
    case False
    obtain n cx1 where c: "consumeStep en bytes cx = (n, cx1)" by fastforce
    have 2: "follows_by pc cx cx1" using follows_step [OF 1(2), of cx bytes] False c by simp
    then show ?thesis
      using 1(1) [OF False c [symmetric] _ 1(2)] follows_trans [OF 2] False c by (simp add: readLoop.simps [of en bytes])
  qed
qed

text \<open>A read into a ring slot: the bytes are written before the session handles them.\<close>

lemma follows_slot:
  assumes e: "env_ok pc en" and a: "tryAcquireSlot (cx_parser cx) = Some (off, cap)" "length bytes \<le> cap"
    and st: "\<not> ss_cleanupStarted (cx_session cx)" "ss_state (cx_session cx) = Receiving"
    and s: "ss_state s = Receiving" "\<not> ss_cleanupStarted s" "ss_csv s = ss_csv (cx_session cx)"
  shows "follows_by pc cx (readIntoSlot en bytes ((writeSlot off bytes cx)\<lparr>cx_session := s\<rparr>))"
proof -
  define n where "n = payloadShare s bytes"
  define s1 where "s1 = countPayload (take n bytes) (s\<lparr>ss_slotAcquired := False\<rparr>)"
  define cx1 where "cx1 = commitChunk (take n bytes) (writeSlot off bytes cx)"
  define cx2 where "cx2 = cx1\<lparr>cx_session := s1\<rparr>"
  have "follows_by pc cx cx1" unfolding cx1_def
    using follows_commit [OF a(1), of "take n bytes" "drop n bytes" pc] a(2) st by simp
  moreover have "follows_by pc cx1 cx2"
    by (rule follows_same) (use s st in \<open>simp_all add: cx2_def cx1_def s1_def commitChunk_def writeSlot_def\<close>)
  moreover have b: "follows_by pc cx2 (applyBackpressure en cx2)" by (rule follows_backpressure [OF e])
  ultimately have 1: "follows_by pc cx (applyBackpressure en cx2)" by (blast intro: follows_trans)
  have st2: "\<not> ss_cleanupStarted (cx_session (applyBackpressure en cx2))" "ss_state (cx_session (applyBackpressure en cx2)) = Receiving"
    using same_but_reading_simps [OF applyBackpressure_frame(1)] s by (simp_all add: cx2_def s1_def)
  have eq: "commitChunk (take n bytes) ((writeSlot off bytes cx)\<lparr>cx_session := s1\<rparr>) = cx2"
    by (simp add: cx2_def cx1_def commitChunk_def writeSlot_def)
  define cxs where "cxs = (writeSlot off bytes cx)\<lparr>cx_session := s\<rparr>"
  have c: "cx_session cxs = s" "cxs\<lparr>cx_session := s1\<rparr> = (writeSlot off bytes cx)\<lparr>cx_session := s1\<rparr>" by (simp_all add: cxs_def)
  have "readIntoSlot en bytes cxs =
      (if drop n bytes = [] then applyBackpressure en cx2 else snd (consumeTrailer en (drop n bytes) (applyBackpressure en cx2)))"
    unfolding readIntoSlot_def Let_def c(1) n_def [symmetric] s1_def [symmetric] c(2) eq ..
  then show ?thesis using 1 follows_trans [OF 1 follows_trailer [OF st2]] by (simp add: cxs_def)
qed

lemma follows_timer: "follows_by pc cx (cx\<lparr>cx_session := (cx_session cx)\<lparr>ss_timer := t\<rparr>\<rparr>)"
  by (rule follows_same) simp_all

lemma follows_onRead:
  assumes e: "env_ok pc en" and i: "ctx_inv cx" and al: "onAllocate n cx = (wb, cx1)" and l: "length bytes \<le> bufferSize wb"
  shows "follows_by pc cx (onRead en bytes (fillBuffer wb bytes cx1))"
proof (cases wb)
  case (RingSlot off cap)
  let ?s = "(cx_session cx)\<lparr>ss_slotAcquired := True, ss_timer := timer_restart (ss_timer (cx_session cx))\<rparr>"
  from RingSlot al have a: "tryAcquireSlot (cx_parser cx) = Some (off, cap)" and st: "ss_state (cx_session cx) = Receiving"
    and cx1: "cx1 = cx\<lparr>cx_session := (cx_session cx)\<lparr>ss_slotAcquired := True\<rparr>\<rparr>"
    by (auto simp: onAllocate_def Let_def split: if_splits option.splits)
  have c: "\<not> ss_cleanupStarted (cx_session cx)" using i st by (auto simp: ctx_inv_def sess_inv_def)
  have "onRead en bytes (fillBuffer wb bytes cx1) = readIntoSlot en bytes ((writeSlot off bytes cx)\<lparr>cx_session := ?s\<rparr>)"
    by (simp add: RingSlot onRead_def Let_def cx1 writeSlot_def)
  then show ?thesis using follows_slot [OF e a _ c st, of bytes ?s] l RingSlot st c by simp
next
  case (ReadBuffer m)
  with al have cx1: "cx1 = cx\<lparr>cx_session := (cx_session cx)\<lparr>ss_slotAcquired := False\<rparr>\<rparr>"
    by (auto simp: onAllocate_def Let_def split: if_splits option.splits)
  define cx2 where "cx2 = cx1\<lparr>cx_session := (cx_session cx1)\<lparr>ss_timer := timer_restart (ss_timer (cx_session cx1))\<rparr>\<rparr>"
  have "follows_by pc cx cx2" by (rule follows_same) (simp_all add: cx2_def cx1)
  moreover have "onRead en bytes (fillBuffer wb bytes cx1) = readLoop en bytes cx2"
    by (simp add: ReadBuffer onRead_def Let_def cx2_def) (simp add: cx1)
  ultimately show ?thesis using follows_trans [OF _ follows_loop [OF e]] by simp
qed

lemma follows_sendComplete: "follows_by pc cx (onSendComplete en status cx)"
proof -
  define cx1 where "cx1 = cx\<lparr>cx_session := (cx_session cx)\<lparr>ss_timer := timer_restart (ss_timer (cx_session cx))\<rparr>\<rparr>"
  define cx2 where "cx2 = cx1\<lparr>cx_session := (cx_session cx1)\<lparr>ss_framer := framerReset DownloadDoneMsg (ss_framer (cx_session cx))\<rparr>\<rparr>"
  have 1: "follows_by pc cx cx1" unfolding cx1_def by (rule follows_timer)
  have 2: "follows_by pc cx1 cx2" unfolding cx2_def by (rule follows_framer)
  have 3: "follows_by pc cx2 (transition en WaitDone cx2)" if "ss_state (cx_session cx) = SendingResult"
    by (rule follows_transition) (use that in \<open>auto simp: cx2_def cx1_def phase_match_def split: if_splits\<close>)
  have "onSendComplete en status cx \<in> {cx, cleanup en (ss_pendingFailReason (cx_session cx)) cx, cx1} \<or>
      ss_state (cx_session cx) = SendingResult \<and> onSendComplete en status cx = transition en WaitDone cx2"
    by (simp add: onSendComplete_def Let_def cx2_def cx1_def)
  then show ?thesis using 1 follows_cleanup follows_trans [OF follows_trans [OF 1 2] 3] by auto
qed

lemma follows_write: "follows_by pc cx (dispatchWrite en status cx)"
proof -
  define cx1 where "cx1 = cx\<lparr>cx_session := (cx_session cx)\<lparr>ss_socket := onWriteCb (ss_socket (cx_session cx))\<rparr>\<rparr>"
  have "follows_by pc cx cx1" by (rule follows_same) (simp_all add: cx1_def)
  then have 2: "follows_by pc cx (onSendComplete en status cx1)" using follows_trans follows_sendComplete by blast
  then show ?thesis
    using follows_trans [OF 2 follows_cleanup] by (auto simp: dispatchWrite_def Let_def onError_def simp flip: cx1_def)
qed

lemma follows_elapse: "follows_by pc cx (dispatchElapse en ms cx)"
proof -
  obtain t fired where t: "timer_elapse ms (ss_timer (cx_session cx)) = (t, fired)" by fastforce
  show ?thesis
    using t follows_trans [OF follows_timer [of pc cx t] follows_cleanup] follows_timer [of pc cx t]
    by (simp add: dispatchElapse_def onTimeout_def Let_def)
qed

lemma follows_exec:
  assumes "env_ok pc en" and i: "ctx_inv cx" and "session_exec en ev cx = Some cx'" and "socket_event ev"
  shows "follows_by pc cx cx'"
proof (cases ev)
  case (EvRead n nread buf)
  obtain wb cx1 where a: "onAllocate n cx = (wb, cx1)" by fastforce
  then have 1: "follows_by pc cx cx1"
    by (intro follows_same) (auto simp: onAllocate_def Let_def split: if_splits option.splits)
  from assms(3) EvRead a have l: "length buf \<le> bufferSize wb" and cx': "cx' = dispatchRead en wb (onReadCb nread buf) cx1"
    by (auto simp: Let_def split: if_splits)
  have "follows_by pc cx (dispatchRead en wb (ReadData bytes) cx1)" if "length bytes \<le> bufferSize wb" for bytes
    using follows_onRead [OF assms(1) i a that] by (simp add: dispatchRead_def)
  moreover have "follows_by pc cx (dispatchRead en wb (ReadError st p) cx1)" for st p
    using follows_trans [OF 1 follows_cleanup] by (simp add: dispatchRead_def onError_def)
  moreover have "follows_by pc cx (dispatchRead en wb ReadNothing cx1)" using 1 by (simp add: dispatchRead_def)
  ultimately show ?thesis using l unfolding cx' onReadCb_def by (simp add: le_trans [OF _ l] min_def)
next
  case (EvSent st)
  then show ?thesis using assms(3) follows_write by (auto split: if_splits)
next
  case EvClosed
  then show ?thesis using assms(3) by (intro follows_same) (auto simp: Let_def onClosed_def split: if_splits)
qed (use assms(3,4) follows_elapse in \<open>auto simp: socket_event_def\<close>)

text \<open>While the session goes on, these actions change neither record of the thread's life.\<close>

lemma session_acts_frame:
  "pt_run as w = Some w' \<Longrightarrow> list_all session_act as \<Longrightarrow> w_phase w' \<noteq> Idle \<Longrightarrow>
   w_phase w \<noteq> Idle \<and> w_cutOff w' = w_cutOff w \<and> pt_stopRequested (w_pt w') = pt_stopRequested (w_pt w)"
proof (induction as arbitrary: w)
  case (Cons a as)
  then obtain w1 where w1: "pt_exec a w = Some w1" "pt_run as w1 = Some w'" by (auto split: option.splits)
  then have 1: "w_phase w1 \<noteq> Idle \<and> w_cutOff w' = w_cutOff w1 \<and> pt_stopRequested (w_pt w') = pt_stopRequested (w_pt w1)"
    using Cons by simp
  have "pt_stopRequested (w_pt w1) = pt_stopRequested (w_pt w)" if "parser_run w = Some w1"
    using that by (cases "w_pc w") (auto simp: parser_run_def Let_def reset_rest finishReset_rest finishResult_rest consumeSlot_rest
        split: if_splits option.splits)
  then have "w_phase w \<noteq> Idle \<and> w_cutOff w1 = w_cutOff w \<and> pt_stopRequested (w_pt w1) = pt_stopRequested (w_pt w)"
    using w1(1) 1 Cons.prems(2) by (cases a) (auto simp: loop_ops commitSlot_def dest: parser_run_frame split: if_splits option.splits)
  with 1 show ?case by simp
qed simp

lemma follows_frame:
  assumes "follows_by pc cx cx'" and "matches w pc cx" and "\<not> ss_cleanupStarted (cx_session cx')"
  shows "cx_cutOff cx' = cx_cutOff cx" and "pt_stopRequested (cx_parser cx') = pt_stopRequested (cx_parser cx)"
proof -
  obtain as w' where w': "list_all session_act as" "pt_run as w = Some w'" "matches w' pc cx'"
    using assms(1,2) by (auto simp: follows_by_def)
  then have "w_phase w' \<noteq> Idle"
    using assms(3) by (cases "ss_state (cx_session cx')") (auto simp: matches_def linked_def phase_match_def)
  from session_acts_frame [OF w'(2,1) this] assms(2) w'(3)
  show "cx_cutOff cx' = cx_cutOff cx" "pt_stopRequested (cx_parser cx') = pt_stopRequested (cx_parser cx)"
    by (auto simp: matches_def linked_def)
qed

end
