(* ===== verification/SessionUpload.thy ===== *)
theory SessionUpload
  imports Session
begin

text \<open>
  A whole upload through a session: however TCP cuts the client's bytes, whatever the parser thread
  does in between, a session that receives a header, the announced number of bytes and their checksum
  ends in \<open>Analyzing\<close>, with the bytes handed to the parser and the upload acknowledged.
\<close>

section \<open>Positions in an upload\<close>

text \<open>The parts of a well-formed upload: the header, the payload of the announced size, the trailer.\<close>

definition upload_ok :: "UploadHeader \<Rightarrow> string \<Rightarrow> bool" where
  "upload_ok h payload \<longleftrightarrow> validUploadHeader h \<and> unat (uh_fileSize h) = length payload"

definition trailer_for :: "string \<Rightarrow> string" where
  "trailer_for payload = encodeUploadTrailer \<lparr>ut_crc32 = crc32 0 payload\<rparr>"

definition upload_bytes :: "UploadHeader \<Rightarrow> string \<Rightarrow> string" where
  "upload_bytes h payload = encodeUploadHeader h @ payload @ trailer_for payload"

text \<open>The session after the first \<open>k\<close> bytes of the header, or after \<open>j\<close> payload and \<open>i\<close> trailer bytes.\<close>

definition at_header :: "UploadHeader \<Rightarrow> nat \<Rightarrow> Ctx \<Rightarrow> bool" where
  "at_header h k cx \<longleftrightarrow> quiet (cx_session cx) [] \<and> cx_uploaded cx = [] \<and> ss_state (cx_session cx) = WaitHeader \<and>
    k < length (encodeUploadHeader h) \<and>
    ss_framer (cx_session cx) = (newFramer UploadHeaderMsg ResultRequestMsg)\<lparr>fr_buffer := take k (encodeUploadHeader h)\<rparr>"

definition at_body :: "string \<Rightarrow> nat \<Rightarrow> nat \<Rightarrow> Ctx \<Rightarrow> bool" where
  "at_body payload j i cx \<longleftrightarrow> quiet (cx_session cx) (cx_uploaded cx) \<and> ss_state (cx_session cx) = Receiving \<and>
    unat (ss_fileSize (cx_session cx)) = length payload \<and> concat (cx_uploaded cx) = take j payload \<and> j \<le> length payload \<and>
    (i \<noteq> 0 \<longrightarrow> j = length payload) \<and> i < length (trailer_for payload) \<and>
    ss_framer (cx_session cx) = (newFramer UploadTrailerMsg UploadTrailerMsg)\<lparr>fr_buffer := take i (trailer_for payload)\<rparr>"

definition at_end :: "string \<Rightarrow> Ctx \<Rightarrow> bool" where
  "at_end payload cx \<longleftrightarrow> ss_state (cx_session cx) = Analyzing \<and> concat (cx_uploaded cx) = payload \<and>
    sk_written (ss_socket (cx_session cx)) =
      [encodeAck \<lparr>ack_status = AckOk, ack_receivedBytes = of_nat (length payload)\<rparr>]"

lemma at_body_counts:
  assumes "at_body payload j i cx"
  shows "unat (ss_receivedBytes (cx_session cx)) = j" "ss_receivedBytes (cx_session cx) < ss_fileSize (cx_session cx) \<longleftrightarrow> j < length payload"
    "ss_payloadCrc (cx_session cx) = crc32 0 (take j payload)"
    "payloadShare (cx_session cx) c = min (length payload - j) (length c)"
proof -
  have c: "counts_ok (cx_session cx) (cx_uploaded cx)" "concat (cx_uploaded cx) = take j payload" "j \<le> length payload"
    "unat (ss_fileSize (cx_session cx)) = length payload"
    using assms by (simp_all add: at_body_def quiet_def)
  show r: "unat (ss_receivedBytes (cx_session cx)) = j" using c by (simp add: counts_ok_def)
  then show "ss_receivedBytes (cx_session cx) < ss_fileSize (cx_session cx) \<longleftrightarrow> j < length payload"
    using c by (simp add: word_less_nat_alt)
  show "ss_payloadCrc (cx_session cx) = crc32 0 (take j payload)" using c by (simp add: counts_ok_def)
  have "ss_receivedBytes (cx_session cx) \<le> ss_fileSize (cx_session cx)" using c by (simp add: counts_ok_def)
  then show "payloadShare (cx_session cx) c = min (length payload - j) (length c)"
    using r c(4) by (simp add: payloadShare_def unat_sub)
qed

section \<open>One step of the read loop\<close>

lemma newFramer_sel [simp]:
  "fr_expected (newFramer a b) = a" "fr_alternate (newFramer a b) = b" "fr_status (newFramer a b) = NeedMoreData"
  "fr_buffer (newFramer a b) = []"
  by (simp_all add: newFramer_def)

lemma trailer_step:
  assumes a: "at_body payload (length payload) i cx" and c: "c \<noteq> []" "c = take (length c) (drop i (trailer_for payload))"
    and w: "uv_write (en_uv en) 0 = 0"
  defines "r \<equiv> consumeTrailer en c cx"
  shows "fst r = length c" and "i + length c < length (trailer_for payload) \<Longrightarrow> at_body payload (length payload) (i + length c) (snd r)"
    and "i + length c = length (trailer_for payload) \<Longrightarrow> at_end payload (snd r)"
proof -
  let ?T = "trailer_for payload" and ?f = "ss_framer (cx_session cx)"
  have f: "?f = (newFramer UploadTrailerMsg UploadTrailerMsg)\<lparr>fr_buffer := take i ?T\<rparr>" and i: "i < length ?T"
    using a by (simp_all add: at_body_def)
  have le: "i + length c \<le> length ?T"
  proof -
    have "length c \<le> length ?T - i" using c(2) by (metis length_drop length_take min.cobounded1)
    then show ?thesis using i by simp
  qed
  note N = uploadTrailer.feed_next [of "?f" i "\<lparr>ut_crc32 = crc32 0 payload\<rparr>" c "[]", folded trailer_for_def]
  have F: "feed ?f c = (if i + length c < length ?T then (?f\<lparr>fr_buffer := take (i + length c) ?T\<rparr>, length c)
      else (?f\<lparr>fr_buffer := ?T, fr_status := Ok\<rparr>, length ?T - i))"
    using N i c(2) by (simp add: f)
  show "fst r = length c"
    using F le i by (auto simp: r_def consumeTrailer_def feedFramer_def f)
  show "at_body payload (length payload) (i + length c) (snd r)" if l: "i + length c < length ?T"
    using F a l by (simp add: r_def consumeTrailer_def feedFramer_def f at_body_def)
  show "at_end payload (snd r)" if e: "i + length c = length ?T"
  proof -
    define cx1 where "cx1 = cx\<lparr>cx_session := (cx_session cx)\<lparr>ss_framer := ?f\<lparr>fr_buffer := ?T, fr_status := Ok\<rparr>\<rparr>\<rparr>"
    define cx2 where "cx2 = transition en Verifying cx1"
    have r: "snd r = verifyAndAck en cx1" using F e by (simp add: r_def consumeTrailer_def feedFramer_def cx1_def)
    have q1: "quiet (cx_session cx1) (cx_uploaded cx)" "ss_state (cx_session cx1) = Receiving" using a by (simp_all add: cx1_def at_body_def)
    have sb: "same_but_reading (armTimer ((cx_session cx1)\<lparr>ss_state := Verifying\<rparr>)) (cx_session cx2)"
      using transition_session [of cx1 Verifying en] q1(2) by (simp add: cx2_def)
    note R = same_but_reading_simps [OF sb]
    have q2: "quiet (cx_session cx2) (cx_uploaded cx)" using quiet_transition [OF q1(1)] q1(2) by (simp add: cx2_def)
    have d: "decodeUploadTrailer (message (ss_framer (cx_session cx2))) = Inr \<lparr>ut_crc32 = crc32 0 payload\<rparr>"
      using uploadTrailer.dec_enc [of "\<lparr>ut_crc32 = crc32 0 payload\<rparr>" "[]"] by (simp add: R message_def cx1_def trailer_for_def)
    have pc: "ss_payloadCrc (cx_session cx2) = crc32 0 payload" using at_body_counts(3) [OF a] by (simp add: R cx1_def)
    have rb: "ss_receivedBytes (cx_session cx2) = of_nat (length payload)"
      using at_body_counts(1) [OF a] of_nat_unat_u64 [of "ss_receivedBytes (cx_session cx)"] by (simp add: R cx1_def)
    let ?ack = "encodeAck \<lparr>ack_status = AckOk, ack_receivedBytes = of_nat (length payload)\<rparr>"
    have nw: "sk_written (ss_socket (cx_session cx2)) = []" "sk_valid (ss_socket (cx_session cx2))" "\<not> sk_closing (ss_socket (cx_session cx2))"
      using q2 by (simp_all add: quiet_def)
    obtain sk where s: "sendBytes en ?ack cx2 = (0, cx2\<lparr>cx_session := (cx_session cx2)\<lparr>ss_socket := sk\<rparr>\<rparr>)" "sk_written sk = [?ack]"
      using nw w by (simp add: sendBytes_def sock_send_def Let_def)
    define cx3 where "cx3 = cx2\<lparr>cx_session := (cx_session cx2)\<lparr>ss_socket := sk\<rparr>\<rparr>"
    have v: "verifyAndAck en cx1 = analyzeAndSendResult en cx3"
      using d pc rb s(1) by (simp add: verifyAndAck_def Let_def cx3_def flip: cx2_def)
    have "same_but_reading (armTimer ((cx_session cx3)\<lparr>ss_state := Analyzing\<rparr>)) (cx_session (transition en Analyzing cx3))"
      using transition_session [of cx3 Analyzing en] by (simp add: cx3_def R)
    note R3 = same_but_reading_simps [OF this]
    show ?thesis
      using a s(2) by (simp add: at_end_def r v analyzeAndSendResult_def Let_def R3)
        (simp add: cx3_def cx2_def cx1_def at_body_def)
  qed
qed

text \<open>A chunk that runs over the end of the part it starts in.\<close>

lemma share_split:
  assumes "c = take (length c) (a @ b)" and "n = min (length a) (length c)"
  shows "take n c = take n a" "drop n c = take (length (drop n c)) b"
proof -
  have c: "c = take (length c) a @ take (length c - length a) b" using assms(1) by simp
  show "take n c = take n a" using assms(2) by (subst c) (auto simp: min_def)
  have "drop n c = take (length c - length a) b" using assms(2) by (subst c) (auto simp: min_def)
  moreover have "length (drop n c) = length c - length a" using assms(2) by (simp add: min_def)
  ultimately show "drop n c = take (length (drop n c)) b" by simp
qed

definition slot_free :: "nat \<Rightarrow> Ctx \<Rightarrow> bool" where
  "slot_free n cx \<longleftrightarrow> (case tryAcquireSlot (cx_parser cx) of None \<Rightarrow> False | Some (off, cap) \<Rightarrow> n \<le> cap)"

text \<open>Counting and committing the payload's share moves the position.\<close>

lemma countPayload_slot: "countPayload p (s\<lparr>ss_slotAcquired := b\<rparr>) = (countPayload p s)\<lparr>ss_slotAcquired := b\<rparr>"
  by (cases s) (simp add: countPayload_def)

lemma countPayload_same_slot: "(countPayload p s)\<lparr>ss_slotAcquired := ss_slotAcquired s\<rparr> = countPayload p s"
  by (cases s) (simp add: countPayload_def)

lemma body_advance:
  assumes a: "at_body payload j 0 cx" and n: "n = payloadShare (cx_session cx) c" and c: "take n c = take n (drop j payload)"
    and s: "same_but_reading (countPayload (take n c) (cx_session cx)\<lparr>ss_slotAcquired := b\<rparr>) (cx_session cx')"
    and u: "cx_uploaded cx' = cx_uploaded cx @ [take n c]"
  shows "at_body payload (j + n) 0 cx'"
proof -
  note B = at_body_counts [OF a]
  note R = same_but_reading_simps [OF s]
  have q: "quiet (cx_session cx) (cx_uploaded cx)" using a by (simp add: at_body_def)
  have "quiet (countPayload (take n c) (cx_session cx)) (cx_uploaded cx')"
    by (rule quiet_count [OF q n]) (simp add: u)
  then have "quiet (cx_session cx') (cx_uploaded cx')" using quiet_same [OF s] by simp
  moreover have "j + n \<le> length payload" using a n B(4) [of c] by (auto simp: at_body_def)
  ultimately show ?thesis using a c by (simp add: at_body_def R u take_add)
qed

lemma payload_step:
  assumes a: "at_body payload j 0 cx" and l: "j < length payload"
    and c: "c \<noteq> []" "take n c = take n (drop j payload)" and n: "n = min (length payload - j) (length c)" and f: "slot_free (length c) cx"
  shows "fst (consumePayload en c cx) = n" and "at_body payload (j + n) 0 (snd (consumePayload en c cx))"
proof -
  have sh: "payloadShare (cx_session cx) c = n" using at_body_counts(4) [OF a] n by simp
  define cx0 where "cx0 = cx\<lparr>cx_session := countPayload (take n c) (cx_session cx)\<rparr>"
  obtain off cap where acq: "tryAcquireSlot (cx_parser cx) = Some (off, cap)" "length c \<le> cap"
    using f by (auto simp: slot_free_def split: option.splits)
  define cx1 where "cx1 = commitChunk (take n c) (writeSlot off (take n c) cx0)"
  have "0 < length c" using c(1) by simp
  then have p: "0 < n" "n \<le> length c" "0 < cap" "n \<le> cap" using l n acq(2) by linarith+
  then have ne: "take n c \<noteq> []" "cap \<noteq> 0" "take cap (take n c) = take n c" "drop cap (take n c) = []"
    using c(1) by simp_all
  have "copyPayload (take n c) cx0 = copyPayload [] cx1"
    using ne acq by (simp add: copyPayload.simps [of "take n c"] cx0_def cx1_def Let_def)
  then have cp: "copyPayload (take n c) cx0 = (cx1, True)" by (simp add: copyPayload.simps)
  have r: "consumePayload en c cx = (n, applyBackpressure en cx1)"
    using cp p(2) by (simp add: consumePayload_def sh Let_def flip: cx0_def)
  then show "fst (consumePayload en c cx) = n" by simp
  have "cx_session cx1 = countPayload (take n c) (cx_session cx)"
    "cx_uploaded cx1 = cx_uploaded cx @ [take n c]"
    by (simp_all add: cx1_def cx0_def commitChunk_def writeSlot_def)
  with body_advance [OF a sh [symmetric] c(2), of "ss_slotAcquired (cx_session cx)" "applyBackpressure en cx1"]
    applyBackpressure_frame [where cx = cx1 and en = en]
  show "at_body payload (j + n) 0 (snd (consumePayload en c cx))" by (simp add: r countPayload_same_slot)
qed

lemma slot_step:
  assumes a: "at_body payload j 0 cx" and l: "j < length payload"
    and c: "c = take (length c) (drop j (payload @ trailer_for payload))" and n: "n = min (length payload - j) (length c)"
    and w: "uv_write (en_uv en) 0 = 0"
  defines "cx' \<equiv> readIntoSlot en c cx"
  shows "j + length c < length payload + length (trailer_for payload) \<Longrightarrow> at_body payload (j + n) (length c - n) cx'"
    and "j + length c = length payload + length (trailer_for payload) \<Longrightarrow> at_end payload cx'"
proof -
  define s where "s = (cx_session cx)\<lparr>ss_slotAcquired := False\<rparr>"
  have sh: "payloadShare (cx_session cx) c = n" using at_body_counts(4) [OF a] n by simp
  define cx1 where "cx1 = applyBackpressure en (commitChunk (take n c) (cx\<lparr>cx_session := countPayload (take n c) s\<rparr>))"
  have c': "c = take (length c) (drop j payload @ trailer_for payload)" and n': "n = min (length (drop j payload)) (length c)"
    using c n l by simp_all
  note cn = share_split [OF c' n']
  have b1: "at_body payload (j + n) 0 cx1"
    by (rule body_advance [OF a sh [symmetric] cn(1), of False])
      (use applyBackpressure_frame [where cx = "commitChunk (take n c) (cx\<lparr>cx_session := countPayload (take n c) s\<rparr>)" and en = en] in
        \<open>simp_all add: cx1_def commitChunk_def s_def countPayload_slot\<close>)
  have cx': "cx' = (if drop n c = [] then cx1 else snd (consumeTrailer en (drop n c) cx1))"
    by (simp add: cx'_def readIntoSlot_def sh Let_def cx1_def s_def)
  show "at_body payload (j + n) (length c - n) cx'" if t: "j + length c < length payload + length (trailer_for payload)"
  proof (cases "length c \<le> n")
    case True
    then show ?thesis using b1 cx' by simp
  next
    case False
    then have jn: "j + n = length payload" using n l by simp
    have d: "drop n c \<noteq> []" "drop n c = take (length (drop n c)) (drop 0 (trailer_for payload))"
      using False cn(2) unfolding drop0 by (metis drop_eq_Nil, blast)
    have "at_body payload (length payload) (0 + length (drop n c)) (snd (consumeTrailer en (drop n c) cx1))"
      by (rule trailer_step(2) [OF _ d w]) (use b1 jn t False in auto)
    then show ?thesis using cx' d(1) jn by simp
  qed
  show "at_end payload cx'" if t: "j + length c = length payload + length (trailer_for payload)"
  proof -
    have nT: "0 < length (trailer_for payload)" using a by (simp add: at_body_def)
    then have jn: "j + n = length payload" "n < length c" using n l t nT by linarith+
    have d: "drop n c \<noteq> []" "drop n c = take (length (drop n c)) (drop 0 (trailer_for payload))"
      using jn(2) cn(2) unfolding drop0 by (metis drop_eq_Nil leD, blast)
    have "at_end payload (snd (consumeTrailer en (drop n c) cx1))"
      by (rule trailer_step(3) [OF _ d w]) (use b1 jn t in auto)
    then show ?thesis using cx' d(1) by simp
  qed
qed

lemma header_step:
  fixes en :: Env
  assumes a: "at_header h k cx" and u: "upload_ok h payload" and c: "c = take (length c) (drop k (encodeUploadHeader h) @ tl_bytes)"
  defines "r \<equiv> consumeHeader en c cx"
  shows "k + length c < length (encodeUploadHeader h) \<Longrightarrow> fst r = length c \<and> at_header h (k + length c) (snd r)"
    and "\<not> k + length c < length (encodeUploadHeader h) \<Longrightarrow>
      fst r = length (encodeUploadHeader h) - k \<and> at_body payload 0 0 (snd r) \<and> cx_parser (snd r) = cx_parser cx"
proof -
  let ?H = "encodeUploadHeader h" and ?f = "ss_framer (cx_session cx)"
  have f: "?f = (newFramer UploadHeaderMsg ResultRequestMsg)\<lparr>fr_buffer := take k ?H\<rparr>" and k: "k < length ?H"
    and v: "validUploadHeader h" using a u by (simp_all add: at_header_def upload_ok_def)
  have F: "feed ?f c = (if k + length c < length ?H then (?f\<lparr>fr_buffer := take (k + length c) ?H\<rparr>, length c)
      else (?f\<lparr>fr_buffer := ?H, fr_status := Ok\<rparr>, length ?H - k))"
    by (rule uploadHeader.feed_next [OF v _ _ _ k c]) (simp_all add: f)
  show "fst r = length c \<and> at_header h (k + length c) (snd r)" if "k + length c < length ?H"
    using F that a by (simp add: r_def consumeHeader_def feedFramer_def f at_header_def)
  show "fst r = length ?H - k \<and> at_body payload 0 0 (snd r) \<and> cx_parser (snd r) = cx_parser cx" if l: "\<not> k + length c < length ?H"
  proof -
    let ?g = "?f\<lparr>fr_buffer := ?H, fr_status := Ok\<rparr>"
    have ty: "messageType ?g = Some UploadHeaderMsg" using uploadHeader.enc_fields(3) [of h] by (simp add: messageType_def type_of_code_def)
    have d: "decodeUploadHeader (message ?g) = Inr h" using decodeUploadHeader_encode [OF v, of "[]"] by (simp add: message_def)
    define s where "s = (cx_session cx)\<lparr>ss_fileSize := uh_fileSize h, ss_filename := uh_filename h, ss_framer := framerReset UploadTrailerMsg ?g\<rparr>"
    define cx1 where "cx1 = transition en Receiving (cx\<lparr>cx_session := s\<rparr>)"
    have r: "r = (length ?H - k, cx1)"
      using F l ty d by (simp add: r_def consumeHeader_def feedFramer_def cx1_def s_def)
    have q: "quiet s []" "ss_state s = WaitHeader"
      using a v by (auto simp: s_def at_header_def quiet_def counts_ok_def timer_ok_def validUploadHeader_def word_le_nat_alt)
    have st: "cx_session cx1 = armTimer (s\<lparr>ss_state := Receiving\<rparr>)" "cx_parser cx1 = cx_parser cx" "cx_uploaded cx1 = []"
      using q(2) a by (simp_all add: cx1_def transition_def at_header_def Let_def)
    have "quiet (cx_session cx1) []" using q by (simp add: st quiet_def counts_ok_def)
    moreover have "0 < length (trailer_for payload)" by (simp add: trailer_for_def encodeUploadTrailer_def protocol_sizes)
    moreover have "framerReset UploadTrailerMsg ?g = (newFramer UploadTrailerMsg UploadTrailerMsg)\<lparr>fr_buffer := []\<rparr>"
      by (simp add: framerReset_def framerReset2_def newFramer_def f)
    ultimately show ?thesis
      using u st by (simp add: r at_body_def s_def upload_ok_def)
  qed
qed

lemma readLoop_step:
  assumes "quiet (cx_session cx) up" and "c \<noteq> []" and "consumeStep en c cx = (n, cx1)" and "0 < n"
  shows "readLoop en c cx = readLoop en (drop n c) cx1"
  using assms by (simp add: readLoop.simps [of en c] quiet_def)

lemma readLoop_Nil [simp]: "readLoop en [] cx = cx"
  by (simp add: readLoop.simps)

section \<open>One read\<close>

text \<open>The position after \<open>m\<close> bytes of the whole upload.\<close>

definition at_pos :: "UploadHeader \<Rightarrow> string \<Rightarrow> nat \<Rightarrow> Ctx \<Rightarrow> bool" where
  "at_pos h payload m cx \<longleftrightarrow>
    (let b = length (encodeUploadHeader h) in
     if m < b then at_header h m cx
     else if m < length (upload_bytes h payload) then at_body payload (min (m - b) (length payload)) (m - b - length payload) cx
     else at_end payload cx)"

lemma length_upload_bytes:
  "length (upload_bytes h payload) = length (encodeUploadHeader h) + length payload + length (trailer_for payload)"
  by (simp add: upload_bytes_def)

lemma trailer_read:
  assumes a: "at_body payload (length payload) i cx" and c: "c = take (length c) (drop i (trailer_for payload))"
    and w: "uv_write (en_uv en) 0 = 0"
  shows "i + length c < length (trailer_for payload) \<Longrightarrow> at_body payload (length payload) (i + length c) (readLoop en c cx)"
    and "i + length c = length (trailer_for payload) \<Longrightarrow> at_end payload (readLoop en c cx)"
proof -
  have "(i + length c < length (trailer_for payload) \<longrightarrow> at_body payload (length payload) (i + length c) (readLoop en c cx)) \<and>
    (i + length c = length (trailer_for payload) \<longrightarrow> at_end payload (readLoop en c cx))"
  proof (cases "c = []")
    case True
    then show ?thesis using a by (auto simp: at_body_def)
  next
    case False
    note T = trailer_step [OF a False c w]
    have q: "quiet (cx_session cx) (cx_uploaded cx)" using a by (simp add: at_body_def)
    have "consumeStep en c cx = consumeTrailer en c cx"
      using a at_body_counts(2) [OF a] by (simp add: consumeStep_def at_body_def)
    then have "readLoop en c cx = snd (consumeTrailer en c cx)"
      using readLoop_step [OF q False, of en "length c" "snd (consumeTrailer en c cx)"] T(1) False by (simp add: prod_eq_iff)
    then show ?thesis using T(2,3) by simp
  qed
  then show "i + length c < length (trailer_for payload) \<Longrightarrow> at_body payload (length payload) (i + length c) (readLoop en c cx)"
    "i + length c = length (trailer_for payload) \<Longrightarrow> at_end payload (readLoop en c cx)" by simp_all
qed

lemma body_read:
  assumes a: "at_body payload j 0 cx" and l: "j < length payload" and f: "slot_free (length c) cx"
    and c: "c = take (length c) (drop j payload @ trailer_for payload)" and w: "uv_write (en_uv en) 0 = 0"
  defines "n \<equiv> min (length payload - j) (length c)"
  shows "j + length c < length payload + length (trailer_for payload) \<Longrightarrow> at_body payload (j + n) (length c - n) (readLoop en c cx)"
    and "j + length c = length payload + length (trailer_for payload) \<Longrightarrow> at_end payload (readLoop en c cx)"
proof -
  let ?T = "trailer_for payload"
  have "(j + length c < length payload + length ?T \<longrightarrow> at_body payload (j + n) (length c - n) (readLoop en c cx)) \<and>
    (j + length c = length payload + length ?T \<longrightarrow> at_end payload (readLoop en c cx))"
  proof (cases "c = []")
    case True
    then show ?thesis using a l by (simp add: n_def)
  next
    case False
    have n': "n = min (length (drop j payload)) (length c)" by (simp add: n_def)
    note S = share_split [OF c n']
    note P = payload_step [OF a l False S(1) n_def [THEN meta_eq_to_obj_eq] f, of en]
    define cx1 where "cx1 = snd (consumePayload en c cx)"
    have q: "quiet (cx_session cx) (cx_uploaded cx)" using a by (simp add: at_body_def)
    have n0: "0 < n" using l False by (simp add: n_def)
    have "consumeStep en c cx = (n, cx1)"
      using a at_body_counts(2) [OF a] l P(1) by (simp add: consumeStep_def at_body_def cx1_def prod_eq_iff)
    then have r: "readLoop en c cx = readLoop en (drop n c) cx1" by (rule readLoop_step [OF q False _ n0])
    have b: "at_body payload (j + n) 0 cx1" using P(2) by (simp add: cx1_def)
    show ?thesis
    proof (cases "length c \<le> n")
      case True
      have "\<not> j + length c = length payload + length ?T" using True b by (auto simp: n_def at_body_def)
      then show ?thesis using True r b by simp
    next
      case g: False
      then have jn: "j + n = length payload" "n \<le> length c" using l by (simp_all add: n_def)
      have "at_body payload (length payload) 0 cx1" using b jn by simp
      from trailer_read [OF this _ w, of "drop n c"] S(2) show ?thesis using r jn by auto
    qed
  qed
  then show "j + length c < length payload + length ?T \<Longrightarrow> at_body payload (j + n) (length c - n) (readLoop en c cx)"
    "j + length c = length payload + length ?T \<Longrightarrow> at_end payload (readLoop en c cx)" by simp_all
qed

text \<open>A read that starts in the header.\<close>

lemma header_read:
  assumes a: "at_header h k cx" and u: "upload_ok h payload" and c: "c \<noteq> []" "c = take (length c) (drop k (upload_bytes h payload))"
    and f: "slot_free (length c) cx" and w: "uv_write (en_uv en) 0 = 0"
  shows "at_pos h payload (k + length c) (readLoop en c cx)"
proof -
  let ?H = "encodeUploadHeader h" and ?T = "trailer_for payload"
  have k: "k < length ?H" and q: "quiet (cx_session cx) []" and st: "ss_state (cx_session cx) = WaitHeader"
    using a by (simp_all add: at_header_def)
  have c': "c = take (length c) (drop k ?H @ payload @ ?T)" using c(2) k by (simp add: upload_bytes_def)
  note S = header_step [OF a u c', of en]
  define cx1 where "cx1 = snd (consumeHeader en c cx)"
  have cs: "consumeStep en c cx = consumeHeader en c cx" using st by (simp add: consumeStep_def)
  show ?thesis
  proof (cases "k + length c < length ?H")
    case True
    then have "readLoop en c cx = cx1"
      using readLoop_step [OF q c(1), of en "length c" cx1] S(1) cs c(1) by (simp add: cx1_def prod_eq_iff)
    then show ?thesis using S(1) True by (simp add: at_pos_def cx1_def)
  next
    case False
    define n where "n = length ?H - k"
    define d where "d = drop n c"
    have n: "0 < n" "n \<le> length c" using k False by (simp_all add: n_def)
    have r: "readLoop en c cx = readLoop en d cx1"
      using readLoop_step [OF q c(1), of en n cx1] S(2) [OF False] cs n by (simp add: cx1_def prod_eq_iff d_def n_def)
    have b: "at_body payload 0 0 cx1" and p: "cx_parser cx1 = cx_parser cx" using S(2) [OF False] by (simp_all add: cx1_def)
    have fd: "slot_free (length d) cx1" using f p by (auto simp: slot_free_def d_def split: option.splits)
    have nm: "n = min (length (drop k ?H)) (length c)" using n by (simp add: n_def)
    have dd: "d = take (length d) (drop 0 payload @ ?T)" unfolding d_def drop0 by (rule share_split(2) [OF c' nm])
    have ld: "length d = k + length c - length ?H" "length ?H \<le> k + length c" using n k by (simp_all add: d_def n_def)
    have le: "length d \<le> length payload + length ?T"
      using dd by (metis drop0 length_append length_take min.cobounded1)
    have pos: "at_pos h payload (k + length c) x =
        (if length d < length payload + length ?T then at_body payload (min (length d) (length payload)) (length d - length payload) x
         else at_end payload x)" for x
      using ld by (auto simp: at_pos_def Let_def length_upload_bytes)
    show ?thesis
    proof (cases "0 < length payload")
      case True
      have m: "0 + min (length payload - 0) (length d) = min (length d) (length payload)"
        "length d - min (length payload - 0) (length d) = length d - length payload" by simp_all
      from body_read [OF b True fd dd w, unfolded m] le show ?thesis unfolding pos r by auto
    next
      case False
      then have p0: "payload = []" by simp
      have b0: "at_body payload (length payload) 0 cx1" using b p0 by simp
      have d0: "d = take (length d) (drop 0 ?T)" using dd unfolding p0 by (simp only: drop0 append_Nil)
      from trailer_read [OF b0 d0 w] le p0 show ?thesis unfolding pos r by auto
    qed
  qed
qed

section \<open>Runs of an upload\<close>

text \<open>
  The runs in which the client's bytes arrive: reads of any size, each small enough for a free slot of
  the ring, with wake-ups, steps of the parser thread and time (short of a timeout) in between.
\<close>

inductive upload_run :: "nat \<Rightarrow> SessionTimeouts \<Rightarrow> string \<Rightarrow> Ctx \<Rightarrow> bool" for chunkSize timeouts where
  start: "kept_ok kept \<Longrightarrow> session_start en (freshCtx chunkSize timeouts pt kept) = (cx, True) \<Longrightarrow> upload_run chunkSize timeouts [] cx"
| read: "upload_run chunkSize timeouts s cx \<Longrightarrow> c \<noteq> [] \<Longrightarrow> slot_free (length c) cx \<Longrightarrow> uv_write (en_uv en) 0 = 0 \<Longrightarrow>
    session_exec en (EvRead suggested (int (length c)) c) cx = Some cx' \<Longrightarrow> upload_run chunkSize timeouts (s @ c) cx'"
| resume: "upload_run chunkSize timeouts s cx \<Longrightarrow> upload_run chunkSize timeouts s (resumeReading en cx)"
| elapse: "upload_run chunkSize timeouts s cx \<Longrightarrow> timer_elapse ms (ss_timer (cx_session cx)) = (t, False) \<Longrightarrow>
    upload_run chunkSize timeouts s (cx\<lparr>cx_session := (cx_session cx)\<lparr>ss_timer := t\<rparr>\<rparr>)"
| parser: "upload_run chunkSize timeouts s cx \<Longrightarrow> upload_run chunkSize timeouts s (cx\<lparr>cx_parser := pt\<rparr>)"

lemma at_pos_cong:
  assumes "at_pos h payload m cx" and "\<And>up. quiet (cx_session cx) up \<Longrightarrow> quiet (cx_session cx') up"
    and "cx_uploaded cx' = cx_uploaded cx" "ss_state (cx_session cx') = ss_state (cx_session cx)"
    "ss_framer (cx_session cx') = ss_framer (cx_session cx)" "ss_fileSize (cx_session cx') = ss_fileSize (cx_session cx)"
    "sk_written (ss_socket (cx_session cx')) = sk_written (ss_socket (cx_session cx))"
  shows "at_pos h payload m cx'"
  using assms by (auto simp: at_pos_def at_header_def at_body_def at_end_def Let_def split: if_splits)

lemma quiet_restart: "quiet s up \<Longrightarrow> quiet (s\<lparr>ss_timer := timer_restart (ss_timer s)\<rparr>) up"
  by (auto simp: quiet_def counts_ok_def timer_ok_def timer_restart_def timer_isActive_def)

lemma quiet_elapse:
  "quiet s up \<Longrightarrow> timer_elapse ms (ss_timer s) = (t, False) \<Longrightarrow> quiet (s\<lparr>ss_timer := t\<rparr>) up"
  by (auto simp: quiet_def counts_ok_def timer_ok_def timer_elapse_def split: option.splits if_splits)

definition restarted :: "bool \<Rightarrow> Ctx \<Rightarrow> Ctx" where
  "restarted b cx = cx\<lparr>cx_session := (cx_session cx)\<lparr>ss_slotAcquired := b, ss_timer := timer_restart (ss_timer (cx_session cx))\<rparr>\<rparr>"

lemma quiet_restarted: "quiet (cx_session cx) up \<Longrightarrow> quiet (cx_session (restarted b cx)) up"
  using quiet_restart [of "(cx_session cx)\<lparr>ss_slotAcquired := b\<rparr>" up] by (simp add: restarted_def)

lemma restarted_frame [simp]:
  "cx_uploaded (restarted b cx) = cx_uploaded cx" "cx_parser (restarted b cx) = cx_parser cx"
  "ss_state (cx_session (restarted b cx)) = ss_state (cx_session cx)"
  "ss_framer (cx_session (restarted b cx)) = ss_framer (cx_session cx)"
  "ss_fileSize (cx_session (restarted b cx)) = ss_fileSize (cx_session cx)"
  by (simp_all add: restarted_def)

lemma read_slot:
  assumes a: "at_body payload j 0 cx" and l: "j < length payload" and f: "slot_free (length c) cx" and c: "c \<noteq> []"
    and e: "session_exec en (EvRead sug (int (length c)) c) cx = Some cx'"
  obtains cx2 where "cx' = readIntoSlot en c cx2" "at_body payload j 0 cx2"
proof -
  obtain off cap where "onAllocate sug cx = (RingSlot off cap, cx\<lparr>cx_session := (cx_session cx)\<lparr>ss_slotAcquired := True\<rparr>\<rparr>)"
    using a f l at_body_counts(2) [OF a]
    by (auto simp: onAllocate_def at_body_def slot_free_def Let_def split: option.splits)
  then have "cx' = readIntoSlot en c (restarted True (writeSlot off c cx))"
    using e c by (auto simp: Let_def dispatchRead_def onReadCb_def onRead_def restarted_def writeSlot_def split: if_splits)
  moreover have "at_body payload j 0 (restarted True (writeSlot off c cx))"
    using a quiet_restarted [of "writeSlot off c cx" "cx_uploaded cx" True] by (simp add: at_body_def) (simp add: writeSlot_def)
  ultimately show thesis by (rule that)
qed

lemma read_buffer:
  assumes "ss_state (cx_session cx) \<noteq> Receiving \<or> \<not> ss_receivedBytes (cx_session cx) < ss_fileSize (cx_session cx)" and "c \<noteq> []"
    and "session_exec en (EvRead sug (int (length c)) c) cx = Some cx'"
  shows "cx' = readLoop en c (restarted False cx)"
  using assms by (auto simp: Let_def onAllocate_def dispatchRead_def onReadCb_def onRead_def restarted_def split: if_splits)

lemma read_pos:
  assumes p: "at_pos h payload m cx" and u: "upload_ok h payload" and c: "c \<noteq> []" "c = take (length c) (drop m (upload_bytes h payload))"
    and f: "slot_free (length c) cx" and w: "uv_write (en_uv en) 0 = 0"
    and e: "session_exec en (EvRead sug (int (length c)) c) cx = Some cx'"
  shows "at_pos h payload (m + length c) cx'"
proof -
  let ?H = "encodeUploadHeader h" and ?T = "trailer_for payload"
  have "length c \<le> length (upload_bytes h payload) - m" using c(2) by (metis length_drop length_take min.cobounded1)
  moreover have "0 < length c" using c(1) by simp
  ultimately have m: "m + length c \<le> length (upload_bytes h payload)" "m < length (upload_bytes h payload)" by linarith+
  show ?thesis
  proof (cases "m < length ?H")
    case True
    then have a: "at_header h m cx" using p by (simp add: at_pos_def)
    then have "at_header h m (restarted False cx)" "cx' = readLoop en c (restarted False cx)"
      using quiet_restarted [of cx "[]" False] read_buffer [OF _ c(1) e] by (auto simp: at_header_def)
    moreover have "slot_free (length c) (restarted False cx)" using f by (simp add: slot_free_def)
    ultimately show ?thesis using header_read [OF _ u c _ w] by blast
  next
    case False
    define j where "j = min (m - length ?H) (length payload)"
    define i where "i = m - length ?H - length payload"
    have b: "at_body payload j i cx" using p False m(2) by (simp add: at_pos_def j_def i_def Let_def)
    have pos: "at_pos h payload (m + length c) x =
        (if m + length c < length (upload_bytes h payload)
         then at_body payload (min (m + length c - length ?H) (length payload)) (m + length c - length ?H - length payload) x
         else at_end payload x)" for x
      using False by (simp add: at_pos_def Let_def)
    show ?thesis
    proof (cases "j < length payload")
      case True
      then have i0: "i = 0" "j = m - length ?H" by (auto simp: i_def j_def)
      have c': "c = take (length c) (drop j (payload @ ?T))"
        using c(2) False by (simp only: upload_bytes_def drop_append i0) simp
      obtain cx2 where cx2: "cx' = readIntoSlot en c cx2" "at_body payload j 0 cx2"
        using read_slot [OF _ True f c(1) e] b i0(1) by auto
      note S = slot_step [OF cx2(2) True c' refl w]
      define n where "n = min (length payload - j) (length c)"
      have n: "j + n = min (m + length c - length ?H) (length payload)" "length c - n = m + length c - length ?H - length payload"
        using True False i0(2) by (auto simp: n_def)
      have l: "m + length c < length (upload_bytes h payload) \<longleftrightarrow> j + length c < length payload + length ?T"
        "j + length c \<le> length payload + length ?T"
        using False m i0(2) by (auto simp: length_upload_bytes)
      from S [folded n_def, unfolded n] l cx2(1) show ?thesis unfolding pos by auto
    next
      case full: False
      then have ij: "j = length payload" "i = m - length ?H - length payload" "length ?H + length payload \<le> m"
        using False by (auto simp: i_def j_def)
      have b': "at_body payload (length payload) i (restarted False cx)"
        using b ij(1) quiet_restarted [of cx "cx_uploaded cx" False] by (simp add: at_body_def)
      have c': "c = take (length c) (drop i ?T)" using c(2) ij by (simp only: upload_bytes_def drop_append) simp
      have cx': "cx' = readLoop en c (restarted False cx)"
        using read_buffer [OF _ c(1) e] at_body_counts(2) [OF b] full by blast
      have l: "m + length c < length (upload_bytes h payload) \<longleftrightarrow> i + length c < length ?T" "i + length c \<le> length ?T"
        using m ij by (auto simp: length_upload_bytes)
      have n: "length payload = min (m + length c - length ?H) (length payload)" "i + length c = m + length c - length ?H - length payload"
        using ij by auto
      from trailer_read [OF b' c' w] l n cx' show ?thesis unfolding pos by auto
    qed
  qed
qed

lemma upload_run_pos:
  assumes "upload_run chunkSize timeouts s cx" and u: "upload_ok h payload" and "s = take (length s) (upload_bytes h payload)"
  shows "at_pos h payload (length s) cx"
  using assms(1,3)
proof (induction rule: upload_run.induct)
  case (start kept en pt cx)
  define s where "s = newSession (newSocket True) chunkSize timeouts"
  have q: "quiet (armTimer s) []" by (simp add: quiet_def counts_ok_def s_def newSession_def newSocket_def kMaxFileSize_def)
  have "same_but_reading (armTimer s) (cx_session cx)" "cx_uploaded cx = []"
    using start(2) by (auto simp: session_start_def freshCtx_def s_def [symmetric] split_beta Let_def armTimer_def
        sock_startRead_def s_def newSession_def newSocket_def same_but_reading_def split: if_splits)
  moreover have "0 < length (encodeUploadHeader h)" by (simp add: encodeUploadHeader_def protocol_sizes)
  ultimately show ?case
    using q by (simp add: at_pos_def at_header_def quiet_same same_but_reading_simps(1,2)) (simp add: s_def newSession_def newFramer_def)
next
  case (read s cx c en suggested cx')
  have s: "s = take (length s) (upload_bytes h payload)" and c: "c = take (length c) (drop (length s) (upload_bytes h payload))"
    using read.prems by (metis append_eq_append_conv length_append length_take min.absorb1 min.cobounded1 min.commute take_add take_all nat_le_linear append_eq_conv_conj)+
  from read_pos [OF read.IH [OF s] u read.hyps(2) c read.hyps(3,4,5)] show ?case by simp
next
  case (resume s cx en)
  note R = resumeReading_frame [where cx = cx and en = en]
  show ?case
    by (rule at_pos_cong [OF resume.IH [OF resume.prems]])
      (simp_all add: quiet_same [OF R(1)] same_but_reading_simps [OF R(1)] R(2))
next
  case (elapse s cx ms t)
  show ?case by (rule at_pos_cong [OF elapse.IH [OF elapse.prems]]) (simp_all add: quiet_elapse [OF _ elapse.hyps(2)])
next
  case (parser s cx pt)
  show ?case by (rule at_pos_cong [OF parser.IH [OF parser.prems]]) simp_all
qed

end
