(* ===== verification/SessionSafety.thy ===== *)
theory SessionSafety
  imports SessionUpload
begin

text \<open>
  What a server session guarantees, over every sequence of socket, timer and parser events and every
  answer of libuv: which uploads are acknowledged, what is ever sent, how errors are answered, that
  silent peers are dropped, that a finished session stays finished, and that flow control cannot stall.
\<close>

section \<open>Concrete sessions\<close>

definition uv_good :: Uv where
  "uv_good = \<lparr>uv_read_start = 0, uv_read_stop = 0, uv_write = (\<lambda>_. 0), uv_describe = (\<lambda>_. [])\<rparr>"

definition env_good :: Env where
  "env_good = \<lparr>en_uv = uv_good, en_before = 0, en_after = 0\<rparr>"

definition cx_started :: Ctx where
  "cx_started = fst (session_start env_good (freshCtx 64 defaultTimeouts (newParserThread 2 64) None))"

lemma cx_started_start: "session_start env_good (freshCtx 64 defaultTimeouts (newParserThread 2 64) None) = (cx_started, True)"
  by (simp add: cx_started_def session_start_def freshCtx_def newSession_def newSocket_def sock_startRead_def env_good_def uv_good_def Let_def)

lemma cx_started_sel [simp]:
  "ss_state (cx_session cx_started) = WaitHeader" "sk_reading (ss_socket (cx_session cx_started))"
  "\<not> sk_closing (ss_socket (cx_session cx_started))" "ss_readBufferSize (cx_session cx_started) = 64"
  "pt_ring (cx_parser cx_started) = newRing 2 64" "\<not> ss_closeAfterSend (cx_session cx_started)"
  "ss_framer (cx_session cx_started) = newFramer UploadHeaderMsg ResultRequestMsg" "ss_timeouts (cx_session cx_started) = defaultTimeouts"
  by (simp_all add: cx_started_def session_start_def freshCtx_def newSession_def newSocket_def sock_startRead_def env_good_def
      uv_good_def Let_def beginSession_def) (simp_all add: armTimer_def Let_def)

lemma cx_started_reach: "session_reach 64 defaultTimeouts cx_started"
  by (rule session_reach.start [OF _ cx_started_start]) (simp add: kept_ok_def)

text \<open>A two-byte upload in one read.\<close>

definition small_header :: UploadHeader where
  "small_header = \<lparr>uh_fileSize = 2, uh_filename = ''f''\<rparr>"

definition small_upload :: string where
  "small_upload = encodeUploadHeader small_header @ ''ab'' @ encodeUploadTrailer \<lparr>ut_crc32 = crc32 0 ''ab''\<rparr>"

lemma small_header_ok: "validUploadHeader small_header" "unat (uh_fileSize small_header) = length ''ab''"
proof -
  have "isValidFilename ''f''" by code_simp
  then show "validUploadHeader small_header" by (simp add: validUploadHeader_def small_header_def kMaxFileSize_def)
  show "unat (uh_fileSize small_header) = length ''ab''" by (simp add: small_header_def)
qed

lemma length_small_upload: "length small_upload = 33"
  by (simp add: small_upload_def small_header_def encodeUploadHeader_def encodeUploadTrailer_def protocol_sizes)

lemma small_upload_run: "\<exists>cx. upload_run 64 defaultTimeouts small_upload cx"
proof -
  have s: "upload_run 64 defaultTimeouts [] cx_started"
    by (rule upload_run.start [OF _ cx_started_start]) (simp add: kept_ok_def)
  have f: "slot_free (length small_upload) cx_started"
    by (simp add: slot_free_def tryAcquireSlot_def tryAcquire_def newRing_def length_small_upload)
  obtain cx where "session_exec env_good (EvRead 64 (int (length small_upload)) small_upload) cx_started = Some cx"
    by (simp add: onAllocate_def length_small_upload Let_def)
  from upload_run.read [OF s _ f _ this] show ?thesis
    using length_small_upload by (cases "small_upload = []") (auto simp: env_good_def uv_good_def)
qed

lemma upload_run_reach: "upload_run n t s cx \<Longrightarrow> session_reach n t cx"
proof (induction rule: upload_run.induct)
  case (start kept en pt cx)
  then show ?case by (rule session_reach.start)
next
  case (read s cx c en suggested cx')
  show ?case by (rule session_reach.event [OF read.IH _ read.hyps(5)]) simp
next
  case (resume s cx en)
  show ?case by (rule session_reach.event [OF resume.IH, of EvResume en]) simp_all
next
  case (elapse s cx ms t)
  show ?case by (rule session_reach.event [OF elapse.IH, of "EvElapse ms" env_good]) (simp_all add: dispatchElapse_def elapse.hyps(2))
next
  case (parser s cx pt)
  show ?case by (rule session_reach.parser [OF parser.IH])
qed

section \<open>After cleanup\<close>

lemma cleanup_done:
  assumes i: "ctx_inv cx" and c: "ss_cleanupStarted (cx_session cx)" and e: "session_exec en ev cx = Some cx'"
  shows "\<exists>sk b n. cx' = cx\<lparr>cx_session := (cx_session cx)\<lparr>ss_socket := sk, ss_finished := b\<rparr>, cx_notified := n\<rparr> \<and>
    sk_written sk = sk_written (ss_socket (cx_session cx))"
proof -
  let ?s = "cx_session cx"
  have D: "ss_state ?s = Cleanup" "tm_due (ss_timer ?s) = None" "sk_closing (ss_socket ?s)"
    using i c by (simp_all add: ctx_inv_def sess_inv_def)
  have id: "?thesis" if "cx' = cx"
    by (intro exI [of _ "ss_socket ?s"] exI [of _ "ss_finished ?s"] exI [of _ "cx_notified cx"]) (simp add: that)
  show ?thesis
  proof (cases ev)
    case (EvRead n r b)
    then show ?thesis using e D by (simp add: Let_def split: prod.splits)
  next
    case (EvSent status)
    let ?sk = "onWriteCb (ss_socket ?s)"
    have "timer_restart (ss_timer ?s) = ss_timer ?s" using D by (simp add: timer_restart_def timer_isActive_def)
    then have "cx' = cx\<lparr>cx_session := ?s\<lparr>ss_socket := ?sk\<rparr>\<rparr>"
      using e D c EvSent by (auto simp: dispatchWrite_def onSendComplete_def onError_def cleanup_def Let_def split: if_splits)
    then show ?thesis
      by (intro exI [of _ ?sk] exI [of _ "ss_finished ?s"] exI [of _ "cx_notified cx"]) (simp add: onWriteCb_def)
  next
    case (EvElapse ms)
    then show ?thesis using e D by (intro id) (simp add: dispatchElapse_def timer_elapse_def)
  next
    case (EvAnalysis r)
    then show ?thesis using e c by (intro id) (simp add: onAnalysisComplete_def Let_def)
  next
    case EvResume
    then show ?thesis using e c by (intro id) (simp add: resumeReading_def Let_def)
  next
    case EvClosed
    let ?sk = "onCloseCb (ss_socket ?s)"
    have "cx' = cx\<lparr>cx_session := ?s\<lparr>ss_socket := ?sk, ss_finished := True\<rparr>, cx_notified := (if ss_finished ?s then cx_notified cx else True)\<rparr>"
      using e EvClosed by (auto simp: onClosed_def Let_def split: if_splits)
    then show ?thesis by (intro exI conjI) (assumption, simp add: onCloseCb_def)
  qed
qed

section \<open>Flow control\<close>

lemma consumeSlot_readStopped:
  "pt_readStopped (consumeSlot pt v) = pt_readStopped pt" "pt_readStopped pt \<Longrightarrow> pt_resumeSent (consumeSlot pt v)"
  using rest_eqs [of "pt\<lparr>pt_reassembler := fst (reasm_feed (pt_reassembler pt) v)\<rparr>" "snd (reasm_feed (pt_reassembler pt) v)"]
  by (simp_all add: consumeSlot_def Let_def split_beta)

lemma consumeSlot_resumeSent: "pt_resumeSent pt \<Longrightarrow> pt_readStopped pt \<Longrightarrow> pt_resumeSent (consumeSlot pt v)"
  by (rule consumeSlot_readStopped(2))

lemma consume_n_stopped:
  assumes "pt_readStopped pt"
  shows "pt_readStopped (consume_n k pt) \<and> (pt_ring (consume_n k pt) = pt_ring pt \<and> pt_resumeSent (consume_n k pt) = pt_resumeSent pt
    \<or> pt_resumeSent (consume_n k pt))"
  using assms
proof (induction k arbitrary: pt)
  case (Suc k)
  show ?case
  proof (cases "tryPeek (pt_ring pt) = None \<or> pt_abortRequested pt \<or> pt_stopRequested pt")
    case True
    then show ?thesis using Suc.prems by (auto split: option.split)
  next
    case False
    then obtain v where "tryPeek (pt_ring pt) = Some v" by auto
    then have "consume_n (Suc k) pt = consume_n k (consumeSlot pt v)" using False by simp
    then show ?thesis using Suc.IH [of "consumeSlot pt v"] consumeSlot_readStopped [of pt v] Suc.prems by auto
  qed
qed simp

section \<open>Refusals\<close>

lemma fail_effect:
  fixes r :: string and st :: AckStatus
  assumes "quiet (cx_session cx) up" and "uv_write (en_uv en) 0 = 0"
  defines "s' \<equiv> cx_session (failWithAck en st r cx)"
  shows "sk_written (ss_socket s') = [encodeAck \<lparr>ack_status = st, ack_receivedBytes = ss_receivedBytes (cx_session cx)\<rparr>]"
    "ss_closeAfterSend s'" "ss_state s' = ss_state (cx_session cx)" "ss_pendingFailReason s' = r"
    "0 < sk_pendingWrites (ss_socket s')" "\<not> ss_cleanupStarted s'"
  using assms(1,2) by (simp_all add: s'_def failWithAck_def sendBytes_def sock_send_def quiet_def Let_def)

lemma sent_closes:
  assumes "ss_closeAfterSend (cx_session cx)" "0 < sk_pendingWrites (ss_socket (cx_session cx))" "\<not> ss_cleanupStarted (cx_session cx)"
  shows "\<exists>cx'. session_exec en (EvSent 0) cx = Some cx' \<and> ss_state (cx_session cx') = Cleanup \<and>
    ss_finishReason (cx_session cx') = ss_pendingFailReason (cx_session cx)"
  using assms by (simp add: dispatchWrite_def onSendComplete_def cleanup_def Let_def)

definition refused_with :: "AckStatus \<Rightarrow> Ctx \<Rightarrow> bool" where
  "refused_with st cx \<longleftrightarrow> sk_written (ss_socket (cx_session cx)) = [encodeAck \<lparr>ack_status = st, ack_receivedBytes = 0\<rparr>] \<and>
    ss_state (cx_session cx) = WaitHeader \<and>
    (\<forall>en. \<exists>cx'. session_exec en (EvSent 0) cx = Some cx' \<and> ss_state (cx_session cx') = Cleanup)"

lemma fail_refused:
  assumes "quiet (cx_session cx) up" "uv_write (en_uv en) 0 = 0" "ss_receivedBytes (cx_session cx) = 0" "ss_state (cx_session cx) = WaitHeader"
  shows "refused_with st (failWithAck en st r cx)"
  unfolding refused_with_def using fail_effect [OF assms(1,2), of st r] sent_closes [of "failWithAck en st r cx"] assms(3,4) by auto

section \<open>Properties\<close>

text \<open>
  C7. However the network cuts it up and whatever the parser thread does meanwhile, an upload whose
  bytes are a valid header, exactly the announced number of payload bytes and their CRC-32 is accepted:
  the parser has been handed exactly the payload, the client is sent one Ack(OK) with its size, and the
  session waits for the analysis.
\<close>

theorem session_upload_completes:
  assumes "upload_run chunkSize timeouts (encodeUploadHeader h @ payload @ encodeUploadTrailer \<lparr>ut_crc32 = crc32 0 payload\<rparr>) cx"
    and "validUploadHeader h" and "unat (uh_fileSize h) = length payload"
  shows "ss_state (cx_session cx) = Analyzing \<and> concat (cx_uploaded cx) = payload \<and>
    sk_written (ss_socket (cx_session cx)) = [encodeAck \<lparr>ack_status = AckOk, ack_receivedBytes = of_nat (length payload)\<rparr>]"
  using upload_run_pos [OF assms(1), of h payload] assms(2,3)
  by (simp add: upload_ok_def upload_bytes_def trailer_for_def at_pos_def at_end_def)

theorem session_upload_completes_witness:
  "\<exists>cx. upload_run 64 defaultTimeouts small_upload cx \<and> ss_state (cx_session cx) = Analyzing \<and> concat (cx_uploaded cx) = ''ab''"
proof -
  obtain cx where r: "upload_run 64 defaultTimeouts small_upload cx" using small_upload_run by blast
  from session_upload_completes [OF r [unfolded small_upload_def] small_header_ok] r show ?thesis by blast
qed

text \<open>
  C8. A session reaches the analysis only with a verified upload: exactly the announced number of bytes
  was handed to the parser, the trailer received carries their CRC-32, the Ack(OK) sent reports that
  number, and nothing else was sent.  Before that, never more than announced is handed over and the
  running checksum is that of the bytes so far.
\<close>

theorem session_upload_verified:
  assumes "session_reach chunkSize timeouts cx"
  defines "s \<equiv> cx_session cx" and "up \<equiv> concat (cx_uploaded cx)"
  shows "(ss_state s = Analyzing \<longrightarrow>
      length up = unat (ss_fileSize s) \<and>
      (\<exists>t. decodeUploadTrailer (message (ss_framer s)) = Inr t \<and> ut_crc32 t = crc32_ref 0 up) \<and>
      sk_written (ss_socket s) = [encodeAck \<lparr>ack_status = AckOk, ack_receivedBytes = ss_fileSize s\<rparr>]) \<and>
    (ss_state s \<noteq> Cleanup \<longrightarrow>
      length up \<le> unat (ss_fileSize s) \<and> ss_fileSize s \<le> kMaxFileSize \<and> ss_payloadCrc s = crc32_ref 0 up)"
proof -
  have "sess_inv s (cx_uploaded cx)" using session_reach_inv [OF assms(1)] by (simp add: ctx_inv_def s_def)
  then show ?thesis
    by (auto simp: sess_inv_def phase_ok_def counts_ok_def out_acked_def okAck_def received_all_def trailer_ok_def up_def
        crc32_eq_ref [symmetric] word_le_nat_alt split: if_splits)
qed

theorem session_upload_verified_witness:
  "\<exists>cx. session_reach 64 defaultTimeouts cx \<and> ss_state (cx_session cx) = Analyzing \<and>
    length (concat (cx_uploaded cx)) = unat (ss_fileSize (cx_session cx))"
proof -
  obtain cx where r: "upload_run 64 defaultTimeouts small_upload cx" using small_upload_run by blast
  from upload_run_pos [OF r, of small_header "''ab''"] small_header_ok have "ss_state (cx_session cx) = Analyzing"
    by (simp add: upload_ok_def small_upload_def upload_bytes_def trailer_for_def at_pos_def at_end_def)
  with session_upload_verified [OF upload_run_reach [OF r]] upload_run_reach [OF r] show ?thesis by blast
qed

text \<open>
  C19. Everything a session ever sends is one of: nothing; a single refusal; Ack(OK) for a complete
  upload, possibly followed by a result header and then the whole result; or, for a result request, a
  result header followed by the rest of the result from some offset.  A result header always announces
  the size and the CRC-32 of the whole result.
\<close>

theorem session_outputs:
  assumes "session_reach chunkSize timeouts cx"
  defines "s \<equiv> cx_session cx" and "w \<equiv> sk_written (ss_socket (cx_session cx))" and "csv \<equiv> ss_csv (cx_session cx)"
  defines "ok \<equiv> encodeAck \<lparr>ack_status = AckOk, ack_receivedBytes = ss_receivedBytes s\<rparr>"
    and "hdr \<equiv> encodeResultHeader \<lparr>rh_csvSize = of_nat (length csv), rh_crc32 = crc32 0 csv\<rparr>"
  shows "w \<in> {[], [ok], [ok, hdr], [ok, hdr, csv], [hdr]} \<or> (\<exists>n<length csv. w = [hdr, drop n csv]) \<or>
    (\<exists>st. st \<noteq> AckOk \<and> w = [encodeAck \<lparr>ack_status = st, ack_receivedBytes = ss_receivedBytes s\<rparr>])"
proof -
  have "outputs_ok s" using session_reach_inv [OF assms(1)] outputs_of_inv by (auto simp: ctx_inv_def s_def)
  then show ?thesis
    unfolding outputs_ok_def out_defs s_def [symmetric] w_def csv_def ok_def hdr_def
    by (elim disjE exE conjE) (auto split: if_splits simp: le_less)
qed

theorem session_outputs_witness:
  "session_reach 64 defaultTimeouts cx_started \<and> sk_written (ss_socket (cx_session cx_started)) = []"
  using session_outputs [OF cx_started_reach] cx_started_reach
  by (simp add: cx_started_def session_start_def freshCtx_def newSession_def newSocket_def sock_startRead_def env_good_def uv_good_def Let_def)

text \<open>
  C21. A peer that falls silent is dropped: in every state that waits for the peer, the timer of that
  state is running and, when its timeout passes without an event, the session is cleaned up.  In the
  states that wait for the server's own work, and after cleanup, no amount of time has any effect.
\<close>

theorem session_silent_peer:
  assumes "session_reach chunkSize timeouts cx"
  defines "s \<equiv> cx_session cx"
  shows "(timeoutForState (ss_state s) (ss_timeouts s) > 0 \<longrightarrow>
      (\<forall>ms\<ge>timeoutForState (ss_state s) (ss_timeouts s). \<exists>cx'. session_exec en (EvElapse ms) cx = Some cx' \<and>
        ss_state (cx_session cx') = Cleanup \<and> sk_closing (ss_socket (cx_session cx')) \<and>
        ss_finishReason (cx_session cx') = ''timeout in '' @ stateName (ss_state s))) \<and>
    (timeoutForState (ss_state s) (ss_timeouts s) = 0 \<longrightarrow> session_exec en (EvElapse ms) cx = Some cx)"
proof -
  have i: "sess_inv s (cx_uploaded cx)" using session_reach_inv [OF assms(1)] by (simp add: ctx_inv_def s_def)
  have z: "tm_due (ss_timer s) = None" if "timeoutForState (ss_state s) (ss_timeouts s) = 0"
    using i that by (auto simp: sess_inv_def timer_ok_def split: if_splits)
  have p: "ss_state (cx_session (dispatchElapse en ms cx)) = Cleanup \<and> sk_closing (ss_socket (cx_session (dispatchElapse en ms cx))) \<and>
      ss_finishReason (cx_session (dispatchElapse en ms cx)) = ''timeout in '' @ stateName (ss_state s)"
    if t: "timeoutForState (ss_state s) (ss_timeouts s) > 0" "ms \<ge> timeoutForState (ss_state s) (ss_timeouts s)" for ms
  proof -
    have nc: "\<not> ss_cleanupStarted s" using i t(1) by (auto simp: sess_inv_def)
    then obtain d where d: "tm_due (ss_timer s) = Some d" "d \<le> ms" "sk_valid (ss_socket s)"
      using i t by (auto simp: sess_inv_def timer_ok_def)
    then show ?thesis
      using nc by (simp add: dispatchElapse_def timer_elapse_def onTimeout_def cleanup_def Let_def s_def [symmetric])
  qed
  show ?thesis using z p by (auto simp: dispatchElapse_def timer_elapse_def s_def)
qed

theorem session_silent_peer_witness:
  "\<exists>cx'. session_exec env_good (EvElapse 120000) cx_started = Some cx' \<and> ss_state (cx_session cx') = Cleanup"
  using session_silent_peer [OF cx_started_reach, of env_good] by (simp add: defaultTimeouts_def kResponseTimeoutMs_def)

text \<open>
  C22. Cleanup is final and happens once: after it, no event makes the session send another byte, touch
  the parser or the retained result, change its recorded reason or state; only the end of its writes and
  of its close is noted.
\<close>

theorem session_cleanup_final:
  assumes "session_reach chunkSize timeouts cx" and "ss_cleanupStarted (cx_session cx)" and "session_exec en ev cx = Some cx'"
  shows "ss_state (cx_session cx') = Cleanup \<and> ss_cleanupStarted (cx_session cx') \<and>
    ss_finishReason (cx_session cx') = ss_finishReason (cx_session cx) \<and>
    sk_written (ss_socket (cx_session cx')) = sk_written (ss_socket (cx_session cx)) \<and>
    cx_parser cx' = cx_parser cx \<and> cx_retained cx' = cx_retained cx \<and> cx_uploaded cx' = cx_uploaded cx"
proof -
  note i = session_reach_inv [OF assms(1)]
  then have "ss_state (cx_session cx) = Cleanup" using assms(2) by (simp add: ctx_inv_def sess_inv_def)
  with cleanup_done [OF i assms(2,3)] assms(2) show ?thesis by auto
qed

theorem session_cleanup_final_witness:
  "\<exists>cx cx'. session_reach 64 defaultTimeouts cx \<and> ss_cleanupStarted (cx_session cx) \<and>
    session_exec env_good EvResume cx = Some cx' \<and> ss_state (cx_session cx') = Cleanup"
proof -
  define cx where "cx = dispatchElapse env_good 120000 cx_started"
  have r: "session_reach 64 defaultTimeouts cx"
    by (rule session_reach.event [OF cx_started_reach, of "EvElapse 120000" env_good]) (simp_all add: cx_def)
  have t: "tm_due (ss_timer (cx_session cx_started)) = Some 120000" "\<not> ss_cleanupStarted (cx_session cx_started)"
    by (simp_all add: cx_started_def session_start_def freshCtx_def newSession_def newSocket_def sock_startRead_def env_good_def
        uv_good_def Let_def) (simp add: armTimer_def Let_def timer_start_def defaultTimeouts_def kResponseTimeoutMs_def)
  then have c: "ss_cleanupStarted (cx_session cx)" by (simp add: cx_def dispatchElapse_def timer_elapse_def onTimeout_def cleanup_def Let_def)
  from session_cleanup_final [OF r c, of env_good EvResume "resumeReading env_good cx"] r c show ?thesis by auto
qed

text \<open>
  C20. The two classes of bad first messages: a stream with a wrong magic, version or type, or a message that
  cannot be decoded, is closed without a byte of answer; an upload header or a result request with an
  unacceptable value, a result request no retained result answers, and one whose offset is beyond the end of
  that result, get exactly one Ack naming the reason, and the connection is closed once it is sent.
\<close>

theorem session_header_errors:
  fixes en :: Env
  assumes "session_reach chunkSize timeouts cx" and "ss_state (cx_session cx) = WaitHeader" and "\<not> ss_closeAfterSend (cx_session cx)"
    and "feed (ss_framer (cx_session cx)) bytes = (f, n)"
  defines "cx' \<equiv> snd (consumeHeader en bytes cx)"
  shows "(fr_status f \<in> {BadMagic, BadVersion, BadType} \<longrightarrow>
      ss_state (cx_session cx') = Cleanup \<and> sk_written (ss_socket (cx_session cx')) = []) \<and>
    (\<forall>e. fr_status f = Ok \<and> e \<noteq> BadValue \<and>
        (messageType f = Some UploadHeaderMsg \<and> decodeUploadHeader (message f) = Inl e \<or>
         messageType f = Some ResultRequestMsg \<and> decodeResultRequest (message f) = Inl e) \<longrightarrow>
      ss_state (cx_session cx') = Cleanup \<and> sk_written (ss_socket (cx_session cx')) = []) \<and>
    (uv_write (en_uv en) 0 = 0 \<longrightarrow>
      (fr_status f = BadValue \<longrightarrow> refused_with ProtocolError cx') \<and>
      (fr_status f = Ok \<and> messageType f = Some UploadHeaderMsg \<and> decodeUploadHeader (message f) = Inl BadValue \<longrightarrow>
        refused_with ProtocolError cx') \<and>
      (fr_status f = Ok \<and> messageType f = Some ResultRequestMsg \<and> decodeResultRequest (message f) = Inl BadValue \<longrightarrow>
        refused_with ProtocolError cx') \<and>
      (\<forall>rq. fr_status f = Ok \<and> messageType f = Some ResultRequestMsg \<and> decodeResultRequest (message f) = Inr rq \<longrightarrow>
        (retainedResult (cx_retained cx) (rr_filename rq) (rr_fileSize rq) (rr_crc32 rq) = None \<longrightarrow> refused_with NoSuchResult cx') \<and>
        (\<forall>kept. retainedResult (cx_retained cx) (rr_filename rq) (rr_fileSize rq) (rr_crc32 rq) = Some kept \<and>
          length (rt_csv kept) < unat (rr_startOffset rq) \<longrightarrow> refused_with ProtocolError cx')))"
proof -
  define cx1 where "cx1 = cx\<lparr>cx_session := (cx_session cx)\<lparr>ss_framer := f\<rparr>\<rparr>"
  have i: "sess_inv (cx_session cx) (cx_uploaded cx)" using session_reach_inv [OF assms(1)] by (simp add: ctx_inv_def)
  have q: "quiet (cx_session cx1) (cx_uploaded cx)" using quiet_of_inv [OF i] assms(2,3) by (simp add: cx1_def)
  have z: "ss_receivedBytes (cx_session cx1) = 0" "ss_state (cx_session cx1) = WaitHeader"
    using i assms(2,3) q by (auto simp: cx1_def sess_inv_def phase_ok_def quiet_def split: if_splits)
  have F: "feedFramer bytes cx = (fr_status f, n, cx1)" using assms(4) by (simp add: feedFramer_def cx1_def)
  note R = fail_refused [OF q _ z, of en]
  have b: "fr_status f \<in> {BadMagic, BadVersion, BadType} \<longrightarrow> cx' = cleanup en ''bad preamble in header'' cx1"
    by (auto simp: cx'_def consumeHeader_def F closeSilently_def)
  have "ss_state (cx_session (cleanup en r cx1)) = Cleanup \<and> sk_written (ss_socket (cx_session (cleanup en r cx1))) = []" for r
    using q by (simp add: cleanup_def quiet_def Let_def)
  note quietly = this
  have u: "cx' = cleanup en ''header decode failed'' cx1"
    if "fr_status f = Ok" "messageType f = Some UploadHeaderMsg" "decodeUploadHeader (message f) = Inl e" "e \<noteq> BadValue" for e
    using that by (cases e) (auto simp: cx'_def consumeHeader_def F cx1_def closeSilently_def)
  have r: "cx' = cleanup en ''result request decode failed'' cx1"
    if "fr_status f = Ok" "messageType f = Some ResultRequestMsg" "decodeResultRequest (message f) = Inl e" "e \<noteq> BadValue" for e
    using that by (cases e) (auto simp: cx'_def consumeHeader_def F cx1_def handleResultRequest_def closeSilently_def)
  have silent: "ss_state (cx_session cx') = Cleanup \<and> sk_written (ss_socket (cx_session cx')) = []"
    if "fr_status f = Ok \<and> e \<noteq> BadValue \<and> (messageType f = Some UploadHeaderMsg \<and> decodeUploadHeader (message f) = Inl e \<or>
         messageType f = Some ResultRequestMsg \<and> decodeResultRequest (message f) = Inl e)" for e
    using that u [of e] r [of e] quietly by auto
  have rq: "cx' = handleResultRequest en cx1" if "fr_status f = Ok" "messageType f = Some ResultRequestMsg"
    using that by (simp add: cx'_def consumeHeader_def F cx1_def)
  have up: "cx' = failWithAck en ProtocolError ''invalid header value'' cx1"
    if "fr_status f = Ok" "messageType f = Some UploadHeaderMsg" "decodeUploadHeader (message f) = Inl BadValue"
    using that by (simp add: cx'_def consumeHeader_def F cx1_def)
  have bv: "cx' = failWithAck en ProtocolError ''header value out of range'' cx1" if "fr_status f = BadValue"
    using that by (simp add: cx'_def consumeHeader_def F)
  have keep: "cx_retained cx1 = cx_retained cx" "ss_framer (cx_session cx1) = f" by (simp_all add: cx1_def)
  show ?thesis
    using b quietly silent R up bv rq keep by (auto simp: handleResultRequest_def)
qed

theorem session_header_errors_witness:
  "ss_state (cx_session (snd (consumeHeader env_good ''GET / HTTP/1.1'' cx_started))) = Cleanup"
proof -
  have e: "expectedMessageSize ''GET / HT'' = Inl BadMagic" by code_simp
  let ?f = "(newFramer UploadHeaderMsg ResultRequestMsg)\<lparr>fr_buffer := ''GET / HT'', fr_status := BadMagic\<rparr>"
  have t0: "feed_target (newFramer UploadHeaderMsg ResultRequestMsg) = Inr 8"
    by (simp add: feed_target_def expectedMessageSize_def newFramer_def protocol_sizes)
  have t1: "feed_target ((newFramer UploadHeaderMsg ResultRequestMsg)\<lparr>fr_buffer := ''GET / HT''\<rparr>) = Inl BadMagic"
    by (simp add: feed_target_def e Let_def)
  have "feed (newFramer UploadHeaderMsg ResultRequestMsg) ''GET / HTTP/1.1'' = (?f, 8)"
    by (simp add: feed_def feed_loop_Inr [OF t0] Let_def t1)
  then show ?thesis
    using session_header_errors [OF cx_started_reach, of "''GET / HTTP/1.1''" ?f 8 env_good] by simp
qed

text \<open>
  Flow control in the model of this theory, where the accesses of the two threads take effect in program order.
  When the receiver stops reading because the ring is full,
  then whatever the parser thread consumed just before, during or after the stop, either reading has
  already resumed, or the ring is still full, or the parser has signalled that there is room; and that
  signal, when there is room, resumes the reading.  \<^verbatim>\<open>FlowControl\<close> treats the memory orders the code asks for.
\<close>

lemma backpressure_no_lost_wakeup:
  fixes k :: nat
  assumes "\<not> ss_cleanupStarted (cx_session cx)" and "sk_valid (ss_socket (cx_session cx))" and "\<not> sk_closing (ss_socket (cx_session cx))"
    and "sk_reading (ss_socket (cx_session cx))" and "uv_read_start (en_uv en) = 0"
  defines "cx' \<equiv> applyBackpressure en cx"
  defines "later \<equiv> cx'\<lparr>cx_parser := consume_n k (cx_parser cx')\<rparr>"
  shows "(sk_reading (ss_socket (cx_session cx')) \<or>
      pt_readStopped (cx_parser later) \<and> (ringFull (cx_parser later) \<or> pt_resumeSent (cx_parser later))) \<and>
    (\<not> ringFull (cx_parser later) \<longrightarrow> sk_reading (ss_socket (cx_session (resumeReading en later))))"
proof -
  let ?s = "cx_session cx"
  define pt2 where "pt2 = consume_n (en_after en) (setReadStopped True (consume_n (en_before en) (cx_parser cx)))"
  define cx1 where "cx1 = cx\<lparr>cx_session := ?s\<lparr>ss_socket := snd (sock_stopRead (en_uv en) (ss_socket ?s))\<rparr>, cx_parser := pt2\<rparr>"
  have eq: "cx' = (if ringFull (cx_parser cx) then if \<not> ringFull pt2 then resumeReading en cx1 else cx1 else cx)"
    using assms(4) by (simp add: cx'_def applyBackpressure_def Let_def cx1_def pt2_def)
  have resume: "sk_reading (ss_socket (cx_session (resumeReading en x)))"
    if "\<not> ss_cleanupStarted (cx_session x)" "sk_valid (ss_socket (cx_session x))" "\<not> sk_closing (ss_socket (cx_session x))"
      "\<not> ringFull (cx_parser x)" for x
    using that assms(5) by (simp add: resumeReading_def sock_startRead_def Let_def)
  have live1: "\<not> ss_cleanupStarted (cx_session cx1)" "sk_valid (ss_socket (cx_session cx1))" "\<not> sk_closing (ss_socket (cx_session cx1))"
    using assms(1-3) by (simp_all add: cx1_def)
  have "pt_readStopped pt2" using consume_n_stopped unfolding pt2_def by (simp add: setReadStopped_def)
  then have st: "pt_readStopped (consume_n k pt2)" "ringFull pt2 \<Longrightarrow> ringFull (consume_n k pt2) \<or> pt_resumeSent (consume_n k pt2)"
    using consume_n_stopped [of pt2 k] by (auto simp: ringFull_def)
  have "same_but_reading ?s (cx_session cx')" unfolding cx'_def by (rule applyBackpressure_frame)
  note S = same_but_reading_simps [OF this]
  have l: "\<not> ss_cleanupStarted (cx_session later)" "sk_valid (ss_socket (cx_session later))" "\<not> sk_closing (ss_socket (cx_session later))"
    using assms(1-3) by (simp_all add: later_def S)
  show ?thesis
    using eq resume [OF live1] st assms(4) resume [OF l] by (auto simp: later_def cx1_def split: if_splits)
qed

end
