(* ===== verification/ParserProgress.thy ===== *)
theory ParserProgress
  imports ParserThread
begin

text \<open>
  Progress of the parser thread: once an upload is marked complete, its own steps lead to the result; and the
  one gap in the separation of sessions, a session cut off while its analysis is pending.
\<close>

section \<open>From the end of an upload to its result\<close>

text \<open>An upper bound on the steps that remain.\<close>

fun steps_left :: "ParserPc \<Rightarrow> nat \<Rightarrow> nat" where
  "steps_left AtReset n = 1"
| "steps_left AtFinish n = 2"
| "steps_left AtConsume n = n + 4"
| "steps_left AtWoke n = n + 5"
| "steps_left AtWait n = n + 6"
| "steps_left AtCheck n = (if n = 0 then 3 else n + 7)"
| "steps_left _ n = 0"

definition w_left :: "World \<Rightarrow> nat" where
  "w_left w = steps_left (w_pc w) (length (ring_contents (pt_ring (w_pt w))))"

definition analysis_pending :: "World \<Rightarrow> bool" where
  "analysis_pending w \<longleftrightarrow> world_inv w \<and> w_phase w = Analyzing \<and> \<not> pt_stopRequested (w_pt w) \<and> w_pc w \<noteq> AtStopped"

lemma pending_consume:
  assumes p: "analysis_pending w" and pc: "w_pc w = AtConsume" and c: "\<not> pt_completionSent (w_pt w)"
  shows "\<exists>w'. parser_run w = Some w' \<and> \<not> pt_stopRequested (w_pt w') \<and> w_pc w' \<noteq> AtStopped \<and> w_left w' < w_left w"
proof -
  have a: "\<not> pt_abortRequested (w_pt w)" and i: "ring_inv (pt_ring (w_pt w))" and st: "\<not> pt_stopRequested (w_pt w)"
    using p by (auto simp: analysis_pending_def world_inv_def)
  show ?thesis
  proof (cases "tryPeek (pt_ring (w_pt w))")
    case None
    then have "ring_empty (pt_ring (w_pt w))" by (simp add: ring_empty_contents tryPeek_None_Nil)
    then show ?thesis using None pc st by (simp add: parser_run_def w_left_def ring_empty_def)
  next
    case (Some v)
    then have ne: "ring_contents (pt_ring (w_pt w)) \<noteq> []" by (metis tryPeek_Some_Cons list.discI)
    then have "length (ring_contents (release (pt_ring (w_pt w)))) < length (ring_contents (pt_ring (w_pt w)))"
      using ring_contents_release [OF i ne] by (cases "ring_contents (pt_ring (w_pt w))") (simp_all del: length_ring_contents)
    then show ?thesis using Some pc a st by (simp add: parser_run_def w_left_def consumeSlot_rest)
  qed
qed

lemma pending_step:
  assumes p: "analysis_pending w" and c: "\<not> pt_completionSent (w_pt w)"
  shows "\<exists>w'. parser_run w = Some w' \<and> analysis_pending w' \<and> (pt_completionSent (w_pt w') \<or> w_left w' < w_left w)"
proof -
  have D: "\<not> pt_abortRequested (w_pt w)" "pt_uploadComplete (w_pt w)" "\<not> pt_stopRequested (w_pt w)"
    "w_pc w \<in> {AtReset, AtFinish, AtWait, AtWoke, AtConsume, AtCheck}"
    using p c by (auto simp: analysis_pending_def world_inv_def analyzing_ok_def before_finish_def)
  have "\<exists>w'. parser_run w = Some w' \<and> \<not> pt_stopRequested (w_pt w') \<and> w_pc w' \<noteq> AtStopped \<and>
      (pt_completionSent (w_pt w') \<or> w_left w' < w_left w)"
  proof (cases "w_pc w = AtConsume")
    case True
    with pending_consume [OF p True c] show ?thesis by blast
  next
    case False
    then show ?thesis
      using D by (auto simp: parser_run_def w_left_def Let_def finishResult_rest finishReset_rest ring_empty_def)
  qed
  then show ?thesis
    using p world_inv_parser parser_run_frame unfolding analysis_pending_def by metis
qed

lemma pending_completes:
  "analysis_pending w \<Longrightarrow> \<exists>k w'. pt_run (replicate k PRun) w = Some w' \<and> analysis_pending w' \<and> pt_completionSent (w_pt w')"
proof (induction "w_left w" arbitrary: w rule: less_induct)
  case less
  show ?case
  proof (cases "pt_completionSent (w_pt w)")
    case True
    then show ?thesis using less.prems by (intro exI [of _ 0]) simp
  next
    case False
    then obtain w1 where w1: "parser_run w = Some w1" "analysis_pending w1" "pt_completionSent (w_pt w1) \<or> w_left w1 < w_left w"
      using pending_step [OF less.prems] by blast
    then obtain k w' where "pt_run (replicate k PRun) w1 = Some w'" "analysis_pending w'" "pt_completionSent (w_pt w')"
      using less.hyps [of w1] by (metis pt_run.simps(1) replicate_0)
    then show ?thesis using w1(1) by (intro exI [of _ "Suc k"]) simp
  qed
qed

lemma parser_runs_frame:
  "pt_run (replicate k PRun) w = Some w' \<Longrightarrow> w_phase w' = w_phase w \<and> w_sent w' = w_sent w \<and> w_cutOff w' = w_cutOff w"
  by (induction k arbitrary: w) (auto dest: parser_run_frame split: option.splits)

section \<open>Where sessions are not kept apart\<close>

lemma abandoned_analysis:
  "\<exists>w. pt_run [LBegin [] [], LMark, LEnd, PRun, PRun, PRun, PRun, PRun, PRun, PRun, LBegin [] []] (initWorld 2 4) = Some w \<and>
    w_cutOff w \<and> w_phase w = Uploading \<and> w_sent w = [] \<and> w_pc w = AtFinish \<and> pt_ring (w_pt w) = newRing 2 4 \<and> at_stream [] (w_pt w)"
proof -
  have "lr_maxLen (pt_reassembler (newParserThread 2 4)) = kMaxLineLength" by (simp add: newParserThread_def newReassembler_def)
  then show ?thesis by (simp add: run_simps reset_at)
qed

section \<open>Properties\<close>

text \<open>
  Analyses finish: from any reachable state in which an upload is complete and its analysis is awaited,
  the parser thread, which has not been told to stop, reaches the completion signal by its own steps, with
  the analysis of exactly the uploaded bytes.
\<close>

theorem analysis_completes:
  assumes "pt_reach n sz w" and "\<not> w_cutOff w" and "0 < n" and "n < 2 ^ 64"
    and "w_phase w = Analyzing" and "\<not> pt_stopRequested (w_pt w)" and "w_pc w \<noteq> AtStopped"
  shows "\<exists>k w'. pt_run (replicate k PRun) w = Some w' \<and> pt_completionSent (w_pt w') \<and>
    pt_result (w_pt w') = analysis_of (concat (w_sent w))"
proof -
  have "analysis_pending w" using pt_reach_inv [OF assms(1-4)] assms(5-7) by (simp add: analysis_pending_def)
  then obtain k w' where w': "pt_run (replicate k PRun) w = Some w'" "analysis_pending w'" "pt_completionSent (w_pt w')"
    using pending_completes by blast
  then have "pt_result (w_pt w') = analysis_of (concat (w_sent w'))"
    by (auto simp: analysis_pending_def world_inv_def analyzing_ok_def)
  with w' parser_runs_frame [OF w'(1)] show ?thesis by auto
qed

theorem analysis_completes_witness:
  "\<exists>w k w'. pt_reach 2 4 w \<and> pt_run (replicate k PRun) w = Some w' \<and> pt_result (w_pt w') = analysis_of []"
proof -
  obtain w where r: "pt_run [LBegin [] [], LMark] (initWorld 2 4) = Some w"
    and s: "w_phase w = Analyzing" "w_sent w = []" "\<not> w_cutOff w" "\<not> pt_stopRequested (w_pt w)" "w_pc w \<noteq> AtStopped"
    by (simp add: run_simps)
  have "pt_reach 2 4 w" by (rule pt_run_reach [OF r pt_reach.start])
  with s analysis_completes [of 2 4 w] show ?thesis by fastforce
qed

text \<open>
  C39. The limit of that separation: a session cut off while its analysis is pending leaves the completion flag
  behind, so that the parser may already be finishing when the next session begins.  In the run below the
  second session uploads one line and is given a result of no lines at all.
\<close>

theorem cut_off_analysis_leaks:
  "\<exists>w. pt_reach 2 4 w \<and> w_cutOff w \<and> w_phase w = Sending \<and> concat (w_sent w) = [CHR ''y'', CHR 0x0A] \<and>
    ar_totalLines (w_delivered w) = 0 \<and> ar_totalLines (analysis_of (concat (w_sent w))) = 1"
proof -
  obtain w where w: "pt_reach 2 4 w" "w_cutOff w" "w_phase w = Uploading" "w_sent w = []" "w_pc w = AtFinish"
    "pt_ring (w_pt w) = newRing 2 4" "at_stream [] (w_pt w)"
    using abandoned_analysis pt_run_reach [OF _ pt_reach.start] by blast
  let ?pt = "(w_pt w)\<lparr>pt_ring := writeAt 0 [CHR ''y'', CHR 0x0A] (newRing 2 4)\<rparr>"
  have "ar_totalLines (pt_result (finishResult (markUploadComplete (commitSlot 2 ?pt)))) = 0"
    using finishResult_at(1) [of "[]"] w(7) by (simp add: markUploadComplete_def commitSlot_def analysis_of_lines lines_of_def Let_def)
  moreover have "ar_totalLines (analysis_of [CHR ''y'', CHR 0x0A]) = 1"
    by (simp add: analysis_of_lines lines_of_def newline_def Let_def)
  moreover have "tryAcquireSlot (w_pt w) = Some (0, 4)" "chunk_fits [CHR ''y'', CHR 0x0A] (newRing 2 4)"
    using w(6) by (simp_all add: tryAcquireSlot_def tryAcquire_def newRing_def chunk_fits_def commit_ok_def)
  moreover from this obtain w' where "pt_run [LCommit [CHR ''y'', CHR 0x0A] [], LMark, PRun, PRun, LComplete] w = Some w'" "w_cutOff w'" "w_phase w' = Sending"
      "w_sent w' = [[CHR ''y'', CHR 0x0A]]" "w_delivered w' = pt_result (finishResult (markUploadComplete (commitSlot 2 ?pt)))"
    using w by (simp add: parser_run_def Let_def finishReset_rest onCompletionAsync_def numeral_2_eq_2)
  ultimately show ?thesis using pt_run_reach [OF _ w(1)] by fastforce
qed

end
