(* ===== verification/ServerCorrect.thy ===== *)
theory ServerCorrect
  imports ServerMatch SessionSafety ParserProgress
begin

text \<open>
  The server as a whole.  Each run of the manager, its sessions and the parser thread is matched by a run of
  the two-thread model of \<open>ParserThread\<close>; so what holds there, in particular which bytes a result is computed
  from, holds for what the sessions send to their clients and for the result kept for resuming.
\<close>

section \<open>Matching the manager\<close>

definition mgr_match :: "World \<Rightarrow> ParserPc \<Rightarrow> SessionManager \<Rightarrow> bool" where
  "mgr_match w pc m \<longleftrightarrow> w_pt w = mg_parser m \<and> w_pc w = pc \<and> w_cutOff w = mg_cutOff m \<and>
    rb_slotCount (pt_ring (w_pt w)) dvd 2 ^ 64 \<and>
    (case mg_session m of
       None \<Rightarrow> mg_closing m \<or> w_phase w = Idle
     | Some s \<Rightarrow> w_sent w = mg_uploaded m \<and> phase_match (w_phase w) (mg_retained m) s)"

text \<open>What the manager keeps besides: a finished session has been cleaned up, and a closed manager has none.\<close>

definition mgr_inv :: "SessionManager \<Rightarrow> bool" where
  "mgr_inv m \<longleftrightarrow> kept_ok (mg_retained m) \<and> (mg_closing m \<longrightarrow> mg_session m = None \<and> \<not> mg_idleStarted m) \<and>
    (case mg_session m of
       None \<Rightarrow> mg_sessionFinished m \<longrightarrow> mg_closing m
     | Some s \<Rightarrow> sess_inv s (mg_uploaded m) \<and> (mg_sessionFinished m \<longrightarrow> ss_cleanupStarted s))"

definition mgr_follows :: "ParserPc \<Rightarrow> SessionManager \<Rightarrow> SessionManager \<Rightarrow> bool" where
  "mgr_follows pc m m' \<longleftrightarrow> (\<forall>w. mgr_match w pc m \<longrightarrow> (\<exists>as w'. pt_run as w = Some w' \<and> mgr_match w' pc m'))"

lemma mgr_follows_refl [simp]: "mgr_follows pc m m"
  unfolding mgr_follows_def by (metis pt_run.simps(1))

lemma mgr_follows_trans: "mgr_follows pc a b \<Longrightarrow> mgr_follows pc b c \<Longrightarrow> mgr_follows pc a c"
  unfolding mgr_follows_def by (metis pt_run_append option.simps(5))

lemma mgr_follows_action:
  assumes "\<And>w. mgr_match w pc m \<Longrightarrow> \<exists>w'. pt_exec a w = Some w' \<and> mgr_match w' pc m'"
  shows "mgr_follows pc m m'"
  unfolding mgr_follows_def
proof (intro allI impI)
  fix w assume "mgr_match w pc m"
  then obtain w' where "pt_run [a] w = Some w'" "mgr_match w' pc m'" using assms by fastforce
  then show "\<exists>as w'. pt_run as w = Some w' \<and> mgr_match w' pc m'" by blast
qed

lemma mgr_follows_same:
  assumes "\<And>w. mgr_match w pc m \<Longrightarrow> mgr_match w pc m'"
  shows "mgr_follows pc m m'"
  unfolding mgr_follows_def using assms by (metis pt_run.simps(1))

lemma absorb_simps [simp]:
  "mg_session (absorb cx m) = Some (cx_session cx)" "mg_parser (absorb cx m) = cx_parser cx"
  "mg_retained (absorb cx m) = cx_retained cx" "mg_uploaded (absorb cx m) = cx_uploaded cx"
  "mg_cutOff (absorb cx m) = cx_cutOff cx" "mg_closing (absorb cx m) = mg_closing m"
  "mg_sessionFinished (absorb cx m) = (cx_notified cx \<or> mg_sessionFinished m)"
  by (simp_all add: absorb_def onSessionFinished_def Let_def)

lemma matches_mgr:
  "mg_session m = Some s \<Longrightarrow> mgr_match w pc m = matches w pc (ctx_of s m)"
  by (auto simp: mgr_match_def matches_def linked_def ctx_of_def)

lemma matches_absorb: "matches w pc cx \<Longrightarrow> mgr_match w pc (absorb cx m)"
  by (auto simp: mgr_match_def matches_def linked_def)

lemma absorb_follows:
  assumes "mg_session m = Some s" and "follows_by pc (ctx_of s m) cx"
  shows "mgr_follows pc m (absorb cx m)"
  unfolding mgr_follows_def using assms matches_absorb matches_mgr unfolding follows_by_def by metis

text \<open>Handlers that tell the observer: only the end of a close does.\<close>

lemma ctx_inv_of: "ctx_inv (ctx_of s m) \<longleftrightarrow> sess_inv s (mg_uploaded m) \<and> kept_ok (mg_retained m)"
  by (simp add: ctx_inv_def ctx_of_def)

lemma cleaned_stays [simp]: "ss_cleanupStarted (cx_session (cleanup en r cx))"
  by (simp add: cleanup_def Let_def)

text \<open>
  No handler of data, writes or time tells the observer that the session has finished or changes the kept result.
\<close>

definition told :: "Ctx \<Rightarrow> bool \<times> RetainedResult option" where
  "told cx = (cx_notified cx, cx_retained cx)"

lemma told_upd [simp]:
  "told (cx\<lparr>cx_session := s\<rparr>) = told cx" "told (cx\<lparr>cx_parser := pt\<rparr>) = told cx" "told (cx\<lparr>cx_uploaded := up\<rparr>) = told cx"
  "told (cx\<lparr>cx_cutOff := b\<rparr>) = told cx"
  by (simp_all add: told_def)

lemma told_basic [simp]:
  "told (cleanup en r cx) = told cx" "told (resumeReading en cx) = told cx"
  "told (commitChunk bs cx) = told cx" "told (writeSlot off bs cx) = told cx"
  "told (snd (sendBytes en bs cx)) = told cx"
  "told (fillBuffer wb bs cx) = told cx" "told (snd (onAllocate n cx)) = told cx"
  by (cases wb; simp add: cleanup_def resumeReading_def commitChunk_def writeSlot_def sendBytes_def
      onAllocate_def Let_def split_beta split: option.split)+

lemma notified_basic [simp]:
  "cx_notified (cleanup en r cx) = cx_notified cx" "cx_notified (resumeReading en cx) = cx_notified cx"
  by (simp_all add: cleanup_def resumeReading_def Let_def)

lemma told_moves [simp]:
  "told (transition en nxt cx) = told cx" "told (failWithAck en st r cx) = told cx"
  "told (applyBackpressure en cx) = told cx"
  by (simp_all add: transition_def failWithAck_def applyBackpressure_def Let_def split_beta)

lemma told_copy [simp]: "told (fst (copyPayload bs cx)) = told cx"
  by (induction bs cx rule: copyPayload.induct) (subst copyPayload.simps, auto simp: Let_def split: option.split)

lemma told_analyze [simp]: "told (analyzeAndSendResult en cx) = told cx"
  by (simp add: analyzeAndSendResult_def Let_def)

lemma told_verify [simp]: "told (verifyAndAck en cx) = told cx"
  by (simp add: verifyAndAck_def closeSilently_def Let_def split_beta split: sum.split)

lemma told_request [simp]: "told (handleResultRequest en cx) = told cx"
  by (simp add: handleResultRequest_def closeSilently_def Let_def split_beta split: sum.split option.split DecodeStatus.split)

lemma told_messages [simp]:
  "told (snd (consumePayload en bs cx)) = told cx" "told (snd (consumeTrailer en bs cx)) = told cx"
  "told (snd (consumeHeader en bs cx)) = told cx" "told (snd (consumeDone en bs cx)) = told cx"
  by (simp_all add: consumePayload_def consumeTrailer_def consumeHeader_def consumeDone_def feedFramer_def closeSilently_def
      Let_def split_beta split: sum.split DecodeStatus.split)

lemma told_step [simp]: "told (snd (consumeStep en bs cx)) = told cx"
  by (simp add: consumeStep_def closeSilently_def Let_def split: SessionState.split)

lemma told_loop [simp]: "told (readLoop en bs cx) = told cx"
proof (induction en bs cx rule: readLoop.induct)
  case (1 en bs cx)
  obtain n cx1 where c: "consumeStep en bs cx = (n, cx1)" by fastforce
  then have "told cx1 = told cx" by (metis told_step snd_conv)
  with 1 c show ?case by (subst readLoop.simps) auto
qed

lemma told_events [simp]:
  "told (onRead en bs cx) = told cx" "told (onSendComplete en st cx) = told cx"
  by (simp_all add: onRead_def readIntoSlot_def onSendComplete_def Let_def split_beta)

lemma onAnalysisComplete_notified [simp]: "cx_notified (onAnalysisComplete en r cx) = cx_notified cx"
proof -
  have *: "cx_notified cx' = fst (told cx')" for cx' by (simp add: told_def)
  show ?thesis unfolding * by (simp add: onAnalysisComplete_def onResultRetained_def Let_def split_beta) (simp add: told_def)
qed

lemma exec_told:
  assumes "session_exec en ev cx = Some cx'" and "socket_event ev" and "ev \<noteq> EvClosed"
  shows "told cx' = told cx"
proof (cases ev)
  case (EvRead sz nread buf)
  have "told (dispatchRead en wb ev' (snd (onAllocate sz cx))) = told cx" for wb ev'
    by (simp add: dispatchRead_def onError_def split: ReadEvent.split)
  then show ?thesis using assms(1) EvRead by (auto simp: split_beta Let_def split: if_splits)
qed (use assms in \<open>auto simp: socket_event_def dispatchWrite_def dispatchElapse_def onTimeout_def onError_def Let_def split_beta split: if_splits\<close>)

lemma exec_notified:
  assumes "ctx_inv cx" and e: "session_exec en ev cx = Some cx'" "socket_event ev" and n: "\<not> cx_notified cx" "cx_notified cx'"
  shows "ss_cleanupStarted (cx_session cx')"
proof (cases "ev = EvClosed")
  case True
  then show ?thesis using assms by (auto simp: ctx_inv_def sess_inv_def onClosed_def Let_def split: if_splits)
next
  case False
  with exec_told [OF e] n show ?thesis by (simp add: told_def)
qed

lemma exec_retained: "session_exec en ev cx = Some cx' \<Longrightarrow> socket_event ev \<Longrightarrow> cx_retained cx' = cx_retained cx"
  using exec_told [of en ev cx cx'] by (cases "ev = EvClosed") (auto simp: told_def onClosed_def Let_def split: if_splits)

section \<open>Steps of the manager\<close>

text \<open>Absorbing what a handler of the session did.\<close>

lemma absorb_inv:
  assumes "mgr_inv m" and "mg_session m = Some s" and "ctx_inv cx"
    and "cx_notified cx \<Longrightarrow> ss_cleanupStarted (cx_session cx)"
    and "ss_cleanupStarted s \<Longrightarrow> ss_cleanupStarted (cx_session cx)"
  shows "mgr_inv (absorb cx m)"
  using assms by (auto simp: mgr_inv_def ctx_inv_def)

lemma session_step:
  assumes m: "mgr_inv m" and s: "mg_session m = Some s" and e: "session_exec en ev (ctx_of s m) = Some cx" "socket_event ev"
    and pc: "env_ok pc en"
  shows "mgr_follows pc m (absorb cx m)" and "mgr_inv (absorb cx m)"
proof -
  have i: "ctx_inv (ctx_of s m)" using m s by (simp add: mgr_inv_def ctx_inv_of)
  show "mgr_follows pc m (absorb cx m)" using absorb_follows [OF s follows_exec [OF pc i e]] .
  have "ctx_inv cx" by (rule exec_inv [OF i e(1)]) (use e(2) in \<open>auto simp: socket_event_def\<close>)
  moreover have "ss_cleanupStarted s \<Longrightarrow> ss_cleanupStarted (cx_session cx)"
    using cleanup_done [OF i _ e(1)] by (auto simp: ctx_of_def)
  moreover have "cx_notified cx \<Longrightarrow> ss_cleanupStarted (cx_session cx)"
    using exec_notified [OF i e] by (simp add: ctx_of_def)
  ultimately show "mgr_inv (absorb cx m)" by (intro absorb_inv [OF m s])
qed

lemma ctx_of_fresh:
  "mg_uploaded m = [] \<Longrightarrow> \<not> mg_cutOff m \<Longrightarrow>
   ctx_of (newSession (newSocket True) c t) m = freshCtx c t (mg_parser m) (mg_retained m)"
  by (simp add: ctx_of_def freshCtx_def)

text \<open>A session begins only here: nothing is active and no abort is pending.\<close>

lemma start_mgr:
  assumes m: "mgr_inv m" and n: "mg_session m = None" "\<not> mg_closing m" and a: "\<not> pt_abortRequested (mg_parser m)"
    and s: "session_start en (ctx_of (newSession (newSocket True) c t) (m\<lparr>mg_pendingConnection := False, mg_uploaded := []\<rparr>)) = (cx, started)"
  defines "m1 \<equiv> m\<lparr>mg_pendingConnection := False, mg_uploaded := []\<rparr>"
  defines "m' \<equiv> (if started then absorb cx m1 else (absorb cx m1)\<lparr>mg_session := None\<rparr>)"
  shows "mgr_follows pc m m'" and "mgr_inv m'"
proof -
  define s0 where "s0 = newSession (newSocket True) c t"
  obtain rc sk where r: "sock_startRead (en_uv en) (ss_socket s0) = (rc, sk)" by fastforce
  have st: "ss_state s0 = WaitHeader" "\<not> ss_cleanupStarted s0" by (simp_all add: s0_def newSession_def)
  note S = s [folded m1_def s0_def, unfolded session_start_def]
  show "mgr_follows pc m m'"
  proof (cases "rc = 0")
    case True
    then have cx: "started" "cx = (ctx_of s0 m1)\<lparr>cx_session := armTimer (s0\<lparr>ss_socket := sk\<rparr>),
        cx_parser := beginSession kSkipReportPath kResultCsvPath (mg_parser m)\<rparr>"
      using S r by (auto simp: ctx_of_def m1_def)
    show ?thesis
      by (rule mgr_follows_action [of _ _ "LBegin kSkipReportPath kResultCsvPath"])
        (use n a cx st in \<open>auto simp: mgr_match_def m'_def m1_def ctx_of_def phase_match_def beginSession_def\<close>)
  next
    case False
    then have cx: "\<not> started" "cx = cleanup en ''startRead failed'' ((ctx_of s0 m1)\<lparr>cx_session := s0\<lparr>ss_socket := sk\<rparr>\<rparr>)"
      using S r by (auto simp: ctx_of_def)
    show ?thesis
      by (rule mgr_follows_action [of _ _ LEnd])
        (use n cx st in \<open>auto simp: mgr_match_def m'_def m1_def ctx_of_def cleanup_def abortSession_def\<close>)
  qed
  have k: "kept_ok (mg_retained m)" using m by (simp add: mgr_inv_def)
  have nf: "\<not> mg_sessionFinished m" using m n by (simp add: mgr_inv_def)
  show "mgr_inv m'"
  proof (cases started)
    case True
    define cx0 where "cx0 = (ctx_of s0 m1)\<lparr>cx_cutOff := False\<rparr>"
    have "session_start en (freshCtx c t (mg_parser m) (mg_retained m)) = (cx\<lparr>cx_cutOff := False\<rparr>, True)"
      using S True by (auto simp: session_start_def freshCtx_def ctx_of_def m1_def s0_def split_beta Let_def split: if_splits)
    from start_inv [OF k this] have "ctx_inv cx" by (simp add: ctx_inv_def)
    moreover have "\<not> cx_notified cx" using S by (auto simp: split_beta Let_def ctx_of_def split: if_splits)
    ultimately show ?thesis using True n nf by (auto simp: m'_def mgr_inv_def ctx_inv_def m1_def)
  next
    case False
    have "\<not> cx_notified cx" "cx_retained cx = mg_retained m" using S by (auto simp: split_beta Let_def ctx_of_def m1_def split: if_splits)
    then show ?thesis using False n nf k by (simp add: m'_def mgr_inv_def m1_def)
  qed
qed

lemma accept_step:
  assumes m: "mgr_inv m"
  shows "mgr_follows pc m (acceptWhenParserIdle en waiting m)" and "mgr_inv (acceptWhenParserIdle en waiting m)"
proof -
  define m1 where "m1 = m\<lparr>mg_pendingConnection := False, mg_uploaded := []\<rparr>"
  obtain cx started where s: "session_start en (ctx_of (newSession (newSocket True) (mg_chunkSize m) (mg_timeouts m)) m1) = (cx, started)"
    by fastforce
  let ?m = "if started then absorb cx m1 else (absorb cx m1)\<lparr>mg_session := None\<rparr>"
  have "acceptWhenParserIdle en waiting m = m \<or>
    mg_session m = None \<and> \<not> mg_closing m \<and> \<not> pt_abortRequested (mg_parser m) \<and> acceptWhenParserIdle en waiting m = ?m"
    using s by (auto simp: acceptWhenParserIdle_def acceptIfIdle_def acceptPending_def abortPending_def Let_def simp flip: m1_def)
  then show "mgr_follows pc m (acceptWhenParserIdle en waiting m)" "mgr_inv (acceptWhenParserIdle en waiting m)"
    using start_mgr [OF m _ _ _ s [unfolded m1_def]] m unfolding m1_def [symmetric] by auto
qed

text \<open>A result signal: the loop takes the result, and the session that waits for it keeps and sends it.\<close>

lemma follows_analysis:
  assumes c: "\<not> ss_cleanupStarted (cx_session cx)" "ss_state (cx_session cx) = SessionState.Analyzing"
    and p: "pt_completionSent pt" "onCompletionAsync pt = (r, cx_parser cx)"
    and m: "matches w pc (cx\<lparr>cx_parser := pt\<rparr>)"
  shows "\<exists>as w'. pt_run as w = Some w' \<and> matches w' pc (onAnalysisComplete en r cx)"
proof -
  define s where "s = cx_session cx"
  define kept where "kept = \<lparr>rt_filename = ss_filename s, rt_fileSize = ss_fileSize s, rt_uploadCrc32 = ss_payloadCrc s,
    rt_csv = ar_csv r, rt_csvCrc32 = ar_crc32 r\<rparr>"
  define cxA where "cxA = cx\<lparr>cx_retained := Some kept, cx_session := armTimer (s\<lparr>ss_csv := ar_csv r, ss_state := SendingResult\<rparr>)\<rparr>"
  have ph: "w_phase w = LoopPhase.Analyzing" using m c by (simp add: matches_def linked_def phase_match_def)
  have "cx_parser cx = snd (onCompletionAsync pt)" using p by simp
  then have pt: "pt_ring (cx_parser cx) = pt_ring pt" by (simp add: onCompletionAsync_def)
  obtain w1 where w1: "pt_exec LComplete w = Some w1" "matches w1 pc cxA"
    using m p ph c pt by (auto simp: matches_def linked_def cxA_def phase_match_def s_def kept_def)
  have eq: "transition en SendingResult (onResultRetained kept (cx\<lparr>cx_session := s\<lparr>ss_csv := ar_csv r\<rparr>\<rparr>)) = resumeReading en cxA"
    using c by (simp add: transition_def onResultRetained_def cxA_def s_def)
  have "follows_by pc cxA (onAnalysisComplete en r cx)"
    using c follows_trans [OF follows_resume follows_sends [where skip = False, unfolded if_False]]
    by (simp add: onAnalysisComplete_def Let_def eq flip: kept_def s_def)
  then obtain as w' where "pt_run as w1 = Some w'" "matches w' pc (onAnalysisComplete en r cx)"
    using w1(2) by (auto simp: follows_by_def)
  then show ?thesis using w1(1) by (intro exI [of _ "LComplete # as"]) simp
qed

lemma analysis_step:
  assumes m: "mgr_inv m" and p: "pt_completionSent (mg_parser m)"
    and r: "ar_crc32 (pt_result (mg_parser m)) = crc32 0 (ar_csv (pt_result (mg_parser m)))"
  shows "mgr_follows pc m (onAnalysisSignal en m)" and "mgr_inv (onAnalysisSignal en m)"
proof -
  obtain result pt where o: "onCompletionAsync (mg_parser m) = (result, pt)" by fastforce
  define m1 where "m1 = m\<lparr>mg_parser := pt\<rparr>"
  have pt: "result = pt_result (mg_parser m)" "pt_ring pt = pt_ring (mg_parser m)" using o by (auto simp: onCompletionAsync_def)
  show "mgr_follows pc m (onAnalysisSignal en m)"
  proof (cases "mg_session m")
    case None
    then show ?thesis
      using o p pt by (intro mgr_follows_action [of _ _ LComplete])
        (auto simp: onAnalysisSignal_def mgr_match_def m1_def)
  next
    case (Some s)
    have e: "onAnalysisSignal en m = absorb (onAnalysisComplete en result (ctx_of s m1)) m1"
      using o Some by (simp add: onAnalysisSignal_def Let_def m1_def)
    show ?thesis
    proof (cases "ss_cleanupStarted s \<or> ss_state s \<noteq> SessionState.Analyzing")
      case True
      have eq: "onAnalysisComplete en result (ctx_of s m1) = ctx_of s m1"
        using True by (auto simp: onAnalysisComplete_def ctx_of_def)
      have ph: "phase_match ph kept s \<Longrightarrow> ph \<noteq> LoopPhase.Analyzing" for ph kept
        using True by (cases "ss_state s") (auto simp: phase_match_def split: if_splits)
      show ?thesis unfolding e eq
        by (rule mgr_follows_action [of _ _ LComplete])
          (use o p pt Some ph in \<open>auto simp: mgr_match_def m1_def ctx_of_def\<close>)
    next
      case False
      show ?thesis unfolding mgr_follows_def e
      proof (intro allI impI)
        fix w assume "mgr_match w pc m"
        then have "matches w pc ((ctx_of s m1)\<lparr>cx_parser := mg_parser m\<rparr>)"
          using matches_mgr [OF Some] by (simp add: m1_def ctx_of_def)
        then obtain as w' where "pt_run as w = Some w'" "matches w' pc (onAnalysisComplete en result (ctx_of s m1))"
          using follows_analysis [of "ctx_of s m1" "mg_parser m" result w pc en] False p o by (auto simp: ctx_of_def m1_def)
        then show "\<exists>as w'. pt_run as w = Some w' \<and> mgr_match w' pc (absorb (onAnalysisComplete en result (ctx_of s m1)) m1)"
          using matches_absorb by blast
      qed
    qed
  qed
  show "mgr_inv (onAnalysisSignal en m)"
  proof (cases "mg_session m")
    case None
    then show ?thesis using o m by (simp add: onAnalysisSignal_def mgr_inv_def)
  next
    case (Some s)
    have e: "onAnalysisSignal en m = absorb (onAnalysisComplete en result (ctx_of s m1)) m1"
      using o Some by (simp add: onAnalysisSignal_def Let_def m1_def)
    have i: "ctx_inv (ctx_of s m1)" using m Some by (simp add: ctx_inv_of m1_def mgr_inv_def)
    have m1: "mgr_inv m1" "mg_session m1 = Some s" using m Some by (simp_all add: m1_def mgr_inv_def)
    have n: "\<not> cx_notified (onAnalysisComplete en result (ctx_of s m1))" by (simp add: ctx_of_def)
    have c: "onAnalysisComplete en result (ctx_of s m1) = ctx_of s m1" if "ss_cleanupStarted s"
      using that by (simp add: onAnalysisComplete_def ctx_of_def)
    show ?thesis unfolding e
      by (rule absorb_inv [OF m1 analysis_inv [OF i]]) (use r pt n c in \<open>auto simp: ctx_of_def\<close>)
  qed
qed

text \<open>The other signals, reaping, closing, and the parser's own steps.\<close>

lemma resume_step:
  assumes m: "mgr_inv m"
  shows "mgr_follows pc m (onResumeSignal en m)" and "mgr_inv (onResumeSignal en m)"
proof -
  define m1 where "m1 = m\<lparr>mg_parser := (mg_parser m)\<lparr>pt_resumeSent := False\<rparr>\<rparr>"
  have 1: "mgr_follows pc m m1"
    by (rule mgr_follows_action [of _ _ LResumeSeen]) (auto simp: mgr_match_def m1_def split: option.split)
  have m1: "mgr_inv m1" using m by (auto simp: mgr_inv_def m1_def split: option.splits)
  have "onResumeSignal en m = m1 \<or> (\<exists>s. mg_session m1 = Some s \<and> onResumeSignal en m = absorb (resumeReading en (ctx_of s m1)) m1)"
    by (simp add: onResumeSignal_def Let_def flip: m1_def split: option.split)
  moreover have "mgr_follows pc m (absorb (resumeReading en (ctx_of s m1)) m1)"
    "mgr_inv (absorb (resumeReading en (ctx_of s m1)) m1)" if s: "mg_session m1 = Some s" for s
  proof -
    show "mgr_follows pc m (absorb (resumeReading en (ctx_of s m1)) m1)"
      using mgr_follows_trans [OF 1 absorb_follows [OF s follows_resume]] .
    have i: "ctx_inv (ctx_of s m1)" using m1 s by (simp add: ctx_inv_of mgr_inv_def)
    have "ctx_inv (resumeReading en (ctx_of s m1))" using exec_inv [OF i, of en EvResume] by simp
    then show "mgr_inv (absorb (resumeReading en (ctx_of s m1)) m1)"
      by (rule absorb_inv [OF m1 s]) (simp_all add: same_but_reading_simps [OF resumeReading_frame(1)] ctx_of_def)
  qed
  ultimately show "mgr_follows pc m (onResumeSignal en m)" "mgr_inv (onResumeSignal en m)" using 1 m1 by auto
qed

lemma abortDone_step:
  assumes m: "mgr_inv m"
  shows "mgr_follows pc m (onAbortDoneSignal en waiting m)" and "mgr_inv (onAbortDoneSignal en waiting m)"
proof -
  define m1 where "m1 = m\<lparr>mg_parser := (mg_parser m)\<lparr>pt_abortDoneSent := False\<rparr>\<rparr>"
  have 1: "mgr_follows pc m m1"
    by (rule mgr_follows_action [of _ _ LAbortDoneSeen]) (auto simp: mgr_match_def m1_def split: option.split)
  have m1: "mgr_inv m1" using m by (auto simp: mgr_inv_def m1_def split: option.splits)
  have e: "onAbortDoneSignal en waiting m = acceptWhenParserIdle en waiting m1" by (simp add: onAbortDoneSignal_def m1_def)
  show "mgr_follows pc m (onAbortDoneSignal en waiting m)" "mgr_inv (onAbortDoneSignal en waiting m)"
    unfolding e using mgr_follows_trans [OF 1 accept_step(1) [OF m1]] accept_step(2) [OF m1] by auto
qed

lemma reap_step:
  assumes m: "mgr_inv m" and i: "mg_idleStarted m"
  shows "mgr_follows pc m (onReapCb en waiting m)" and "mgr_inv (onReapCb en waiting m)"
proof -
  define m0 where "m0 = m\<lparr>mg_idleStarted := False\<rparr>"
  define m1 where "m1 = m0\<lparr>mg_sessionFinished := False, mg_session := None, mg_completedSessions := mg_completedSessions m + 1\<rparr>"
  have 0: "mgr_follows pc m m0" by (rule mgr_follows_same) (auto simp: mgr_match_def m0_def split: option.splits)
  have m0: "mgr_inv m0" "\<not> mg_closing m" using m i by (auto simp: mgr_inv_def m0_def split: option.splits)
  have 1: "mgr_follows pc m m1" if "mg_sessionFinished m"
    by (rule mgr_follows_same)
      (use that m m0 in \<open>auto simp: mgr_match_def m1_def m0_def mgr_inv_def phase_match_def split: option.splits\<close>)
  have m1: "mgr_inv m1" using m0 by (auto simp: mgr_inv_def m1_def m0_def)
  have "onReapCb en waiting m = (if mg_sessionFinished m then acceptWhenParserIdle en waiting m1 else m0)"
    by (simp add: onReapCb_def Let_def m1_def m0_def)
  then show "mgr_follows pc m (onReapCb en waiting m)" "mgr_inv (onReapCb en waiting m)"
    using 0 m0 1 mgr_follows_trans [OF 1 accept_step(1) [OF m1]] accept_step(2) [OF m1] by auto
qed

lemma connection_step:
  assumes m: "mgr_inv m"
  shows "mgr_follows pc m (onConnection en waiting m)" and "mgr_inv (onConnection en waiting m)"
proof -
  have "mgr_follows pc m (m\<lparr>mg_pendingConnection := True\<rparr>)" by (rule mgr_follows_same) (auto simp: mgr_match_def split: option.splits)
  moreover have "mgr_inv (m\<lparr>mg_pendingConnection := True\<rparr>)" using m by (auto simp: mgr_inv_def split: option.splits)
  ultimately show "mgr_follows pc m (onConnection en waiting m)" "mgr_inv (onConnection en waiting m)"
    using m accept_step [OF m] by (simp_all add: onConnection_def)
qed

lemma close_step:
  assumes m: "mgr_inv m"
  shows "mgr_follows pc m (manager_close m)" and "mgr_inv (manager_close m)"
proof -
  show "mgr_follows pc m (manager_close m)"
    by (rule mgr_follows_action [of _ _ LStop]) (auto simp: mgr_match_def manager_close_def)
  show "mgr_inv (manager_close m)" using m by (simp add: mgr_inv_def manager_close_def)
qed

lemma parser_run_local:
  "w_pt v = w_pt w \<Longrightarrow> w_pc v = w_pc w \<Longrightarrow>
   map_option (\<lambda>w'. (w_pt w', w_pc w')) (parser_run v) = map_option (\<lambda>w'. (w_pt w', w_pc w')) (parser_run w)"
  by (cases "w_pc w") (simp_all add: parser_run_def Let_def split: option.split)

lemma parser_step_run:
  assumes "parser_step sv = Some sv'" and m: "mgr_match w (sv_pc sv) (sv_mgr sv)"
  shows "\<exists>w'. pt_exec PRun w = Some w' \<and> mgr_match w' (sv_pc sv') (sv_mgr sv')"
proof -
  define v where "v = \<lparr>w_pt = mg_parser (sv_mgr sv), w_pc = sv_pc sv, w_phase = Idle, w_sent = [], w_got = [],
         w_delivered = noResult, w_cutOff = False\<rparr>"
  obtain v' where v': "parser_run v = Some v'" and sv': "sv' = sv\<lparr>sv_mgr := (sv_mgr sv)\<lparr>mg_parser := w_pt v'\<rparr>, sv_pc := w_pc v'\<rparr>"
    using assms(1) by (auto simp: parser_step_def v_def split: option.splits)
  have "w_pt v = w_pt w" "w_pc v = w_pc w" using m by (auto simp: v_def mgr_match_def)
  from parser_run_local [OF this] v' obtain w' where w': "parser_run w = Some w'" "w_pt w' = w_pt v'" "w_pc w' = w_pc v'"
    by (cases "parser_run w") auto
  have "mgr_match w' (w_pc v') (sv_mgr sv')"
    using m w' parser_run_frame [OF w'(1)] slotCount_parser [OF w'(1)] by (auto simp: mgr_match_def sv' split: option.split)
  then show ?thesis using w'(1) by (simp add: sv')
qed

text \<open>Results carry their own checksum, also while they wait for the loop.\<close>

lemma pt_reach_result: "pt_reach n sz w \<Longrightarrow> ar_crc32 (pt_result (w_pt w)) = crc32 0 (ar_csv (pt_result (w_pt w)))"
proof (induction rule: pt_reach.induct)
  case start
  then show ?case by (simp add: initWorld_def newParserThread_def noResult_def crc32_Nil)
next
  case (step w a w')
  have run: "pt_result (w_pt w') = pt_result (w_pt w) \<or> (\<exists>pt. pt_result (w_pt w') = makeResult pt)" if "parser_run w = Some w'"
    using that by (cases "w_pc w")
      (auto simp: parser_run_def Let_def reset_rest finishReset_rest consumeSlot_rest finishResult_def split_beta
        split: if_splits option.splits)
  show ?case
    using step.IH step.hyps(2) run
    by (cases a) (auto simp: makeResult_def Let_def loop_ops commitSlot_def noResult_def crc32_Nil split: if_splits option.splits)
qed

section \<open>Runs of the server\<close>

definition server_inv :: "nat \<Rightarrow> nat \<Rightarrow> Server \<Rightarrow> bool" where
  "server_inv chunkSize ringSlots sv \<longleftrightarrow> mgr_inv (sv_mgr sv) \<and>
    (\<exists>w. pt_reach ringSlots chunkSize w \<and> mgr_match w (sv_pc sv) (sv_mgr sv))"

lemma server_step:
  assumes i: "mgr_inv (sv_mgr sv)" and r: "ar_crc32 (pt_result (mg_parser (sv_mgr sv))) = crc32 0 (ar_csv (pt_result (mg_parser (sv_mgr sv))))"
    and e: "env_ok (sv_pc sv) en" "server_exec en ev sv = Some sv'" and m: "mgr_match w (sv_pc sv) (sv_mgr sv)"
  shows "mgr_inv (sv_mgr sv')" and "\<exists>as w'. pt_run as w = Some w' \<and> mgr_match w' (sv_pc sv') (sv_mgr sv')"
proof -
  have "mgr_inv (sv_mgr sv') \<and> (\<exists>as w'. pt_run as w = Some w' \<and> mgr_match w' (sv_pc sv') (sv_mgr sv'))"
  proof (cases "ev = SvParser")
    case True
    then obtain w' where "pt_run [PRun] w = Some w'" "mgr_match w' (sv_pc sv') (sv_mgr sv')"
      using parser_step_run [OF _ m] e(2) by fastforce
    moreover have "mgr_inv (sv_mgr sv')"
      using True e(2) i by (auto simp: parser_step_def mgr_inv_def split: option.splits)
    ultimately show ?thesis by blast
  next
    case False
    have "sv_pc sv' = sv_pc sv \<and> mgr_follows (sv_pc sv) (sv_mgr sv) (sv_mgr sv') \<and> mgr_inv (sv_mgr sv')"
    proof (cases ev)
      case (SvSession x)
      then show ?thesis using e session_step [OF i] by (auto split: option.splits if_splits)
    next
      case SvAnalysis
      then show ?thesis using e analysis_step [OF i _ r] by (auto split: if_splits)
    next
      case (SvReap b)
      then show ?thesis using e reap_step [OF i] by (auto split: if_splits)
    qed (use False e connection_step [OF i] resume_step [OF i] abortDone_step [OF i] close_step [OF i] in \<open>auto split: if_splits\<close>)
    then show ?thesis using m by (auto simp: mgr_follows_def)
  qed
  then show "mgr_inv (sv_mgr sv')" "\<exists>as w'. pt_run as w = Some w' \<and> mgr_match w' (sv_pc sv') (sv_mgr sv')" by auto
qed

lemma server_reach_inv:
  "server_reach chunkSize ringSlots timeouts sv \<Longrightarrow> ringSlots dvd 2 ^ 64 \<Longrightarrow> server_inv chunkSize ringSlots sv"
proof (induction rule: server_reach.induct)
  case init
  have "mgr_match (initWorld ringSlots chunkSize) AtWait (newManager chunkSize ringSlots timeouts)"
    using init by (simp add: mgr_match_def initWorld_def newManager_def newParserThread_def newRing_def)
  then show ?case
    using pt_reach.start by (auto simp: server_inv_def newServer_def newManager_def mgr_inv_def kept_ok_def)
next
  case (step sv en ev sv')
  then obtain w where w: "pt_reach ringSlots chunkSize w" "mgr_match w (sv_pc sv) (sv_mgr sv)" and i: "mgr_inv (sv_mgr sv)"
    by (auto simp: server_inv_def)
  have "ar_crc32 (pt_result (mg_parser (sv_mgr sv))) = crc32 0 (ar_csv (pt_result (mg_parser (sv_mgr sv))))"
    using pt_reach_result [OF w(1)] w(2) by (simp add: mgr_match_def)
  from server_step [OF i this step.hyps(2,3) w(2)] show ?case using pt_run_reach [OF _ w(1)] by (auto simp: server_inv_def)
qed

section \<open>What a session gets and sends\<close>

lemma analysis_effect:
  fixes en :: Env and r :: AnalysisResult
  assumes c: "\<not> ss_cleanupStarted (cx_session cx)" "ss_state (cx_session cx) = SessionState.Analyzing"
  defines "cx' \<equiv> onAnalysisComplete en r cx" and "s \<equiv> cx_session cx"
  defines "hdr \<equiv> encodeResultHeader \<lparr>rh_csvSize = of_nat (length (ar_csv r)), rh_crc32 = ar_crc32 r\<rparr>"
  shows "cx_retained cx' = Some \<lparr>rt_filename = ss_filename s, rt_fileSize = ss_fileSize s, rt_uploadCrc32 = ss_payloadCrc s,
      rt_csv = ar_csv r, rt_csvCrc32 = ar_crc32 r\<rparr>"
    and "ss_csv (cx_session cx') = ar_csv r"
    and "ss_cleanupStarted (cx_session cx') \<or> sk_written (ss_socket (cx_session cx')) = sk_written (ss_socket s) @ [hdr, ar_csv r]"
    and "ss_cleanupStarted (cx_session cx') \<or> ss_state (cx_session cx') = SendingResult \<and> cx_cutOff cx' = cx_cutOff cx"
    and "(\<And>k. uv_write (en_uv en) k = 0) \<Longrightarrow> sk_valid (ss_socket s) \<Longrightarrow> \<not> sk_closing (ss_socket s) \<Longrightarrow> \<not> ss_cleanupStarted (cx_session cx')"
proof -
  define kept where "kept = \<lparr>rt_filename = ss_filename s, rt_fileSize = ss_fileSize s, rt_uploadCrc32 = ss_payloadCrc s,
    rt_csv = ar_csv r, rt_csvCrc32 = ar_crc32 r\<rparr>"
  define cx1 where "cx1 = onResultRetained kept (cx\<lparr>cx_session := s\<lparr>ss_csv := ar_csv r\<rparr>\<rparr>)"
  define cx2 where "cx2 = transition en SendingResult cx1"
  have st: "ss_state (cx_session cx1) \<noteq> SendingResult" using c by (simp add: cx1_def onResultRetained_def s_def)
  note T = same_but_reading_simps [OF transition_session [OF st, of en], folded cx2_def]
  have D: "ss_csv (cx_session cx2) = ar_csv r" "sk_written (ss_socket (cx_session cx2)) = sk_written (ss_socket s)"
    "\<not> ss_cleanupStarted (cx_session cx2)" "sk_valid (ss_socket (cx_session cx2)) = sk_valid (ss_socket s)"
    "sk_closing (ss_socket (cx_session cx2)) = sk_closing (ss_socket s)" "ss_state (cx_session cx2) = SendingResult"
    using c by (simp_all add: T cx1_def onResultRetained_def s_def)
  have k: "cx_retained cx2 = Some kept" by (simp add: cx2_def cx1_def onResultRetained_def)
  have e: "cx' = (let (rc, cx3) = sendBytes en hdr cx2 in
       if rc \<noteq> 0 then cleanup en ''failed to send ResultHeader'' cx3
       else let (rc2, cx4) = sendBytes en (ar_csv r) cx3 in
         if rc2 \<noteq> 0 then cleanup en ''failed to send result.csv'' cx4 else cx4)"
    using c by (simp add: cx'_def onAnalysisComplete_def Let_def hdr_def cx2_def cx1_def kept_def s_def)
  show "cx_retained cx' = Some \<lparr>rt_filename = ss_filename s, rt_fileSize = ss_fileSize s, rt_uploadCrc32 = ss_payloadCrc s,
      rt_csv = ar_csv r, rt_csvCrc32 = ar_crc32 r\<rparr>"
    using k by (simp add: e split_beta kept_def)
  show "ss_csv (cx_session cx') = ar_csv r"
    using D(1) by (simp add: e split_beta Let_def) (simp add: sendBytes_def split_beta cleanup_def Let_def)
  show "ss_cleanupStarted (cx_session cx') \<or> sk_written (ss_socket (cx_session cx')) = sk_written (ss_socket s) @ [hdr, ar_csv r]"
    using D(2) by (auto simp: e split_beta Let_def sendBytes_def sock_send_def kUvEinval_def)
  have "cx_cutOff cx2 = cx_cutOff cx" by (simp add: cx2_def transition_def cx1_def onResultRetained_def resumeReading_def Let_def)
  then show "ss_cleanupStarted (cx_session cx') \<or> ss_state (cx_session cx') = SendingResult \<and> cx_cutOff cx' = cx_cutOff cx"
    using D(6) by (auto simp: e split_beta Let_def sendBytes_def)
  show "\<not> ss_cleanupStarted (cx_session cx')"
    if "\<And>k. uv_write (en_uv en) k = 0" "sk_valid (ss_socket s)" "\<not> sk_closing (ss_socket s)"
    using that D(3-5) by (simp add: e Let_def sendBytes_def sock_send_def)
qed

lemma world_of:
  assumes "server_reach chunkSize ringSlots timeouts sv" and "ringSlots dvd 2 ^ 64"
  obtains w where "pt_reach ringSlots chunkSize w" "mgr_match w (sv_pc sv) (sv_mgr sv)"
  using server_reach_inv [OF assms] by (auto simp: server_inv_def)

lemma analyzing_world:
  assumes "mgr_match w pc m" and "mg_session m = Some s" and "ss_state s = SessionState.Analyzing" and "mgr_inv m"
  shows "w_phase w = LoopPhase.Analyzing" and "w_sent w = mg_uploaded m" and "\<not> ss_cleanupStarted s"
proof -
  show "\<not> ss_cleanupStarted s" using assms by (auto simp: mgr_inv_def sess_inv_def)
  then show "w_phase w = LoopPhase.Analyzing" "w_sent w = mg_uploaded m"
    using assms by (auto simp: mgr_match_def phase_match_def)
qed

lemma ring_slots_pos: "ringSlots dvd 2 ^ 64 \<Longrightarrow> 0 < (ringSlots :: nat)"
  by (rule ccontr) simp

lemma awaited_result:
  assumes r: "server_reach chunkSize ringSlots timeouts sv" "ringSlots dvd 2 ^ 64" "ringSlots < 2 ^ 64" "\<not> mg_cutOff (sv_mgr sv)"
    and s: "mg_session (sv_mgr sv) = Some s" "ss_state s = SessionState.Analyzing" and c: "pt_completionSent (mg_parser (sv_mgr sv))"
  shows "pt_result (mg_parser (sv_mgr sv)) = analysis_of (concat (mg_uploaded (sv_mgr sv)))"
proof -
  obtain w where w: "pt_reach ringSlots chunkSize w" "mgr_match w (sv_pc sv) (sv_mgr sv)" using world_of [OF r(1,2)] .
  have "mgr_inv (sv_mgr sv)" using server_reach_inv [OF r(1,2)] by (simp add: server_inv_def)
  note A = analyzing_world [OF w(2) s this]
  have "world_inv w" using pt_reach_inv [OF w(1) _ ring_slots_pos [OF r(2)] r(3)] w(2) r(4) by (simp add: mgr_match_def)
  then show ?thesis using A c w(2) by (auto simp: world_inv_def analyzing_ok_def mgr_match_def)
qed

lemma awaited_counts:
  assumes "mgr_inv m" and "mg_session m = Some s" and "ss_state s = SessionState.Analyzing"
  shows "ss_fileSize s = of_nat (length (concat (mg_uploaded m)))" "ss_payloadCrc s = crc32_ref 0 (concat (mg_uploaded m))"
    "sk_written (ss_socket s) = [encodeAck \<lparr>ack_status = AckOk, ack_receivedBytes = of_nat (length (concat (mg_uploaded m)))\<rparr>]"
    "sk_valid (ss_socket s)" "\<not> sk_closing (ss_socket s)" "\<not> ss_cleanupStarted s" "unat (ss_fileSize s) = length (concat (mg_uploaded m))"
proof -
  have "sess_inv s (mg_uploaded m)" using assms by (simp add: mgr_inv_def)
  then have "counts_ok s (mg_uploaded m) \<and> out_acked s \<and> received_all s \<and> sk_valid (ss_socket s) \<and> \<not> sk_closing (ss_socket s) \<and>
      \<not> ss_cleanupStarted s"
    using assms(3) by (auto simp: sess_inv_def phase_ok_def split: if_splits)
  moreover from this have "ss_fileSize s = of_nat (unat (ss_fileSize s))" "unat (ss_fileSize s) = length (concat (mg_uploaded m))"
    by (auto simp: counts_ok_def received_all_def)
  then have "ss_fileSize s = of_nat (length (concat (mg_uploaded m)))" by simp
  ultimately show "ss_fileSize s = of_nat (length (concat (mg_uploaded m)))" "ss_payloadCrc s = crc32_ref 0 (concat (mg_uploaded m))"
    "sk_written (ss_socket s) = [encodeAck \<lparr>ack_status = AckOk, ack_receivedBytes = of_nat (length (concat (mg_uploaded m)))\<rparr>]"
    "sk_valid (ss_socket s)" "\<not> sk_closing (ss_socket s)" "\<not> ss_cleanupStarted s" "unat (ss_fileSize s) = length (concat (mg_uploaded m))"
    by (auto simp: counts_ok_def out_acked_def okAck_def received_all_def crc32_eq_ref)
qed

text \<open>Runs of events, all with the same answers of the environment.\<close>

fun server_run :: "Env \<Rightarrow> ServerEvent list \<Rightarrow> Server \<Rightarrow> Server option" where
  "server_run en [] sv = Some sv"
| "server_run en (ev # evs) sv = (case server_exec en ev sv of None \<Rightarrow> None | Some sv' \<Rightarrow> server_run en evs sv')"

definition env_calm :: "Env \<Rightarrow> bool" where
  "env_calm en \<longleftrightarrow> en_before en = 0 \<and> en_after en = 0 \<and> (\<forall>k. uv_write (en_uv en) k = 0)"

lemma server_run_reach:
  "server_run en evs sv = Some sv' \<Longrightarrow> env_calm en \<Longrightarrow> server_reach c n t sv \<Longrightarrow> server_reach c n t sv'"
proof (induction evs arbitrary: sv)
  case (Cons ev evs)
  then obtain sv1 where e: "server_exec en ev sv = Some sv1" "server_run en evs sv1 = Some sv'" by (auto split: option.splits)
  have "server_reach c n t sv1"
    by (rule server_reach.step [OF Cons.prems(3) _ e(1)]) (use Cons.prems(2) in \<open>simp add: env_calm_def env_ok_def\<close>)
  with Cons.IH [OF e(2) Cons.prems(2)] show ?case .
qed simp

lemma server_run_append:
  "server_run en (as @ bs) sv = (case server_run en as sv of None \<Rightarrow> None | Some sv' \<Rightarrow> server_run en bs sv')"
  by (induction as arbitrary: sv) (auto split: option.split)

text \<open>Steps of the parser thread, in the two-thread model and in the server.\<close>

lemma parser_run_server:
  assumes "parser_run w = Some w'" and m: "mgr_match w (sv_pc sv) (sv_mgr sv)"
  shows "\<exists>pt. parser_step sv = Some (sv\<lparr>sv_mgr := (sv_mgr sv)\<lparr>mg_parser := pt\<rparr>, sv_pc := w_pc w'\<rparr>) \<and>
    mgr_match w' (w_pc w') ((sv_mgr sv)\<lparr>mg_parser := pt\<rparr>)"
proof -
  define v where "v = \<lparr>w_pt = mg_parser (sv_mgr sv), w_pc = sv_pc sv, w_phase = Idle, w_sent = [], w_got = [],
         w_delivered = noResult, w_cutOff = False\<rparr>"
  have "w_pt v = w_pt w" "w_pc v = w_pc w" using m by (auto simp: v_def mgr_match_def)
  from parser_run_local [OF this] assms(1) obtain v' where v': "parser_run v = Some v'" "w_pt v' = w_pt w'" "w_pc v' = w_pc w'"
    by (cases "parser_run v") auto
  then have "parser_step sv = Some (sv\<lparr>sv_mgr := (sv_mgr sv)\<lparr>mg_parser := w_pt w'\<rparr>, sv_pc := w_pc w'\<rparr>)"
    by (simp add: parser_step_def v_def)
  moreover have "mgr_match w' (w_pc w') ((sv_mgr sv)\<lparr>mg_parser := w_pt w'\<rparr>)"
    using m parser_run_frame [OF assms(1)] slotCount_parser [OF assms(1)] by (auto simp: mgr_match_def split: option.split)
  ultimately show ?thesis by blast
qed

lemma parser_runs_server:
  "pt_run (replicate k PRun) w = Some w' \<Longrightarrow> mgr_match w (sv_pc sv) (sv_mgr sv) \<Longrightarrow>
   \<exists>pt. server_run en (replicate k SvParser) sv = Some (sv\<lparr>sv_mgr := (sv_mgr sv)\<lparr>mg_parser := pt\<rparr>, sv_pc := w_pc w'\<rparr>) \<and> w_pt w' = pt"
proof (induction k arbitrary: w sv)
  case 0
  then have "sv\<lparr>sv_mgr := (sv_mgr sv)\<lparr>mg_parser := w_pt w'\<rparr>, sv_pc := w_pc w'\<rparr> = sv" by (simp add: mgr_match_def)
  with 0 show ?case by simp
next
  case (Suc k)
  then obtain w1 where w1: "parser_run w = Some w1" "pt_run (replicate k PRun) w1 = Some w'" by (auto split: option.splits)
  obtain pt where p: "parser_step sv = Some (sv\<lparr>sv_mgr := (sv_mgr sv)\<lparr>mg_parser := pt\<rparr>, sv_pc := w_pc w1\<rparr>)"
    "mgr_match w1 (w_pc w1) ((sv_mgr sv)\<lparr>mg_parser := pt\<rparr>)" using parser_run_server [OF w1(1) Suc.prems(2)] by blast
  from Suc.IH [OF w1(2), of "sv\<lparr>sv_mgr := (sv_mgr sv)\<lparr>mg_parser := pt\<rparr>, sv_pc := w_pc w1\<rparr>"] p show ?case by simp
qed

text \<open>Where the result kept for resuming comes from.\<close>

definition result_of :: "string \<Rightarrow> RetainedResult \<Rightarrow> bool" where
  "result_of up r \<longleftrightarrow> unat (rt_fileSize r) = length up \<and> rt_uploadCrc32 r = crc32_ref 0 up \<and>
    rt_csv r = ar_csv (analysis_of up) \<and> rt_csvCrc32 r = crc32_ref 0 (rt_csv r)"

lemma start_retained: "cx_retained (fst (session_start en cx)) = cx_retained cx"
  by (simp add: session_start_def split_beta Let_def)

lemma accept_retained [simp]: "mg_retained (acceptWhenParserIdle en waiting m) = mg_retained m"
proof -
  have "cx_retained (fst (session_start en (ctx_of s (m\<lparr>mg_pendingConnection := False, mg_uploaded := []\<rparr>)))) = mg_retained m" for s
    by (simp add: start_retained) (simp add: ctx_of_def)
  then show ?thesis
    by (simp add: acceptWhenParserIdle_def acceptIfIdle_def acceptPending_def Let_def split_beta)
qed

lemma retained_other:
  assumes "server_exec en ev sv = Some sv'" and "ev \<noteq> SvAnalysis"
  shows "mg_retained (sv_mgr sv') = mg_retained (sv_mgr sv)"
proof (cases ev)
  case (SvSession x)
  then show ?thesis using assms exec_retained by (auto simp: ctx_of_def split: option.splits if_splits)
next
  case SvResume
  then show ?thesis using assms by (auto simp: onResumeSignal_def Let_def resumeReading_frame ctx_of_def split: option.splits if_splits)
qed (use assms in \<open>auto simp: onConnection_def onAbortDoneSignal_def onReapCb_def manager_close_def parser_step_def Let_def
    split: option.splits if_splits\<close>)

lemma cutOff_run: "pt_run as w = Some w' \<Longrightarrow> w_cutOff w \<Longrightarrow> w_cutOff w'"
  by (induction as arbitrary: w) (auto dest: cutOff_stays split: option.splits)

lemma signal_effect:
  fixes en :: Env and sv :: Server
  assumes r: "server_reach chunkSize ringSlots timeouts sv" "ringSlots dvd 2 ^ 64" "ringSlots < 2 ^ 64" "\<not> mg_cutOff (sv_mgr sv)"
    and s: "mg_session (sv_mgr sv) = Some s" "ss_state s = SessionState.Analyzing" and c: "pt_completionSent (mg_parser (sv_mgr sv))"
  defines "up \<equiv> concat (mg_uploaded (sv_mgr sv))" and "m' \<equiv> onAnalysisSignal en (sv_mgr sv)"
  shows "\<exists>s' kept. mg_session m' = Some s' \<and> ss_csv s' = ar_csv (analysis_of up) \<and> mg_retained m' = Some kept \<and>
      rt_filename kept = ss_filename s \<and> result_of up kept \<and>
      (ss_cleanupStarted s' \<or> sk_written (ss_socket s') =
        [encodeAck \<lparr>ack_status = AckOk, ack_receivedBytes = of_nat (length up)\<rparr>,
         encodeResultHeader \<lparr>rh_csvSize = of_nat (length (ss_csv s')), rh_crc32 = crc32_ref 0 (ss_csv s')\<rparr>, ss_csv s']) \<and>
      (\<not> ss_cleanupStarted s' \<longrightarrow> ss_state s' = SendingResult \<and> \<not> mg_cutOff m') \<and> (env_calm en \<longrightarrow> \<not> ss_cleanupStarted s')"
proof -
  let ?m = "sv_mgr sv"
  have i: "mgr_inv ?m" using server_reach_inv [OF r(1,2)] by (simp add: server_inv_def)
  note C = awaited_counts [OF i s, folded up_def]
  have res: "pt_result (mg_parser ?m) = analysis_of up" using awaited_result [OF r s c] by (simp add: up_def)
  define m1 where "m1 = ?m\<lparr>mg_parser := (mg_parser ?m)\<lparr>pt_result := noResult, pt_completionSent := False\<rparr>\<rparr>"
  define cx where "cx = onAnalysisComplete en (analysis_of up) (ctx_of s m1)"
  have m': "m' = absorb cx m1"
    using s(1) by (simp add: m'_def onAnalysisSignal_def onCompletionAsync_def m1_def cx_def res Let_def)
  have st: "\<not> ss_cleanupStarted (cx_session (ctx_of s m1))" "ss_state (cx_session (ctx_of s m1)) = SessionState.Analyzing"
    using C s(2) by (simp_all add: ctx_of_def)
  have crc: "ar_crc32 (analysis_of up) = crc32_ref 0 (ar_csv (analysis_of up))"
    by (simp add: analysis_of_lines Let_def crc32_eq_ref)
  note E = analysis_effect [OF st, of en "analysis_of up", folded cx_def, unfolded crc]
  have "result_of up \<lparr>rt_filename = ss_filename s, rt_fileSize = ss_fileSize s, rt_uploadCrc32 = ss_payloadCrc s,
      rt_csv = ar_csv (analysis_of up), rt_csvCrc32 = crc32_ref 0 (ar_csv (analysis_of up))\<rparr>"
    using C by (simp add: result_of_def)
  then show ?thesis
    using E C(3-5) r(4) unfolding m' by (auto simp: ctx_of_def env_calm_def m1_def)
qed

lemma server_kept:
  "server_reach chunkSize ringSlots timeouts sv \<Longrightarrow> ringSlots dvd 2 ^ 64 \<Longrightarrow> ringSlots < 2 ^ 64 \<Longrightarrow> \<not> mg_cutOff (sv_mgr sv) \<Longrightarrow>
   mg_retained (sv_mgr sv) = Some r \<Longrightarrow> \<exists>up. result_of up r"
proof (induction arbitrary: r rule: server_reach.induct)
  case init
  then show ?case by (simp add: newServer_def newManager_def)
next
  case (step sv en ev sv')
  note inv = server_reach_inv [OF step.hyps(1) step.prems(1)]
  obtain w where w: "pt_reach ringSlots chunkSize w" "mgr_match w (sv_pc sv) (sv_mgr sv)" using world_of [OF step.hyps(1) step.prems(1)] .
  have rc: "ar_crc32 (pt_result (mg_parser (sv_mgr sv))) = crc32 0 (ar_csv (pt_result (mg_parser (sv_mgr sv))))"
    using pt_reach_result [OF w(1)] w(2) by (simp add: mgr_match_def)
  have i: "mgr_inv (sv_mgr sv)" using inv by (simp add: server_inv_def)
  obtain as w' where "pt_run as w = Some w'" "mgr_match w' (sv_pc sv') (sv_mgr sv')"
    using server_step(2) [OF i rc step.hyps(2,3) w(2)] by blast
  then have cut: "\<not> mg_cutOff (sv_mgr sv)" using cutOff_run w(2) step.prems(3) by (auto simp: mgr_match_def)
  show ?case
  proof (cases "ev = SvAnalysis \<and> (\<exists>s. mg_session (sv_mgr sv) = Some s \<and> ss_state s = SessionState.Analyzing)")
    case True
    then obtain s where "mg_session (sv_mgr sv) = Some s" "ss_state s = SessionState.Analyzing" "pt_completionSent (mg_parser (sv_mgr sv))"
      "sv' = sv\<lparr>sv_mgr := onAnalysisSignal en (sv_mgr sv)\<rparr>" using step.hyps(3) by (auto split: if_splits)
    with signal_effect [OF step.hyps(1) step.prems(1,2) cut, of s en] step.prems(4) show ?thesis by auto
  next
    case False
    have "mg_retained (sv_mgr sv') = mg_retained (sv_mgr sv)"
    proof (cases "ev = SvAnalysis")
      case True
      with False step.hyps(3) show ?thesis
        by (auto simp: onAnalysisSignal_def onAnalysisComplete_def onCompletionAsync_def ctx_of_def Let_def split: if_splits option.splits)
    qed (use retained_other [OF step.hyps(3)] in simp)
    then show ?thesis using step.IH [OF step.prems(1,2) cut] step.prems(4) by simp
  qed
qed

lemma pt_reach_no_abort: "pt_reach n sz w \<Longrightarrow> w_phase w \<noteq> Idle \<Longrightarrow> \<not> pt_abortRequested (w_pt w)"
proof (induction rule: pt_reach.induct)
  case start
  then show ?case by (simp add: initWorld_def)
next
  case (step w a w')
  have "pt_abortRequested (w_pt w') \<Longrightarrow> pt_abortRequested (w_pt w)" if "parser_run w = Some w'"
    using that by (cases "w_pc w") (auto simp: parser_run_def Let_def reset_rest finishReset_rest finishResult_rest consumeSlot_rest
        split: if_splits option.splits)
  then show ?case
    using step by (cases a) (auto simp: loop_ops commitSlot_def dest: parser_run_frame split: if_splits option.splits)
qed

end
