(* ===== verification/ServerSafety.thy ===== *)
theory ServerSafety
  imports ServerCorrect
begin

text \<open>
  What the whole server guarantees: its runs refine the two-thread model, a session never meets a pending
  abort, and the result a client is sent, now or on a later resume, is the analysis of exactly the bytes
  uploaded for it.
\<close>

section \<open>A concrete server\<close>

definition sv_open :: Server where
  "sv_open = (newServer 64 2 defaultTimeouts)\<lparr>sv_mgr := onConnection env_good True (newManager 64 2 defaultTimeouts)\<rparr>"

lemma env_good_calm: "env_calm env_good"
  by (simp add: env_calm_def env_good_def uv_good_def)

lemma sv_open_reach: "server_reach 64 2 defaultTimeouts sv_open"
  using server_run_reach [of env_good "[SvConnection True]" "newServer 64 2 defaultTimeouts" sv_open, OF _ env_good_calm server_reach.init]
  by (simp add: sv_open_def) (simp add: newServer_def)

lemma sv_open_ctx:
  "mg_session (sv_mgr sv_open) = Some (cx_session cx_started)" "ctx_of (cx_session cx_started) (sv_mgr sv_open) = cx_started"
  "\<not> mg_cutOff (sv_mgr sv_open)" "\<not> pt_stopRequested (mg_parser (sv_mgr sv_open))" "sv_pc sv_open = AtWait"
proof -
  define m1 where "m1 = (newManager 64 2 defaultTimeouts)\<lparr>mg_pendingConnection := False, mg_uploaded := []\<rparr>"
  have "onConnection env_good True (newManager 64 2 defaultTimeouts) = absorb cx_started m1"
    using cx_started_start
    by (simp add: onConnection_def acceptWhenParserIdle_def abortPending_def acceptIfIdle_def acceptPending_def newManager_def m1_def
        ctx_of_def freshCtx_def Let_def)
  then have m: "sv_mgr sv_open = absorb cx_started m1" by (simp add: sv_open_def)
  have n: "\<not> cx_notified cx_started" "\<not> cx_cutOff cx_started" "\<not> pt_stopRequested (cx_parser cx_started)"
    by (simp_all add: cx_started_def session_start_def freshCtx_def newSession_def newSocket_def sock_startRead_def env_good_def
      uv_good_def Let_def beginSession_def)
  show "mg_session (sv_mgr sv_open) = Some (cx_session cx_started)" "\<not> mg_cutOff (sv_mgr sv_open)"
    "\<not> pt_stopRequested (mg_parser (sv_mgr sv_open))" "sv_pc sv_open = AtWait"
    using n by (simp_all add: m) (simp add: sv_open_def newServer_def)
  show "ctx_of (cx_session cx_started) (sv_mgr sv_open) = cx_started" using n by (simp add: m ctx_of_def)
qed

text \<open>A server that has read a whole upload of one chunk.\<close>

lemma sv_takes:
  assumes up: "upload_ok h payload" and l: "length (upload_bytes h payload) \<le> 64"
  obtains sv s where "server_reach 64 2 defaultTimeouts sv" "mg_session (sv_mgr sv) = Some s" "ss_state s = SessionState.Analyzing"
    "concat (mg_uploaded (sv_mgr sv)) = payload" "\<not> mg_cutOff (sv_mgr sv)" "\<not> pt_stopRequested (mg_parser (sv_mgr sv))" "sv_pc sv = AtWait"
    "upload_run 64 defaultTimeouts (upload_bytes h payload) (ctx_of s (sv_mgr sv))"
proof -
  let ?b = "upload_bytes h payload"
  let ?ev = "EvRead 64 (int (length ?b)) ?b"
  have ne: "?b \<noteq> []" by (simp add: upload_bytes_def encodeUploadHeader_def putPreamble_def)
  obtain cx where e: "session_exec env_good ?ev cx_started = Some cx" using ne l by (simp add: onAllocate_def Let_def)
  have s: "upload_run 64 defaultTimeouts [] cx_started" by (rule upload_run.start [OF _ cx_started_start]) (simp add: kept_ok_def)
  have f: "slot_free (length ?b) cx_started" using l by (simp add: slot_free_def tryAcquireSlot_def tryAcquire_def newRing_def)
  have u: "upload_run 64 defaultTimeouts ?b cx"
    using upload_run.read [OF s ne f _ e] by (simp add: env_good_def uv_good_def)
  from upload_run_pos [OF u up]
  have st: "ss_state (cx_session cx) = SessionState.Analyzing" "concat (cx_uploaded cx) = payload"
    by (simp_all add: at_pos_def at_end_def length_upload_bytes)
  have i: "ctx_inv cx" using session_reach_inv [OF upload_run_reach [OF u]] .
  then have nc: "\<not> ss_cleanupStarted (cx_session cx)" using st(1) by (auto simp: ctx_inv_def sess_inv_def)
  obtain w where "mgr_match w (sv_pc sv_open) (sv_mgr sv_open)" using world_of [OF sv_open_reach] by auto
  then have w: "matches w AtWait cx_started" using matches_mgr [OF sv_open_ctx(1)] sv_open_ctx by simp
  have "follows_by AtWait cx_started cx"
    by (rule follows_exec [OF _ _ e]) (use session_reach_inv [OF cx_started_reach] in \<open>simp_all add: env_ok_def env_good_def socket_event_def\<close>)
  note F = follows_frame [OF this w nc]
  have "mg_cutOff (sv_mgr sv_open) = cx_cutOff cx_started" "mg_parser (sv_mgr sv_open) = cx_parser cx_started"
    using sv_open_ctx(2) by (simp_all add: ctx_of_def) (metis Ctx.select_convs)+
  then have k: "\<not> cx_cutOff cx" "\<not> pt_stopRequested (cx_parser cx)" using F sv_open_ctx(3,4) by simp_all
  define sv where "sv = sv_open\<lparr>sv_mgr := absorb cx (sv_mgr sv_open)\<rparr>"
  have "server_exec env_good (SvSession ?ev) sv_open = Some sv"
    using e sv_open_ctx(1,2) by (simp add: sv_def socket_event_def del: session_exec.simps)
  then have r: "server_reach 64 2 defaultTimeouts sv"
    by (rule server_reach.step [OF sv_open_reach, rotated]) (simp add: env_ok_def env_good_def)
  have "\<not> cx_notified cx_started" using arg_cong [OF sv_open_ctx(2), of cx_notified] by (simp add: ctx_of_def)
  then have "\<not> cx_notified cx"
    using exec_notified [OF session_reach_inv [OF cx_started_reach] e] nc by (auto simp: socket_event_def)
  then have "ctx_of (cx_session cx) (sv_mgr sv) = cx" by (simp add: sv_def ctx_of_def absorb_def)
  then show thesis using r u st k sv_open_ctx(5) by (intro that [of sv "cx_session cx"]) (simp_all add: sv_def)
qed

lemma small_upload_ok: "upload_ok small_header ''ab''" "length (upload_bytes small_header ''ab'') \<le> 64"
  using small_header_ok length_small_upload by (simp_all add: upload_ok_def small_upload_def upload_bytes_def trailer_for_def)

text \<open>The parser thread comes to the signal a session waits for.\<close>

lemma signal_comes:
  assumes r: "server_reach chunkSize ringSlots timeouts sv" "ringSlots dvd 2 ^ 64" "ringSlots < 2 ^ 64" "\<not> mg_cutOff (sv_mgr sv)"
    and s: "mg_session (sv_mgr sv) = Some s" "ss_state s = SessionState.Analyzing"
    and p: "\<not> pt_stopRequested (mg_parser (sv_mgr sv))" "sv_pc sv \<noteq> AtStopped" and e: "env_calm en"
  obtains k pt pc where "server_run en (replicate k SvParser) sv = Some (sv\<lparr>sv_mgr := (sv_mgr sv)\<lparr>mg_parser := pt\<rparr>, sv_pc := pc\<rparr>)"
    "server_reach chunkSize ringSlots timeouts (sv\<lparr>sv_mgr := (sv_mgr sv)\<lparr>mg_parser := pt\<rparr>, sv_pc := pc\<rparr>)" "pt_completionSent pt"
proof -
  obtain w where w: "pt_reach ringSlots chunkSize w" "mgr_match w (sv_pc sv) (sv_mgr sv)" using world_of [OF r(1,2)] .
  have i: "mgr_inv (sv_mgr sv)" using server_reach_inv [OF r(1,2)] by (simp add: server_inv_def)
  have wi: "\<not> w_cutOff w" "\<not> pt_stopRequested (w_pt w)" "w_pc w \<noteq> AtStopped" using w(2) r(4) p by (auto simp: mgr_match_def)
  have "analysis_pending w"
    using pt_reach_inv [OF w(1) wi(1) ring_slots_pos [OF r(2)] r(3)] analyzing_world [OF w(2) s i] wi by (simp add: analysis_pending_def)
  then obtain k w' where k: "pt_run (replicate k PRun) w = Some w'" "pt_completionSent (w_pt w')" using pending_completes by blast
  obtain pt where t: "server_run en (replicate k SvParser) sv = Some (sv\<lparr>sv_mgr := (sv_mgr sv)\<lparr>mg_parser := pt\<rparr>, sv_pc := w_pc w'\<rparr>)"
    "w_pt w' = pt" using parser_runs_server [OF k(1) w(2)] by blast
  from that [OF t(1) server_run_reach [OF t(1) e r(1)]] k(2) t(2) show thesis by simp
qed

lemma sv_signalled:
  assumes "upload_ok h payload" "length (upload_bytes h payload) \<le> 64"
  obtains sv s where "server_reach 64 2 defaultTimeouts sv" "mg_session (sv_mgr sv) = Some s" "ss_state s = SessionState.Analyzing"
    "concat (mg_uploaded (sv_mgr sv)) = payload" "\<not> mg_cutOff (sv_mgr sv)" "pt_completionSent (mg_parser (sv_mgr sv))"
    "upload_run 64 defaultTimeouts (upload_bytes h payload) (ctx_of s (sv_mgr sv))"
proof -
  obtain sv s where sv: "server_reach 64 2 defaultTimeouts sv" "mg_session (sv_mgr sv) = Some s" "ss_state s = SessionState.Analyzing"
    "concat (mg_uploaded (sv_mgr sv)) = payload" "\<not> mg_cutOff (sv_mgr sv)" "\<not> pt_stopRequested (mg_parser (sv_mgr sv))" "sv_pc sv = AtWait"
    "upload_run 64 defaultTimeouts (upload_bytes h payload) (ctx_of s (sv_mgr sv))"
    by (rule sv_takes [OF assms])
  have d: "(2 :: nat) dvd 2 ^ 64" "(2 :: nat) < 2 ^ 64" "sv_pc sv \<noteq> AtStopped" using sv(7) by simp_all
  obtain k pt pc where "server_reach 64 2 defaultTimeouts (sv\<lparr>sv_mgr := (sv_mgr sv)\<lparr>mg_parser := pt\<rparr>, sv_pc := pc\<rparr>)" "pt_completionSent pt"
    using signal_comes [OF sv(1) d(1,2) sv(5,2,3,6) d(3) env_good_calm] by blast
  moreover have "upload_run 64 defaultTimeouts (upload_bytes h payload) (ctx_of s ((sv_mgr sv)\<lparr>mg_parser := pt\<rparr>))"
    using upload_run.parser [OF sv(8), of pt] by (simp add: ctx_of_def)
  ultimately show thesis using that [of "sv\<lparr>sv_mgr := (sv_mgr sv)\<lparr>mg_parser := pt\<rparr>, sv_pc := pc\<rparr>"] sv by simp
qed

section \<open>Properties\<close>

text \<open>
  C3. The server refines the two-thread model of the pipeline: whatever connections, data, timeouts, signals and
  steps of the parser thread it has seen, there is a run of that model with the same parser thread at the same
  point, the same bytes handed over in the current session, and the phase its session is in.
\<close>

theorem server_refines_two_threads:
  assumes "server_reach chunkSize ringSlots timeouts sv" and "ringSlots dvd 2 ^ 64"
  shows "\<exists>w. pt_reach ringSlots chunkSize w \<and> w_pt w = mg_parser (sv_mgr sv) \<and> w_pc w = sv_pc sv \<and>
    (\<forall>s. mg_session (sv_mgr sv) = Some s \<longrightarrow> w_sent w = mg_uploaded (sv_mgr sv) \<and> phase_match (w_phase w) (mg_retained (sv_mgr sv)) s) \<and>
    (mg_session (sv_mgr sv) = None \<and> \<not> mg_closing (sv_mgr sv) \<longrightarrow> w_phase w = Idle)"
proof -
  obtain w where w: "pt_reach ringSlots chunkSize w" "mgr_match w (sv_pc sv) (sv_mgr sv)" using world_of [OF assms] .
  show ?thesis by (rule exI [of _ w], cases "mg_session (sv_mgr sv)") (use w in \<open>auto simp: mgr_match_def\<close>)
qed

theorem server_refines_two_threads_witness:
  "\<exists>w. pt_reach 2 64 w \<and> w_pt w = mg_parser (sv_mgr sv_open) \<and> phase_match (w_phase w) (mg_retained (sv_mgr sv_open)) (cx_session cx_started)"
  using server_refines_two_threads [OF sv_open_reach] sv_open_ctx(1) by auto

text \<open>
  C18. The accept gate works: a session that has not been cleaned up never runs while the parser thread still has
  an abort to carry out, so the data of a session is never thrown away by the end of an earlier one.
\<close>

theorem session_never_meets_abort:
  assumes "server_reach chunkSize ringSlots timeouts sv" and "ringSlots dvd 2 ^ 64"
    and "mg_session (sv_mgr sv) = Some s" and "\<not> ss_cleanupStarted s"
  shows "\<not> pt_abortRequested (mg_parser (sv_mgr sv))"
proof -
  obtain w where w: "pt_reach ringSlots chunkSize w" "mgr_match w (sv_pc sv) (sv_mgr sv)" using world_of [OF assms(1,2)] .
  have "w_phase w \<noteq> Idle" using w(2) assms(3,4) by (cases "ss_state s") (auto simp: mgr_match_def phase_match_def)
  with pt_reach_no_abort [OF w(1)] w(2) show ?thesis by (simp add: mgr_match_def)
qed

theorem session_never_meets_abort_witness: "\<not> pt_abortRequested (mg_parser (sv_mgr sv_open))"
proof -
  have "\<not> ss_cleanupStarted (cx_session cx_started)" using session_reach_inv [OF cx_started_reach] by (auto simp: ctx_inv_def sess_inv_def)
  with session_never_meets_abort [OF sv_open_reach _ sv_open_ctx(1)] show ?thesis by simp
qed

text \<open>
  C2. End to end: when the completion signal reaches a session that waits for it, what the session keeps for
  resuming and sends is the analysis of exactly the bytes uploaded in it, under their size and CRC-32; on the
  wire are the Ack with that size, a header with the size and CRC-32 of the CSV, and the CSV itself, unless a
  write failed and the session was cleaned up.  (Runs with a session cut off during its analysis are excluded.)
\<close>

theorem server_result_correct:
  assumes "server_reach chunkSize ringSlots timeouts sv" and "ringSlots dvd 2 ^ 64" and "ringSlots < 2 ^ 64"
    and "\<not> mg_cutOff (sv_mgr sv)" and "mg_session (sv_mgr sv) = Some s" and "ss_state s = SessionState.Analyzing"
    and "server_exec en SvAnalysis sv = Some sv'"
  defines "up \<equiv> concat (mg_uploaded (sv_mgr sv))"
  shows "\<exists>s' kept. mg_session (sv_mgr sv') = Some s' \<and> ss_csv s' = ar_csv (analysis_of up) \<and>
    mg_retained (sv_mgr sv') = Some kept \<and> rt_filename kept = ss_filename s \<and> result_of up kept \<and>
    (ss_cleanupStarted s' \<or> sk_written (ss_socket s') =
      [encodeAck \<lparr>ack_status = AckOk, ack_receivedBytes = of_nat (length up)\<rparr>,
       encodeResultHeader \<lparr>rh_csvSize = of_nat (length (ss_csv s')), rh_crc32 = crc32_ref 0 (ss_csv s')\<rparr>, ss_csv s'])"
proof -
  have c: "pt_completionSent (mg_parser (sv_mgr sv))" and e: "sv_mgr sv' = onAnalysisSignal en (sv_mgr sv)"
    using assms(7) by (auto split: if_splits)
  show ?thesis unfolding e up_def using signal_effect [OF assms(1-6) c, of en] by blast
qed

theorem server_result_correct_witness:
  "\<exists>sv sv' s' kept. server_exec env_good SvAnalysis sv = Some sv' \<and> mg_session (sv_mgr sv') = Some s' \<and>
    mg_retained (sv_mgr sv') = Some kept \<and> ss_csv s' = ar_csv (analysis_of ''ab'') \<and> result_of ''ab'' kept"
proof -
  obtain sv s where sv: "server_reach 64 2 defaultTimeouts sv" "mg_session (sv_mgr sv) = Some s" "ss_state s = SessionState.Analyzing"
    "concat (mg_uploaded (sv_mgr sv)) = ''ab''" "\<not> mg_cutOff (sv_mgr sv)" "pt_completionSent (mg_parser (sv_mgr sv))"
    by (rule sv_signalled [OF small_upload_ok])
  then obtain sv' where e: "server_exec env_good SvAnalysis sv = Some sv'" by simp
  from server_result_correct [OF sv(1) _ _ sv(5,2,3) e] sv(4) e show ?thesis by fastforce
qed

text \<open>
  C9. And it happens: a session that waits for its analysis is answered.  The parser thread, unless it was told
  to stop, comes to the completion signal by its own steps, and when the loop handles the signal and writes
  succeed, the client is sent the analysis of its upload.
\<close>

theorem server_answers:
  assumes "server_reach chunkSize ringSlots timeouts sv" and "ringSlots dvd 2 ^ 64" and "ringSlots < 2 ^ 64"
    and "\<not> mg_cutOff (sv_mgr sv)" and "mg_session (sv_mgr sv) = Some s" and "ss_state s = SessionState.Analyzing"
    and "\<not> pt_stopRequested (mg_parser (sv_mgr sv))" and "sv_pc sv \<noteq> AtStopped" and "env_calm en"
  defines "up \<equiv> concat (mg_uploaded (sv_mgr sv))"
  shows "\<exists>k sv' s'. server_run en (replicate k SvParser @ [SvAnalysis]) sv = Some sv' \<and> mg_session (sv_mgr sv') = Some s' \<and>
    ss_csv s' = ar_csv (analysis_of up) \<and> sk_written (ss_socket s') =
      [encodeAck \<lparr>ack_status = AckOk, ack_receivedBytes = of_nat (length up)\<rparr>,
       encodeResultHeader \<lparr>rh_csvSize = of_nat (length (ss_csv s')), rh_crc32 = crc32_ref 0 (ss_csv s')\<rparr>, ss_csv s']"
proof -
  obtain k pt pc where r: "server_run en (replicate k SvParser) sv = Some (sv\<lparr>sv_mgr := (sv_mgr sv)\<lparr>mg_parser := pt\<rparr>, sv_pc := pc\<rparr>)"
    and r1: "server_reach chunkSize ringSlots timeouts (sv\<lparr>sv_mgr := (sv_mgr sv)\<lparr>mg_parser := pt\<rparr>, sv_pc := pc\<rparr>)" and c: "pt_completionSent pt"
    by (rule signal_comes [OF assms(1-9)])
  define sv1 where "sv1 = sv\<lparr>sv_mgr := (sv_mgr sv)\<lparr>mg_parser := pt\<rparr>, sv_pc := pc\<rparr>"
  have D: "\<not> mg_cutOff (sv_mgr sv1)" "mg_session (sv_mgr sv1) = Some s" "mg_uploaded (sv_mgr sv1) = mg_uploaded (sv_mgr sv)"
    "pt_completionSent (mg_parser (sv_mgr sv1))" using assms(4,5) c by (simp_all add: sv1_def)
  have run: "server_run en (replicate k SvParser @ [SvAnalysis]) sv = Some (sv1\<lparr>sv_mgr := onAnalysisSignal en (sv_mgr sv1)\<rparr>)"
    using r D(4) by (simp add: server_run_append sv1_def)
  from signal_effect [OF r1 [folded sv1_def] assms(2,3) D(1,2) assms(6) D(4), of en] obtain s' where
    "mg_session (onAnalysisSignal en (sv_mgr sv1)) = Some s'" "ss_csv s' = ar_csv (analysis_of up)"
    "sk_written (ss_socket s') =
      [encodeAck \<lparr>ack_status = AckOk, ack_receivedBytes = of_nat (length up)\<rparr>,
       encodeResultHeader \<lparr>rh_csvSize = of_nat (length (ss_csv s')), rh_crc32 = crc32_ref 0 (ss_csv s')\<rparr>, ss_csv s']"
    using assms(9) unfolding D(3) up_def by blast
  with run show ?thesis by (intro exI [of _ k] exI [of _ "sv1\<lparr>sv_mgr := onAnalysisSignal en (sv_mgr sv1)\<rparr>"] exI [of _ s']) simp
qed

theorem server_answers_witness:
  "\<exists>sv k sv' s'. server_reach 64 2 defaultTimeouts sv \<and> server_run env_good (replicate k SvParser @ [SvAnalysis]) sv = Some sv' \<and>
    mg_session (sv_mgr sv') = Some s' \<and> ss_csv s' = ar_csv (analysis_of ''ab'')"
proof -
  obtain sv s where sv: "server_reach 64 2 defaultTimeouts sv" "mg_session (sv_mgr sv) = Some s" "ss_state s = SessionState.Analyzing"
    "concat (mg_uploaded (sv_mgr sv)) = ''ab''" "\<not> mg_cutOff (sv_mgr sv)" "\<not> pt_stopRequested (mg_parser (sv_mgr sv))" "sv_pc sv = AtWait"
    by (rule sv_takes [OF small_upload_ok])
  from server_answers [OF sv(1) _ _ sv(5,2,3,6) _ env_good_calm] sv show ?thesis by fastforce
qed

text \<open>
  C10. Whatever result a session sends, fresh or resumed, is the one the server keeps, and that is the analysis of
  some complete upload whose size and CRC-32 it is kept under; a resume claim is answered only if it names these.
\<close>

theorem server_sends_kept_result:
  assumes "server_reach chunkSize ringSlots timeouts sv" and "ringSlots dvd 2 ^ 64" and "ringSlots < 2 ^ 64"
    and "\<not> mg_cutOff (sv_mgr sv)" and "mg_session (sv_mgr sv) = Some s" and "ss_state s \<in> {SendingResult, WaitDone}"
  shows "\<exists>r up. mg_retained (sv_mgr sv) = Some r \<and> ss_csv s = rt_csv r \<and> result_of up r \<and>
    (\<forall>filename fileSize crc. retainedResult (mg_retained (sv_mgr sv)) filename fileSize crc \<noteq> None \<longleftrightarrow>
       filename = rt_filename r \<and> fileSize = of_nat (length up) \<and> crc = crc32_ref 0 up)"
proof -
  obtain w where w: "pt_reach ringSlots chunkSize w" "mgr_match w (sv_pc sv) (sv_mgr sv)" using world_of [OF assms(1,2)] .
  have "mgr_inv (sv_mgr sv)" using server_reach_inv [OF assms(1,2)] by (simp add: server_inv_def)
  then have "\<not> ss_cleanupStarted s" using assms(5,6) by (auto simp: mgr_inv_def sess_inv_def)
  then obtain r where r: "mg_retained (sv_mgr sv) = Some r" "ss_csv s = rt_csv r"
    using w(2) assms(5,6) by (auto simp: mgr_match_def phase_match_def)
  obtain up where up: "result_of up r" using server_kept [OF assms(1-4) r(1)] by blast
  then have "rt_fileSize r = of_nat (length up)" "rt_uploadCrc32 r = crc32_ref 0 up"
    by (auto simp: result_of_def) (metis of_nat_unat_u64)
  with r up show ?thesis by (intro exI [of _ r] exI [of _ up]) (auto simp: retainedResult_def)
qed

theorem server_sends_kept_result_witness:
  "\<exists>sv r up. server_reach 64 2 defaultTimeouts sv \<and> mg_retained (sv_mgr sv) = Some r \<and> result_of up r"
proof -
  obtain sv s where sv: "server_reach 64 2 defaultTimeouts sv" "mg_session (sv_mgr sv) = Some s" "ss_state s = SessionState.Analyzing"
    "\<not> mg_cutOff (sv_mgr sv)" "pt_completionSent (mg_parser (sv_mgr sv))"
    by (rule sv_signalled [OF small_upload_ok])
  have d: "(2 :: nat) dvd 2 ^ 64" "(2 :: nat) < 2 ^ 64" by simp_all
  define sv' where "sv' = sv\<lparr>sv_mgr := onAnalysisSignal env_good (sv_mgr sv)\<rparr>"
  have r: "server_reach 64 2 defaultTimeouts sv'"
    using server_run_reach [OF _ env_good_calm sv(1), of "[SvAnalysis]" sv'] sv(5) by (simp add: sv'_def)
  obtain s' where "mg_session (sv_mgr sv') = Some s'" "ss_state s' = SendingResult" "\<not> mg_cutOff (sv_mgr sv')"
    using signal_effect [OF sv(1) d sv(4,2,3,5), of env_good] env_good_calm by (auto simp: sv'_def)
  with server_sends_kept_result [OF r d, of s'] r show ?thesis by blast
qed

end
