(* ===== verification/ServerConfig.thy ===== *)
theory ServerConfig
  imports Protocol RingBuffer
begin

text \<open>
  The settings of the server, \<^verbatim>\<open>server/src/app/ServerConfig.cpp\<close>: the command line, the key=value text of
  the configuration file and their combination.  A failure is \<open>Inl\<close> with the message shown to the user; the
  half-filled output of a failed call, which no caller reads, is not kept.  Opening the file is not modelled:
  \<open>buildConfig\<close> takes the text of the file, if there is one.
\<close>

section \<open>Definitions\<close>

definition kMinPort :: nat where
  "kMinPort = 1024"

definition kMinChunkSize :: nat where
  "kMinChunkSize = 4 * 1024"

definition kMaxChunkSize :: nat where
  "kMaxChunkSize = 1024 * 1024"

definition kMinSendBufferSize :: nat where
  "kMinSendBufferSize = 8 * 1024"

definition kMaxSendBufferSize :: nat where
  "kMaxSendBufferSize = 16 * 1024 * 1024"

record ServerConfig =
  sc_port :: u16
  sc_daemonize :: bool
  sc_chunkSize :: nat
  sc_sendBufferSize :: nat
  sc_logPath :: string
  sc_configPath :: string

definition defaultConfig :: ServerConfig where
  "defaultConfig = \<lparr>sc_port = of_nat kDefaultPort, sc_daemonize = False, sc_chunkSize = 64 * 1024, sc_sendBufferSize = 0,
    sc_logPath = ''./server.log'', sc_configPath = ''./server.conf''\<rparr>"

record CommandLine =
  cl_configPath :: string
  cl_daemonize :: bool
  cl_hasPort :: bool
  cl_port :: u16
  cl_helpRequested :: bool

definition newCommandLine :: CommandLine where
  "newCommandLine = \<lparr>cl_configPath = ''./server.conf'', cl_daemonize = False, cl_hasPort = False, cl_port = 0,
    cl_helpRequested = False\<rparr>"

definition isSpace :: "char \<Rightarrow> bool" where
  "isSpace ch \<longleftrightarrow> ch = CHR '' '' \<or> ch = CHR 0x09 \<or> ch = CHR 0x0D"

definition trim :: "string \<Rightarrow> string" where
  "trim text = rev (dropWhile isSpace (rev (dropWhile isSpace text)))"

definition parseUnsigned :: "string \<Rightarrow> nat option" where
  "parseUnsigned token =
    (if token = [] \<or> \<not> is_digit (hd token) then None
     else case from_chars_u64 token of (ec, v, n) \<Rightarrow> if ec = ErrcOk \<and> n = length token then Some v else None)"

definition applyPort :: "string \<Rightarrow> string + u16" where
  "applyPort value =
    (case parseUnsigned value of
       None \<Rightarrow> Inl (''invalid port: '' @ [CHR 0x27] @ value @ [CHR 0x27] @ '' (expected a number)'')
     | Some number \<Rightarrow>
         if number < kMinPort \<or> number > 65535
         then Inl (''port out of range: '' @ value @ '' (allowed '' @ to_string kMinPort @ ''-65535; below '' @
           to_string kMinPort @ '' requires root to bind)'')
         else Inr (of_nat number))"

definition applySize :: "string \<Rightarrow> nat \<Rightarrow> nat \<Rightarrow> string \<Rightarrow> bool \<Rightarrow> string + nat" where
  "applySize value lo hi name allowZero =
    (case parseUnsigned value of
       None \<Rightarrow> Inl (''invalid '' @ name @ '': '' @ [CHR 0x27] @ value @ [CHR 0x27] @ '' (expected a number)'')
     | Some number \<Rightarrow>
         if allowZero \<and> number = 0 then Inr 0
         else if number < lo \<or> number > hi
         then Inl (name @ '' out of range: '' @ value @ '' (allowed '' @ to_string lo @ ''-'' @ to_string hi @
           (if allowZero then '', or 0 for kernel autotuning)'' else '')''))
         else Inr number)"

text \<open>The arguments after the program name.\<close>

fun parseArgs :: "string list \<Rightarrow> CommandLine \<Rightarrow> string + CommandLine" where
  "parseArgs [] out = Inr out"
| "parseArgs (arg # rst) out =
    (if arg = ''-h'' \<or> arg = ''--help'' then Inr (out\<lparr>cl_helpRequested := True\<rparr>)
     else if arg = ''-d'' then parseArgs rst (out\<lparr>cl_daemonize := True\<rparr>)
     else if arg = ''-p'' then
       (case rst of
          [] \<Rightarrow> Inl ''-p requires a port number''
        | value # others \<Rightarrow>
            (case applyPort value of
               Inl e \<Rightarrow> Inl e
             | Inr port \<Rightarrow> parseArgs others (out\<lparr>cl_port := port, cl_hasPort := True\<rparr>)))
     else if arg = ''-c'' then
       (case rst of
          [] \<Rightarrow> Inl ''-c requires a config file path''
        | value # others \<Rightarrow>
            if value = [] then Inl ''-c requires a non-empty path''
            else parseArgs others (out\<lparr>cl_configPath := value\<rparr>))
     else Inl (''unknown argument: '' @ [CHR 0x27] @ arg @ [CHR 0x27]))"

definition parseCommandLine :: "string list \<Rightarrow> string + CommandLine" where
  "parseCommandLine argv = parseArgs (drop 1 argv) newCommandLine"

text \<open>\<^verbatim>\<open>std::getline\<close> until the end of the stream.\<close>

fun getlines :: "string \<Rightarrow> string list" where
  "getlines [] = []"
| "getlines (c # cs) =
    (if c = CHR 0x0A then [] # getlines cs
     else case getlines cs of [] \<Rightarrow> [[c]] | l # ls \<Rightarrow> (c # l) # ls)"

definition at_line :: "nat \<Rightarrow> string" where
  "at_line n = '' (line '' @ to_string n @ '')''"

definition applyKey :: "string \<Rightarrow> string \<Rightarrow> nat \<Rightarrow> ServerConfig \<Rightarrow> string + ServerConfig" where
  "applyKey key value lineNumber out =
    (if key = ''port'' then map_sum (\<lambda>e. e @ at_line lineNumber) (\<lambda>v. out\<lparr>sc_port := v\<rparr>) (applyPort value)
     else if key = ''chunk_size'' then
       map_sum (\<lambda>e. e @ at_line lineNumber) (\<lambda>v. out\<lparr>sc_chunkSize := v\<rparr>)
         (applySize value kMinChunkSize kMaxChunkSize ''chunk_size'' False)
     else if key = ''snd_buf_size'' then
       map_sum (\<lambda>e. e @ at_line lineNumber) (\<lambda>v. out\<lparr>sc_sendBufferSize := v\<rparr>)
         (applySize value kMinSendBufferSize kMaxSendBufferSize ''snd_buf_size'' True)
     else if key = ''log_path'' then Inr (out\<lparr>sc_logPath := value\<rparr>)
     else Inl (''unknown config key: '' @ [CHR 0x27] @ key @ [CHR 0x27] @ at_line lineNumber))"

definition applyLine :: "string \<Rightarrow> nat \<Rightarrow> ServerConfig \<Rightarrow> string + ServerConfig" where
  "applyLine rawLine lineNumber out =
    (let line = trim rawLine in
     if line = [] \<or> hd line = CHR ''#'' then Inr out
     else case sv_find_char line (CHR ''='') 0 of
       None \<Rightarrow> Inl (''missing '' @ [CHR 0x27] @ ''='' @ [CHR 0x27] @ '' in config'' @ at_line lineNumber @ '': '' @
         [CHR 0x27] @ line @ [CHR 0x27])
     | Some separator \<Rightarrow>
         let key = trim (take separator line); value = trim (drop (separator + 1) line) in
         if key = [] then Inl (''empty key in config'' @ at_line lineNumber)
         else if value = [] then Inl (''empty value for '' @ [CHR 0x27] @ key @ [CHR 0x27] @ at_line lineNumber)
         else applyKey key value lineNumber out)"

fun parseLines :: "nat \<Rightarrow> string list \<Rightarrow> ServerConfig \<Rightarrow> string + ServerConfig" where
  "parseLines n [] out = Inr out"
| "parseLines n (l # ls) out =
    (case applyLine l (Suc n) out of Inl e \<Rightarrow> Inl e | Inr out' \<Rightarrow> parseLines (Suc n) ls out')"

definition parseConfigText :: "string \<Rightarrow> ServerConfig \<Rightarrow> string + ServerConfig" where
  "parseConfigText text out = parseLines 0 (getlines text) out"

definition buildConfig :: "CommandLine \<Rightarrow> string option \<Rightarrow> string + ServerConfig" where
  "buildConfig cli file =
    (let out = defaultConfig\<lparr>sc_configPath := cl_configPath cli\<rparr> in
     case (case file of None \<Rightarrow> Inr out | Some text \<Rightarrow> parseConfigText text out) of
       Inl e \<Rightarrow> Inl (''config file '' @ [CHR 0x27] @ cl_configPath cli @ [CHR 0x27] @ '': '' @ e)
     | Inr cfg \<Rightarrow>
         let cfg1 = cfg\<lparr>sc_daemonize := cl_daemonize cli\<rparr> in
         Inr (if cl_hasPort cli then cfg1\<lparr>sc_port := cl_port cli\<rparr> else cfg1))"

section \<open>Numbers and spaces\<close>

lemma parseUnsigned_Some:
  "parseUnsigned t = Some v \<longleftrightarrow> t \<noteq> [] \<and> list_all is_digit t \<and> v = digits_val t \<and> v < 2 ^ 64"
proof (cases "t \<noteq> [] \<and> list_all is_digit t")
  case True
  then have "takeWhile is_digit t = t" by (simp add: list_all_iff)
  with True show ?thesis
    by (auto simp: parseUnsigned_def from_chars_u64_def from_chars_unsigned_def Let_def list_all_iff simp del: takeWhile_eq_all_conv)
next
  case False
  have "parseUnsigned t \<noteq> Some v"
  proof
    assume "parseUnsigned t = Some v"
    then have "from_chars_u64 t = (ErrcOk, v, length t)"
      by (auto simp: parseUnsigned_def split: if_splits prod.splits)
    from from_chars_u64_Ok [OF this] False show False by blast
  qed
  with False show ?thesis by blast
qed

lemma parseUnsigned_eq:
  "parseUnsigned t = (if t \<noteq> [] \<and> list_all is_digit t \<and> digits_val t < 2 ^ 64 then Some (digits_val t) else None)"
  using parseUnsigned_Some [of t] by (cases "parseUnsigned t") auto

lemma parseUnsigned_to_string [simp]: "n < 2 ^ 64 \<Longrightarrow> parseUnsigned (to_string n) = Some n"
  by (simp add: parseUnsigned_Some)

lemma dropWhile_id: "s \<noteq> [] \<Longrightarrow> \<not> P (hd s) \<Longrightarrow> dropWhile P s = s"
  by (cases s) simp_all

lemma trim_id: "s \<noteq> [] \<Longrightarrow> \<not> isSpace (hd s) \<Longrightarrow> \<not> isSpace (last s) \<Longrightarrow> trim s = s"
  by (simp add: trim_def dropWhile_id hd_rev)

lemma digit_not_space: "is_digit c \<Longrightarrow> \<not> isSpace c \<and> c \<noteq> CHR 0x0A \<and> c \<noteq> CHR ''=''"
  by (auto simp: is_digit_def isSpace_def byte_nat_def)

section \<open>What the file may say\<close>

text \<open>The accepted settings and lines, as the documentation lists them.\<close>

definition number_in :: "nat \<Rightarrow> nat \<Rightarrow> string \<Rightarrow> bool" where
  "number_in lo hi v \<longleftrightarrow> v \<noteq> [] \<and> list_all is_digit v \<and> lo \<le> digits_val v \<and> digits_val v \<le> hi"

definition setting_ok :: "string \<Rightarrow> string \<Rightarrow> bool" where
  "setting_ok key v \<longleftrightarrow>
    key = ''port'' \<and> number_in 1024 65535 v \<or>
    key = ''chunk_size'' \<and> number_in 4096 1048576 v \<or>
    key = ''snd_buf_size'' \<and> (number_in 0 0 v \<or> number_in 8192 16777216 v) \<or>
    key = ''log_path'' \<and> v \<noteq> []"

definition line_ok :: "string \<Rightarrow> bool" where
  "line_ok rawLine \<longleftrightarrow> (let line = trim rawLine in
     line = [] \<or> hd line = CHR ''#'' \<or>
     (\<exists>k v. CHR ''='' \<notin> set k \<and> line = k @ CHR ''='' # v \<and> setting_ok (trim k) (trim v)))"

definition config_ok :: "ServerConfig \<Rightarrow> bool" where
  "config_ok c \<longleftrightarrow> 1024 \<le> unat (sc_port c) \<and> 4096 \<le> sc_chunkSize c \<and> sc_chunkSize c \<le> 1048576 \<and>
    (sc_sendBufferSize c = 0 \<or> 8192 \<le> sc_sendBufferSize c \<and> sc_sendBufferSize c \<le> 16777216) \<and> sc_logPath c \<noteq> []"

lemmas limit_defs = kMinPort_def kMinChunkSize_def kMaxChunkSize_def kMinSendBufferSize_def kMaxSendBufferSize_def

lemma applyPort_Inr: "(\<exists>p. applyPort v = Inr p) \<longleftrightarrow> number_in 1024 65535 v"
  by (auto simp: applyPort_def limit_defs number_in_def parseUnsigned_eq)

lemma applyPort_value:
  assumes "applyPort v = Inr p"
  shows "1024 \<le> unat p" and "unat p = digits_val v"
proof -
  obtain n where n: "parseUnsigned v = Some n" "1024 \<le> n" "n \<le> 65535" "p = of_nat n"
    using assms by (auto simp: applyPort_def limit_defs split: option.splits if_splits)
  then have "unat p = n" by (simp add: unat_of_nat)
  with n show "1024 \<le> unat p" "unat p = digits_val v" by (auto simp: parseUnsigned_Some)
qed

lemma applySize_Inr:
  assumes "hi < 2 ^ 64"
  shows "(\<exists>n. applySize v lo hi name z = Inr n) \<longleftrightarrow> (z \<and> number_in 0 0 v) \<or> number_in lo hi v"
  using assms by (auto simp: applySize_def number_in_def parseUnsigned_eq)

lemma applySize_value:
  "applySize v lo hi name z = Inr n \<Longrightarrow> (z \<and> n = 0) \<or> (lo \<le> n \<and> n \<le> hi)"
  by (auto simp: applySize_def split: option.splits if_splits)

lemma map_sum_Inr: "(\<exists>y. map_sum f g x = Inr y) \<longleftrightarrow> (\<exists>y. x = Inr y)"
  by (cases x) auto

lemma map_sum_Inr_elim: "map_sum f g x = Inr y \<Longrightarrow> (\<And>v. x = Inr v \<Longrightarrow> y = g v \<Longrightarrow> P) \<Longrightarrow> P"
  by (cases x) auto

lemma map_sum_Inl: "map_sum f g x = Inl y \<longleftrightarrow> (\<exists>e. x = Inl e \<and> y = f e)"
  by (cases x) auto

lemma applyKey_Inr: "v \<noteq> [] \<Longrightarrow> (\<exists>c'. applyKey key v n c = Inr c') \<longleftrightarrow> setting_ok key v"
  using applyPort_Inr [of v] applySize_Inr [of kMaxChunkSize v kMinChunkSize] applySize_Inr [of kMaxSendBufferSize v kMinSendBufferSize]
  by (auto simp: applyKey_def setting_ok_def map_sum_Inr limit_defs)

lemma applyKey_Inl: "applyKey key v n c = Inl e \<Longrightarrow> \<exists>pre. e = pre @ at_line n"
  by (auto simp: applyKey_def map_sum_Inl split: if_splits)

lemma first_eq: "sv_find_char s c 0 = Some i \<Longrightarrow> c \<notin> set (take i s) \<and> s = take i s @ c # drop (i + 1) s"
  using sv_find_char_split [of s c 0 i] by (simp add: sv_substr_def)

lemma split_unique: "c \<notin> set k \<Longrightarrow> c \<notin> set k' \<Longrightarrow> k @ c # v = k' @ c # v' \<Longrightarrow> k = k' \<and> v = v'"
proof (induction k arbitrary: k')
  case Nil
  then show ?case by (cases k') auto
next
  case (Cons a k)
  then show ?case by (cases k') auto
qed

lemma applyLine_Inr: "(\<exists>c'. applyLine raw n c = Inr c') \<longleftrightarrow> line_ok raw"
proof -
  define line where "line = trim raw"
  show ?thesis
  proof (cases "line = [] \<or> hd line = CHR ''#''")
    case True
    then show ?thesis by (auto simp: applyLine_def line_ok_def Let_def line_def)
  next
    case ne: False
    show ?thesis
    proof (cases "sv_find_char line (CHR ''='') 0")
      case None
      have "CHR ''='' \<notin> set line"
        using sv_find_char_NoneD [OF None] by (auto simp: in_set_conv_nth)
      then have "line \<noteq> k @ CHR ''='' # v" for k v by auto
      then show ?thesis using None ne by (auto simp: applyLine_def line_ok_def Let_def simp flip: line_def)
    next
      case (Some i)
      note f = first_eq [OF Some]
      have ex: "(\<exists>k v. CHR ''='' \<notin> set k \<and> line = k @ CHR ''='' # v \<and> setting_ok (trim k) (trim v)) \<longleftrightarrow>
          setting_ok (trim (take i line)) (trim (drop (i + 1) line))"
        using f split_unique by metis
      have so: "setting_ok k v \<Longrightarrow> k \<noteq> [] \<and> v \<noteq> []" for k v by (auto simp: setting_ok_def number_in_def)
      show ?thesis
        using Some ne so applyKey_Inr unfolding line_ok_def Let_def line_def [symmetric] ex
        by (auto simp: applyLine_def Let_def simp flip: line_def)
    qed
  qed
qed

lemma at_line_parts:
  "\<exists>pre post. pre' @ at_line n @ post' = pre @ at_line n @ post" "\<exists>pre post. pre' @ at_line n = pre @ at_line n @ post"
  by blast (metis append_Nil2)

lemma applyLine_Inl:
  assumes e: "applyLine raw n c = Inl e"
  shows "\<exists>pre post. e = pre @ at_line n @ post"
proof -
  define line where "line = trim raw"
  have ne: "\<not> (line = [] \<or> hd line = CHR ''#'')" using e by (auto simp: applyLine_def Let_def line_def)
  show ?thesis
  proof (cases "sv_find_char line (CHR ''='') 0")
    case None
    then have "e = (''missing '' @ [CHR 0x27] @ ''='' @ [CHR 0x27] @ '' in config'') @ at_line n @ '': '' @ [CHR 0x27] @ line @ [CHR 0x27]"
      using e ne by (simp add: applyLine_def Let_def flip: line_def)
    then show ?thesis using at_line_parts(1) by blast
  next
    case (Some i)
    define key v where "key = trim (take i line)" and "v = trim (drop (i + 1) line)"
    have "e = ''empty key in config'' @ at_line n \<or> e = (''empty value for '' @ [CHR 0x27] @ key @ [CHR 0x27]) @ at_line n \<or>
        applyKey key v n c = Inl e"
      using e ne Some by (auto simp: applyLine_def Let_def key_def v_def simp flip: line_def split: if_splits)
    then show ?thesis using at_line_parts(2) applyKey_Inl by blast
  qed
qed

lemma applyKey_keeps: "applyKey key v n c = Inr c' \<Longrightarrow> v \<noteq> [] \<Longrightarrow> config_ok c \<Longrightarrow> config_ok c'"
  by (auto simp: applyKey_def config_ok_def limit_defs split: if_splits
      dest: applyPort_value applySize_value elim!: map_sum_Inr_elim)

lemma applyLine_keeps: "applyLine raw n c = Inr c' \<Longrightarrow> config_ok c \<Longrightarrow> config_ok c'"
  by (auto simp: applyLine_def Let_def split: if_splits option.splits dest: applyKey_keeps)

lemma parseLines_keeps: "parseLines n ls c = Inr c' \<Longrightarrow> config_ok c \<Longrightarrow> config_ok c'"
  by (induction n ls c rule: parseLines.induct) (auto split: sum.splits dest: applyLine_keeps)

lemma parseLines_Inr: "(\<exists>c'. parseLines n ls c = Inr c') \<longleftrightarrow> list_all line_ok ls"
proof (induction n ls c rule: parseLines.induct)
  case (2 n l ls out)
  then show ?case using applyLine_Inr [of l "Suc n" out] by (auto split: sum.splits)
qed simp

lemma parseLines_Inl:
  "parseLines n ls c = Inl e \<Longrightarrow> \<exists>i<length ls. list_all line_ok (take i ls) \<and> \<not> line_ok (ls ! i) \<and>
    (\<exists>pre post. e = pre @ at_line (n + i + 1) @ post)"
proof (induction n ls c rule: parseLines.induct)
  case (2 n l ls out)
  show ?case
  proof (cases "applyLine l (Suc n) out")
    case (Inl e')
    then have "\<not> line_ok l" "\<exists>pre post. e = pre @ at_line (Suc n) @ post"
      using applyLine_Inr [of l "Suc n" out] applyLine_Inl 2(2) by auto
    then show ?thesis by (intro exI [of _ 0]) simp
  next
    case (Inr out')
    then have "line_ok l" using applyLine_Inr by blast
    from 2(1) [OF Inr] 2(2) Inr obtain i where "i < length ls" "list_all line_ok (take i ls)" "\<not> line_ok (ls ! i)"
      "\<exists>pre post. e = pre @ at_line (Suc n + i + 1) @ post" by auto
    with \<open>line_ok l\<close> show ?thesis by (intro exI [of _ "Suc i"]) simp
  qed
qed simp

lemma parseArgs_port: "parseArgs args out = Inr cli \<Longrightarrow> (cl_hasPort out \<longrightarrow> 1024 \<le> unat (cl_port out)) \<Longrightarrow> cl_hasPort cli \<Longrightarrow> 1024 \<le> unat (cl_port cli)"
  by (induction args out rule: parseArgs.induct) (auto split: if_splits list.splits sum.splits dest: applyPort_value)

section \<open>Writing a file that is read back\<close>

definition config_text :: "ServerConfig \<Rightarrow> string" where
  "config_text c = ''port='' @ to_string (unat (sc_port c)) @ [CHR 0x0A] @ ''chunk_size='' @ to_string (sc_chunkSize c) @ [CHR 0x0A] @
    ''snd_buf_size='' @ to_string (sc_sendBufferSize c) @ [CHR 0x0A] @ ''log_path='' @ sc_logPath c @ [CHR 0x0A]"

lemma getlines_line: "CHR 0x0A \<notin> set l \<Longrightarrow> getlines (l @ CHR 0x0A # s) = l # getlines s"
  by (induction l) auto

lemma to_string_chars: "c \<in> set (to_string n) \<Longrightarrow> is_digit c"
  using to_string_digits [of n] by (simp add: list_all_iff)

lemma to_string_plain:
  "CHR 0x0A \<notin> set (to_string n)" "CHR ''='' \<notin> set (to_string n)" "\<not> isSpace (hd (to_string n))" "\<not> isSpace (last (to_string n))"
  using to_string_chars digit_not_space hd_in_set last_in_set to_string_not_Nil by metis+

definition plain_value :: "string \<Rightarrow> bool" where
  "plain_value v \<longleftrightarrow> v \<noteq> [] \<and> \<not> isSpace (hd v) \<and> \<not> isSpace (last v) \<and> CHR 0x0A \<notin> set v"

lemma plain_to_string [simp]: "plain_value (to_string n)"
  using to_string_plain [of n] by (simp add: plain_value_def)

lemma applyLine_setting:
  assumes k: "k \<noteq> []" "list_all (\<lambda>c. \<not> isSpace c \<and> c \<noteq> CHR ''='' \<and> c \<noteq> CHR ''#'') k" and v: "plain_value v"
  shows "applyLine (k @ CHR ''='' # v) n c = applyKey k v n c"
proof -
  have h: "hd k \<in> set k" "last k \<in> set k" using k(1) by simp_all
  have k': "\<not> isSpace (hd k)" "hd k \<noteq> CHR ''#''" "\<not> isSpace (last k)" "CHR ''='' \<notin> set k"
    using k(2) h by (auto simp: list_all_iff)
  have t: "trim (k @ CHR ''='' # v) = k @ CHR ''='' # v"
    using k(1) k' v by (intro trim_id) (auto simp: plain_value_def)
  have f: "sv_find_char (k @ CHR ''='' # v) (CHR ''='') 0 = Some (length k)"
    using sv_find_char_append [of 0 "k @ CHR ''='' # v" k "CHR ''=''" v] k'(4) by simp
  have "trim k = k" "trim v = v" using k(1) k' v by (auto intro!: trim_id simp: plain_value_def)
  then show ?thesis using k(1) k' v by (simp add: applyLine_def t f Let_def plain_value_def)
qed

section \<open>Properties\<close>

text \<open>
  C34. Whatever the command line and the file say, a configuration the server starts with is within its limits:
  the port is unprivileged, a chunk is 4 KiB to 1 MiB, the send buffer is off or 8 KiB to 16 MiB, the log
  path is not empty.  A port on the command line beats the file, and without a file and options the
  built-in defaults hold.
\<close>

theorem config_always_valid:
  assumes "parseCommandLine argv = Inr cli" and "buildConfig cli file = Inr cfg"
  shows "config_ok cfg \<and> sc_daemonize cfg = cl_daemonize cli \<and> (cl_hasPort cli \<longrightarrow> sc_port cfg = cl_port cli) \<and>
    (file = None \<and> \<not> cl_hasPort cli \<longrightarrow> sc_port cfg = 23507 \<and> sc_chunkSize cfg = 65536 \<and> sc_sendBufferSize cfg = 0)"
proof -
  define d where "d = defaultConfig\<lparr>sc_configPath := cl_configPath cli\<rparr>"
  have d: "config_ok d" by (simp add: d_def defaultConfig_def config_ok_def kDefaultPort_def)
  obtain c where c: "(case file of None \<Rightarrow> Inr d | Some text \<Rightarrow> parseConfigText text d) = Inr c"
    and cfg: "cfg = (let c1 = c\<lparr>sc_daemonize := cl_daemonize cli\<rparr> in if cl_hasPort cli then c1\<lparr>sc_port := cl_port cli\<rparr> else c1)"
    using assms(2) by (auto simp: buildConfig_def Let_def simp flip: d_def split: sum.splits)
  have "config_ok c" using c d parseLines_keeps by (auto simp: parseConfigText_def split: option.splits)
  moreover have "cl_hasPort cli \<longrightarrow> 1024 \<le> unat (cl_port cli)"
    using parseArgs_port [of "drop 1 argv" newCommandLine cli] assms(1) by (auto simp: parseCommandLine_def newCommandLine_def)
  ultimately show ?thesis
    using c by (auto simp: cfg config_ok_def Let_def d_def defaultConfig_def kDefaultPort_def)
qed

theorem config_always_valid_witness:
  "\<exists>cli cfg. parseCommandLine [''server'', ''-p'', ''2000''] = Inr cli \<and> buildConfig cli None = Inr cfg \<and> sc_port cfg = 2000 \<and> config_ok cfg"
proof -
  obtain cli where c: "parseCommandLine [''server'', ''-p'', ''2000''] = Inr cli" "cl_hasPort cli" "cl_port cli = 2000"
    by (simp add: parseCommandLine_def applyPort_def parseUnsigned_eq limit_defs newCommandLine_def digits_val_def digit_val_def byte_nat_def
        is_digit_def)
  obtain cfg where b: "buildConfig cli None = Inr cfg" by (simp add: buildConfig_def Let_def)
  from config_always_valid [OF c(1) b] c b show ?thesis by auto
qed

text \<open>
  C35. Nothing in the file is ignored silently: it is accepted exactly when every line is blank, a comment or a
  known setting with a value in range; otherwise the message names the number of the first offending line.
\<close>

theorem config_default_deny:
  "((\<exists>c'. parseConfigText text c = Inr c') \<longleftrightarrow> list_all line_ok (getlines text)) \<and>
   (\<forall>e. parseConfigText text c = Inl e \<longrightarrow> (\<exists>i<length (getlines text). list_all line_ok (take i (getlines text)) \<and>
     \<not> line_ok (getlines text ! i) \<and> (\<exists>pre post. e = pre @ '' (line '' @ to_string (i + 1) @ '')'' @ post)))"
  using parseLines_Inr [of 0 "getlines text" c] parseLines_Inl [of 0 "getlines text" c]
  by (auto simp: parseConfigText_def at_line_def)

theorem config_default_deny_witness:
  "\<exists>e pre post. parseConfigText ''chunck_size=1'' defaultConfig = Inl e \<and> e = pre @ '' (line 1)'' @ post"
proof -
  have g: "getlines ''chunck_size=1'' = [''chunck_size=1'']" by simp
  have "applyLine (''chunck_size'' @ CHR ''='' # ''1'') 1 defaultConfig = applyKey ''chunck_size'' ''1'' 1 defaultConfig"
    by (rule applyLine_setting) (simp_all add: isSpace_def plain_value_def)
  then obtain e where e: "parseConfigText ''chunck_size=1'' defaultConfig = Inl e"
    by (simp add: parseConfigText_def applyKey_def)
  with config_default_deny [of "''chunck_size=1''" defaultConfig] obtain i pre post where
    "i < length (getlines ''chunck_size=1'')" "e = pre @ '' (line '' @ to_string (i + 1) @ '')'' @ post" by blast
  moreover have "to_string 1 = ''1''" by code_simp
  ultimately show ?thesis using g e by auto
qed

text \<open>
  Settings written one per line are read back as they were, whatever the configuration held before.
\<close>

theorem config_roundtrip:
  assumes "config_ok c" and "plain_value (sc_logPath c)"
  shows "parseConfigText (config_text c) c0 = Inr (c0\<lparr>sc_port := sc_port c, sc_chunkSize := sc_chunkSize c,
    sc_sendBufferSize := sc_sendBufferSize c, sc_logPath := sc_logPath c\<rparr>)"
proof -
  let ?line = "\<lambda>k v. k @ CHR ''='' # v"
  have g: "getlines (config_text c) = [?line ''port'' (to_string (unat (sc_port c))), ?line ''chunk_size'' (to_string (sc_chunkSize c)),
      ?line ''snd_buf_size'' (to_string (sc_sendBufferSize c)), ?line ''log_path'' (sc_logPath c)]"
    using getlines_line [of "?line ''port'' (to_string (unat (sc_port c)))"] getlines_line [of "?line ''chunk_size'' (to_string (sc_chunkSize c))"]
      getlines_line [of "?line ''snd_buf_size'' (to_string (sc_sendBufferSize c))"] getlines_line [of "?line ''log_path'' (sc_logPath c)" "[]"]
      to_string_plain(1) assms(2)
    by (simp add: config_text_def plain_value_def del: getlines.simps(2))
  have l: "applyLine (?line ''port'' v) n x = applyKey ''port'' v n x" "applyLine (?line ''chunk_size'' v) n x = applyKey ''chunk_size'' v n x"
    "applyLine (?line ''snd_buf_size'' v) n x = applyKey ''snd_buf_size'' v n x" "applyLine (?line ''log_path'' v) n x = applyKey ''log_path'' v n x"
    if "plain_value v" for v n x by (rule applyLine_setting; use that in \<open>simp add: isSpace_def\<close>)+
  have p: "unat (sc_port c) < 65536" using unsigned_less [where ?'a = nat, of "sc_port c"] by simp
  have "applyPort (to_string (unat (sc_port c))) = Inr (sc_port c)"
    using assms(1) p by (simp add: applyPort_def limit_defs config_ok_def)
  moreover have "applySize (to_string (sc_chunkSize c)) kMinChunkSize kMaxChunkSize ''chunk_size'' False = Inr (sc_chunkSize c)"
    "applySize (to_string (sc_sendBufferSize c)) kMinSendBufferSize kMaxSendBufferSize ''snd_buf_size'' True = Inr (sc_sendBufferSize c)"
    using assms(1) by (auto simp: applySize_def limit_defs config_ok_def)
  ultimately show ?thesis
    unfolding parseConfigText_def g using l assms(2) by (simp add: applyKey_def)
qed

theorem config_roundtrip_witness:
  "parseConfigText (config_text defaultConfig) defaultConfig = Inr defaultConfig"
proof -
  have "config_ok defaultConfig" "plain_value (sc_logPath defaultConfig)"
    by (simp_all add: config_ok_def defaultConfig_def kDefaultPort_def plain_value_def isSpace_def)
  from config_roundtrip [OF this, of defaultConfig] show ?thesis by simp
qed

end
