(* ===== verification/FileReader.thy ===== *)
theory FileReader
  imports RingBuffer
begin

text \<open>
  The thread that reads the file to upload, \<^verbatim>\<open>client/src/service/FileReader.cpp\<close>, as the producer of the ring
  whose consumer is the event loop.  One step of the thread is what it does between two points where the
  other thread can interfere: the program counter names that point.  The open file is the part of it not
  yet read.  The wait for room in the ring has three points: the test of its predicate (\<open>RdFull\<close>), the moment between a test that
  failed and the sleep (\<open>RdBlock\<close>), where the thread holds the mutex, and the sleep (\<open>RdAsleep\<close>), which only a notification ends.
  A notification reaches a thread that sleeps; the event loop makes it without the mutex, so one that comes at \<open>RdBlock\<close>
  is lost.  The wait for the next upload is different: what it waits for is set under the mutex, so no notification of it can be
  lost, and it is one point (\<open>RdIdle\<close>) that tests its predicate.  The operations below the steps are those the event loop calls.
\<close>

section \<open>Definitions\<close>

datatype ReaderPc = RdIdle | RdTop | RdFull | RdBlock | RdAsleep | RdRead nat nat | RdCommit nat | RdClose | RdExit

text \<open>\<open>rd_missed\<close> is no member of the class: a notification has come too early for the sleep the thread is in or about to enter.\<close>

record FileReader =
  rd_ring :: SpscRingBuffer
  rd_uploading :: bool
  rd_quit :: bool
  rd_file :: string
  rd_remaining :: nat
  rd_error :: string
  rd_abort :: bool
  rd_readComplete :: bool
  rd_failed :: bool
  rd_signalled :: bool
  rd_pc :: ReaderPc
  rd_missed :: bool

definition newFileReader :: FileReader where
  "newFileReader =
    \<lparr>rd_ring = newRing (ringSlotCountFor kDefaultSlotSize) kDefaultSlotSize, rd_uploading = False, rd_quit = False,
     rd_file = [], rd_remaining = 0, rd_error = [], rd_abort = False, rd_readComplete = False, rd_failed = False,
     rd_signalled = False, rd_pc = RdIdle, rd_missed = False\<rparr>"

text \<open>\<^verbatim>\<open>_wake()\<close>: the event loop's callback will run.\<close>

definition wake :: "FileReader \<Rightarrow> FileReader" where
  "wake rd = rd\<lparr>rd_signalled := True\<rparr>"

text \<open>Filling the acquired slot, under the mutex.\<close>

definition readSlot :: "nat \<Rightarrow> nat \<Rightarrow> FileReader \<Rightarrow> FileReader" where
  "readSlot off cap rd =
    (let toRead = (if rd_remaining rd < cap then rd_remaining rd else cap) in
     if toRead > 0 then
       let bytes = take toRead (rd_file rd) in
       if bytes = [] then
         wake (rd\<lparr>rd_error := ''File ended earlier than its reported size.'', rd_failed := True, rd_pc := RdClose\<rparr>)
       else rd\<lparr>rd_ring := writeAt off bytes (rd_ring rd), rd_file := drop toRead (rd_file rd),
               rd_remaining := rd_remaining rd - length bytes, rd_pc := RdCommit (length bytes)\<rparr>
     else wake (rd\<lparr>rd_readComplete := True, rd_pc := RdClose\<rparr>))"

definition reader_step :: "FileReader \<Rightarrow> FileReader" where
  "reader_step rd =
    (case rd_pc rd of
       RdIdle \<Rightarrow> if rd_quit rd then rd\<lparr>rd_pc := RdExit\<rparr> else if rd_uploading rd then rd\<lparr>rd_pc := RdTop\<rparr> else rd
     | RdTop \<Rightarrow>
         if rd_abort rd then rd\<lparr>rd_pc := RdClose\<rparr>
         else (case tryAcquire (rd_ring rd) of
                 None \<Rightarrow> rd\<lparr>rd_pc := RdFull\<rparr>
               | Some (off, cap) \<Rightarrow> rd\<lparr>rd_pc := RdRead off cap\<rparr>)
     | RdFull \<Rightarrow>
         if rd_quit rd \<or> rd_abort rd then rd\<lparr>rd_pc := RdClose\<rparr>
         else if \<not> ring_full (rd_ring rd) then rd\<lparr>rd_pc := RdTop\<rparr> else rd\<lparr>rd_pc := RdBlock\<rparr>
     | RdBlock \<Rightarrow> rd\<lparr>rd_pc := RdAsleep\<rparr>
     | RdAsleep \<Rightarrow> rd
     | RdRead off cap \<Rightarrow> readSlot off cap rd
     | RdCommit n \<Rightarrow> wake (rd\<lparr>rd_ring := commit n (rd_ring rd), rd_pc := RdTop\<rparr>)
     | RdClose \<Rightarrow> rd\<lparr>rd_file := [], rd_uploading := False, rd_pc := RdIdle\<rparr>
     | RdExit \<Rightarrow> rd)"

text \<open>\<^verbatim>\<open>_cv.notify_all()\<close>, and the mutex: whoever takes it waits until a thread at \<open>RdBlock\<close> has gone to sleep.\<close>

definition cv_notify :: "FileReader \<Rightarrow> FileReader" where
  "cv_notify rd =
    (case rd_pc rd of
       RdAsleep \<Rightarrow> rd\<lparr>rd_pc := RdFull, rd_missed := False\<rparr>
     | RdBlock \<Rightarrow> rd\<lparr>rd_missed := True\<rparr>
     | _ \<Rightarrow> rd)"

definition await_mutex :: "FileReader \<Rightarrow> FileReader" where
  "await_mutex rd = (if rd_pc rd = RdBlock then rd\<lparr>rd_pc := RdAsleep\<rparr> else rd)"

definition notifySpaceAvailable :: "FileReader \<Rightarrow> FileReader" where
  "notifySpaceAvailable rd = cv_notify rd"

declare notifySpaceAvailable_def [simp]

text \<open>The files are an argument: the content under a path that can be opened.\<close>

definition beginUpload :: "(string \<Rightarrow> string option) \<Rightarrow> string \<Rightarrow> nat \<Rightarrow> FileReader \<Rightarrow> string + FileReader" where
  "beginUpload files path expectedSize rd =
    (if rd_uploading rd then Inl ''An upload is already in progress.''
     else case files path of
       None \<Rightarrow> Inl ''Cannot open the selected file.''
     | Some content \<Rightarrow>
         Inr (cv_notify (rd\<lparr>rd_uploading := True, rd_file := content, rd_remaining := expectedSize, rd_error := [],
                 rd_abort := False, rd_readComplete := False, rd_failed := False\<rparr>)))"

definition reader_abortUpload :: "FileReader \<Rightarrow> FileReader" where
  "reader_abortUpload rd = cv_notify (rd\<lparr>rd_abort := True\<rparr>)"

definition takeError :: "FileReader \<Rightarrow> string \<times> FileReader" where
  "takeError rd = (rd_error rd, (await_mutex rd)\<lparr>rd_error := []\<rparr>)"

definition reader_stop :: "FileReader \<Rightarrow> FileReader" where
  "reader_stop rd = cv_notify ((await_mutex rd)\<lparr>rd_quit := True, rd_uploading := False, rd_abort := True\<rparr>)"

text \<open>The consumer's release of one slot, and of all.\<close>

definition releaseSlot :: "FileReader \<Rightarrow> FileReader" where
  "releaseSlot rd = rd\<lparr>rd_ring := release (rd_ring rd)\<rparr>"

lemma tryPeek_release_count:
  assumes "tryPeek rb = Some view"
  shows "ring_count (release rb) < ring_count rb"
proof -
  have c: "ring_count rb \<noteq> 0" using assms by (auto simp: tryPeek_def split: if_splits)
  then have "ring_count (release rb) = ring_count rb - 1" by (simp add: ring_count_release)
  with c show ?thesis by linarith
qed

function drain_ring_of :: "FileReader \<Rightarrow> FileReader" where
  "drain_ring_of rd = (case tryPeek (rd_ring rd) of None \<Rightarrow> rd | Some view \<Rightarrow> drain_ring_of (releaseSlot rd))"
  by pat_completeness auto
termination
  by (relation "measure (\<lambda>rd. ring_count (rd_ring rd))") (auto simp: releaseSlot_def tryPeek_release_count)

declare drain_ring_of.simps [simp del]

section \<open>Where the bytes of the file are\<close>

text \<open>
  While the file \<open>content\<close> is being uploaded as \<open>size\<close> bytes and the consumer has taken \<open>out\<close>: the bytes taken,
  those in the ring and those in the slot being filled are a prefix of the file, and the rest is to be read.
\<close>

definition held :: "FileReader \<Rightarrow> string" where
  "held rd = (case rd_pc rd of RdCommit n \<Rightarrow> take n (drop (fst (the (tryAcquire (rd_ring rd)))) (rb_storage (rd_ring rd))) | _ \<Rightarrow> [])"

definition ring_ok :: "SpscRingBuffer \<Rightarrow> bool" where
  "ring_ok rb \<longleftrightarrow> ring_inv rb \<and> rb_slotCount rb dvd 2 ^ 64 \<and> 0 < rb_slotSize rb"

definition slot_ok :: "FileReader \<Rightarrow> bool" where
  "slot_ok rd \<longleftrightarrow>
    (case rd_pc rd of
       RdRead off cap \<Rightarrow> tryAcquire (rd_ring rd) = Some (off, cap)
     | RdCommit n \<Rightarrow> tryAcquire (rd_ring rd) \<noteq> None \<and> n \<le> rb_slotSize (rd_ring rd)
     | _ \<Rightarrow> True)"

text \<open>The thread is in its loop only for an upload, and has not been told to stop.\<close>

definition reader_ok :: "FileReader \<Rightarrow> bool" where
  "reader_ok rd \<longleftrightarrow> ring_ok (rd_ring rd) \<and> slot_ok rd \<and> \<not> rd_quit rd \<and> rd_pc rd \<noteq> RdExit \<and>
    (rd_uploading rd \<or> rd_pc rd = RdIdle) \<and> (rd_readComplete rd \<longrightarrow> rd_pc rd = RdClose \<or> \<not> rd_uploading rd)"

definition reading :: "string \<Rightarrow> nat \<Rightarrow> string \<Rightarrow> FileReader \<Rightarrow> bool" where
  "reading content sz out rd \<longleftrightarrow>
    (\<exists>r. r \<le> sz \<and> r \<le> length content \<and> out @ concat (ring_contents (rd_ring rd)) @ held rd = take r content \<and>
      (rd_uploading rd \<longrightarrow> rd_remaining rd = sz - r \<and> rd_file rd = drop r content) \<and>
      (rd_readComplete rd \<longrightarrow> r = sz))"

lemma held_simps [simp]:
  "rd_pc rd = RdIdle \<Longrightarrow> held rd = []" "rd_pc rd = RdTop \<Longrightarrow> held rd = []" "rd_pc rd = RdFull \<Longrightarrow> held rd = []"
  "rd_pc rd = RdRead off cap \<Longrightarrow> held rd = []" "rd_pc rd = RdClose \<Longrightarrow> held rd = []"
  "rd_pc rd = RdBlock \<Longrightarrow> held rd = []" "rd_pc rd = RdAsleep \<Longrightarrow> held rd = []"
  by (simp_all add: held_def)

text \<open>A notification changes nothing but where the thread is.\<close>

lemma notify_frame [simp]:
  "rd_ring (cv_notify rd) = rd_ring rd" "rd_uploading (cv_notify rd) = rd_uploading rd" "rd_quit (cv_notify rd) = rd_quit rd"
  "rd_file (cv_notify rd) = rd_file rd" "rd_remaining (cv_notify rd) = rd_remaining rd" "rd_error (cv_notify rd) = rd_error rd"
  "rd_abort (cv_notify rd) = rd_abort rd" "rd_readComplete (cv_notify rd) = rd_readComplete rd" "rd_failed (cv_notify rd) = rd_failed rd"
  "rd_signalled (cv_notify rd) = rd_signalled rd" "held (cv_notify rd) = held rd" "rd_pc (cv_notify rd) = RdClose \<longleftrightarrow> rd_pc rd = RdClose"
  "rd_pc (cv_notify rd) = RdIdle \<longleftrightarrow> rd_pc rd = RdIdle" "rd_pc (cv_notify rd) = RdExit \<longleftrightarrow> rd_pc rd = RdExit"
  by (simp_all add: cv_notify_def held_def split: ReaderPc.split)

lemma await_frame [simp]:
  "rd_ring (await_mutex rd) = rd_ring rd" "rd_uploading (await_mutex rd) = rd_uploading rd" "rd_quit (await_mutex rd) = rd_quit rd"
  "rd_file (await_mutex rd) = rd_file rd" "rd_remaining (await_mutex rd) = rd_remaining rd" "rd_error (await_mutex rd) = rd_error rd"
  "rd_abort (await_mutex rd) = rd_abort rd" "rd_readComplete (await_mutex rd) = rd_readComplete rd" "rd_failed (await_mutex rd) = rd_failed rd"
  "rd_signalled (await_mutex rd) = rd_signalled rd" "held (await_mutex rd) = held rd" "rd_pc (await_mutex rd) = RdClose \<longleftrightarrow> rd_pc rd = RdClose"
  "rd_pc (await_mutex rd) = RdIdle \<longleftrightarrow> rd_pc rd = RdIdle" "rd_pc (await_mutex rd) = RdExit \<longleftrightarrow> rd_pc rd = RdExit"
  by (simp_all add: await_mutex_def held_def)

lemma reader_ok_notify [simp]: "reader_ok (cv_notify rd) = reader_ok rd" "reader_ok (await_mutex rd) = reader_ok rd"
proof -
  have "slot_ok (cv_notify rd) = slot_ok rd" "slot_ok (await_mutex rd) = slot_ok rd"
    by (simp_all add: slot_ok_def cv_notify_def await_mutex_def split: ReaderPc.split)
  then show "reader_ok (cv_notify rd) = reader_ok rd" "reader_ok (await_mutex rd) = reader_ok rd" by (simp_all add: reader_ok_def)
qed

lemma reading_notify [simp]: "reading content sz out (cv_notify rd) = reading content sz out rd"
  by (simp add: reading_def)

lemma ring_ok_new: "ring_ok (rd_ring newFileReader)"
proof -
  have "ringSlotCountFor kDefaultSlotSize = 64" by (simp add: ringSlotCountFor_def ring_sizes)
  then show ?thesis
    using ring_inv_new(1) [of 64 kDefaultSlotSize] by (simp add: ring_ok_def newFileReader_def newRing_def kDefaultSlotSize_def)
qed

lemma reader_ok_new: "reader_ok newFileReader"
  using ring_ok_new by (simp add: reader_ok_def slot_ok_def newFileReader_def)

text \<open>The slot after the bytes are stored in it, and after the commit.\<close>

lemma store_slot:
  assumes "ring_ok rb" "tryAcquire rb = Some (off, cap)" "length bs \<le> cap"
  shows "ring_ok (writeAt off bs rb)" "ring_contents (writeAt off bs rb) = ring_contents rb"
    "take (length bs) (drop off (rb_storage (writeAt off bs rb))) = bs"
proof -
  have i: "ring_inv rb" and l: "0 + length bs \<le> cap" using assms by (simp_all add: ring_ok_def)
  show "ring_ok (writeAt off bs rb)" "ring_contents (writeAt off bs rb) = ring_contents rb"
    using ring_inv_writeAt [OF i assms(2) l] ring_contents_writeAt [OF i assms(2) l] assms(1) by (simp_all add: ring_ok_def)
  show "take (length bs) (drop off (rb_storage (writeAt off bs rb))) = bs"
    using acquired_room [OF i assms(2) l] by (simp add: writeAt_def)
qed

lemma commit_slot:
  assumes "ring_ok rb" "tryAcquire rb = Some (off, cap)" "n \<le> rb_slotSize rb"
  shows "ring_ok (commit n rb)" "ring_contents (commit n rb) = ring_contents rb @ [take n (drop off (rb_storage rb))]"
proof -
  note a = tryAcquire_Some [OF assms(2)]
  show "ring_ok (commit n rb)"
    using ring_inv_commit [of rb n] a(1) assms(1,3) by (simp add: ring_ok_def commit_ok_def commit_def)
  show "ring_contents (commit n rb) = ring_contents rb @ [take n (drop off (rb_storage rb))]"
    using ring_contents_commit [of rb n] a(1,2) assms(1,3) by (simp add: ring_ok_def)
qed

lemma reader_ok_step: "reader_ok rd \<Longrightarrow> reader_ok (reader_step rd)"
proof (cases "rd_pc rd")
  case (RdRead off cap)
  assume ok: "reader_ok rd"
  then have acq: "tryAcquire (rd_ring rd) = Some (off, cap)" and r: "ring_ok (rd_ring rd)"
    using RdRead by (simp_all add: reader_ok_def slot_ok_def)
  have "ring_ok (writeAt off bs (rd_ring rd))" if "length bs \<le> cap" for bs by (rule store_slot(1) [OF r acq that])
  moreover have "cap = rb_slotSize (rd_ring rd)" by (rule tryAcquire_Some(3) [OF acq])
  ultimately show ?thesis
    using ok RdRead acq by (auto simp: reader_ok_def reader_step_def readSlot_def slot_ok_def wake_def Let_def)
next
  case (RdCommit n)
  assume ok: "reader_ok rd"
  then obtain off cap where "tryAcquire (rd_ring rd) = Some (off, cap)" "n \<le> rb_slotSize (rd_ring rd)" "ring_ok (rd_ring rd)"
    using RdCommit by (auto simp: reader_ok_def slot_ok_def)
  then have "ring_ok (commit n (rd_ring rd))" using commit_slot(1) by blast
  then show ?thesis using ok RdCommit by (auto simp: reader_ok_def reader_step_def slot_ok_def wake_def)
qed (auto simp: reader_ok_def reader_step_def slot_ok_def split: option.splits)

lemma reading_same:
  assumes "reading content sz out rd" "rd_ring rd' = rd_ring rd" "held rd' = held rd"
    "rd_uploading rd' \<longrightarrow> rd_uploading rd" "rd_uploading rd' \<longrightarrow> rd_file rd' = rd_file rd" "rd_remaining rd' = rd_remaining rd"
    "rd_readComplete rd' = rd_readComplete rd"
  shows "reading content sz out rd'"
  using assms by (auto simp: reading_def)

lemma reading_read:
  assumes r: "reading content sz out rd" and ok: "reader_ok rd" and pc: "rd_pc rd = RdRead off cap"
  shows "reading content sz out (readSlot off cap rd)"
proof -
  from r obtain k where k: "k \<le> sz" "k \<le> length content" "out @ concat (ring_contents (rd_ring rd)) = take k content"
    "rd_remaining rd = sz - k" "rd_file rd = drop k content" "\<not> rd_readComplete rd"
    using ok pc by (auto simp: reading_def reader_ok_def)
  have acq: "tryAcquire (rd_ring rd) = Some (off, cap)" and ro: "ring_ok (rd_ring rd)"
    using ok pc by (simp_all add: reader_ok_def slot_ok_def)
  then have cap: "0 < cap" using tryAcquire_Some(3) [OF acq] by (simp add: ring_ok_def)
  define n where "n = min (rd_remaining rd) cap"
  have n: "(if rd_remaining rd < cap then rd_remaining rd else cap) = n" by (simp add: n_def)
  define bs where "bs = take n (rd_file rd)"
  show ?thesis
  proof (cases "n = 0")
    case True
    then have "k = sz" using k cap by (simp add: n_def split: if_splits)
    with True k show ?thesis
      unfolding readSlot_def Let_def n reading_def by (intro exI [of _ k]) (simp add: wake_def held_def)
  next
    case False
    show ?thesis
    proof (cases "bs = []")
      case True
      with False k show ?thesis
        unfolding readSlot_def Let_def n reading_def bs_def [symmetric] by (intro exI [of _ k]) (simp add: wake_def held_def)
    next
      case ne: False
      have l: "length bs \<le> cap" "length bs \<le> sz - k" "length bs \<le> length content - k" using k by (simp_all add: bs_def n_def)
      have b: "bs = take (length bs) (drop k content)" using k by (simp add: bs_def min_def)
      have d: "drop n (rd_file rd) = drop (k + length bs) content"
        using k by (simp add: bs_def add.commute min_def)
      have "take k content @ bs = take (k + length bs) content" using b by (simp add: take_add)
      then have t: "out @ concat (ring_contents (rd_ring rd)) @ bs = take (k + length bs) content"
        using k(3) by (metis append_assoc)
      show ?thesis
        using False ne k l t store_slot(2,3) [OF ro acq l(1)] acq d
        unfolding readSlot_def Let_def n reading_def bs_def [symmetric]
        by (intro exI [of _ "k + length bs"]) (simp add: held_def le_diff_conv2 add.commute)
    qed
  qed
qed

lemma reading_commit:
  assumes r: "reading content sz out rd" and ok: "reader_ok rd" and pc: "rd_pc rd = RdCommit n"
  shows "reading content sz out (rd\<lparr>rd_ring := commit n (rd_ring rd), rd_pc := RdTop\<rparr>)"
proof -
  from ok pc obtain off cap where a: "tryAcquire (rd_ring rd) = Some (off, cap)" "n \<le> rb_slotSize (rd_ring rd)" "ring_ok (rd_ring rd)"
    by (auto simp: reader_ok_def slot_ok_def)
  have "concat (ring_contents (commit n (rd_ring rd))) = concat (ring_contents (rd_ring rd)) @ held rd"
    using commit_slot(2) [OF a(3,1,2)] a(1) pc by (simp add: held_def)
  then show ?thesis using r by (simp add: reading_def)
qed

lemma reading_step:
  assumes "reading content sz out rd" "reader_ok rd"
  shows "reading content sz out (reader_step rd)"
proof (cases "rd_pc rd")
  case (RdRead off cap)
  then show ?thesis using reading_read [OF assms] by (simp add: reader_step_def)
next
  case (RdCommit n)
  then show ?thesis
    using reading_same [OF reading_commit [OF assms RdCommit]] by (simp add: reader_step_def wake_def held_def)
qed (use assms(1) in \<open>auto simp: reader_step_def held_def intro!: reading_same [OF assms(1)] split: option.splits\<close>)

text \<open>The consumer takes the first chunk.\<close>

lemma reader_ok_release:
  assumes "reader_ok rd" "tryPeek (rd_ring rd) = Some view"
  shows "reader_ok (releaseSlot rd)"
proof -
  have i: "ring_inv (rd_ring rd)" and ne: "ring_contents (rd_ring rd) \<noteq> []"
    using assms by (auto simp: reader_ok_def ring_ok_def tryPeek_contents)
  have "ring_ok (release (rd_ring rd))"
    using assms(1) ring_inv_release [OF i ne] by (simp add: reader_ok_def ring_ok_def release_def)
  moreover have "tryAcquire (release (rd_ring rd)) = Some s" if "tryAcquire (rd_ring rd) = Some s" for s
    by (rule tryAcquire_release [OF i ne that])
  ultimately show ?thesis
    using assms(1) by (auto simp: reader_ok_def slot_ok_def releaseSlot_def release_def split: ReaderPc.splits)
qed

lemma held_release:
  assumes "reader_ok rd" "tryPeek (rd_ring rd) = Some view"
  shows "held (releaseSlot rd) = held rd"
proof -
  have i: "ring_inv (rd_ring rd)" and ne: "ring_contents (rd_ring rd) \<noteq> []"
    using assms by (auto simp: reader_ok_def ring_ok_def tryPeek_contents split: list.splits)
  show ?thesis
    using assms(1) tryAcquire_release [OF i ne]
    by (auto simp: held_def releaseSlot_def release_def reader_ok_def slot_ok_def split: ReaderPc.splits)
qed

lemma reading_release:
  assumes "reading content sz out rd" "reader_ok rd" "tryPeek (rd_ring rd) = Some view"
  shows "reading content sz (out @ view) (releaseSlot rd)"
proof -
  have i: "ring_inv (rd_ring rd)" and c: "ring_contents (rd_ring rd) = view # tl (ring_contents (rd_ring rd))"
    using assms(2,3) by (auto simp: reader_ok_def ring_ok_def tryPeek_contents split: list.splits)
  then have ne: "ring_contents (rd_ring rd) \<noteq> []" by (metis list.discI)
  have "concat (ring_contents (rd_ring rd)) = view @ concat (tl (ring_contents (rd_ring rd)))"
    by (subst c) simp
  moreover have "held (releaseSlot rd) = held rd" by (rule held_release [OF assms(2,3)])
  ultimately show ?thesis
    using assms(1) ring_contents_release [OF i ne] by (simp add: reading_def releaseSlot_def)
qed

text \<open>Starting an upload with an empty ring.\<close>

lemma reading_begin:
  assumes "beginUpload files path sz rd = Inr rd'" "reader_ok rd" "ring_contents (rd_ring rd) = []"
  obtains content where "files path = Some content" "reading content sz [] rd'" "reader_ok rd'" "\<not> rd_abort rd'" "\<not> rd_failed rd'"
    "\<not> rd_readComplete rd'"
proof -
  from assms(1) obtain content where c: "files path = Some content" "\<not> rd_uploading rd"
    "rd' = cv_notify (rd\<lparr>rd_uploading := True, rd_file := content, rd_remaining := sz, rd_error := [],
                 rd_abort := False, rd_readComplete := False, rd_failed := False\<rparr>)"
    by (auto simp: beginUpload_def split: if_splits option.splits)
  moreover from c(2) assms(2) have "rd_pc rd = RdIdle" by (auto simp: reader_ok_def)
  ultimately show thesis
    using assms(2,3) by (intro that) (auto simp: reading_def reader_ok_def slot_ok_def held_def cv_notify_def)
qed

lemma drain_empties: "reader_ok rd \<Longrightarrow> reader_ok (drain_ring_of rd) \<and> ring_contents (rd_ring (drain_ring_of rd)) = []"
proof (induction rd rule: drain_ring_of.induct)
  case (1 rd)
  show ?case
  proof (cases "tryPeek (rd_ring rd)")
    case None
    then show ?thesis using 1(2) by (simp add: drain_ring_of.simps tryPeek_contents split: list.splits)
  next
    case (Some view)
    then show ?thesis using 1(1) [OF Some reader_ok_release [OF 1(2) Some]] by (simp add: drain_ring_of.simps [of rd])
  qed
qed

lemma drain_frame [simp]: "rd_uploading (drain_ring_of rd) = rd_uploading rd" "rd_pc (drain_ring_of rd) = rd_pc rd"
  "rd_abort (drain_ring_of rd) = rd_abort rd" "rd_readComplete (drain_ring_of rd) = rd_readComplete rd"
  by (induction rd rule: drain_ring_of.induct; subst drain_ring_of.simps; simp add: releaseSlot_def split: option.splits)+

text \<open>
  A chunk of an aborted upload that the thread commits after the ring has been emptied: it is still there when the next upload begins.
\<close>

lemma held_drain: "reader_ok rd \<Longrightarrow> held (drain_ring_of rd) = held rd"
proof (induction rd rule: drain_ring_of.induct)
  case (1 rd)
  show ?case
  proof (cases "tryPeek (rd_ring rd)")
    case None
    then show ?thesis by (simp add: drain_ring_of.simps)
  next
    case (Some view)
    then show ?thesis using 1(1) [OF Some reader_ok_release [OF 1(2) Some]] held_release [OF 1(2) Some] by (simp add: drain_ring_of.simps [of rd])
  qed
qed

lemma stale_chunk:
  assumes "reader_ok rd" "rd_pc rd = RdCommit n" "rd_abort rd" "files path = Some content"
  shows "\<exists>rd'. beginUpload files path sz ((reader_step ^^ 3) (notifySpaceAvailable (drain_ring_of rd))) = Inr rd' \<and> ring_contents (rd_ring rd') = [held rd]"
proof -
  let ?d = "drain_ring_of rd"
  note d = drain_empties [OF assms(1)]
  have pc: "rd_pc ?d = RdCommit n" using assms(2) by simp
  then have n: "cv_notify ?d = ?d" by (simp add: cv_notify_def)
  from d pc obtain off cap where a: "ring_ok (rd_ring ?d)" "tryAcquire (rd_ring ?d) = Some (off, cap)" "n \<le> rb_slotSize (rd_ring ?d)"
    by (auto simp: reader_ok_def slot_ok_def)
  have "held ?d = take n (drop off (rb_storage (rd_ring ?d)))" using a(2) pc by (simp add: held_def)
  with commit_slot(2) [OF a] d held_drain [OF assms(1)] have c: "ring_contents (commit n (rd_ring ?d)) = [held rd]" by simp
  have "(reader_step ^^ 3) ?d = ?d\<lparr>rd_ring := commit n (rd_ring ?d), rd_signalled := True, rd_file := [], rd_uploading := False, rd_pc := RdIdle\<rparr>"
    using pc assms(3) by (simp add: eval_nat_numeral reader_step_def wake_def)
  with n c assms(4) show ?thesis by (simp add: beginUpload_def)
qed

lemma reading_complete:
  assumes "reading content sz out rd" "reader_ok rd" "rd_readComplete rd" "ring_empty (rd_ring rd)"
  shows "out = take sz content" "length out = sz"
proof -
  have "ring_contents (rd_ring rd) = []"
    using assms(4) length_ring_contents [of "rd_ring rd"] by (simp add: ring_empty_def ring_contents_def)
  moreover have "rd_pc rd = RdClose \<or> rd_pc rd = RdIdle" using assms(2,3) by (auto simp: reader_ok_def)
  ultimately show "out = take sz content" "length out = sz"
    using assms(1,3) by (auto simp: reading_def)
qed

lemma reading_prefix:
  assumes "reading content sz out rd"
  shows "out = take (length out) content" "length out \<le> sz"
proof -
  from assms obtain r where "r \<le> sz" and t: "out @ concat (ring_contents (rd_ring rd)) @ held rd = take r content"
    by (auto simp: reading_def)
  have "length (take r content) \<le> r" by simp
  then have "length out \<le> r" unfolding t [symmetric] by simp
  moreover have "out = take (length out) (take r content)" using t by (metis append_eq_conv_conj)
  ultimately show "out = take (length out) content" "length out \<le> sz" using \<open>r \<le> sz\<close> by (simp_all add: min_absorb1)
qed

end
