(* ===== verification/ResultSummary.thy ===== *)
theory ResultSummary
  imports ParserThread
begin

text \<open>
  What the client tells its user about a result, \<^verbatim>\<open>client/src/service/ResultSummary.cpp\<close>: it finds the metric
  block of the CSV by its header, reads the rows by name and turns the skip counters into one line of
  warning.  The loop over positions is a recursion over the pieces between newlines; the local flags
  are arguments.
\<close>

section \<open>Definitions\<close>

definition kMetricHeader :: string where "kMetricHeader = ''metric,value''"
definition kTotalLines :: string where "kTotalLines = ''total_lines''"
definition kSkippedLines :: string where "kSkippedLines = ''skipped_lines''"
definition kReasonPrefix :: string where "kReasonPrefix = ''skip_reason_''"
definition kMaxReasonsShown :: nat where "kMaxReasonsShown = 3"

record ResultSummary =
  rs_hasTotal :: bool
  rs_totalLines :: nat
  rs_skippedLines :: nat
  rs_reasons :: "(string \<times> nat) list"

definition emptySummary :: ResultSummary where
  "emptySummary = \<lparr>rs_hasTotal = False, rs_totalLines = 0, rs_skippedLines = 0, rs_reasons = []\<rparr>"

definition trim_csv :: "string \<Rightarrow> string" where
  "trim_csv text =
    rev (dropWhile (\<lambda>c. c = CHR '' '' \<or> c = CHR 0x09 \<or> c = CHR 0x0D)
      (rev (dropWhile (\<lambda>c. c = CHR '' '' \<or> c = CHR 0x09) text)))"

definition parseCount :: "string \<Rightarrow> nat option" where
  "parseCount token =
    (let token' = trim_csv token in
     if token' = [] then None
     else case from_chars_u64 token' of (ec, v, n) \<Rightarrow> if ec \<noteq> ErrcOk \<or> n \<noteq> length token' then None else Some v)"

fun split_nl :: "string \<Rightarrow> string list" where
  "split_nl [] = [[]]"
| "split_nl (c # cs) =
    (if c = CHR 0x0A then [] # split_nl cs
     else case split_nl cs of [] \<Rightarrow> [[c]] | l # ls \<Rightarrow> (c # l) # ls)"

text \<open>One row of the metric block; the flag says whether \<^verbatim>\<open>skipped_lines\<close> has been read.\<close>

definition summary_row :: "string \<Rightarrow> bool \<times> ResultSummary \<Rightarrow> bool \<times> ResultSummary" where
  "summary_row line acc =
    (case acc of (haveSkipped, summary) \<Rightarrow>
      case sv_find_char line (CHR '','') 0 of
        None \<Rightarrow> (haveSkipped, summary)
      | Some comma \<Rightarrow>
          let name = trim_csv (take comma line); value = drop (comma + 1) line in
          if name = kTotalLines then
            (haveSkipped,
             (case parseCount value of
                None \<Rightarrow> summary\<lparr>rs_hasTotal := False\<rparr>
              | Some n \<Rightarrow> summary\<lparr>rs_hasTotal := True, rs_totalLines := n\<rparr>))
          else if name = kSkippedLines then
            (case parseCount value of
               None \<Rightarrow> (False, summary)
             | Some n \<Rightarrow> (True, summary\<lparr>rs_skippedLines := n\<rparr>))
          else if length name > length kReasonPrefix \<and> prefix kReasonPrefix name then
            (haveSkipped,
             (case parseCount value of
                None \<Rightarrow> summary
              | Some n \<Rightarrow> summary\<lparr>rs_reasons := rs_reasons summary @ [(drop (length kReasonPrefix) name, n)]\<rparr>))
          else (haveSkipped, summary))"

fun summarize_lines :: "string list \<Rightarrow> bool \<Rightarrow> bool \<times> ResultSummary \<Rightarrow> bool \<times> ResultSummary" where
  "summarize_lines [] inMetricBlock acc = acc"
| "summarize_lines (raw # ls) inMetricBlock acc =
    (let line = trim_csv raw in
     if \<not> inMetricBlock then summarize_lines ls (line = kMetricHeader) acc
     else if line = [] then acc
     else summarize_lines ls True (summary_row line acc))"

text \<open>By count, the larger first, then by name.\<close>

definition sort_reasons :: "(string \<times> nat) list \<Rightarrow> (string \<times> nat) list" where
  "sort_reasons rs = sort_key (\<lambda>r. (- int (snd r), fst r)) rs"

definition summarizeResultCsv :: "string \<Rightarrow> ResultSummary" where
  "summarizeResultCsv csv =
    (case summarize_lines (split_nl csv) False (False, emptySummary) of (haveSkipped, summary) \<Rightarrow>
      let summary' =
        (if haveSkipped then summary
         else summary\<lparr>rs_skippedLines := sum_list (map snd (rs_reasons summary)) mod 2 ^ 64\<rparr>)
      in summary'\<lparr>rs_reasons := sort_reasons (rs_reasons summary')\<rparr>)"

fun join_reasons :: "(string \<times> nat) list \<Rightarrow> string" where
  "join_reasons [] = []"
| "join_reasons [r] = fst r @ '' '' @ to_string (snd r)"
| "join_reasons (r # rs) = fst r @ '' '' @ to_string (snd r) @ '', '' @ join_reasons rs"

definition formatSkipWarning :: "ResultSummary \<Rightarrow> string" where
  "formatSkipWarning summary =
    (if rs_skippedLines summary = 0 then []
     else
       let text = to_string (rs_skippedLines summary) @
             (if rs_hasTotal summary then '' of '' @ to_string (rs_totalLines summary) else []) @
             '' lines were skipped'';
           shown = min kMaxReasonsShown (length (rs_reasons summary)) in
       if rs_reasons summary = [] then text
       else text @ '' - '' @ join_reasons (take shown (rs_reasons summary)) @
         (if length (rs_reasons summary) > shown
          then '', +'' @ to_string (length (rs_reasons summary) - shown) @ '' more'' else []))"

section \<open>Lines and cells\<close>

text \<open>A cell as the server writes it: no separator and nothing that trimming would touch.\<close>

definition cell_char :: "char \<Rightarrow> bool" where
  "cell_char c \<longleftrightarrow> c \<noteq> CHR '' '' \<and> c \<noteq> CHR 0x09 \<and> c \<noteq> CHR 0x0D \<and> c \<noteq> CHR 0x0A \<and> c \<noteq> CHR '',''"

definition cell :: "string \<Rightarrow> bool" where
  "cell s \<longleftrightarrow> s \<noteq> [] \<and> list_all cell_char s"

lemma split_nl_line: "CHR 0x0A \<notin> set l \<Longrightarrow> split_nl (l @ CHR 0x0A # s) = l # split_nl s"
  by (induction l) auto

lemma split_nl_concat:
  assumes "\<And>x. x \<in> set xs \<Longrightarrow> CHR 0x0A \<notin> set (f x)"
  shows "split_nl (concat (map (\<lambda>x. f x @ nl) xs) @ s) = map f xs @ split_nl s"
  using assms by (induction xs) (auto simp: nl_def split_nl_line)

lemma trim_csv_id:
  assumes "s \<noteq> []" "cell_char (hd s)" "cell_char (last s)"
  shows "trim_csv s = s"
proof -
  have "dropWhile P s = s" if "\<not> P (hd s)" for P using assms(1) that by (cases s) simp_all
  moreover have "dropWhile P (rev s) = rev s" if "\<not> P (last s)" for P
    using assms(1) that by (cases s rule: rev_cases) simp_all
  ultimately show ?thesis using assms(2,3) by (simp add: trim_csv_def cell_char_def)
qed

lemma cell_ends: "cell s \<Longrightarrow> s \<noteq> [] \<and> cell_char (hd s) \<and> cell_char (last s)"
  by (auto simp: cell_def list_all_iff)

lemma trim_csv_cell [simp]: "cell s \<Longrightarrow> trim_csv s = s"
  using cell_ends trim_csv_id by blast

lemma trim_csv_row: "cell a \<Longrightarrow> cell b \<Longrightarrow> trim_csv (a @ m @ b) = a @ m @ b"
  using cell_ends [of a] cell_ends [of b] by (intro trim_csv_id) simp_all

lemma cell_append: "cell a \<Longrightarrow> list_all cell_char b \<Longrightarrow> cell (a @ b)"
  by (simp add: cell_def)

lemma digits_cells: "list_all is_digit s \<Longrightarrow> list_all cell_char s"
  by (auto simp: list_all_iff cell_char_def is_digit_def byte_nat_def)

lemma cell_digits: "s \<noteq> [] \<Longrightarrow> list_all is_digit s \<Longrightarrow> cell s"
  by (simp add: cell_def digits_cells)

definition csv_row :: "string \<Rightarrow> string \<Rightarrow> string" where
  "csv_row name value = name @ CHR '','' # value"

lemma cell_to_string [simp]: "cell (to_string n)"
  by (simp add: cell_digits)

lemma put_digits_digits: "list_all is_digit (put_digits n v)"
  by (induction n arbitrary: v) auto

lemma cell_formatFixed6 [simp]: "cell (formatFixed6 v)"
proof -
  have d: "list_all cell_char (put_digits 6 x)" for x by (rule digits_cells [OF put_digits_digits])
  have z: "cell ''0.000000''" by (simp add: cell_def cell_char_def)
  have "cell (to_string m @ ''.'' @ put_digits 6 x)" for m x
    using d [of x] by (intro cell_append) (simp_all add: cell_char_def)
  then show ?thesis using z by (simp only: formatFixed6_def Let_def split: if_split) simp
qed

lemma cell_skipReasonCode [simp]: "cell (skipReasonCode r)"
  by (cases r) (simp_all add: cell_def cell_char_def)

lemma cell_moduleName [simp]: "cell (moduleName i)"
  by (cases i) (simp_all add: moduleName_def cell_def cell_char_def)

lemma cell_no_nl: "cell s \<Longrightarrow> CHR 0x0A \<notin> set s" and cell_no_comma: "cell s \<Longrightarrow> CHR '','' \<notin> set s"
  by (auto simp: cell_def list_all_iff cell_char_def)

lemma parseCount_to_string [simp]: "n < 2 ^ 64 \<Longrightarrow> parseCount (to_string n) = Some n"
  by (simp add: parseCount_def from_chars_u64_to_string)

text \<open>A row of two cells read by the client.\<close>

lemma summary_row_cells:
  assumes "cell name" "cell value"
  shows "summary_row (csv_row name value) (hs, s) =
    (if name = kTotalLines then (hs, case parseCount value of None \<Rightarrow> s\<lparr>rs_hasTotal := False\<rparr>
       | Some n \<Rightarrow> s\<lparr>rs_hasTotal := True, rs_totalLines := n\<rparr>)
     else if name = kSkippedLines then
       (case parseCount value of None \<Rightarrow> (False, s) | Some n \<Rightarrow> (True, s\<lparr>rs_skippedLines := n\<rparr>))
     else if length name > length kReasonPrefix \<and> prefix kReasonPrefix name then
       (hs, case parseCount value of None \<Rightarrow> s
        | Some n \<Rightarrow> s\<lparr>rs_reasons := rs_reasons s @ [(drop (length kReasonPrefix) name, n)]\<rparr>)
     else (hs, s))"
proof -
  have "sv_find_char (name @ CHR '','' # value) (CHR '','') 0 = Some (length name)"
    using sv_find_char_append [of 0 "name @ CHR '','' # value" name] cell_no_comma [OF assms(1)] by simp
  with assms(1) show ?thesis by (simp add: summary_row_def csv_row_def)
qed

lemma summarize_cells:
  assumes "cell name" "cell value"
  shows "summarize_lines (csv_row name value # ls) True acc = summarize_lines ls True (summary_row (csv_row name value) acc)"
  using trim_csv_row [OF assms, of "'',''"] by (simp add: Let_def csv_row_def)

section \<open>Reading the file the server builds\<close>

definition reason_line :: "string \<times> nat \<Rightarrow> string" where
  "reason_line e = csv_row (''skip_reason_'' @ fst e) (to_string (snd e))"

lemma summarize_reasons:
  assumes "\<And>e. e \<in> set es \<Longrightarrow> cell (fst e) \<and> snd e < 2 ^ 64"
  shows "summarize_lines (map reason_line es @ [[]]) True (hs, s) = (hs, s\<lparr>rs_reasons := rs_reasons s @ es\<rparr>)"
  using assms
proof (induction es arbitrary: s)
  case Nil
  then show ?case by (simp add: trim_csv_def)
next
  case (Cons e es)
  have c: "cell (fst e)" "snd e < 2 ^ 64" using Cons.prems [of e] by simp_all
  have n: "cell (''skip_reason_'' @ fst e)" using c(1) by (simp add: cell_def cell_char_def)
  have l: "0 < length (fst e)" using c(1) by (simp add: cell_def)
  have "summary_row (reason_line e) (hs, s) = (hs, s\<lparr>rs_reasons := rs_reasons s @ [e]\<rparr>)"
    using c(2) l unfolding reason_line_def
    by (simp only: summary_row_cells [OF n cell_to_string])
       (simp add: kTotalLines_def kSkippedLines_def kReasonPrefix_def)
  then show ?case
    using Cons.IH [of "s\<lparr>rs_reasons := rs_reasons s @ [e]\<rparr>"] Cons.prems summarize_cells [OF n cell_to_string, of "snd e"]
    by (simp add: reason_line_def)
qed

definition bucket_line :: "ModuleId \<times> HourKey \<times> nat \<Rightarrow> string" where
  "bucket_line b = (case b of (i, key, count) \<Rightarrow> moduleName i @ ('','' @ formatHourKey key @ '','') @ to_string count)"

lemma bucket_line_plain: "CHR 0x0A \<notin> set (bucket_line b)" "trim_csv (bucket_line b) \<noteq> kMetricHeader"
proof -
  obtain i k c where b: "b = (i, k, c)" by (cases b)
  have d: "CHR 0x0A \<notin> set (put_digits n v)" for n v
    using digits_cells [OF put_digits_digits [of n v]] by (auto simp: list_all_iff cell_char_def)
  show "CHR 0x0A \<notin> set (bucket_line b)"
    using cell_no_nl [OF cell_moduleName [of i]] cell_no_nl [OF cell_to_string [of c]] d
    by (simp add: b bucket_line_def formatHourKey_def Let_def)
  have "trim_csv (bucket_line b) = bucket_line b"
    using trim_csv_row [OF cell_moduleName cell_to_string] by (simp only: b bucket_line_def prod.case)
  then show "trim_csv (bucket_line b) \<noteq> kMetricHeader"
    by (cases i) (simp_all add: b bucket_line_def kMetricHeader_def moduleName_def)
qed

lemma summarize_buckets:
  "summarize_lines (map bucket_line bs @ ls) False acc = summarize_lines ls False acc"
  using bucket_line_plain(2) by (induction bs) (simp_all add: Let_def)

lemma csv_lines:
  "split_nl (buildResultCsv st sr n) =
    ''module,hour,count'' # map bucket_line (forEachBucket st) @
    [[], kMetricHeader, csv_row kTotalLines (to_string n), csv_row ''avg_speed'' (formatFixed6 (averageSpeed st)),
     csv_row ''valid_spd_samples'' (to_string (st_validSpdSamples st)),
     csv_row ''excluded_spd_samples'' (to_string (st_excludedSpdSamples st)),
     csv_row ''missing_spd_samples'' (to_string (st_missingSpdSamples st)),
     csv_row kSkippedLines (to_string (sr_total sr))] @ map reason_line (reason_rows sr) @ [[]]"
proof -
  have b: "bucket_row = (\<lambda>x. bucket_line x @ nl)" by (auto simp: bucket_row_def bucket_line_def fun_eq_iff)
  have r: "reason_row = (\<lambda>x. reason_line x @ nl)" by (auto simp: reason_row_def reason_line_def csv_row_def fun_eq_iff)
  have rl: "CHR 0x0A \<notin> set (reason_line e)" if "e \<in> set (reason_rows sr)" for e
  proof -
    from that have "(fst e, snd e) \<in> set (reason_rows sr)" by simp
    then obtain x where "fst e = skipReasonCode x" unfolding reason_rows_mem by blast
    then show ?thesis using cell_no_nl [OF cell_skipReasonCode [of x]] cell_no_nl [OF cell_to_string [of "snd e"]]
      by (simp add: reason_line_def csv_row_def)
  qed
  have l: "split_nl (a @ CHR '','' # v @ CHR 0x0A # s) = (a @ CHR '','' # v) # split_nl s"
    if "CHR 0x0A \<notin> set a" "cell v" for a v s
    using split_nl_line [of "a @ CHR '','' # v" s] that cell_no_nl by simp
  note split_nl.simps(2) [simp del]
  have hd: "split_nl (''module,hour,count'' @ CHR 0x0A # s) = ''module,hour,count'' # split_nl s"
    "split_nl (''metric,value'' @ CHR 0x0A # s) = kMetricHeader # split_nl s" "split_nl (CHR 0x0A # s) = [] # split_nl s" for s
    using split_nl_line [of "''module,hour,count''" s] split_nl_line [of "''metric,value''" s] split_nl_line [of "[]" s]
    by (simp_all add: kMetricHeader_def)
  have m: "split_nl (concat (map reason_row (reason_rows sr))) = map reason_line (reason_rows sr) @ [[]]"
    using split_nl_concat [of "reason_rows sr" reason_line "[]"] rl by (simp add: r)
  define rows where "rows = ''total_lines,'' @ to_string n @ nl @
    ''avg_speed,'' @ formatFixed6 (averageSpeed st) @ nl @
    ''valid_spd_samples,'' @ to_string (st_validSpdSamples st) @ nl @
    ''excluded_spd_samples,'' @ to_string (st_excludedSpdSamples st) @ nl @
    ''missing_spd_samples,'' @ to_string (st_missingSpdSamples st) @ nl @
    ''skipped_lines,'' @ to_string (sr_total sr) @ nl @ concat (map reason_row (reason_rows sr))"
  have "split_nl rows = [csv_row kTotalLines (to_string n), csv_row ''avg_speed'' (formatFixed6 (averageSpeed st)),
     csv_row ''valid_spd_samples'' (to_string (st_validSpdSamples st)),
     csv_row ''excluded_spd_samples'' (to_string (st_excludedSpdSamples st)),
     csv_row ''missing_spd_samples'' (to_string (st_missingSpdSamples st)),
     csv_row kSkippedLines (to_string (sr_total sr))] @ map reason_line (reason_rows sr) @ [[]]"
    using l [of "''total_lines''"] l [of "''avg_speed''"] l [of "''valid_spd_samples''"] l [of "''excluded_spd_samples''"]
      l [of "''missing_spd_samples''"] l [of "''skipped_lines''"]
    by (simp add: rows_def nl_def m kTotalLines_def kSkippedLines_def csv_row_def)
  moreover have "buildResultCsv st sr n =
      ''module,hour,count'' @ CHR 0x0A # concat (map bucket_row (forEachBucket st)) @ CHR 0x0A # ''metric,value'' @ CHR 0x0A # rows"
    by (simp add: buildResultCsv_def rows_def nl_def)
  moreover have "split_nl (concat (map bucket_row (forEachBucket st)) @ s) = map bucket_line (forEachBucket st) @ split_nl s" for s
    using split_nl_concat [of "forEachBucket st" bucket_line s] bucket_line_plain(1) by (simp add: b)
  ultimately show ?thesis by (simp only: hd) simp
qed

lemma summarize_buildResultCsv:
  assumes "n < 2 ^ 64" "sr_total sr < 2 ^ 64" "\<And>r. sr_counts sr r < 2 ^ 64"
  shows "summarizeResultCsv (buildResultCsv st sr n) =
    \<lparr>rs_hasTotal = True, rs_totalLines = n, rs_skippedLines = sr_total sr, rs_reasons = sort_reasons (reason_rows sr)\<rparr>"
proof -
  have r: "cell (fst e) \<and> snd e < 2 ^ 64" if "e \<in> set (reason_rows sr)" for e
  proof -
    from that have "(fst e, snd e) \<in> set (reason_rows sr)" by simp
    then show ?thesis using assms(3) unfolding reason_rows_mem by auto
  qed
  have names: "cell kTotalLines" "cell ''avg_speed''" "cell ''valid_spd_samples''" "cell ''excluded_spd_samples''"
    "cell ''missing_spd_samples''" "cell kSkippedLines"
    by (simp_all add: cell_def cell_char_def kTotalLines_def kSkippedLines_def)
  have other: "summary_row (csv_row a v) acc = acc"
    if "cell a" "cell v" "a \<noteq> kTotalLines" "a \<noteq> kSkippedLines" "\<not> prefix kReasonPrefix a" for a v acc
    using that by (cases acc) (simp add: summary_row_cells)
  have n1: "a \<noteq> kTotalLines" "a \<noteq> kSkippedLines" "\<not> prefix kReasonPrefix a"
    if "a \<in> {''avg_speed'', ''valid_spd_samples'', ''excluded_spd_samples'', ''missing_spd_samples''}" for a
    using that by (auto simp: kTotalLines_def kSkippedLines_def kReasonPrefix_def)
  have n2: "kSkippedLines \<noteq> kTotalLines" by (simp add: kTotalLines_def kSkippedLines_def)
  have top: "summarize_lines (''module,hour,count'' # ls) False acc = summarize_lines ls False acc"
    "summarize_lines ([] # kMetricHeader # ls) False acc = summarize_lines ls True acc" for ls acc
    by (simp_all add: trim_csv_def kMetricHeader_def Let_def)
  have "summarize_lines (split_nl (buildResultCsv st sr n)) False (False, emptySummary) =
    (True, \<lparr>rs_hasTotal = True, rs_totalLines = n, rs_skippedLines = sr_total sr, rs_reasons = reason_rows sr\<rparr>)"
    unfolding csv_lines
    using assms(1,2) r summarize_reasons [of "reason_rows sr"]
    by (simp add: top summarize_buckets summarize_cells names other summary_row_cells n1 n2 emptySummary_def del: summarize_lines.simps)
  then show ?thesis by (simp add: summarizeResultCsv_def Let_def)
qed

lemma formatSkipWarning_empty: "formatSkipWarning s = [] \<longleftrightarrow> rs_skippedLines s = 0"
  by (simp add: formatSkipWarning_def Let_def)

section \<open>Properties\<close>

text \<open>
  C38. The client reads back from a result exactly what the analysis counted: the number of lines, how many
  were skipped and for which reasons, the most frequent first.  It shows a warning exactly when some line of
  the upload was skipped.
\<close>

theorem summary_of_analysis:
  assumes "length s \<le> unat kMaxFileSize"
  shows "let ls = lines_of kMaxLineLength s; rej = rejected newParser ls; sm = summarizeResultCsv (ar_csv (analysis_of s)) in
    sm = \<lparr>rs_hasTotal = True, rs_totalLines = length ls, rs_skippedLines = length rej,
      rs_reasons = sort_reasons (reason_rows (report_of rej))\<rparr> \<and>
    (formatSkipWarning sm = [] \<longleftrightarrow> rej = [])"
proof -
  let ?ls = "lines_of kMaxLineLength s"
  have n: "length ?ls \<le> 8589934592"
    using lines_of_bytes [of kMaxLineLength s] assms by (simp add: kMaxFileSize_def)
  then have "length (rejected newParser ?ls) \<le> 8589934592"
    using length_accepted_rejected [of newParser ?ls] by linarith
  then show ?thesis
    using n summarize_buildResultCsv [of "length ?ls" "report_of (rejected newParser ?ls)" "stats_of (accepted newParser ?ls)"]
      le_less_trans [OF reason_count_le [of "rejected newParser ?ls"], of "2 ^ 64"]
    by (simp add: analysis_of_lines Let_def report_total formatSkipWarning_empty)
qed

theorem summary_of_analysis_witness:
  "rs_hasTotal (summarizeResultCsv (ar_csv (analysis_of ''bad line'')))"
  using summary_of_analysis [of "''bad line''"] by (simp add: kMaxFileSize_def Let_def)

end
