(* ===== verification/Logger.thy ===== *)
theory Logger
  imports Prelude
begin

text \<open>
  The log files of both programs, \<^verbatim>\<open>common/util/Logger.cpp\<close>: one file per day under \<^verbatim>\<open>logs/\<close>, appended to, renamed with
  a number when it is full, and removed after some days.  The files are part of the state: the content under
  base directory, date and file name; base names are plain file names.  The answers of the file system, and the
  texts the clock gives (empty when a conversion fails), are the record \<open>LogEnv\<close>; the calls of one \<open>log\<close> that
  can open a file are numbered 0 to 3, its two writes 0 and 1.  A write that fails has written some part of the line.
\<close>

section \<open>Definitions\<close>

datatype LogLevel = Info | Warn | Error

definition kMaxLogFileBytes :: nat where "kMaxLogFileBytes = 10 * 1024 * 1024"
definition kMaxRotationIndex :: nat where "kMaxRotationIndex = 999"
definition kDateLength :: nat where "kDateLength = 8"

fun logTag :: "LogLevel \<Rightarrow> string" where
  "logTag Info = ''Info''"
| "logTag Warn = ''Warn''"
| "logTag Error = ''Error''"

definition rotationSuffix :: "nat \<Rightarrow> string" where
  "rotationSuffix index = (let number = to_string index in CHR ''_'' # replicate (3 - length number) (CHR ''0'') @ number)"

definition isDateName :: "string \<Rightarrow> bool" where
  "isDateName name \<longleftrightarrow> length name = kDateLength \<and> list_all is_digit name"

text \<open>\<^verbatim>\<open>stem()\<close> and \<^verbatim>\<open>extension()\<close> of a file name: the extension starts at the last dot that is not the first character.\<close>

definition split_extension :: "string \<Rightarrow> string \<times> string" where
  "split_extension name =
    (let ext = takeWhile (\<lambda>c. c \<noteq> CHR ''.'') (rev name); n = length name - length ext in
     if n \<le> 1 \<or> name = ''..'' then (name, []) else (take (n - 1) name, drop (n - 1) name))"

type_synonym LogPath = "string \<times> string \<times> string"

record Logger =
  lg_files :: "LogPath \<Rightarrow> string option"
  lg_stdout :: string
  lg_fileRequested :: bool
  lg_toFile :: bool
  lg_baseDir :: string
  lg_baseName :: string
  lg_activeDate :: string
  lg_activePath :: LogPath
  lg_bytesWritten :: nat

record LogEnv =
  le_prefix :: string
  le_today :: string
  le_open :: "nat \<Rightarrow> bool"
  le_sizeKnown :: "nat \<Rightarrow> bool"
  le_rename :: bool
  le_write :: "nat \<Rightarrow> bool"
  le_partial :: "nat \<Rightarrow> nat"

definition openForDateLocked :: "bool \<Rightarrow> bool \<Rightarrow> string \<Rightarrow> Logger \<Rightarrow> bool \<times> Logger" where
  "openForDateLocked opened sizeKnown date lg =
    (if \<not> opened then (False, lg)
     else
       let path = (lg_baseDir lg, date, lg_baseName lg);
           existing = (case lg_files lg path of None \<Rightarrow> [] | Some c \<Rightarrow> c)
       in (True, lg\<lparr>lg_files := (lg_files lg)(path \<mapsto> existing), lg_toFile := True, lg_activeDate := date, lg_activePath := path,
             lg_bytesWritten := if sizeKnown then length existing else 0\<rparr>))"

definition openFile :: "LogEnv \<Rightarrow> string \<Rightarrow> string \<Rightarrow> Logger \<Rightarrow> bool \<times> Logger" where
  "openFile en baseDir baseName lg =
    (if baseName = [] \<or> le_today en = [] then (False, lg)
     else
       let lg1 = lg\<lparr>lg_baseDir := if baseDir = [] then ''.'' else baseDir, lg_baseName := baseName\<rparr> in
       case openForDateLocked (le_open en 0) (le_sizeKnown en 0) (le_today en) lg1 of (ok, lg2) \<Rightarrow>
         if ok then (True, lg2\<lparr>lg_fileRequested := True\<rparr>)
         else (False, lg2\<lparr>lg_baseDir := lg_baseDir lg, lg_baseName := lg_baseName lg\<rparr>))"

text \<open>The names tried for a full file, and the first one free.\<close>

definition rotated :: "LogPath \<Rightarrow> nat \<Rightarrow> LogPath" where
  "rotated path index =
    (case path of (dir, date, name) \<Rightarrow>
       case split_extension name of (stem, ext) \<Rightarrow> (dir, date, stem @ rotationSuffix index @ ext))"

definition free_index :: "(LogPath \<Rightarrow> string option) \<Rightarrow> LogPath \<Rightarrow> nat option" where
  "free_index files path = find (\<lambda>index. files (rotated path index) = None) [1..<Suc kMaxRotationIndex]"

definition rename_active :: "LogEnv \<Rightarrow> Logger \<Rightarrow> bool \<times> (LogPath \<Rightarrow> string option)" where
  "rename_active en lg =
    (let active = lg_activePath lg in
     case (free_index (lg_files lg) active, lg_files lg active) of
       (Some index, Some content) \<Rightarrow>
         if le_rename en then (True, (lg_files lg)(active := None, rotated active index \<mapsto> content)) else (False, lg_files lg)
     | _ \<Rightarrow> (False, lg_files lg))"

definition rotateLocked :: "LogEnv \<Rightarrow> Logger \<Rightarrow> Logger" where
  "rotateLocked en lg =
    (case rename_active en (lg\<lparr>lg_toFile := False\<rparr>) of (renamed, files) \<Rightarrow>
       let lg2 = snd (openForDateLocked (le_open en 2) (le_sizeKnown en 2) (lg_activeDate lg) (lg\<lparr>lg_toFile := False, lg_files := files\<rparr>))
       in if renamed then lg2 else lg2\<lparr>lg_bytesWritten := 0\<rparr>)"

text \<open>The stream writes to the file it has open; bytes for a file removed from outside are lost.\<close>

definition append_to :: "string \<Rightarrow> Logger \<Rightarrow> Logger" where
  "append_to s lg = lg\<lparr>lg_files := (case lg_files lg (lg_activePath lg) of
      None \<Rightarrow> lg_files lg | Some c \<Rightarrow> (lg_files lg)(lg_activePath lg \<mapsto> c @ s))\<rparr>"

definition write_line :: "LogEnv \<Rightarrow> nat \<Rightarrow> string \<Rightarrow> Logger \<Rightarrow> bool \<times> Logger" where
  "write_line en k line lg =
    (if le_write en k then (True, let lg1 = append_to line lg in lg1\<lparr>lg_bytesWritten := lg_bytesWritten lg1 + length line\<rparr>)
     else (False, append_to (take (le_partial en k) line) lg))"

definition log_line :: "LogEnv \<Rightarrow> LogLevel \<Rightarrow> string \<Rightarrow> string" where
  "log_line en level msg = le_prefix en @ '' ['' @ logTag level @ ''] '' @ msg @ [CHR 0x0A]"

definition prepare_file :: "LogEnv \<Rightarrow> nat \<Rightarrow> Logger \<Rightarrow> Logger" where
  "prepare_file en len lg =
    (let today = le_today en;
         lg1 = (if lg_toFile lg \<and> today \<noteq> [] \<and> today \<noteq> lg_activeDate lg
                then snd (openForDateLocked (le_open en 0) (le_sizeKnown en 0) today lg) else lg);
         lg2 = (if \<not> lg_toFile lg1
                then snd (openForDateLocked (le_open en 1) (le_sizeKnown en 1) (if today = [] then lg_activeDate lg1 else today) lg1)
                else lg1)
     in if lg_toFile lg2 \<and> lg_bytesWritten lg2 + len > kMaxLogFileBytes then rotateLocked en lg2 else lg2)"

definition logger_log :: "LogEnv \<Rightarrow> LogLevel \<Rightarrow> string \<Rightarrow> Logger \<Rightarrow> Logger" where
  "logger_log en level msg lg =
    (let line = log_line en level msg;
         lg1 = (if lg_fileRequested lg then prepare_file en (length line) lg else lg) in
     if \<not> lg_toFile lg1 then lg1\<lparr>lg_stdout := lg_stdout lg1 @ line\<rparr>
     else case write_line en 0 line lg1 of (ok, lg2) \<Rightarrow>
       if ok then lg2
       else
         let lg3 = lg2\<lparr>lg_toFile := False\<rparr> in
         case openForDateLocked (le_open en 3) (le_sizeKnown en 3) (if le_today en = [] then lg_activeDate lg3 else le_today en) lg3
         of (opened, lg4) \<Rightarrow> if opened then snd (write_line en 1 line lg4) else lg4)"

definition logger_close :: "Logger \<Rightarrow> Logger" where
  "logger_close lg = lg\<lparr>lg_toFile := False, lg_fileRequested := False, lg_activeDate := [], lg_activePath := ([], [], []),
    lg_baseDir := [], lg_baseName := [], lg_bytesWritten := 0\<rparr>"

definition activeFilePath :: "Logger \<Rightarrow> LogPath option" where
  "activeFilePath lg = (if lg_toFile lg then Some (lg_activePath lg) else None)"

text \<open>
  Pruning: the date \<open>cutoff\<close>, the entries of \<^verbatim>\<open>logs/\<close> with whether each is a directory, and whether each can be
  removed, come from outside; the date is empty when the conversions of the time fail.
\<close>

definition prunable :: "string \<Rightarrow> Logger \<Rightarrow> string \<times> bool \<Rightarrow> bool" where
  "prunable cutoff lg e \<longleftrightarrow> snd e \<and> isDateName (fst e) \<and> fst e \<noteq> lg_activeDate lg \<and> fst e < cutoff"

definition pruneOldLogs :: "string \<Rightarrow> int \<Rightarrow> (string \<Rightarrow> bool) \<Rightarrow> (string \<times> bool) list \<Rightarrow> Logger \<Rightarrow> nat \<times> Logger" where
  "pruneOldLogs cutoff keepDays removable entries lg =
    (if \<not> lg_fileRequested lg \<or> lg_baseDir lg = [] \<or> keepDays < 1 \<or> cutoff = [] then (0, lg)
     else
       let gone = filter (\<lambda>e. prunable cutoff lg e \<and> removable (fst e)) entries in
       (length gone, lg\<lparr>lg_files := (\<lambda>(dir, date, name).
          if dir = lg_baseDir lg \<and> date \<in> fst ` set gone then None else lg_files lg (dir, date, name))\<rparr>))"

section \<open>Nothing is lost\<close>

definition log_ok :: "Logger \<Rightarrow> bool" where
  "log_ok lg \<longleftrightarrow> (lg_toFile lg \<longrightarrow> lg_fileRequested lg \<and> lg_activePath lg = (lg_baseDir lg, lg_activeDate lg, lg_baseName lg) \<and>
    lg_files lg (lg_activePath lg) \<noteq> None)"

text \<open>Every file is still there, perhaps under another name and longer.\<close>

definition still_there :: "(LogPath \<Rightarrow> string option) \<Rightarrow> (LogPath \<Rightarrow> string option) \<Rightarrow> bool" where
  "still_there files files' \<longleftrightarrow> (\<forall>p c. files p = Some c \<longrightarrow> (\<exists>p' c'. files' p' = Some c' \<and> prefix c c'))"

lemma still_there_refl [simp]: "still_there f f"
  by (auto simp: still_there_def)

lemma still_there_trans [trans]: "still_there f g \<Longrightarrow> still_there g h \<Longrightarrow> still_there f h"
  unfolding still_there_def by (meson prefix_order.trans)

lemma still_thereI: "(\<And>p c. f p = Some c \<Longrightarrow> \<exists>c'. g p = Some c' \<and> prefix c c') \<Longrightarrow> still_there f g"
  unfolding still_there_def by blast

lemma still_there_grow: "f p = Some c \<Longrightarrow> still_there f (f(p \<mapsto> c @ s))"
  by (rule still_thereI) auto

lemma still_there_new: "f p = None \<Longrightarrow> still_there f (f(p \<mapsto> c))"
  by (rule still_thereI) auto

lemma rotationSuffix_length: "4 \<le> length (rotationSuffix i)"
  by (simp add: rotationSuffix_def Let_def)

lemma split_extension_eq: "fst (split_extension name) @ snd (split_extension name) = name"
  by (simp add: split_extension_def Let_def)

lemma rotated_longer: "length (snd (snd p)) < length (snd (snd (rotated p i)))"
  using rotationSuffix_length [of i] arg_cong [OF split_extension_eq [of "snd (snd p)"], of length]
  by (simp add: rotated_def split_beta)

lemma rotated_other: "rotated p i \<noteq> (d, e, snd (snd p))"
proof
  assume "rotated p i = (d, e, snd (snd p))"
  then show False using rotated_longer [of p i] by simp
qed

lemma still_there_rename:
  assumes "f p = Some c" "f q = None" "p \<noteq> q"
  shows "still_there f (f(p := None, q \<mapsto> c))"
  unfolding still_there_def
proof (intro allI impI)
  fix r d assume r: "f r = Some d"
  show "\<exists>p' c'. (f(p := None, q \<mapsto> c)) p' = Some c' \<and> prefix d c'"
  proof (cases "r = p")
    case True
    then show ?thesis using r assms by (intro exI [of _ q]) simp
  next
    case False
    then have "r \<noteq> q" using r assms(2) by auto
    then show ?thesis using r False by (intro exI [of _ r]) simp
  qed
qed

lemma open_effect:
  assumes "openForDateLocked opened sk date lg = (ok, lg')"
  shows "still_there (lg_files lg) (lg_files lg')" "log_ok lg \<Longrightarrow> lg_fileRequested lg \<Longrightarrow> log_ok lg'" "lg_stdout lg' = lg_stdout lg"
    "lg_fileRequested lg' = lg_fileRequested lg" "ok = opened" "ok \<Longrightarrow> lg_toFile lg'" "\<not> ok \<Longrightarrow> lg' = lg"
    "lg_baseDir lg' = lg_baseDir lg" "lg_baseName lg' = lg_baseName lg"
proof -
  let ?p = "(lg_baseDir lg, date, lg_baseName lg)"
  have "still_there (lg_files lg) ((lg_files lg)(?p \<mapsto> case lg_files lg ?p of None \<Rightarrow> [] | Some c \<Rightarrow> c))"
  proof (cases "lg_files lg ?p")
    case None
    then show ?thesis by (simp add: still_there_new)
  next
    case (Some c)
    then have "(lg_files lg)(?p \<mapsto> c) = lg_files lg" by auto
    then show ?thesis using Some by simp
  qed
  then show "still_there (lg_files lg) (lg_files lg')" using assms by (auto simp: openForDateLocked_def Let_def split: if_splits)
qed (use assms in \<open>auto simp: openForDateLocked_def log_ok_def Let_def split: if_splits\<close>)

lemmas open_snd = open_effect(1-4) [OF prod.collapse [symmetric]]

lemma free_index_Some: "free_index files path = Some i \<Longrightarrow> files (rotated path i) = None"
  by (auto simp: free_index_def find_Some_iff)

lemma rotate_effect:
  assumes "log_ok lg" "lg_toFile lg"
  shows "still_there (lg_files lg) (lg_files (rotateLocked en lg))" "log_ok (rotateLocked en lg)" "lg_stdout (rotateLocked en lg) = lg_stdout lg"
proof -
  define r where "r = rename_active en (lg\<lparr>lg_toFile := False\<rparr>)"
  define lg1 where "lg1 = lg\<lparr>lg_toFile := False, lg_files := snd r\<rparr>"
  have "lg_activePath lg \<noteq> rotated (lg_activePath lg) i" for i
    using rotated_other [of "lg_activePath lg" i "fst (lg_activePath lg)" "fst (snd (lg_activePath lg))"] by auto
  then have s: "still_there (lg_files lg) (snd r)"
    using still_there_rename free_index_Some by (auto simp: r_def rename_active_def Let_def split: option.splits)
  obtain ok lg2 where o: "openForDateLocked (le_open en 2) (le_sizeKnown en 2) (lg_activeDate lg) lg1 = (ok, lg2)" by fastforce
  note O = open_effect [OF o]
  have e: "rotateLocked en lg = (if fst r then lg2 else lg2\<lparr>lg_bytesWritten := 0\<rparr>)"
    unfolding rotateLocked_def r_def [symmetric] split_beta lg1_def [symmetric] o by simp
  have "log_ok lg1" "lg_fileRequested lg1" using assms by (simp_all add: log_ok_def lg1_def)
  then have "log_ok lg2" using O(2) by simp
  then show "log_ok (rotateLocked en lg)" by (auto simp: e log_ok_def)
  have "still_there (lg_files lg) (lg_files lg2)" using still_there_trans [OF s] O(1) by (simp add: lg1_def)
  then show "still_there (lg_files lg) (lg_files (rotateLocked en lg))" by (simp add: e)
  show "lg_stdout (rotateLocked en lg) = lg_stdout lg" using O(3) by (simp add: e lg1_def)
qed

lemma prepare_effect:
  assumes "log_ok lg" "lg_fileRequested lg"
  shows "still_there (lg_files lg) (lg_files (prepare_file en n lg))" "log_ok (prepare_file en n lg)"
    "lg_stdout (prepare_file en n lg) = lg_stdout lg" "lg_fileRequested (prepare_file en n lg)"
proof -
  define lg1 where "lg1 = (if lg_toFile lg \<and> le_today en \<noteq> [] \<and> le_today en \<noteq> lg_activeDate lg
    then snd (openForDateLocked (le_open en 0) (le_sizeKnown en 0) (le_today en) lg) else lg)"
  have 1: "still_there (lg_files lg) (lg_files lg1)" "log_ok lg1" "lg_stdout lg1 = lg_stdout lg" "lg_fileRequested lg1"
    using assms by (simp_all add: lg1_def open_snd)
  define lg2 where "lg2 = (if \<not> lg_toFile lg1
    then snd (openForDateLocked (le_open en 1) (le_sizeKnown en 1) (if le_today en = [] then lg_activeDate lg1 else le_today en) lg1) else lg1)"
  have 2: "still_there (lg_files lg) (lg_files lg2)" "log_ok lg2" "lg_stdout lg2 = lg_stdout lg" "lg_fileRequested lg2"
    using 1 still_there_trans [OF 1(1) open_snd(1)] by (simp_all add: lg2_def open_snd)
  have e: "prepare_file en n lg = (if lg_toFile lg2 \<and> lg_bytesWritten lg2 + n > kMaxLogFileBytes then rotateLocked en lg2 else lg2)"
    unfolding prepare_file_def Let_def lg1_def [symmetric] lg2_def [symmetric] by (rule refl)
  have r: "lg_fileRequested (rotateLocked en lg2)"
    using 2(4) by (simp add: rotateLocked_def Let_def split_beta open_snd)
  show "still_there (lg_files lg) (lg_files (prepare_file en n lg))" "log_ok (prepare_file en n lg)"
    "lg_stdout (prepare_file en n lg) = lg_stdout lg" "lg_fileRequested (prepare_file en n lg)"
    using 2 r rotate_effect [of lg2 en] still_there_trans [OF 2(1)] by (simp_all add: e)
qed

text \<open>A write that succeeds puts the line at the end of the active file.\<close>

definition ends_with :: "string \<Rightarrow> Logger \<Rightarrow> bool" where
  "ends_with line lg \<longleftrightarrow> lg_toFile lg \<and> (\<exists>c. lg_files lg (lg_activePath lg) = Some (c @ line))"

lemma append_effect:
  assumes "log_ok lg" "lg_toFile lg"
  shows "still_there (lg_files lg) (lg_files (append_to s lg))" "log_ok (append_to s lg)" "ends_with s (append_to s lg)"
    "lg_stdout (append_to s lg) = lg_stdout lg"
proof -
  obtain c where "lg_files lg (lg_activePath lg) = Some c" using assms by (auto simp: log_ok_def)
  then show "still_there (lg_files lg) (lg_files (append_to s lg))" "log_ok (append_to s lg)" "ends_with s (append_to s lg)"
    "lg_stdout (append_to s lg) = lg_stdout lg"
    using assms still_there_grow by (auto simp: append_to_def log_ok_def ends_with_def)
qed

lemma write_effect:
  assumes "log_ok lg" "lg_toFile lg" "write_line en k line lg = (ok, lg')"
  shows "still_there (lg_files lg) (lg_files lg')" "log_ok lg'" "lg_stdout lg' = lg_stdout lg" "ok = le_write en k"
    "ok \<Longrightarrow> ends_with line lg'" "lg_fileRequested lg'"
  using append_effect [OF assms(1,2)] assms
  by (auto simp: write_line_def Let_def log_ok_def ends_with_def append_to_def split: if_splits)

section \<open>No file grows beyond the limit\<close>

text \<open>With a file system that does what it is asked, and a number left for the next full file.\<close>

definition all_fine :: "LogEnv \<Rightarrow> bool" where
  "all_fine en \<longleftrightarrow> (\<forall>k. le_open en k \<and> le_sizeKnown en k \<and> le_write en k) \<and> le_rename en"

definition numbers_left :: "Logger \<Rightarrow> bool" where
  "numbers_left lg \<longleftrightarrow> (\<forall>date. free_index (lg_files lg) (lg_baseDir lg, date, lg_baseName lg) \<noteq> None)"

definition sized :: "nat \<Rightarrow> Logger \<Rightarrow> bool" where
  "sized limit lg \<longleftrightarrow> (\<forall>p c. lg_files lg p = Some c \<longrightarrow> length c \<le> limit) \<and>
    (lg_toFile lg \<longrightarrow> (\<exists>c. lg_files lg (lg_activePath lg) = Some c \<and> lg_bytesWritten lg = length c))"

lemma open_sized:
  assumes "sized limit lg" "openForDateLocked True True date lg = (ok, lg')"
  shows "sized limit lg'" "lg_activePath lg' = (lg_baseDir lg, date, lg_baseName lg)" "lg_toFile lg'"
    "\<And>p i. snd (snd p) = lg_baseName lg \<Longrightarrow> lg_files lg' (rotated p i) = lg_files lg (rotated p i)"
proof -
  show "sized limit lg'" "lg_activePath lg' = (lg_baseDir lg, date, lg_baseName lg)" "lg_toFile lg'"
    using assms by (auto simp: openForDateLocked_def sized_def Let_def split: option.splits if_splits)
  show "lg_files lg' (rotated p i) = lg_files lg (rotated p i)" if "snd (snd p) = lg_baseName lg" for p i
    using assms(2) rotated_other [of p i] that by (auto simp: openForDateLocked_def Let_def)
qed

lemma free_index_cong: "(\<And>i. f (rotated p i) = g (rotated p i)) \<Longrightarrow> free_index f p = free_index g p"
  by (simp add: free_index_def)

lemma open_numbers:
  assumes "numbers_left lg" "sized limit lg" "openForDateLocked True True date lg = (ok, lg')"
  shows "numbers_left lg'"
  using assms(1) open_effect(8,9) [OF assms(3)] free_index_cong [of "lg_files lg'" "(lg_baseDir lg, d, lg_baseName lg)" "lg_files lg" for d]
    open_sized(4) [OF assms(2,3)]
  by (simp add: numbers_left_def)

lemma rotate_sized:
  assumes "sized limit lg" "log_ok lg" "lg_toFile lg" "all_fine en" "numbers_left lg"
  shows "sized limit (rotateLocked en lg)" "lg_toFile (rotateLocked en lg)" "lg_bytesWritten (rotateLocked en lg) = 0"
proof -
  let ?p = "lg_activePath lg"
  have p: "?p = (lg_baseDir lg, lg_activeDate lg, lg_baseName lg)" using assms(2,3) by (simp add: log_ok_def)
  obtain c where c: "lg_files lg ?p = Some c" "length c \<le> limit" using assms(1,3) by (auto simp: sized_def simp del: split_paired_All)
  obtain i where i: "free_index (lg_files lg) ?p = Some i" using assms(5) p by (auto simp: numbers_left_def)
  have ne: "rotated ?p i \<noteq> ?p" using rotated_other [of ?p i "fst ?p" "fst (snd ?p)"] by auto
  define lg1 where "lg1 = lg\<lparr>lg_toFile := False, lg_files := (lg_files lg)(?p := None, rotated ?p i \<mapsto> c)\<rparr>"
  have r: "rename_active en (lg\<lparr>lg_toFile := False\<rparr>) = (True, (lg_files lg)(?p := None, rotated ?p i \<mapsto> c))"
    using c i assms(4) by (simp add: rename_active_def all_fine_def Let_def)
  have e: "rotateLocked en lg = snd (openForDateLocked True True (lg_activeDate lg) lg1)"
    using assms(4) r by (simp add: rotateLocked_def lg1_def all_fine_def)
  have "sized limit lg1" using assms(1) c by (auto simp: sized_def lg1_def)
  from open_sized [OF this prod.collapse [symmetric]] show "sized limit (rotateLocked en lg)" "lg_toFile (rotateLocked en lg)" by (simp_all add: e)
  show "lg_bytesWritten (rotateLocked en lg) = 0" using ne p by (simp add: e lg1_def openForDateLocked_def Let_def)
qed

lemma prepare_sized:
  assumes "sized limit lg" "log_ok lg" "lg_fileRequested lg" "all_fine en" "numbers_left lg"
  shows "sized limit (prepare_file en n lg)" "lg_toFile (prepare_file en n lg)"
    "lg_bytesWritten (prepare_file en n lg) = 0 \<or> lg_bytesWritten (prepare_file en n lg) + n \<le> kMaxLogFileBytes"
proof -
  have f: "le_open en k" "le_sizeKnown en k" for k using assms(4) by (simp_all add: all_fine_def)
  define lg1 where "lg1 = (if lg_toFile lg \<and> le_today en \<noteq> [] \<and> le_today en \<noteq> lg_activeDate lg
    then snd (openForDateLocked True True (le_today en) lg) else lg)"
  have 1: "sized limit lg1" "log_ok lg1" "numbers_left lg1" "lg_fileRequested lg1"
    using assms open_sized(1) [OF assms(1) prod.collapse [symmetric]] open_numbers [OF assms(5,1) prod.collapse [symmetric]]
    by (simp_all add: lg1_def open_snd)
  define lg2 where "lg2 = (if \<not> lg_toFile lg1
    then snd (openForDateLocked True True (if le_today en = [] then lg_activeDate lg1 else le_today en) lg1) else lg1)"
  have 2: "sized limit lg2" "log_ok lg2" "numbers_left lg2" "lg_toFile lg2"
    using 1 open_sized(1,3) [OF 1(1) prod.collapse [symmetric]] open_numbers [OF 1(3,1) prod.collapse [symmetric]]
    by (simp_all add: lg2_def open_snd)
  have e: "prepare_file en n lg = (if lg_toFile lg2 \<and> lg_bytesWritten lg2 + n > kMaxLogFileBytes then rotateLocked en lg2 else lg2)"
    unfolding prepare_file_def Let_def lg2_def lg1_def using f by simp
  show "sized limit (prepare_file en n lg)" "lg_toFile (prepare_file en n lg)"
    "lg_bytesWritten (prepare_file en n lg) = 0 \<or> lg_bytesWritten (prepare_file en n lg) + n \<le> kMaxLogFileBytes"
    using 2 rotate_sized [OF 2(1,2,4) assms(4) 2(3)] by (auto simp: e)
qed

section \<open>Properties\<close>

text \<open>
  The loggers of a run: a fresh one over whatever files there are, and then the calls of the programs.  Nobody else removes the
  files or changes them.
\<close>

definition newLogger :: "(LogPath \<Rightarrow> string option) \<Rightarrow> Logger" where
  "newLogger files = \<lparr>lg_files = files, lg_stdout = [], lg_fileRequested = False, lg_toFile = False, lg_baseDir = [], lg_baseName = [],
    lg_activeDate = [], lg_activePath = ([], [], []), lg_bytesWritten = 0\<rparr>"

inductive logger_reach :: "Logger \<Rightarrow> bool" where
  logger_new: "logger_reach (newLogger files)"
| logger_open: "logger_reach lg \<Longrightarrow> logger_reach (snd (openFile en baseDir baseName lg))"
| logger_line: "logger_reach lg \<Longrightarrow> logger_reach (logger_log en level msg lg)"
| logger_prune: "logger_reach lg \<Longrightarrow> logger_reach (snd (pruneOldLogs cutoff keepDays removable entries lg))"
| logger_closed: "logger_reach lg \<Longrightarrow> logger_reach (logger_close lg)"

lemma log_effect:
  assumes "log_ok lg"
  shows "log_ok (logger_log en level msg lg) \<and> still_there (lg_files lg) (lg_files (logger_log en level msg lg)) \<and>
    (ends_with (log_line en level msg) (logger_log en level msg lg) \<and> lg_stdout (logger_log en level msg lg) = lg_stdout lg \<or>
     lg_stdout (logger_log en level msg lg) = lg_stdout lg @ log_line en level msg \<or>
     \<not> le_write en 0 \<and> (\<not> le_open en 3 \<or> \<not> le_write en 1))"
proof -
  let ?line = "log_line en level msg"
  define lg1 where "lg1 = (if lg_fileRequested lg then prepare_file en (length ?line) lg else lg)"
  have 1: "still_there (lg_files lg) (lg_files lg1)" "log_ok lg1" "lg_stdout lg1 = lg_stdout lg"
    using prepare_effect [of lg en "length ?line"] assms by (simp_all add: lg1_def)
  show ?thesis
  proof (cases "lg_toFile lg1")
    case False
    then show ?thesis using 1 by (simp add: logger_log_def Let_def log_ok_def flip: lg1_def)
  next
    case True
    obtain ok lg2 where w: "write_line en 0 ?line lg1 = (ok, lg2)" by fastforce
    note W = write_effect [OF 1(2) True w]
    note s2 = still_there_trans [OF 1(1) W(1)]
    show ?thesis
    proof (cases ok)
      case True
      then show ?thesis using 1 W s2 w \<open>lg_toFile lg1\<close> by (simp add: logger_log_def Let_def flip: lg1_def)
    next
      case False
      then have nw: "\<not> le_write en 0" using W(4) by simp
      define lg3 where "lg3 = lg2\<lparr>lg_toFile := False\<rparr>"
      obtain opened lg4 where o: "openForDateLocked (le_open en 3) (le_sizeKnown en 3) (if le_today en = [] then lg_activeDate lg3 else le_today en) lg3 = (opened, lg4)"
        by fastforce
      note O = open_effect [OF o]
      have 3: "log_ok lg3" "lg_fileRequested lg3" "still_there (lg_files lg) (lg_files lg3)" "lg_stdout lg3 = lg_stdout lg"
        using W s2 1(3) by (simp_all add: lg3_def log_ok_def)
      have eq: "logger_log en level msg lg = (if opened then snd (write_line en 1 ?line lg4) else lg4)"
        using w o False \<open>lg_toFile lg1\<close> by (auto simp: logger_log_def Let_def simp flip: lg1_def lg3_def)
      have 4: "log_ok lg4" "still_there (lg_files lg) (lg_files lg4)" "lg_stdout lg4 = lg_stdout lg" "opened = le_open en 3"
        using O 3 still_there_trans by auto
      show ?thesis
      proof (cases opened)
        case False
        then show ?thesis using eq 4 nw by simp
      next
        case True
        obtain ok' lg5 where w2: "write_line en 1 ?line lg4 = (ok', lg5)" by fastforce
        note W2 = write_effect [OF 4(1) O(6) [OF True] w2]
        show ?thesis using eq True w2 W2 4 nw still_there_trans [OF 4(2) W2(1)] by auto
      qed
    qed
  qed
qed

lemma reach_log_ok: "logger_reach lg \<Longrightarrow> log_ok lg"
proof (induction rule: logger_reach.induct)
  case (logger_open lg en baseDir baseName)
  then show ?case
    by (auto simp: openFile_def openForDateLocked_def log_ok_def Let_def split: prod.splits if_splits)
next
  case (logger_line lg en level msg)
  then show ?case using log_effect by blast
next
  case (logger_prune lg cutoff keepDays removable entries)
  then show ?case by (auto simp: pruneOldLogs_def log_ok_def prunable_def Let_def)
qed (simp_all add: log_ok_def newLogger_def logger_close_def)


text \<open>
  But a file that was removed while it is open is not noticed: the write goes to the file no name leads to any more.
\<close>

lemma log_to_removed_file:
  assumes "lg_toFile lg" "lg_activeDate lg = le_today en" "lg_files lg (lg_activePath lg) = None" "le_write en 0"
    "lg_bytesWritten lg + length (log_line en level msg) \<le> kMaxLogFileBytes"
  shows "lg_files (logger_log en level msg lg) = lg_files lg" "lg_stdout (logger_log en level msg lg) = lg_stdout lg"
proof -
  have "(if lg_fileRequested lg then prepare_file en (length (log_line en level msg)) lg else lg) = lg"
    using assms by (simp add: prepare_file_def Let_def)
  then show "lg_files (logger_log en level msg lg) = lg_files lg" "lg_stdout (logger_log en level msg lg) = lg_stdout lg"
    unfolding logger_log_def using assms by (simp_all add: write_line_def append_to_def)
qed

text \<open>A concrete log file of today, and a clock and file system where nothing fails.\<close>

definition fine :: LogEnv where
  "fine = \<lparr>le_prefix = ''[2026-08-17 09:00:00]'', le_today = ''20260817'', le_open = (\<lambda>k. True), le_sizeKnown = (\<lambda>k. True), le_rename = True,
    le_write = (\<lambda>k. True), le_partial = (\<lambda>k. 0)\<rparr>"

definition fresh_log :: Logger where
  "fresh_log = snd (openFile fine ''/srv'' ''server.log'' (newLogger (\<lambda>p. None)))"

lemma fresh_log_eq:
  "fresh_log = \<lparr>lg_files = [(''/srv'', ''20260817'', ''server.log'') \<mapsto> []], lg_stdout = [], lg_fileRequested = True, lg_toFile = True,
    lg_baseDir = ''/srv'', lg_baseName = ''server.log'', lg_activeDate = ''20260817'', lg_activePath = (''/srv'', ''20260817'', ''server.log''),
    lg_bytesWritten = 0\<rparr>"
  by (simp add: fresh_log_def newLogger_def openFile_def openForDateLocked_def fine_def Let_def)


text \<open>
  C40. Log files stay within their limit: when no file is longer than \<open>limit\<close>, which is at least 10 MiB and the length
  of the line, none is after the line is logged, and the size kept by the logger is that of the file; the file
  is renamed before the line that would take it over 10 MiB.
\<close>

theorem log_files_bounded:
  assumes "sized limit lg" and "log_ok lg" and "lg_fileRequested lg" and "all_fine en" and "numbers_left lg"
    and "kMaxLogFileBytes \<le> limit" and "length (log_line en level msg) \<le> limit"
  shows "sized limit (logger_log en level msg lg) \<and> lg_toFile (logger_log en level msg lg)"
proof -
  let ?line = "log_line en level msg"
  define lg1 where "lg1 = prepare_file en (length ?line) lg"
  note 1 = prepare_sized [OF assms(1-5), of "length ?line", folded lg1_def]
  obtain c where c: "lg_files lg1 (lg_activePath lg1) = Some c" "lg_bytesWritten lg1 = length c" using 1(1,2) by (auto simp: sized_def)
  have "length (c @ ?line) \<le> limit" using 1(3) c(2) assms(6,7) by auto
  moreover have "logger_log en level msg lg =
      lg1\<lparr>lg_files := (lg_files lg1)(lg_activePath lg1 \<mapsto> c @ ?line), lg_bytesWritten := length c + length ?line\<rparr>"
    using assms(3,4) 1(2) c
    by (simp add: logger_log_def write_line_def append_to_def all_fine_def Let_def flip: lg1_def)
  ultimately show ?thesis using 1(1,2) by (auto simp: sized_def)
qed

theorem log_files_bounded_witness: "sized kMaxLogFileBytes (logger_log fine Info ''x'' fresh_log)"
proof -
  have "free_index (lg_files fresh_log) (''/srv'', date, ''server.log'') \<noteq> None" for date
  proof -
    have "lg_files fresh_log (rotated (''/srv'', date, ''server.log'') 1) = None"
      using rotated_other [of "(''/srv'', date, ''server.log'')" 1 "''/srv''" "''20260817''"] by (simp add: fresh_log_eq)
    then show ?thesis by (auto simp: free_index_def find_None_iff kMaxRotationIndex_def intro!: exI [of _ "Suc 0"])
  qed
  then have "numbers_left fresh_log" by (simp add: numbers_left_def fresh_log_eq)
  moreover have "sized kMaxLogFileBytes fresh_log" "log_ok fresh_log" "lg_fileRequested fresh_log" "all_fine fine"
    by (auto simp: sized_def log_ok_def fresh_log_eq all_fine_def fine_def)
  ultimately show ?thesis
    using log_files_bounded [of kMaxLogFileBytes fresh_log fine Info "''x''"] by (simp add: log_line_def fine_def kMaxLogFileBytes_def)
qed

text \<open>
  Pruning removes only what is old: a file that is gone afterwards was in a directory of this logger named by a
  date before the cutoff, which is not the date of the active file; the number returned is that of the
  directories removed, and the logger can go on writing.
\<close>

theorem prune_keeps_recent:
  assumes "pruneOldLogs cutoff keepDays removable entries lg = (n, lg')" and "log_ok lg"
  shows "(\<forall>dir date name. lg_files lg' (dir, date, name) \<noteq> lg_files lg (dir, date, name) \<longrightarrow>
      dir = lg_baseDir lg \<and> isDateName date \<and> date < cutoff \<and> date \<noteq> lg_activeDate lg) \<and>
    n \<le> length (filter (prunable cutoff lg) entries) \<and> log_ok lg'"
proof -
  have "length (filter (\<lambda>e. prunable cutoff lg e \<and> removable (fst e)) entries) \<le> length (filter (prunable cutoff lg) entries)"
    by (induction entries) auto
  then show ?thesis
    using assms by (auto simp: pruneOldLogs_def Let_def log_ok_def prunable_def split: if_splits)
qed

text \<open>A day old directory, and one of today.\<close>

definition two_days :: Logger where
  "two_days = fresh_log\<lparr>lg_files := [(''/srv'', ''20260817'', ''server.log'') \<mapsto> ''b'', (''/srv'', ''20260801'', ''server.log'') \<mapsto> ''a'']\<rparr>"

theorem prune_keeps_recent_witness:
  "\<exists>n lg'. pruneOldLogs ''20260811'' 7 (\<lambda>e. True) [(''20260801'', True), (''20260817'', True)] two_days = (n, lg') \<and>
    lg_files lg' (''/srv'', ''20260817'', ''server.log'') = Some ''b'' \<and> log_ok lg'"
proof -
  obtain n lg' where p: "pruneOldLogs ''20260811'' 7 (\<lambda>e. True) [(''20260801'', True), (''20260817'', True)] two_days = (n, lg')" by fastforce
  have "log_ok two_days" by (simp add: two_days_def fresh_log_eq log_ok_def)
  note k = prune_keeps_recent [OF p this]
  have "lg_activeDate two_days = ''20260817''" "lg_files two_days (''/srv'', ''20260817'', ''server.log'') = Some ''b''"
    by (simp_all add: two_days_def fresh_log_eq)
  then have "lg_files lg' (''/srv'', ''20260817'', ''server.log'') = Some ''b''" using k by metis
  with k p show ?thesis by blast
qed

end
