(* ===== verification/UiState.thy ===== *)
theory UiState
  imports Protocol Logger
begin

text \<open>
  The state of the client's window, \<^verbatim>\<open>client/src/ui/UiState.cpp\<close>: the two text fields, the connection and session
  states shown, the selected file and the bounded log, with the conditions under which each button is
  enabled.  The progress bars are left out; the time stamp of a log line is an argument.  The logger that
  repeats every line in a file is the theory \<open>Logger\<close>.
\<close>

section \<open>Definitions\<close>

datatype LinkState = Disconnected | Reconnecting | Connected

datatype ClientSessionState =
    Idle | Connecting | SendingHeader | Streaming | WaitAck | WaitResult | ReceivingResult | RequestingResult | Done

record LogEntry =
  le_level :: LogLevel
  le_text :: string

definition bufferText :: "string \<Rightarrow> string" where
  "bufferText buffer = takeWhile (\<lambda>c. c \<noteq> CHR 0x00) buffer"

fun levelTag :: "LogLevel \<Rightarrow> string" where
  "levelTag Warn = ''Warn''"
| "levelTag Error = ''Error''"
| "levelTag Info = ''Info''"

definition formatEntry :: "string \<Rightarrow> LogLevel \<Rightarrow> string \<Rightarrow> string" where
  "formatEntry stamp level text = ''['' @ stamp @ ''] ['' @ levelTag level @ ''] '' @ text"

definition kMaxLogEntries :: nat where "kMaxLogEntries = 1000"

record UiState =
  ui_serverIp :: string
  ui_serverPort :: string
  ui_link :: LinkState
  ui_session :: ClientSessionState
  ui_filePath :: string
  ui_fileName :: string
  ui_fileSize :: u64
  ui_resultClaimAvailable :: bool
  ui_logEntries :: "LogEntry list"
  ui_logDirty :: bool

definition newUiState :: UiState where
  "newUiState =
    \<lparr>ui_serverIp = replicate 64 (CHR 0x00),
     ui_serverPort = (let port = to_string kDefaultPort in port @ replicate (16 - length port) (CHR 0x00)),
     ui_link = Disconnected, ui_session = Idle, ui_filePath = [], ui_fileName = [], ui_fileSize = 0,
     ui_resultClaimAvailable = False, ui_logEntries = [], ui_logDirty = False\<rparr>"

text \<open>The new line goes to the end, and lines leave at the front until the log fits.\<close>

fun pop_front_until :: "nat \<Rightarrow> 'a list \<Rightarrow> 'a list" where
  "pop_front_until limit [] = []"
| "pop_front_until limit (x # xs) = (if length (x # xs) > limit then pop_front_until limit xs else x # xs)"

definition ui_log :: "string \<Rightarrow> LogLevel \<Rightarrow> string \<Rightarrow> UiState \<Rightarrow> UiState" where
  "ui_log stamp level text ui = ui
    \<lparr>ui_logEntries := pop_front_until kMaxLogEntries
       (ui_logEntries ui @ [\<lparr>le_level = level, le_text = formatEntry stamp level text\<rparr>]),
     ui_logDirty := True\<rparr>"

definition clearLogDirty :: "UiState \<Rightarrow> UiState" where
  "clearLogDirty ui = ui\<lparr>ui_logDirty := False\<rparr>"

definition parsePort :: "UiState \<Rightarrow> u16 option" where
  "parsePort ui =
    (let text = bufferText (ui_serverPort ui) in
     if text = [] then None
     else case from_chars_unsigned (2 ^ 32 - 1) text of (ec, value, n) \<Rightarrow>
       if ec \<noteq> ErrcOk \<or> n \<noteq> length text then None
       else if value = 0 \<or> value > 65535 then None
       else Some (of_nat value))"

fun isBusy :: "ClientSessionState \<Rightarrow> bool" where
  "isBusy Connecting = True"
| "isBusy SendingHeader = True"
| "isBusy Streaming = True"
| "isBusy WaitAck = True"
| "isBusy WaitResult = True"
| "isBusy ReceivingResult = True"
| "isBusy _ = False"

definition canEditAddress :: "UiState \<Rightarrow> bool" where
  "canEditAddress ui \<longleftrightarrow> ui_link ui = Disconnected \<and> \<not> isBusy (ui_session ui)"

definition canConnect :: "UiState \<Rightarrow> bool" where
  "canConnect ui \<longleftrightarrow> ui_link ui = Disconnected \<and> \<not> isBusy (ui_session ui)"

definition canDisconnect :: "UiState \<Rightarrow> bool" where
  "canDisconnect ui \<longleftrightarrow> ui_link ui \<noteq> Disconnected"

definition canBrowse :: "UiState \<Rightarrow> bool" where
  "canBrowse ui \<longleftrightarrow> \<not> isBusy (ui_session ui)"

definition canSend :: "UiState \<Rightarrow> bool" where
  "canSend ui \<longleftrightarrow> ui_link ui = Connected \<and> \<not> isBusy (ui_session ui) \<and> ui_filePath ui \<noteq> []"

definition canCancelUpload :: "UiState \<Rightarrow> bool" where
  "canCancelUpload ui \<longleftrightarrow> ui_session ui = SendingHeader \<or> ui_session ui = Streaming"

definition canSaveResult :: "UiState \<Rightarrow> bool" where
  "canSaveResult ui \<longleftrightarrow> ui_session ui = Done"

definition canRequestResult :: "UiState \<Rightarrow> bool" where
  "canRequestResult ui \<longleftrightarrow> ui_resultClaimAvailable ui \<and> ui_link ui = Connected \<and> \<not> isBusy (ui_session ui)"

lemmas gate_defs = canEditAddress_def canConnect_def canDisconnect_def canBrowse_def canSend_def canCancelUpload_def
  canSaveResult_def canRequestResult_def

section \<open>The log and the port field\<close>

lemma pop_front_until_eq: "pop_front_until n xs = drop (length xs - n) xs"
  by (induction xs) (auto simp: Suc_diff_le)

lemma ui_log_frame [simp]:
  "ui_link (ui_log stamp level text ui) = ui_link ui" "ui_session (ui_log stamp level text ui) = ui_session ui"
  "ui_filePath (ui_log stamp level text ui) = ui_filePath ui" "ui_fileName (ui_log stamp level text ui) = ui_fileName ui"
  "ui_fileSize (ui_log stamp level text ui) = ui_fileSize ui" "ui_serverIp (ui_log stamp level text ui) = ui_serverIp ui"
  "ui_serverPort (ui_log stamp level text ui) = ui_serverPort ui"
  "ui_resultClaimAvailable (ui_log stamp level text ui) = ui_resultClaimAvailable ui"
  by (simp_all add: ui_log_def)

lemma ui_log_bounded: "length (ui_logEntries (ui_log stamp level text ui)) \<le> 1000"
  by (simp add: ui_log_def pop_front_until_eq kMaxLogEntries_def)

lemma parsePort_Some:
  assumes "parsePort ui = Some p"
  shows "list_all is_digit (bufferText (ui_serverPort ui))" "unat p = digits_val (bufferText (ui_serverPort ui))" "p \<noteq> 0"
proof -
  let ?t = "bufferText (ui_serverPort ui)"
  from assms have t: "takeWhile is_digit ?t \<noteq> []" "length (takeWhile is_digit ?t) = length ?t"
    and v: "0 < digits_val (takeWhile is_digit ?t)" "digits_val (takeWhile is_digit ?t) \<le> 65535"
    and p: "p = of_nat (digits_val (takeWhile is_digit ?t))"
    by (auto simp: parsePort_def from_chars_unsigned_def Let_def split: if_splits)
  from t(2) have e: "takeWhile is_digit ?t = ?t"
    by (metis takeWhile_dropWhile_id append_Nil2 length_0_conv length_append add_cancel_left_right)
  then show "list_all is_digit ?t" by (metis list_all_iff set_takeWhileD)
  have "unat (of_nat (digits_val ?t) :: u16) = digits_val ?t" using v e by (simp add: unat_of_nat)
  moreover have "0 < digits_val ?t" using v(1) unfolding e .
  ultimately show "unat p = digits_val ?t" "p \<noteq> 0" using p unfolding e by auto
qed

end
