(* ===== verification/TransferService.thy ===== *)
theory TransferService
  imports Net Framer Crc32 FileReader ResultSummary UiState
begin

text \<open>
  The worker of the client, \<^verbatim>\<open>client/src/service/TransferService.cpp\<close>: it owns the event loop, the socket and the
  reader thread, takes commands from the window and answers with events.  Every handler of the loop thread
  is a function on the record \<open>TransferService\<close>.  What comes from outside is the record \<open>ClientEnv\<close>: the
  answers of libuv, the files, the text of the elapsed time and rate of an upload, and how far the reader
  thread gets between the two calls of \<^verbatim>\<open>handle(StartUploadCommand)\<close> that must not be interrupted.  Progress
  events, which carry floating-point fractions, and the start time of an upload are left out.  For the
  statements only, the record keeps the content of the file being sent, the number of writes before its
  header, and whether the connection attempt has succeeded.
\<close>

section \<open>Data\<close>

datatype Command =
    ConnectCommand string u16
  | DisconnectCommand
  | StartUploadCommand string string u64
  | CancelUploadCommand
  | RequestResultCommand
  | QuitCommand

datatype Event = LinkEvent LinkState | SessionEvent ClientSessionState | ClaimEvent bool | LogEvent LogLevel string

datatype Expecting = ExpNothing | ExpAck | ExpResultHeader | ExpCsvPayload | ExpResumeReply

record ResultClaim =
  cl_filename :: string
  cl_fileSize :: u64
  cl_crc32 :: u32
  cl_received :: u64

definition emptyClaim :: ResultClaim where
  "emptyClaim = \<lparr>cl_filename = [], cl_fileSize = 0, cl_crc32 = 0, cl_received = 0\<rparr>"

definition kMaxInFlightWrites :: nat where "kMaxInFlightWrites = 8"

record ClientEnv =
  te_uv :: Uv
  te_socketOk :: bool
  te_connect :: int
  te_peer :: string
  te_files :: "string \<Rightarrow> string option"
  te_rate :: string
  te_gap :: nat

record TransferService =
  ts_commands :: "Command list"
  ts_events :: "Event list"
  ts_socket :: "TcpSocket option"
  ts_connectTimer :: "Timer option"
  ts_sessionCompleted :: bool
  ts_reader :: FileReader
  ts_uploading :: bool
  ts_inFlightWrites :: nat
  ts_trailerSent :: bool
  ts_uploadTotal :: u64
  ts_uploadSent :: u64
  ts_uploadCrc :: u32
  ts_expecting :: Expecting
  ts_framer :: Framer
  ts_csv :: string
  ts_csvSize :: u64
  ts_csvExpectedCrc :: u32
  ts_hasClaim :: bool
  ts_claim :: ResultClaim
  ts_uploadFilename :: string
  ts_resultCsv :: string
  ts_loopClosing :: bool
  ts_source :: string
  ts_firstWrite :: nat
  ts_connected :: bool

definition newTransferService :: TransferService where
  "newTransferService =
    \<lparr>ts_commands = [], ts_events = [], ts_socket = None, ts_connectTimer = None, ts_sessionCompleted = False,
     ts_reader = newFileReader, ts_uploading = False, ts_inFlightWrites = 0, ts_trailerSent = False,
     ts_uploadTotal = 0, ts_uploadSent = 0, ts_uploadCrc = 0, ts_expecting = ExpNothing,
     ts_framer = newFramer AckMsg AckMsg, ts_csv = [], ts_csvSize = 0, ts_csvExpectedCrc = 0, ts_hasClaim = False,
     ts_claim = emptyClaim, ts_uploadFilename = [], ts_resultCsv = [], ts_loopClosing = False, ts_source = [],
     ts_firstWrite = 0, ts_connected = False\<rparr>"

section \<open>Events, the socket and the ring\<close>

definition pushEvent :: "Event \<Rightarrow> TransferService \<Rightarrow> TransferService" where
  "pushEvent e ts = ts\<lparr>ts_events := ts_events ts @ [e]\<rparr>"

definition pushLog :: "LogLevel \<Rightarrow> string \<Rightarrow> TransferService \<Rightarrow> TransferService" where
  "pushLog level text = pushEvent (LogEvent level text)"

definition pushLink :: "LinkState \<Rightarrow> TransferService \<Rightarrow> TransferService" where
  "pushLink link = pushEvent (LinkEvent link)"

definition pushSession :: "ClientSessionState \<Rightarrow> TransferService \<Rightarrow> TransferService" where
  "pushSession session = pushEvent (SessionEvent session)"

definition post :: "Command \<Rightarrow> TransferService \<Rightarrow> TransferService" where
  "post command ts = ts\<lparr>ts_commands := ts_commands ts @ [command]\<rparr>"

definition drainEvents :: "TransferService \<Rightarrow> Event list \<times> TransferService" where
  "drainEvents ts = (ts_events ts, ts\<lparr>ts_events := []\<rparr>)"

definition takeResultCsv :: "TransferService \<Rightarrow> string" where
  "takeResultCsv ts = ts_resultCsv ts"

text \<open>\<^verbatim>\<open>_socket && !_socket->isClosing()\<close>\<close>

definition usable :: "TransferService \<Rightarrow> bool" where
  "usable ts \<longleftrightarrow> (case ts_socket ts of None \<Rightarrow> False | Some sk \<Rightarrow> \<not> sk_closing sk)"

definition closeSocket :: "ClientEnv \<Rightarrow> TransferService \<Rightarrow> TransferService" where
  "closeSocket en ts =
    (case ts_socket ts of
       None \<Rightarrow> ts
     | Some sk \<Rightarrow> if sk_closing sk then ts else ts\<lparr>ts_socket := Some (sock_close (te_uv en) sk)\<rparr>)"

text \<open>\<^verbatim>\<open>_socket->send(...)\<close>, called only when there is a socket.\<close>

definition sendOn :: "ClientEnv \<Rightarrow> string \<Rightarrow> TransferService \<Rightarrow> int \<times> TransferService" where
  "sendOn en bytes ts =
    (case ts_socket ts of
       None \<Rightarrow> (kUvEinval, ts)
     | Some sk \<Rightarrow> (case sock_send (te_uv en) bytes sk of (rc, sk') \<Rightarrow> (rc, ts\<lparr>ts_socket := Some sk'\<rparr>)))"

definition drainRing :: "TransferService \<Rightarrow> TransferService" where
  "drainRing ts = ts\<lparr>ts_reader := notifySpaceAvailable (drain_ring_of (ts_reader ts))\<rparr>"

section \<open>The ends of an upload and of a session\<close>

definition dropResultClaim :: "TransferService \<Rightarrow> TransferService" where
  "dropResultClaim ts = pushEvent (ClaimEvent False) (ts\<lparr>ts_hasClaim := False, ts_claim := emptyClaim\<rparr>)"

definition abortUpload :: "ClientEnv \<Rightarrow> string \<Rightarrow> LogLevel \<Rightarrow> TransferService \<Rightarrow> TransferService" where
  "abortUpload en reason level ts =
    pushSession Idle (closeSocket en (pushLog level reason
      (drainRing (ts\<lparr>ts_reader := reader_abortUpload (ts_reader ts), ts_uploading := False\<rparr>))))"

definition failSession :: "ClientEnv \<Rightarrow> string \<Rightarrow> LogLevel \<Rightarrow> TransferService \<Rightarrow> TransferService" where
  "failSession en reason level ts =
    (let ts1 = (if ts_uploading ts
                then drainRing (ts\<lparr>ts_reader := reader_abortUpload (ts_reader ts), ts_uploading := False\<rparr>) else ts);
         ts2 = ts1\<lparr>ts_expecting := ExpNothing\<rparr>;
         ts3 = (if ts_hasClaim ts2 then ts2\<lparr>ts_claim := (ts_claim ts2)\<lparr>cl_received := of_nat (length (ts_csv ts2))\<rparr>\<rparr>
                else ts2\<lparr>ts_csv := []\<rparr>)
     in pushSession Idle (closeSocket en (pushLog level reason ts3)))"

definition finishUpload :: "ClientEnv \<Rightarrow> TransferService \<Rightarrow> TransferService" where
  "finishUpload en ts =
    (case sendOn en (encodeUploadTrailer \<lparr>ut_crc32 = ts_uploadCrc ts\<rparr>) (ts\<lparr>ts_trailerSent := True\<rparr>) of (result, ts1) \<Rightarrow>
       if result < 0 then
         abortUpload en (''Failed to send the upload trailer: '' @ uv_describe (te_uv en) result) Error ts1
       else
         let ts2 = ts1\<lparr>ts_uploading := False\<rparr>;
             finished = ''Upload finished ('' @ to_string (unat (ts_uploadSent ts2)) @ '' bytes'' @
               (if te_rate en = [] then [] else '' in '' @ te_rate en) @ '', crc32='' @
               to_string (unat (ts_uploadCrc ts2)) @ '') - waiting for ack''
         in (pushSession WaitAck (pushLog Info finished ts2))
              \<lparr>ts_expecting := ExpAck, ts_framer := framerReset AckMsg (ts_framer ts2)\<rparr>)"

section \<open>Sending the file\<close>

lemma sendOn_reader: "sendOn en bytes ts = (rc, ts') \<Longrightarrow> ts_reader ts' = ts_reader ts"
  by (auto simp: sendOn_def split: option.splits prod.splits)

text \<open>
  The loop over the chunks in the ring; the flag says whether it ended by aborting the upload.  It ends because
  every round takes a chunk out of the ring.
\<close>

function pumpLoop :: "ClientEnv \<Rightarrow> TransferService \<Rightarrow> bool \<times> TransferService" where
  "pumpLoop en ts =
    (if \<not> ts_inFlightWrites ts < kMaxInFlightWrites then (False, ts)
     else case tryPeek (rd_ring (ts_reader ts)) of
       None \<Rightarrow> (False, ts)
     | Some chunk \<Rightarrow>
         (case sendOn en chunk (ts\<lparr>ts_uploadCrc := crc32 (ts_uploadCrc ts) chunk\<rparr>) of (result, ts1) \<Rightarrow>
            let ts2 = ts1\<lparr>ts_inFlightWrites := ts_inFlightWrites ts1 + 1, ts_reader := notifySpaceAvailable (releaseSlot (ts_reader ts1))\<rparr> in
            if result < 0 then (True, abortUpload en (''Send failed: '' @ uv_describe (te_uv en) result) Error ts2)
            else pumpLoop en (ts2\<lparr>ts_uploadSent := ts_uploadSent ts2 + of_nat (length chunk)\<rparr>)))"
  by pat_completeness auto
termination
proof (relation "measure (\<lambda>(en, ts). ring_count (rd_ring (ts_reader ts)))", goal_cases)
  case (2 en ts chunk)
  then show ?case using tryPeek_release_count [of "rd_ring (ts_reader ts)" chunk] by (auto simp: releaseSlot_def dest!: sendOn_reader [OF sym])
qed simp

declare pumpLoop.simps [simp del]

definition pumpUpload :: "ClientEnv \<Rightarrow> TransferService \<Rightarrow> TransferService" where
  "pumpUpload en ts =
    (if \<not> ts_uploading ts \<or> \<not> usable ts then ts
     else if rd_failed (ts_reader ts) then
       (case takeError (ts_reader ts) of (err, rd) \<Rightarrow> abortUpload en err Error (ts\<lparr>ts_reader := rd\<rparr>))
     else case pumpLoop en ts of (aborted, ts1) \<Rightarrow>
       if aborted then ts1
       else if \<not> ts_trailerSent ts1 \<and> rd_readComplete (ts_reader ts1) \<and> ring_empty (rd_ring (ts_reader ts1)) \<and>
           ts_uploadTotal ts1 \<le> ts_uploadSent ts1
       then finishUpload en ts1
       else ts1)"

section \<open>Receiving the result\<close>

definition finishDownload :: "ClientEnv \<Rightarrow> TransferService \<Rightarrow> TransferService" where
  "finishDownload en ts =
    (let actual = crc32 0 (ts_csv ts) in
     if actual \<noteq> ts_csvExpectedCrc ts then
       let ts1 = ts\<lparr>ts_csv := []\<rparr>;
           ts2 = (if ts_hasClaim ts1 then ts1\<lparr>ts_claim := (ts_claim ts1)\<lparr>cl_received := 0\<rparr>\<rparr> else ts1)
       in failSession en (''result.csv CRC mismatch (expected '' @ to_string (unat (ts_csvExpectedCrc ts)) @ '', got '' @
            to_string (unat actual) @ '')'') Error ts2
     else
       let skipWarning = formatSkipWarning (summarizeResultCsv (ts_csv ts));
           ts1 = dropResultClaim (ts\<lparr>ts_resultCsv := ts_csv ts, ts_csv := [], ts_expecting := ExpNothing\<rparr>)
       in case sendOn en encodeDownloadDone ts1 of (result, ts2) \<Rightarrow>
         if result < 0 then failSession en (''Failed to send DownloadDone: '' @ uv_describe (te_uv en) result) Error ts2
         else
           let ts3 = pushLog Info ''result.csv verified - session complete'' (ts2\<lparr>ts_sessionCompleted := True\<rparr>);
               ts4 = (if skipWarning \<noteq> [] then pushLog Warn skipWarning ts3 else ts3)
           in pushSession Done ts4)"

text \<open>The flag is the value returned: whether the header was accepted.\<close>

definition beginCsvReceive :: "ClientEnv \<Rightarrow> ResultHeader \<Rightarrow> bool \<Rightarrow> TransferService \<Rightarrow> bool \<times> TransferService" where
  "beginCsvReceive en header resuming ts =
    (if kMaxCsvSize < rh_csvSize header then
       (False, failSession en (''Server declared an oversized result.csv ('' @ to_string (unat (rh_csvSize header)) @
          '' bytes > limit '' @ to_string (unat kMaxCsvSize) @ '').'') Error ts)
     else if resuming \<and> unat (rh_csvSize header) < length (ts_csv ts) then
       (False, failSession en (''Server offered a result smaller than what was already received ('' @
          to_string (unat (rh_csvSize header)) @ '' < '' @ to_string (length (ts_csv ts)) @
          '') - the retained result is not the one being resumed.'') Error ts)
     else
       let ts1 = ts\<lparr>ts_csvSize := rh_csvSize header, ts_csvExpectedCrc := rh_crc32 header\<rparr>;
           ts2 = (if resuming then ts1 else ts1\<lparr>ts_csv := []\<rparr>);
           ts3 = ts2\<lparr>ts_expecting := ExpCsvPayload\<rparr>;
           text = (if resuming then ''Resuming result.csv at '' @ to_string (length (ts_csv ts3)) @ '' of '' @
                     to_string (unat (ts_csvSize ts3)) @ '' bytes''
                   else ''Receiving result.csv ('' @ to_string (unat (ts_csvSize ts3)) @ '' bytes)'');
           ts4 = pushSession ReceivingResult (pushLog Info text ts3)
       in (True, if length (ts_csv ts4) = unat (ts_csvSize ts4) then finishDownload en ts4 else ts4))"

text \<open>The handlers of received bytes return how many they consumed; 0 ends the loop of \<open>onBytes\<close>.\<close>

definition ackReason :: "AckStatus \<Rightarrow> string" where
  "ackReason st =
    (case st of
       CrcMismatch \<Rightarrow> ''CRC mismatch'' | SizeMismatch \<Rightarrow> ''size mismatch'' | ProtocolError \<Rightarrow> ''protocol error''
     | ServerError \<Rightarrow> ''server error'' | _ \<Rightarrow> ''unknown error'')"

definition handleAckBytes :: "ClientEnv \<Rightarrow> string \<Rightarrow> TransferService \<Rightarrow> nat \<times> TransferService" where
  "handleAckBytes en data ts =
    (case feed (ts_framer ts) data of (f, consumed) \<Rightarrow>
       let ts1 = ts\<lparr>ts_framer := f\<rparr> in
       if fr_status f = NeedMoreData then (consumed, ts1)
       else if fr_status f \<noteq> Ok then
         (0, failSession en ''Malformed ack from server - closing the session.'' Error ts1)
       else case decodeAck (message f) of
         Inl st \<Rightarrow> (0, failSession en ''Cannot decode the ack from server.'' Error ts1)
       | Inr ack \<Rightarrow>
           if ack_status ack \<noteq> AckOk then
             (0, failSession en (''Server rejected the upload: '' @ ackReason (ack_status ack) @ '' (received '' @
                to_string (unat (ack_receivedBytes ack)) @ '' bytes)'') Error ts1)
           else
             let ts2 = ts1\<lparr>ts_hasClaim := True,
                   ts_claim := \<lparr>cl_filename = ts_uploadFilename ts1, cl_fileSize = ts_uploadTotal ts1,
                     cl_crc32 = ts_uploadCrc ts1, cl_received = 0\<rparr>\<rparr>;
                 ts3 = pushSession WaitResult (pushLog Info (''Server verified the upload ('' @
                   to_string (unat (ack_receivedBytes ack)) @ '' bytes) - analyzing'') (pushEvent (ClaimEvent True) ts2))
             in (consumed, ts3\<lparr>ts_expecting := ExpResultHeader, ts_framer := framerReset ResultHeaderMsg f\<rparr>))"

definition handleResultHeaderBytes :: "ClientEnv \<Rightarrow> string \<Rightarrow> TransferService \<Rightarrow> nat \<times> TransferService" where
  "handleResultHeaderBytes en data ts =
    (case feed (ts_framer ts) data of (f, consumed) \<Rightarrow>
       let ts1 = ts\<lparr>ts_framer := f\<rparr> in
       if fr_status f = NeedMoreData then (consumed, ts1)
       else if fr_status f \<noteq> Ok then (0, failSession en ''Malformed result header from server.'' Error ts1)
       else case decodeResultHeader (message f) of
         Inl st \<Rightarrow> (0, failSession en ''Cannot decode the result header.'' Error ts1)
       | Inr header \<Rightarrow>
           (case beginCsvReceive en header False ts1 of (begun, ts2) \<Rightarrow> (if begun then consumed else 0, ts2)))"

definition handleCsvBytes :: "ClientEnv \<Rightarrow> string \<Rightarrow> TransferService \<Rightarrow> nat \<times> TransferService" where
  "handleCsvBytes en data ts =
    (let remaining = unat (ts_csvSize ts) - length (ts_csv ts);
         n = (if length data < remaining then length data else remaining);
         ts1 = ts\<lparr>ts_csv := ts_csv ts @ take n data\<rparr>;
         ts2 = (if ts_hasClaim ts1 then ts1\<lparr>ts_claim := (ts_claim ts1)\<lparr>cl_received := of_nat (length (ts_csv ts1))\<rparr>\<rparr> else ts1);
         ts3 = (if length (ts_csv ts2) = unat (ts_csvSize ts2) then finishDownload en ts2 else ts2)
     in (n, ts3))"

definition refusalReason :: "DecodeStatus + Ack \<Rightarrow> string" where
  "refusalReason d =
    (case d of
       Inl _ \<Rightarrow> ''The server refused the result request''
     | Inr ack \<Rightarrow>
         (case ack_status ack of
            NoSuchResult \<Rightarrow> ''The server no longer holds this result - the file must be sent again''
          | ProtocolError \<Rightarrow> ''This server does not support resuming a result - the file must be sent again''
          | _ \<Rightarrow> ''The server refused the result request''))"

definition handleResumeReplyBytes :: "ClientEnv \<Rightarrow> string \<Rightarrow> TransferService \<Rightarrow> nat \<times> TransferService" where
  "handleResumeReplyBytes en data ts =
    (case feed (ts_framer ts) data of (f, consumed) \<Rightarrow>
       let ts1 = ts\<lparr>ts_framer := f\<rparr> in
       if fr_status f = NeedMoreData then (consumed, ts1)
       else if fr_status f \<noteq> Ok then (0, failSession en ''Malformed reply to the result request.'' Error ts1)
       else if messageType f = Some AckMsg then
         (0, failSession en (refusalReason (decodeAck (message f))) Warn ((dropResultClaim ts1)\<lparr>ts_csv := []\<rparr>))
       else case decodeResultHeader (message f) of
         Inl st \<Rightarrow> (0, failSession en ''Cannot decode the result header.'' Error ts1)
       | Inr header \<Rightarrow>
           (case beginCsvReceive en header True ts1 of (begun, ts2) \<Rightarrow> (if begun then consumed else 0, ts2)))"

function onBytes :: "ClientEnv \<Rightarrow> string \<Rightarrow> TransferService \<Rightarrow> TransferService" where
  "onBytes en data ts =
    (if data = [] then ts
     else
       let step =
         (case ts_expecting ts of
            ExpAck \<Rightarrow> Some (handleAckBytes en data ts)
          | ExpResultHeader \<Rightarrow> Some (handleResultHeaderBytes en data ts)
          | ExpCsvPayload \<Rightarrow> Some (handleCsvBytes en data ts)
          | ExpResumeReply \<Rightarrow> Some (handleResumeReplyBytes en data ts)
          | ExpNothing \<Rightarrow> None)
       in case step of
         None \<Rightarrow>
           failSession en (''Unexpected '' @ to_string (length data) @ '' bytes from server - closing the session.'') Error ts
       | Some (consumed, ts1) \<Rightarrow> if consumed = 0 then ts1 else onBytes en (drop consumed data) ts1)"
  by pat_completeness auto
termination
  by (relation "measure (\<lambda>(en, data, ts). length data)") auto

declare onBytes.simps [simp del]

section \<open>Commands\<close>

text \<open>\<^verbatim>\<open>TcpSocket::connect\<close>: the codes of the address conversion and of libuv are one answer.\<close>

definition sock_connect :: "ClientEnv \<Rightarrow> TcpSocket \<Rightarrow> int" where
  "sock_connect en sk = (if \<not> sk_valid sk then kUvEinval else te_connect en)"

definition beginConnect :: "ClientEnv \<Rightarrow> string \<Rightarrow> u16 \<Rightarrow> TransferService \<Rightarrow> bool \<times> TransferService" where
  "beginConnect en ip port ts =
    (let sk = newSocket (te_socketOk en);
         ts1 = pushLink Reconnecting (ts\<lparr>ts_socket := Some sk, ts_sessionCompleted := False, ts_connected := False\<rparr>);
         result = sock_connect en sk in
     if result < 0 then
       (False, (pushLink Disconnected (pushLog Error (''Connect request failed: '' @ uv_describe (te_uv en) result) ts1))
          \<lparr>ts_socket := None\<rparr>)
     else
       let timer = (case ts_connectTimer ts1 of None \<Rightarrow> newTimer | Some t \<Rightarrow> t)
       in (True, ts1\<lparr>ts_connectTimer := Some (timer_start kResponseTimeoutMs timer)\<rparr>))"

definition onConnectTimeout :: "ClientEnv \<Rightarrow> TransferService \<Rightarrow> TransferService" where
  "onConnectTimeout en ts =
    (if usable ts
     then pushSession Idle (closeSocket en (pushLink Disconnected (pushLog Error ''Connect timed out.'' ts)))
     else ts)"

definition handleConnect :: "ClientEnv \<Rightarrow> string \<Rightarrow> u16 \<Rightarrow> TransferService \<Rightarrow> TransferService" where
  "handleConnect en ip port ts =
    (if ts_socket ts \<noteq> None then pushLog Warn ''Already connected or connecting - ignoring Connect.'' ts
     else case beginConnect en ip port ts of (begun, ts1) \<Rightarrow>
       if begun then pushLog Info (''Connecting to '' @ ip @ '':'' @ to_string (unat port) @ ''...'') ts1 else ts1)"

definition stopConnectTimer :: "TransferService \<Rightarrow> TransferService" where
  "stopConnectTimer ts = ts\<lparr>ts_connectTimer := map_option timer_stop (ts_connectTimer ts)\<rparr>"

definition handleDisconnect :: "ClientEnv \<Rightarrow> TransferService \<Rightarrow> TransferService" where
  "handleDisconnect en ts =
    (let ts1 = stopConnectTimer ts in
     if ts_socket ts1 = None then pushLink Disconnected ts1
     else
       let ts2 = pushLog Info ''Disconnecting.'' ts1 in
       if ts_uploading ts2 then abortUpload en ''Upload stopped: disconnected by user.'' Warn ts2
       else if ts_expecting ts2 \<noteq> ExpNothing then failSession en ''Disconnected before the result arrived.'' Warn ts2
       else closeSocket en ts2)"

definition handleStartUpload :: "ClientEnv \<Rightarrow> string \<Rightarrow> string \<Rightarrow> u64 \<Rightarrow> TransferService \<Rightarrow> TransferService" where
  "handleStartUpload en path filename sz ts =
    (if ts_uploading ts then pushLog Warn ''An upload is already in progress.'' ts
     else if \<not> usable ts then pushLog Error ''Not connected - press Connect first.'' ts
     else
       let ts1 = drainRing ts;
           ts2 = ts1\<lparr>ts_reader := (reader_step ^^ te_gap en) (ts_reader ts1)\<rparr>
       in case beginUpload (te_files en) path (unat sz) (ts_reader ts2) of
         Inl err \<Rightarrow> pushLog Error err ts2
       | Inr rd \<Rightarrow>
           let ts3 = dropResultClaim (ts2\<lparr>ts_reader := rd, ts_uploading := True, ts_uploadFilename := filename\<rparr>);
               ts4 = ts3\<lparr>ts_inFlightWrites := 0, ts_trailerSent := False, ts_uploadTotal := sz, ts_uploadSent := 0,
                 ts_uploadCrc := 0, ts_expecting := ExpNothing, ts_csv := [], ts_csvSize := 0, ts_csvExpectedCrc := 0,
                 ts_resultCsv := [], ts_source := the (te_files en path),
                 ts_firstWrite := (case ts_socket ts3 of None \<Rightarrow> 0 | Some sk \<Rightarrow> length (sk_written sk))\<rparr>
           in case sendOn en (encodeUploadHeader \<lparr>uh_fileSize = sz, uh_filename = filename\<rparr>) (pushSession SendingHeader ts4)
              of (result, ts5) \<Rightarrow>
                if result < 0 then
                  abortUpload en (''Failed to send the upload header: '' @ uv_describe (te_uv en) result) Error ts5
                else
                  pumpUpload en (pushSession Streaming (pushLog Info (''Uploading '' @ filename @ '' ('' @
                    to_string (unat sz) @ '' bytes)'') ts5)))"

definition handleCancelUpload :: "ClientEnv \<Rightarrow> TransferService \<Rightarrow> TransferService" where
  "handleCancelUpload en ts = (if \<not> ts_uploading ts then ts else abortUpload en ''Upload cancelled by user.'' Warn ts)"

definition handleRequestResult :: "ClientEnv \<Rightarrow> TransferService \<Rightarrow> TransferService" where
  "handleRequestResult en ts =
    (if \<not> ts_hasClaim ts then pushLog Warn ''No result to recover - send the file first.'' ts
     else if ts_socket ts = None then pushLog Warn ''Connect to the server before requesting the result.'' ts
     else
       let claim = ts_claim ts;
           request = \<lparr>rr_fileSize = cl_fileSize claim, rr_crc32 = cl_crc32 claim, rr_startOffset = cl_received claim,
             rr_filename = cl_filename claim\<rparr>
       in case sendOn en (encodeResultRequest request) ts of (result, ts1) \<Rightarrow>
         if result \<noteq> 0 then failSession en ''Failed to send the result request.'' Error ts1
         else
           let ts2 = ts1\<lparr>ts_sessionCompleted := False, ts_expecting := ExpResumeReply,
                 ts_framer := framerReset2 AckMsg ResultHeaderMsg (ts_framer ts1)\<rparr>;
               position = (if ts_csvSize ts2 = 0 then ''from the beginning''
                 else ''from '' @ to_string (unat (cl_received claim)) @ '' of '' @ to_string (unat (ts_csvSize ts2)) @ '' bytes'')
           in pushSession RequestingResult (pushLog Info
                (''Requesting the result '' @ position @ '' - the file is not being sent again'') ts2))"

definition handleQuit :: "ClientEnv \<Rightarrow> TransferService \<Rightarrow> TransferService" where
  "handleQuit en ts =
    (closeSocket en (ts\<lparr>ts_reader := reader_abortUpload (ts_reader ts), ts_uploading := False, ts_connectTimer := None\<rparr>))
      \<lparr>ts_loopClosing := True\<rparr>"

fun handle :: "ClientEnv \<Rightarrow> Command \<Rightarrow> TransferService \<Rightarrow> TransferService" where
  "handle en (ConnectCommand ip port) ts = handleConnect en ip port ts"
| "handle en DisconnectCommand ts = handleDisconnect en ts"
| "handle en (StartUploadCommand path filename sz) ts = handleStartUpload en path filename sz ts"
| "handle en CancelUploadCommand ts = handleCancelUpload en ts"
| "handle en RequestResultCommand ts = handleRequestResult en ts"
| "handle en QuitCommand ts = handleQuit en ts"

text \<open>
  The queue of commands is emptied; the answers of the environment may differ from one command to the next.
  A command posted meanwhile is left for the next callback, which its own wake-up causes.
\<close>

fun drainCommands :: "(nat \<Rightarrow> ClientEnv) \<Rightarrow> Command list \<Rightarrow> TransferService \<Rightarrow> TransferService" where
  "drainCommands en [] ts = ts"
| "drainCommands en (command # rst) ts = drainCommands (\<lambda>k. en (Suc k)) rst (handle (en 0) command ts)"

definition onAsyncCb :: "(nat \<Rightarrow> ClientEnv) \<Rightarrow> TransferService \<Rightarrow> TransferService" where
  "onAsyncCb en ts =
    pumpUpload (en (length (ts_commands ts)))
      (drainCommands en (ts_commands ts) (ts\<lparr>ts_commands := [], ts_reader := (ts_reader ts)\<lparr>rd_signalled := False\<rparr>\<rparr>))"

section \<open>Callbacks of the socket\<close>

definition onConnect :: "ClientEnv \<Rightarrow> int \<Rightarrow> TransferService \<Rightarrow> TransferService" where
  "onConnect en status ts =
    (let ts1 = stopConnectTimer ts in
     if status < 0 then
       closeSocket en (pushLink Disconnected (pushLog Error (''Connect failed: '' @ uv_describe (te_uv en) status) ts1))
     else
       let ts2 = pushLink Connected (pushLog Info (''Connected to '' @ te_peer en) (ts1\<lparr>ts_connected := True\<rparr>)) in
       case ts_socket ts2 of
         None \<Rightarrow> ts2
       | Some sk \<Rightarrow>
           (case sock_startRead (te_uv en) sk of (result, sk') \<Rightarrow>
              let ts3 = ts2\<lparr>ts_socket := Some sk'\<rparr> in
              if result < 0
              then closeSocket en (pushLog Error (''startRead failed: '' @ uv_describe (te_uv en) result) ts3)
              else ts3))"

definition client_onSendComplete :: "ClientEnv \<Rightarrow> int \<Rightarrow> TransferService \<Rightarrow> TransferService" where
  "client_onSendComplete en status ts =
    (let ts1 = (if ts_inFlightWrites ts > 0 then ts\<lparr>ts_inFlightWrites := ts_inFlightWrites ts - 1\<rparr> else ts) in
     if status < 0 then
       (if ts_uploading ts1 then abortUpload en (''Send failed: '' @ uv_describe (te_uv en) status) Error ts1 else ts1)
     else pumpUpload en ts1)"

definition client_onError :: "ClientEnv \<Rightarrow> int \<Rightarrow> string \<Rightarrow> TransferService \<Rightarrow> TransferService" where
  "client_onError en status whence ts =
    (let sessionInFlight = (ts_uploading ts \<or> ts_expecting ts \<noteq> ExpNothing);
         ts1 = (if status = kUvEof then
                  (if ts_sessionCompleted ts then pushLog Info ''Server closed the connection.'' ts
                   else if \<not> sessionInFlight then pushLog Warn ''Server closed the connection (idle timeout).'' ts
                   else ts)
                else pushLog Error (whence @ '': '' @ uv_describe (te_uv en) status) ts);
         ts2 = (if ts_uploading ts1 then abortUpload en ''Upload aborted: the connection was lost.'' Error ts1
                else if ts_expecting ts1 \<noteq> ExpNothing
                then failSession en ''The connection was lost before the result arrived.'' Error ts1 else ts1)
     in closeSocket en (pushLink Disconnected ts2))"

definition client_onClosed :: "TransferService \<Rightarrow> TransferService" where
  "client_onClosed ts = pushLink Disconnected (ts\<lparr>ts_socket := None\<rparr>)"

end
