(* ===== verification/FileDialog.thy ===== *)
theory FileDialog
  imports Codec
begin

text \<open>
  The checks behind the file dialogs of the client, \<^verbatim>\<open>client/src/ui/FileDialog.cpp\<close>.  What Windows answers is the
  record \<open>DialogAnswer\<close>: the path and the name chosen, converted to UTF-8 (empty when the conversion failed),
  nothing when the dialog was cancelled, and the attributes of the file.  A failure is the text of the
  error, empty when the user cancelled.
\<close>

section \<open>Definitions\<close>

record SelectedFile =
  sf_path :: string
  sf_name :: string
  sf_size :: u64

record DialogAnswer =
  da_chosen :: "(string \<times> string) option"
  da_attributes :: "(bool \<times> u32 \<times> u32) option"

text \<open>The loop over the characters; \<open>None\<close> when all are acceptable.\<close>

fun firstBadChar :: "string \<Rightarrow> string option" where
  "firstBadChar [] = None"
| "firstBadChar (ch # name) =
    (if u8_of ch < 0x20 \<or> u8_of ch = 0x7F then Some ''File name contains a control character.''
     else if ch = CHR ''/'' \<or> ch = CHR 0x5C then Some ''File name contains a path separator.''
     else firstBadChar name)"

definition isAcceptableFileName :: "string \<Rightarrow> string option" where
  "isAcceptableFileName name =
    (if name = [] \<or> length name > kMaxFilenameLen then Some ''File name must be 1 to 255 bytes when encoded as UTF-8.''
     else firstBadChar name)"

definition queryFileSize :: "(bool \<times> u32 \<times> u32) option \<Rightarrow> string + u64" where
  "queryFileSize attributes =
    (case attributes of
       None \<Rightarrow> Inl ''Cannot read the selected file (it may have been moved or locked).''
     | Some (directory, high, low) \<Rightarrow>
         if directory then Inl ''A directory was selected instead of a file.''
         else let sz = push_bit 32 (ucast high) OR ucast low in
           if sz > kMaxFileSize then Inl ''File is larger than the 8 GiB protocol limit.'' else Inr sz)"

definition openFileDialog :: "DialogAnswer \<Rightarrow> string + SelectedFile" where
  "openFileDialog da =
    (case da_chosen da of
       None \<Rightarrow> Inl []
     | Some (path, name) \<Rightarrow>
         if path = [] \<or> name = [] then Inl ''Failed to convert the file path to UTF-8.''
         else case isAcceptableFileName name of
           Some err \<Rightarrow> Inl err
         | None \<Rightarrow>
             (case queryFileSize (da_attributes da) of
                Inl err \<Rightarrow> Inl err
              | Inr sz \<Rightarrow> Inr \<lparr>sf_path = path, sf_name = name, sf_size = sz\<rparr>))"

definition saveFileDialog :: "string option \<Rightarrow> string + string" where
  "saveFileDialog chosen =
    (case chosen of
       None \<Rightarrow> Inl []
     | Some path \<Rightarrow> if path = [] then Inl ''Failed to convert the save path to UTF-8.'' else Inr path)"

section \<open>What the dialog lets through\<close>

lemma firstBadChar_None:
  "firstBadChar name = None \<longleftrightarrow> list_all (\<lambda>ch. \<not> (u8_of ch \<le> 0x1F \<or> u8_of ch = 0x7F \<or> ch = CHR ''/'' \<or> ch = CHR 0x5C)) name"
proof -
  have "b < 0x20 \<longleftrightarrow> b \<le> 0x1F" for b :: u8 by unat_arith
  then show ?thesis by (induction name) auto
qed

lemma acceptable_valid: "isAcceptableFileName name = None \<longleftrightarrow> isValidFilename name"
  by (auto simp: isAcceptableFileName_def isValidFilename_def firstBadChar_None)

lemma selected_valid:
  assumes "openFileDialog da = Inr sf"
  shows "sf_path sf \<noteq> []" "validUploadHeader \<lparr>uh_fileSize = sf_size sf, uh_filename = sf_name sf\<rparr>"
  using assms
  by (auto simp: openFileDialog_def queryFileSize_def acceptable_valid validUploadHeader_def Let_def split: option.splits if_splits sum.splits)

end
