(* ===== verification/PingConsole.thy ===== *)
theory PingConsole
  imports Prelude
begin

text \<open>
  The ping console of the client and the check of the address it passes to a shell,
  \<^verbatim>\<open>client/src/ui/PingConsole.h\<close> and \<^verbatim>\<open>PingConsole.cpp\<close>.  The index
  \<^verbatim>\<open>pos\<close> is the part of the text not yet read; \<open>ipv4_digits\<close> is the inner loop over the digits of an octet
  (\<open>None\<close> is the early return) and \<open>ipv4_octets\<close> the loop over the octets.  Whether the shell
  starts with the given parameters is the argument of \<open>openPingConsole\<close>, which returns what it was given.
\<close>

section \<open>Definitions\<close>

fun ipv4_digits :: "nat \<Rightarrow> nat \<Rightarrow> string \<Rightarrow> (nat \<times> nat \<times> string) option" where
  "ipv4_digits value digits [] = Some (value, digits, [])"
| "ipv4_digits value digits (c # s) =
    (if is_digit c then
       if digits + 1 > 3 then None else ipv4_digits (value * 10 + digit_val c) (digits + 1) s
     else Some (value, digits, c # s))"

fun ipv4_octets :: "nat \<Rightarrow> string \<Rightarrow> bool" where
  "ipv4_octets 0 s = (s = [])"
| "ipv4_octets (Suc n) s =
    (case ipv4_digits 0 0 s of
       None \<Rightarrow> False
     | Some (value, digits, s') \<Rightarrow>
         if digits = 0 \<or> value > 255 then False
         else if n = 0 then s' = []
         else case s' of [] \<Rightarrow> False | c # s'' \<Rightarrow> if c \<noteq> CHR ''.'' then False else ipv4_octets n s'')"

definition isValidIpv4 :: "string \<Rightarrow> bool" where
  "isValidIpv4 text \<longleftrightarrow> \<not> (text = [] \<or> length text > 15) \<and> ipv4_octets 4 text"

definition openPingConsole :: "(string \<Rightarrow> bool) \<Rightarrow> string \<Rightarrow> string + string" where
  "openPingConsole shellExecute ip =
    (if \<not> isValidIpv4 ip then Inl (''Ping: '' @ CHR 0x27 # ip @ CHR 0x27 # '' is not a valid IPv4 address.'')
     else
       let parameters = ''/k ping -t -w 1000 '' @ ip in
       if \<not> shellExecute parameters then Inl ''Ping: could not start the ping console.'' else Inr parameters)"

section \<open>Octets\<close>

definition octet_ok :: "string \<Rightarrow> bool" where
  "octet_ok s \<longleftrightarrow> s \<noteq> [] \<and> length s \<le> 3 \<and> list_all is_digit s \<and> digits_val s \<le> 255"

fun dotted :: "nat \<Rightarrow> string \<Rightarrow> bool" where
  "dotted 0 s = (s = [])"
| "dotted (Suc 0) s = octet_ok s"
| "dotted (Suc n) s = (\<exists>a b. s = a @ CHR ''.'' # b \<and> octet_ok a \<and> dotted n b)"

lemma ipv4_digits_eq:
  "ipv4_digits v d s =
    (let ds = takeWhile is_digit s in
     if ds \<noteq> [] \<and> 3 < d + length ds then None
     else Some (foldl (\<lambda>v c. v * 10 + digit_val c) v ds, d + length ds, dropWhile is_digit s))"
  by (induction v d s rule: ipv4_digits.induct) (auto simp: Let_def)

lemma dot_not_digit [simp]: "\<not> is_digit (CHR ''.'')"
  by (simp add: is_digit_def byte_nat_def)

lemma octets_Suc:
  "ipv4_octets (Suc n) s \<longleftrightarrow> octet_ok (takeWhile is_digit s) \<and>
    (if n = 0 then dropWhile is_digit s = [] else \<exists>b. dropWhile is_digit s = CHR ''.'' # b \<and> ipv4_octets n b)"
proof -
  have d: "list_all is_digit (takeWhile is_digit s)" by (auto simp: list_all_iff dest: set_takeWhileD)
  have "(case r of [] \<Rightarrow> False | c # t \<Rightarrow> if c \<noteq> CHR ''.'' then False else ipv4_octets n t) \<longleftrightarrow>
      (\<exists>b. r = CHR ''.'' # b \<and> ipv4_octets n b)" for r
    by (cases r) auto
  then show ?thesis
    using d by (simp add: ipv4_digits_eq Let_def octet_ok_def digits_val_def)
qed

lemma span_digits: "list_all is_digit a \<Longrightarrow> takeWhile is_digit (a @ CHR ''.'' # b) = a"
  "list_all is_digit a \<Longrightarrow> dropWhile is_digit (a @ CHR ''.'' # b) = CHR ''.'' # b"
  by (induction a) auto

lemma octet_ok_digits: "octet_ok a \<Longrightarrow> list_all is_digit a"
  by (simp add: octet_ok_def)

lemma ipv4_octets_dotted: "ipv4_octets n s \<longleftrightarrow> dotted n s"
proof (induction n arbitrary: s)
  case (Suc n)
  show ?case
  proof (cases n)
    case 0
    have "octet_ok s" if "octet_ok (takeWhile is_digit s)" "dropWhile is_digit s = []"
      using that takeWhile_dropWhile_id [of is_digit s] by (metis append_Nil2)
    moreover have "takeWhile is_digit s = s" "dropWhile is_digit s = []" if "octet_ok s"
      using octet_ok_digits [OF that] by (simp_all add: list_all_iff)
    ultimately have "octet_ok (takeWhile is_digit s) \<and> dropWhile is_digit s = [] \<longleftrightarrow> octet_ok s" by metis
    then show ?thesis using 0 octets_Suc [of 0 s] by (simp del: dropWhile_eq_Nil_conv ipv4_octets.simps)
  next
    case (Suc m)
    have "(octet_ok (takeWhile is_digit s) \<and> (\<exists>b. dropWhile is_digit s = CHR ''.'' # b \<and> dotted n b)) \<longleftrightarrow>
        (\<exists>a b. s = a @ CHR ''.'' # b \<and> octet_ok a \<and> dotted n b)"
      using takeWhile_dropWhile_id [of is_digit s] span_digits octet_ok_digits by metis
    then show ?thesis using Suc Suc.IH by (simp add: octets_Suc del: ipv4_octets.simps)
  qed
qed simp

lemma octet_chars: "octet_ok a \<Longrightarrow> c \<in> set a \<Longrightarrow> is_digit c" and octet_length: "octet_ok a \<Longrightarrow> length a \<le> 3"
  by (auto simp: octet_ok_def list_all_iff)

text \<open>The addresses meant: four octets with dots between them.\<close>

definition dotted_quad :: "string \<Rightarrow> bool" where
  "dotted_quad text \<longleftrightarrow> (\<exists>a b c d. text = a @ CHR ''.'' # b @ CHR ''.'' # c @ CHR ''.'' # d \<and>
    octet_ok a \<and> octet_ok b \<and> octet_ok c \<and> octet_ok d)"

lemma dotted_quad_facts:
  assumes "dotted_quad text"
  shows "text \<noteq> []" "length text \<le> 15" "list_all (\<lambda>ch. is_digit ch \<or> ch = CHR ''.'') text"
proof -
  from assms obtain a b c d where t: "text = a @ CHR ''.'' # b @ CHR ''.'' # c @ CHR ''.'' # d"
    and q: "octet_ok a" "octet_ok b" "octet_ok c" "octet_ok d" unfolding dotted_quad_def by blast
  have "length a \<le> 3" "length b \<le> 3" "length c \<le> 3" "length d \<le> 3" using q by (simp_all add: octet_length)
  then show "length text \<le> 15" "text \<noteq> []" by (simp_all add: t)
  have "list_all (\<lambda>ch. is_digit ch \<or> ch = CHR ''.'') x" if "octet_ok x" for x
    using octet_chars [OF that] by (simp add: list_all_iff)
  then show "list_all (\<lambda>ch. is_digit ch \<or> ch = CHR ''.'') text" using q by (simp add: t)
qed

lemma dotted_4: "dotted 4 text \<longleftrightarrow> dotted_quad text"
proof -
  have "4 = Suc (Suc (Suc (Suc 0)))" by simp
  then show ?thesis unfolding dotted_quad_def by (simp only: dotted.simps) blast
qed

section \<open>Properties\<close>

text \<open>
  Nothing but a ping of an address reaches the shell: the address check accepts exactly the dotted quads, four
  numbers of one to three digits, each at most 255, separated by dots, and a console is started only with the
  fixed command followed by such a text, which consists of digits and dots only.
\<close>

theorem ping_address_safe:
  "(isValidIpv4 ip \<longleftrightarrow> dotted_quad ip) \<and>
   (openPingConsole shellExecute ip = Inr parameters \<longrightarrow>
      parameters = ''/k ping -t -w 1000 '' @ ip \<and> list_all (\<lambda>ch. is_digit ch \<or> ch = CHR ''.'') ip)"
proof -
  have "isValidIpv4 ip \<longleftrightarrow> dotted_quad ip"
    using dotted_quad_facts(1,2) [of ip] by (auto simp: isValidIpv4_def ipv4_octets_dotted dotted_4)
  then show ?thesis using dotted_quad_facts(3) by (auto simp: openPingConsole_def Let_def split: if_splits)
qed

theorem ping_address_safe_witness:
  "dotted_quad ''10.0.0.255'' \<and> list_all (\<lambda>ch. is_digit ch \<or> ch = CHR ''.'') ''10.0.0.255'' \<and> \<not> dotted_quad ''10.0.0.1&calc''"
proof -
  have v: "isValidIpv4 ''10.0.0.255''" "\<not> isValidIpv4 ''10.0.0.1&calc''" by code_simp+
  then have "openPingConsole (\<lambda>_. True) ''10.0.0.255'' = Inr (''/k ping -t -w 1000 '' @ ''10.0.0.255'')"
    by (simp add: openPingConsole_def Let_def)
  with ping_address_safe [of "''10.0.0.255''" "\<lambda>_. True"] ping_address_safe [of "''10.0.0.1&calc''"] v show ?thesis by blast
qed

end
