(* ===== verification/ClientApp.thy ===== *)
theory ClientApp
  imports TransferService FileDialog PingConsole
begin

text \<open>
  The part of \<^verbatim>\<open>client/src/app/Application.cpp\<close> that connects the window with the worker: the callbacks of the
  buttons and the pump that applies the worker's events to the window's state.  The window itself and Direct3D
  are not modelled; what Windows answers to a dialog or to the start of a shell and whether a file can be
  written are arguments.  Then the steps of the
  whole client, as the two threads, the user and the network interleave them.
\<close>

section \<open>The callbacks of the window\<close>

type_synonym client = "TransferService \<times> UiState"

text \<open>An event of the worker; the empty text logs nothing.\<close>

fun applyEvent :: "string \<Rightarrow> UiState \<Rightarrow> Event \<Rightarrow> UiState" where
  "applyEvent stamp ui (LinkEvent link) = ui\<lparr>ui_link := link\<rparr>"
| "applyEvent stamp ui (SessionEvent session) = ui\<lparr>ui_session := session\<rparr>"
| "applyEvent stamp ui (ClaimEvent available) = ui\<lparr>ui_resultClaimAvailable := available\<rparr>"
| "applyEvent stamp ui (LogEvent level text) = (if text = [] then ui else ui_log stamp level text ui)"

definition pumpWorkerEvents :: "string \<Rightarrow> client \<Rightarrow> client" where
  "pumpWorkerEvents stamp c =
    (case c of (ts, ui) \<Rightarrow> case drainEvents ts of (events, ts') \<Rightarrow> (ts', foldl (applyEvent stamp) ui events))"

definition app_onConnect :: "string \<Rightarrow> client \<Rightarrow> client" where
  "app_onConnect stamp c =
    (case c of (ts, ui) \<Rightarrow>
      case parsePort ui of
        None \<Rightarrow> (ts, ui_log stamp Error ''Port must be a number between 1 and 65535.'' ui)
      | Some port \<Rightarrow>
          let ip = bufferText (ui_serverIp ui) in
          if ip = [] then (ts, ui_log stamp Error ''Server IP is empty.'' ui)
          else (post (ConnectCommand ip port) ts, ui))"

definition app_onDisconnect :: "client \<Rightarrow> client" where
  "app_onDisconnect c = (case c of (ts, ui) \<Rightarrow> (post DisconnectCommand ts, ui\<lparr>ui_session := Idle\<rparr>))"

definition app_onPing :: "string \<Rightarrow> (string \<Rightarrow> bool) \<Rightarrow> client \<Rightarrow> client" where
  "app_onPing stamp shellExecute c =
    (case c of (ts, ui) \<Rightarrow>
      let ip = bufferText (ui_serverIp ui) in
      if ip = [] then (ts, ui_log stamp Warn ''Ping: enter the server IP first.'' ui)
      else case openPingConsole shellExecute ip of
        Inl err \<Rightarrow> (ts, ui_log stamp Warn err ui)
      | Inr _ \<Rightarrow> (ts, ui_log stamp Info (''Ping console opened for '' @ ip @ '' (continuous - close the window to stop)'') ui))"

definition app_onBrowse :: "string \<Rightarrow> DialogAnswer \<Rightarrow> client \<Rightarrow> client" where
  "app_onBrowse stamp da c =
    (case c of (ts, ui) \<Rightarrow>
      case openFileDialog da of
        Inl err \<Rightarrow> (ts, if err \<noteq> [] then ui_log stamp Error err ui else ui)
      | Inr selected \<Rightarrow>
          (ts, ui_log stamp Info (''Selected '' @ sf_name selected @ '' ('' @ to_string (unat (sf_size selected)) @ '' bytes)'')
             (ui\<lparr>ui_filePath := sf_path selected, ui_fileName := sf_name selected, ui_fileSize := sf_size selected\<rparr>)))"

definition app_onSend :: "string \<Rightarrow> bool \<Rightarrow> client \<Rightarrow> client" where
  "app_onSend stamp confirmed c =
    (case c of (ts, ui) \<Rightarrow>
      if ui_filePath ui = [] then (ts, ui_log stamp Error ''Select a file first.'' ui)
      else if \<not> confirmed then (ts, ui_log stamp Info ''Upload cancelled before it started.'' ui)
      else (post (StartUploadCommand (ui_filePath ui) (ui_fileName ui) (ui_fileSize ui)) ts, ui))"

definition app_onCancelUpload :: "client \<Rightarrow> client" where
  "app_onCancelUpload c = (case c of (ts, ui) \<Rightarrow> (post CancelUploadCommand ts, ui))"

definition app_onRequestResult :: "client \<Rightarrow> client" where
  "app_onRequestResult c = (case c of (ts, ui) \<Rightarrow> (post RequestResultCommand ts, ui))"

text \<open>
  Saving the result: the answers are the path chosen, whether the file could be opened, and whether everything
  was written.  The second component is what has been written where, if it was.
\<close>

definition app_onSaveResult :: "string \<Rightarrow> string option \<Rightarrow> bool \<Rightarrow> bool \<Rightarrow> client \<Rightarrow> client \<times> (string \<times> string) option" where
  "app_onSaveResult stamp chosen opened good c =
    (case c of (ts, ui) \<Rightarrow>
      let csv = takeResultCsv ts in
      if csv = [] then ((ts, ui_log stamp Error ''No result to save yet.'' ui), None)
      else case saveFileDialog chosen of
        Inl err \<Rightarrow> ((ts, if err \<noteq> [] then ui_log stamp Error err ui else ui), None)
      | Inr path \<Rightarrow>
          if \<not> opened then ((ts, ui_log stamp Error (''Cannot write to '' @ path) ui), None)
          else if \<not> good then ((ts, ui_log stamp Error (''Failed while writing '' @ path) ui), None)
          else ((ts, ui_log stamp Info (''Saved '' @ to_string (length csv) @ '' bytes to '' @ path) ui), Some (path, csv)))"

section \<open>The steps of the client\<close>

text \<open>libuv reports errors as negative codes.\<close>

definition te_ok :: "ClientEnv \<Rightarrow> bool" where
  "te_ok en \<longleftrightarrow> (\<forall>k. uv_write (te_uv en) k \<le> 0)"

text \<open>
  The conditions under which a command is handled in the runs of \<open>client_reach\<close>.  The window enables Send and Get result only while it shows
  a connection, so a usable socket is a connected one then.  And the reader thread does not move
  between the two calls of \<^verbatim>\<open>handle(StartUploadCommand)\<close>, unless it has nothing left of an earlier upload: the code does
  not exclude that (\<open>stale_chunk\<close> shows what follows).  The
  runs considered end before the program is left.
\<close>

fun gated :: "ClientEnv \<Rightarrow> Command \<Rightarrow> TransferService \<Rightarrow> bool" where
  "gated en (StartUploadCommand path filename sz) ts =
    ((usable ts \<longrightarrow> ts_connected ts) \<and> (te_gap en = 0 \<or> \<not> rd_uploading (ts_reader ts)))"
| "gated en RequestResultCommand ts = (usable ts \<longrightarrow> ts_connected ts)"
| "gated en QuitCommand ts = False"
| "gated en _ ts = True"

fun gated_run :: "(nat \<Rightarrow> ClientEnv) \<Rightarrow> Command list \<Rightarrow> TransferService \<Rightarrow> bool" where
  "gated_run en [] ts = True"
| "gated_run en (c # cs) ts = (gated (en 0) c ts \<and> gated_run (\<lambda>k. en (Suc k)) cs (handle (en 0) c ts))"

text \<open>A write has completed: the socket forgets it and tells the status, and an error once more.\<close>

definition client_onWrite :: "ClientEnv \<Rightarrow> int \<Rightarrow> TransferService \<Rightarrow> TransferService" where
  "client_onWrite en status ts =
    (let ts1 = ts\<lparr>ts_socket := map_option onWriteCb (ts_socket ts)\<rparr>;
         ts2 = client_onSendComplete en status ts1
     in if status \<noteq> 0 then client_onError en status ''write'' ts2 else ts2)"

inductive client_step :: "client \<Rightarrow> client \<Rightarrow> bool" where
  reader: "client_step (ts, ui) (ts\<lparr>ts_reader := reader_step (ts_reader ts)\<rparr>, ui)"
| async: "(\<And>k. te_ok (en k)) \<Longrightarrow> gated_run en (ts_commands ts) (ts\<lparr>ts_commands := [], ts_reader := (ts_reader ts)\<lparr>rd_signalled := False\<rparr>\<rparr>) \<Longrightarrow>
    client_step (ts, ui) (onAsyncCb en ts, ui)"
| connect: "te_ok en \<Longrightarrow> ts_socket ts = Some sk \<Longrightarrow> \<not> ts_connected ts \<Longrightarrow> status < 0 \<or> \<not> sk_closing sk \<Longrightarrow>
    client_step (ts, ui) (onConnect en status ts, ui)"
| timeout: "te_ok en \<Longrightarrow> ts_connectTimer ts = Some tm \<Longrightarrow> timer_elapse ms tm = (tm', True) \<Longrightarrow>
    client_step (ts, ui) (onConnectTimeout en (ts\<lparr>ts_connectTimer := Some tm'\<rparr>), ui)"
| bytes: "te_ok en \<Longrightarrow> ts_socket ts = Some sk \<Longrightarrow> \<not> sk_closing sk \<Longrightarrow> sk_reading sk \<Longrightarrow>
    client_step (ts, ui) (onBytes en data ts, ui)"
| error: "te_ok en \<Longrightarrow> ts_socket ts = Some sk \<Longrightarrow> \<not> sk_closing sk \<Longrightarrow> sk_reading sk \<Longrightarrow> status < 0 \<Longrightarrow>
    client_step (ts, ui) (client_onError en status whence ts, ui)"
| written: "te_ok en \<Longrightarrow> ts_socket ts = Some sk \<Longrightarrow> 0 < sk_pendingWrites sk \<Longrightarrow> status \<le> 0 \<Longrightarrow>
    client_step (ts, ui) (client_onWrite en status ts, ui)"
| closed: "ts_socket ts = Some sk \<Longrightarrow> sk_closing sk \<Longrightarrow> sk_pendingWrites sk = 0 \<Longrightarrow>
    client_step (ts, ui) (client_onClosed ts, ui)"
| pump: "client_step c (pumpWorkerEvents stamp c)"
| drawn: "client_step (ts, ui) (ts, clearLogDirty ui)"
| edit: "canEditAddress ui \<Longrightarrow> length ip = 64 \<Longrightarrow> length port = 16 \<Longrightarrow>
    client_step (ts, ui) (ts, ui\<lparr>ui_serverIp := ip, ui_serverPort := port\<rparr>)"
| press_connect: "canConnect ui \<Longrightarrow> client_step (ts, ui) (app_onConnect stamp (ts, ui))"
| press_disconnect: "canDisconnect ui \<Longrightarrow> client_step (ts, ui) (app_onDisconnect (ts, ui))"
| press_browse: "canBrowse ui \<Longrightarrow> client_step (ts, ui) (app_onBrowse stamp da (ts, ui))"
| press_ping: "client_step (ts, ui) (app_onPing stamp shellExecute (ts, ui))"
| press_save: "canSaveResult ui \<Longrightarrow> client_step (ts, ui) (fst (app_onSaveResult stamp chosen opened good (ts, ui)))"
| press_send: "canSend ui \<Longrightarrow> client_step (ts, ui) (app_onSend stamp confirmed (ts, ui))"
| press_cancel: "canCancelUpload ui \<Longrightarrow> client_step (ts, ui) (app_onCancelUpload (ts, ui))"
| press_request: "canRequestResult ui \<Longrightarrow> client_step (ts, ui) (app_onRequestResult (ts, ui))"

inductive client_reach :: "client \<Rightarrow> bool" where
  start: "client_reach (newTransferService, newUiState)"
| step: "client_reach c \<Longrightarrow> client_step c c' \<Longrightarrow> client_reach c'"

text \<open>
  The runs without these conditions, with the commands handled, each with its environment and the state it met; a run in which all
  of them meet the conditions is one of \<open>client_reach\<close>.
\<close>

fun handled :: "(nat \<Rightarrow> ClientEnv) \<Rightarrow> Command list \<Rightarrow> TransferService \<Rightarrow> (ClientEnv \<times> Command \<times> TransferService) list" where
  "handled en [] ts = []"
| "handled en (c # cs) ts = (en 0, c, ts) # handled (\<lambda>k. en (Suc k)) cs (handle (en 0) c ts)"

inductive client_run :: "(ClientEnv \<times> Command \<times> TransferService) list \<Rightarrow> client \<Rightarrow> bool" where
  start: "client_run [] (newTransferService, newUiState)"
| async: "client_run h (ts, ui) \<Longrightarrow> (\<And>k. te_ok (en k)) \<Longrightarrow>
    client_run (h @ handled en (ts_commands ts) (ts\<lparr>ts_commands := [], ts_reader := (ts_reader ts)\<lparr>rd_signalled := False\<rparr>\<rparr>)) (onAsyncCb en ts, ui)"
| step: "client_run h c \<Longrightarrow> client_step c c' \<Longrightarrow> client_run h c'"

lemma gated_handled: "(\<forall>(e, c, t) \<in> set (handled en cs ts). gated e c t) \<longleftrightarrow> gated_run en cs ts"
  by (induction cs arbitrary: en ts) simp_all

lemma client_run_reach:
  assumes "client_run h c" "\<forall>(e, c, t) \<in> set h. gated e c t"
  shows "client_reach c"
  using assms
proof (induction rule: client_run.induct)
  case (async h ts ui en)
  then have "gated_run en (ts_commands ts) (ts\<lparr>ts_commands := [], ts_reader := (ts_reader ts)\<lparr>rd_signalled := False\<rparr>\<rparr>)"
    by (simp add: gated_handled [symmetric])
  moreover have "client_reach (ts, ui)" using async by simp
  ultimately show ?case using async(2) by (blast intro: client_reach.step client_step.async)
qed (auto intro: client_reach.intros)

lemma reach_client_run: "client_reach c \<Longrightarrow> client_run [] c"
  by (induction rule: client_reach.induct) (auto intro: client_run.intros)

section \<open>What the window shows once it has caught up\<close>

fun showEvent :: "LinkState \<times> ClientSessionState \<Rightarrow> Event \<Rightarrow> LinkState \<times> ClientSessionState" where
  "showEvent v (LinkEvent link) = (link, snd v)"
| "showEvent v (SessionEvent session) = (fst v, session)"
| "showEvent v _ = v"

definition shown :: "client \<Rightarrow> LinkState \<times> ClientSessionState" where
  "shown c = (case c of (ts, ui) \<Rightarrow> foldl showEvent (ui_link ui, ui_session ui) (ts_events ts))"

lemma applyEvent_shown: "(ui_link (applyEvent stamp ui e), ui_session (applyEvent stamp ui e)) = showEvent (ui_link ui, ui_session ui) e"
  by (cases e) simp_all

lemma pump_shown: "shown (pumpWorkerEvents stamp c) = shown c"
proof -
  obtain ts ui where c: "c = (ts, ui)" by (cases c)
  have "(ui_link (foldl (applyEvent stamp) ui es), ui_session (foldl (applyEvent stamp) ui es)) =
      foldl showEvent (ui_link ui, ui_session ui) es" for es
    by (induction es arbitrary: ui) (simp_all add: applyEvent_shown)
  then show ?thesis by (simp add: c pumpWorkerEvents_def drainEvents_def shown_def)
qed

end
