(* ===== verification/ClientSafety.thy ===== *)
theory ClientSafety
  imports ClientApp
begin

text \<open>
  Invariants of the client and the properties that follow: the bytes it writes are a well-formed upload of the
  file, the result it hands out carries the checksum the server announced, what it has received of a result
  is where it resumes, and the window never ends up with every button locked.
\<close>

section \<open>Invariants\<close>

definition active :: "TransferService \<Rightarrow> bool" where
  "active ts \<longleftrightarrow> ts_uploading ts \<or> ts_expecting ts \<noteq> ExpNothing"

text \<open>A session lives only on an established connection, and the window knows both.\<close>

definition conn_inv :: "client \<Rightarrow> bool" where
  "conn_inv c \<longleftrightarrow> (case c of (ts, ui) \<Rightarrow>
    (\<forall>sk. ts_socket ts = Some sk \<longrightarrow> sk_valid sk) \<and>
    (active ts \<longrightarrow> usable ts \<and> ts_connected ts) \<and>
    (usable ts \<and> ts_connected ts \<longrightarrow> fst (shown c) = Connected) \<and>
    (ts_socket ts = None \<longrightarrow> fst (shown c) = Disconnected) \<and>
    (isBusy (snd (shown c)) \<longrightarrow> active ts) \<and>
    (\<forall>tm. ts_connectTimer ts = Some tm \<and> timer_isActive tm \<longrightarrow> \<not> ts_connected ts))"

text \<open>The part of the result received and the claim to it.\<close>

definition recv_inv :: "TransferService \<Rightarrow> bool" where
  "recv_inv ts \<longleftrightarrow>
    (if ts_hasClaim ts then cl_received (ts_claim ts) = of_nat (length (ts_csv ts)) else ts_csv ts = []) \<and>
    length (ts_csv ts) \<le> unat kMaxCsvSize \<and>
    (ts_uploading ts \<longrightarrow> ts_expecting ts = ExpNothing \<and> \<not> ts_hasClaim ts) \<and>
    (ts_expecting ts = ExpAck \<longrightarrow> \<not> ts_hasClaim ts) \<and>
    (ts_expecting ts = ExpResultHeader \<longrightarrow> ts_hasClaim ts \<and> ts_csv ts = []) \<and>
    (ts_expecting ts = ExpResumeReply \<longrightarrow> ts_hasClaim ts) \<and>
    (ts_expecting ts = ExpCsvPayload \<longrightarrow> ts_hasClaim ts \<and> length (ts_csv ts) < unat (ts_csvSize ts) \<and> ts_csvSize ts \<le> kMaxCsvSize) \<and>
    (ts_resultCsv ts \<noteq> [] \<longrightarrow> \<not> ts_hasClaim ts \<and> ts_expecting ts = ExpNothing \<and> \<not> ts_uploading ts \<and>
      crc32 0 (ts_resultCsv ts) = ts_csvExpectedCrc ts \<and> length (ts_resultCsv ts) = unat (ts_csvSize ts))"

text \<open>What has been written since the upload began.\<close>

definition stream :: "TransferService \<Rightarrow> string list" where
  "stream ts = (case ts_socket ts of None \<Rightarrow> [] | Some sk \<Rightarrow> drop (ts_firstWrite ts) (sk_written sk))"

definition upload_header :: "TransferService \<Rightarrow> string" where
  "upload_header ts = encodeUploadHeader \<lparr>uh_fileSize = ts_uploadTotal ts, uh_filename = ts_uploadFilename ts\<rparr>"

definition streaming :: "TransferService \<Rightarrow> bool" where
  "streaming ts \<longleftrightarrow> (\<exists>chunks. stream ts = upload_header ts # chunks \<and>
    reading (ts_source ts) (unat (ts_uploadTotal ts)) (concat chunks) (ts_reader ts) \<and>
    ts_uploadSent ts = of_nat (length (concat chunks)) \<and> ts_uploadCrc ts = crc32 0 (concat chunks) \<and> \<not> ts_trailerSent ts)"

definition payload :: "TransferService \<Rightarrow> string" where
  "payload ts = take (unat (ts_uploadTotal ts)) (ts_source ts)"

definition sent_all :: "TransferService \<Rightarrow> bool" where
  "sent_all ts \<longleftrightarrow> length (payload ts) = unat (ts_uploadTotal ts) \<and> ts_uploadCrc ts = crc32 0 (payload ts)"

definition up_inv :: "TransferService \<Rightarrow> bool" where
  "up_inv ts \<longleftrightarrow> reader_ok (ts_reader ts) \<and>
    (ts_uploading ts \<longrightarrow> streaming ts) \<and>
    (ts_expecting ts = ExpAck \<longrightarrow> sent_all ts \<and>
      (\<exists>chunks. stream ts = upload_header ts # chunks @ [encodeUploadTrailer \<lparr>ut_crc32 = ts_uploadCrc ts\<rparr>] \<and> concat chunks = payload ts)) \<and>
    (ts_hasClaim ts \<longrightarrow> sent_all ts \<and> cl_filename (ts_claim ts) = ts_uploadFilename ts \<and>
      cl_fileSize (ts_claim ts) = ts_uploadTotal ts \<and> cl_crc32 (ts_claim ts) = ts_uploadCrc ts)"

definition client_inv :: "client \<Rightarrow> bool" where
  "client_inv c \<longleftrightarrow> conn_inv c \<and> recv_inv (fst c) \<and> up_inv (fst c)"

section \<open>The building blocks\<close>

definition shut :: "ClientEnv \<Rightarrow> TcpSocket \<Rightarrow> TcpSocket" where
  "shut en sk = (if sk_closing sk then sk else sock_close (te_uv en) sk)"

lemma closeSocket_eq: "closeSocket en ts = ts\<lparr>ts_socket := map_option (shut en) (ts_socket ts)\<rparr>"
  by (cases ts) (simp add: closeSocket_def shut_def split: option.split)

lemma shut_simps [simp]: "sk_valid (shut en sk) = sk_valid sk" "sk_written (shut en sk) = sk_written sk"
  "sk_valid sk \<Longrightarrow> sk_closing (shut en sk)"
  by (simp_all add: shut_def)

lemma shut_not_usable: "(\<forall>sk. s = Some sk \<longrightarrow> sk_valid sk) \<Longrightarrow>
    (case map_option (shut en) s of None \<Rightarrow> False | Some sk \<Rightarrow> \<not> sk_closing sk) = False"
  by (cases s) simp_all

lemmas push_defs = pushLog_def pushLink_def pushSession_def pushEvent_def

lemma shown_eq: "shown (ts, ui) = foldl showEvent (ui_link ui, ui_session ui) (ts_events ts)"
  by (simp add: shown_def)

lemma shown_events: "ts_events ts' = ts_events ts \<Longrightarrow> shown (ts', ui) = shown (ts, ui)"
  by (simp add: shown_eq)

text \<open>What an end of the session needs of the state before.\<close>

definition sock_ok :: "client \<Rightarrow> bool" where
  "sock_ok c \<longleftrightarrow> (case c of (ts, ui) \<Rightarrow>
    (\<forall>sk. ts_socket ts = Some sk \<longrightarrow> sk_valid sk) \<and> (ts_socket ts = None \<longrightarrow> fst (shown c) = Disconnected) \<and>
    (\<forall>tm. ts_connectTimer ts = Some tm \<and> timer_isActive tm \<longrightarrow> \<not> ts_connected ts))"

definition recv_base :: "TransferService \<Rightarrow> bool" where
  "recv_base ts \<longleftrightarrow> length (ts_csv ts) \<le> unat kMaxCsvSize \<and>
    (ts_resultCsv ts \<noteq> [] \<longrightarrow> \<not> ts_hasClaim ts \<and>
      crc32 0 (ts_resultCsv ts) = ts_csvExpectedCrc ts \<and> length (ts_resultCsv ts) = unat (ts_csvSize ts))"

definition claim_ok :: "TransferService \<Rightarrow> bool" where
  "claim_ok ts \<longleftrightarrow> reader_ok (ts_reader ts) \<and>
    (ts_hasClaim ts \<longrightarrow> sent_all ts \<and> cl_filename (ts_claim ts) = ts_uploadFilename ts \<and>
      cl_fileSize (ts_claim ts) = ts_uploadTotal ts \<and> cl_crc32 (ts_claim ts) = ts_uploadCrc ts)"

definition end_ok :: "client \<Rightarrow> bool" where
  "end_ok c \<longleftrightarrow> sock_ok c \<and> recv_base (fst c) \<and> claim_ok (fst c)"

lemma end_ok_inv: "client_inv c \<Longrightarrow> end_ok c"
  by (cases c) (auto simp: client_inv_def end_ok_def conn_inv_def sock_ok_def recv_inv_def recv_base_def up_inv_def claim_ok_def)

lemma reader_ok_abort [simp]: "reader_ok (reader_abortUpload rd) = reader_ok rd"
proof -
  have "reader_ok (rd\<lparr>rd_abort := True\<rparr>) = reader_ok rd" by (simp add: reader_ok_def slot_ok_def split: ReaderPc.splits)
  then show ?thesis by (simp add: reader_abortUpload_def)
qed

lemma failSession_inv:
  assumes "end_ok (ts, ui)"
  shows "client_inv (failSession en reason level ts, ui)"
proof -
  have s: "sock_ok (ts, ui)" and r: "recv_base ts" and c: "claim_ok ts" using assms by (simp_all add: end_ok_def)
  have d: "reader_ok (drain_ring_of (reader_abortUpload (ts_reader ts)))"
    using c drain_empties [of "reader_abortUpload (ts_reader ts)"] by (simp add: claim_ok_def)
  have "conn_inv (failSession en reason level ts, ui)"
    using s shut_not_usable [of "ts_socket ts" en]
    by (auto simp: failSession_def conn_inv_def sock_ok_def Let_def push_defs closeSocket_eq shown_eq active_def usable_def drainRing_def)
  moreover have "recv_inv (failSession en reason level ts)"
    using r by (auto simp: failSession_def recv_inv_def recv_base_def Let_def push_defs closeSocket_eq drainRing_def)
  moreover have "up_inv (failSession en reason level ts)"
    using c d by (simp add: failSession_def up_inv_def claim_ok_def Let_def push_defs closeSocket_eq drainRing_def sent_all_def payload_def)
  ultimately show ?thesis by (simp add: client_inv_def)
qed

lemma abortUpload_inv:
  assumes "end_ok (ts, ui)" "recv_inv ts" "ts_expecting ts = ExpNothing"
  shows "client_inv (abortUpload en reason level ts, ui)"
proof -
  have s: "sock_ok (ts, ui)" and c: "claim_ok ts" using assms(1) by (simp_all add: end_ok_def)
  have d: "reader_ok (drain_ring_of (reader_abortUpload (ts_reader ts)))"
    using c drain_empties [of "reader_abortUpload (ts_reader ts)"] by (simp add: claim_ok_def)
  have "conn_inv (abortUpload en reason level ts, ui)"
    using s assms(3) shut_not_usable [of "ts_socket ts" en]
    by (auto simp: abortUpload_def conn_inv_def sock_ok_def push_defs closeSocket_eq shown_eq active_def usable_def drainRing_def)
  moreover have "recv_inv (abortUpload en reason level ts)"
    using assms(2) by (auto simp: abortUpload_def recv_inv_def push_defs closeSocket_eq drainRing_def)
  moreover have "up_inv (abortUpload en reason level ts)"
    using c d assms(3) by (simp add: abortUpload_def up_inv_def claim_ok_def push_defs closeSocket_eq drainRing_def sent_all_def payload_def)
  ultimately show ?thesis by (simp add: client_inv_def)
qed

lemma sendOn_cases [consumes 2, case_names sent failed]:
  assumes "te_ok en" "ts_socket ts = Some sk"
  obtains (sent) "sendOn en bytes ts = (0, ts\<lparr>ts_socket := Some (sk\<lparr>sk_written := sk_written sk @ [bytes],
      sk_pendingWrites := sk_pendingWrites sk + 1\<rparr>)\<rparr>)" "sk_valid sk" "\<not> sk_closing sk"
  | (failed) rc where "sendOn en bytes ts = (rc, ts)" "rc < 0"
proof (cases rule: sock_send_cases [of "te_uv en" bytes sk])
  case ok
  then show thesis using assms(2) by (intro sent) (simp_all add: sendOn_def)
next
  case (fail rc)
  have "ts\<lparr>ts_socket := Some sk\<rparr> = ts" using assms(2) by (cases ts) simp
  moreover have "rc < 0"
    using fail assms(1) by (auto simp: sock_send_def kUvEinval_def te_ok_def Let_def less_le split: if_splits)
  ultimately show thesis using fail assms(2) by (intro failed [of rc]) (simp_all add: sendOn_def)
qed

text \<open>The socket with one more write, and the rest of the state the same for the window.\<close>

definition wrote :: "string \<Rightarrow> TcpSocket \<Rightarrow> TcpSocket" where
  "wrote bytes sk = sk\<lparr>sk_written := sk_written sk @ [bytes], sk_pendingWrites := sk_pendingWrites sk + 1\<rparr>"

lemma wrote_simps [simp]: "sk_valid (wrote b sk) = sk_valid sk" "sk_closing (wrote b sk) = sk_closing sk"
  "sk_written (wrote b sk) = sk_written sk @ [b]"
  by (simp_all add: wrote_def)

lemma conn_inv_cong:
  assumes "conn_inv (ts, ui)" "ts_events ts' = ts_events ts" "active ts' = active ts" "ts_connected ts' = ts_connected ts"
    "usable ts' = usable ts" "ts_socket ts' = None \<longleftrightarrow> ts_socket ts = None"
    "\<forall>sk. ts_socket ts' = Some sk \<longrightarrow> sk_valid sk" "ts_connectTimer ts' = ts_connectTimer ts"
  shows "conn_inv (ts', ui)"
  using assms shown_events [of ts' ts ui] by (simp add: conn_inv_def)

lemma stream_snoc: "stream ts = h # cs \<Longrightarrow> ts_socket ts = Some sk \<Longrightarrow> ts_firstWrite ts' = ts_firstWrite ts \<Longrightarrow>
    ts_socket ts' = Some (wrote b sk) \<Longrightarrow> stream ts' = h # cs @ [b]"
  by (cases "ts_firstWrite ts < length (sk_written sk)") (auto simp: stream_def)

lemma pump_step:
  assumes inv: "client_inv (ts, ui)" and up: "ts_uploading ts" and sk: "ts_socket ts = Some sk" "\<not> sk_closing sk"
    and pk: "tryPeek (rd_ring (ts_reader ts)) = Some chunk"
  shows "client_inv (ts\<lparr>ts_uploadCrc := crc32 (ts_uploadCrc ts) chunk, ts_socket := Some (wrote chunk sk),
    ts_inFlightWrites := n, ts_reader := notifySpaceAvailable (releaseSlot (ts_reader ts)), ts_uploadSent := ts_uploadSent ts + of_nat (length chunk)\<rparr>, ui)"
    (is "client_inv (?ts, ui)")
proof -
  from inv have c: "conn_inv (ts, ui)" and r: "recv_inv ts" and u: "up_inv ts" by (simp_all add: client_inv_def)
  then obtain chunks where st: "stream ts = upload_header ts # chunks"
    "reading (ts_source ts) (unat (ts_uploadTotal ts)) (concat chunks) (ts_reader ts)"
    "ts_uploadSent ts = of_nat (length (concat chunks))" "ts_uploadCrc ts = crc32 0 (concat chunks)" "\<not> ts_trailerSent ts"
    and ro: "reader_ok (ts_reader ts)"
    using up by (auto simp: up_inv_def streaming_def)
  have ex: "ts_expecting ts = ExpNothing" "\<not> ts_hasClaim ts" using r up by (simp_all add: recv_inv_def)
  have "stream ?ts = upload_header ?ts # chunks @ [chunk]"
    using stream_snoc [OF st(1) sk(1), of ?ts chunk] by (simp add: upload_header_def)
  moreover have "reading (ts_source ts) (unat (ts_uploadTotal ts)) (concat chunks @ chunk) (releaseSlot (ts_reader ts))"
    by (rule reading_release [OF st(2) ro pk])
  ultimately have "streaming ?ts"
    using st(3-5) unfolding streaming_def by (intro exI [of _ "chunks @ [chunk]"]) (simp add: crc32_append)
  then have "up_inv ?ts" using reader_ok_release [OF ro pk] ex by (simp add: up_inv_def)
  moreover have "recv_inv ?ts" using r by (simp add: recv_inv_def)
  moreover have "conn_inv (?ts, ui)"
    using c sk by (intro conn_inv_cong [OF c]) (auto simp: active_def usable_def conn_inv_def)
  ultimately show ?thesis by (simp add: client_inv_def)
qed

lemma pumpLoop_inv:
  assumes "te_ok en" "client_inv (ts, ui)" "ts_uploading ts" "usable ts" "pumpLoop en ts = (ab, ts')"
  shows "client_inv (ts', ui) \<and> (\<not> ab \<longrightarrow> ts_uploading ts' \<and> usable ts')"
  using assms
proof (induction en ts arbitrary: ab ts' rule: pumpLoop.induct)
  case (1 en ts)
  obtain sk where sk: "ts_socket ts = Some sk" "\<not> sk_closing sk" using 1(5) by (auto simp: usable_def split: option.splits)
  show ?case
  proof (cases "ts_inFlightWrites ts < kMaxInFlightWrites \<and> tryPeek (rd_ring (ts_reader ts)) \<noteq> None")
    case False
    then show ?thesis using 1(3-6) by (auto simp: pumpLoop.simps [of en ts] split: if_splits)
  next
    case True
    then obtain chunk where pk: "tryPeek (rd_ring (ts_reader ts)) = Some chunk" and fl: "ts_inFlightWrites ts < kMaxInFlightWrites"
      by auto
    let ?ts0 = "ts\<lparr>ts_uploadCrc := crc32 (ts_uploadCrc ts) chunk\<rparr>"
    have sk0: "ts_socket ?ts0 = Some sk" using sk by simp
    from 1(2) sk0 show ?thesis
    proof (cases rule: sendOn_cases [where bytes = chunk])
      case sent
      note s = sent(1) [folded wrote_def]
      note inv = pump_step [OF 1(3,4) sk pk, of "Suc (ts_inFlightWrites ts)"]
      from 1(1) [OF _ pk s [symmetric] refl] fl inv 1(2,4,6) sk show ?thesis
        by (simp add: pumpLoop.simps [of en ts] pk s Let_def usable_def)
    next
      case (failed rc)
      let ?ts2 = "?ts0\<lparr>ts_inFlightWrites := Suc (ts_inFlightWrites ts), ts_reader := notifySpaceAvailable (releaseSlot (ts_reader ts))\<rparr>"
      have i: "conn_inv (ts, ui)" "recv_inv ts" "up_inv ts" using 1(3) by (simp_all add: client_inv_def)
      have ex: "ts_expecting ts = ExpNothing" "\<not> ts_hasClaim ts" using i(2) 1(4) by (simp_all add: recv_inv_def)
      have "end_ok (?ts2, ui)"
        using i ex reader_ok_release [OF _ pk] sk
        by (auto simp: end_ok_def sock_ok_def conn_inv_def recv_inv_def recv_base_def up_inv_def claim_ok_def)
      moreover have "recv_inv ?ts2" using i(2) by (simp add: recv_inv_def)
      ultimately have a: "client_inv (abortUpload en reason level ?ts2, ui)" for reason level
        by (rule abortUpload_inv) (simp add: ex)
      have "pumpLoop en ts = (True, abortUpload en (''Send failed: '' @ uv_describe (te_uv en) rc) Error ?ts2)"
        using fl failed by (subst pumpLoop.simps) (simp add: pk Let_def)
      with 1(6) a show ?thesis by auto
    qed
  qed
qed

lemma finishUpload_inv:
  assumes en: "te_ok en" and inv: "client_inv (ts, ui)" and up: "ts_uploading ts" and us: "usable ts"
    and rc: "rd_readComplete (ts_reader ts)" "ring_empty (rd_ring (ts_reader ts))"
  shows "client_inv (finishUpload en ts, ui)"
proof -
  obtain sk where sk: "ts_socket ts = Some sk" "\<not> sk_closing sk" using us by (auto simp: usable_def split: option.splits)
  from inv have c: "conn_inv (ts, ui)" and r: "recv_inv ts" and u: "up_inv ts" by (simp_all add: client_inv_def)
  then obtain chunks where st: "stream ts = upload_header ts # chunks"
    "reading (ts_source ts) (unat (ts_uploadTotal ts)) (concat chunks) (ts_reader ts)"
    "ts_uploadCrc ts = crc32 0 (concat chunks)" and ro: "reader_ok (ts_reader ts)"
    using up by (auto simp: up_inv_def streaming_def)
  note all = reading_complete [OF st(2) ro rc]
  have ex: "ts_expecting ts = ExpNothing" "\<not> ts_hasClaim ts" "ts_resultCsv ts = []" "ts_csv ts = []"
    using r up by (auto simp: recv_inv_def)
  let ?ts0 = "ts\<lparr>ts_trailerSent := True\<rparr>"
  define tr where "tr = encodeUploadTrailer \<lparr>ut_crc32 = ts_uploadCrc ts\<rparr>"
  have sk0: "ts_socket ?ts0 = Some sk" using sk by simp
  from en sk0 show ?thesis
  proof (cases rule: sendOn_cases [where bytes = tr])
    case sent
    define ts' where "ts' = finishUpload en ts"
    have s: "sendOn en tr ?ts0 = (0, ?ts0\<lparr>ts_socket := Some (wrote tr sk)\<rparr>)" using sent(1) by (simp add: wrote_def)
    have f: "ts_uploading ts' = False" "ts_expecting ts' = ExpAck" "ts_socket ts' = Some (wrote tr sk)" "ts_hasClaim ts' = False"
      "ts_csv ts' = []" "ts_resultCsv ts' = []" "ts_reader ts' = ts_reader ts" "ts_uploadCrc ts' = ts_uploadCrc ts"
      "ts_firstWrite ts' = ts_firstWrite ts" "upload_header ts' = upload_header ts" "payload ts' = payload ts"
      "ts_uploadTotal ts' = ts_uploadTotal ts" "ts_connectTimer ts' = ts_connectTimer ts" "ts_connected ts' = ts_connected ts" "shown (ts', ui) = (fst (shown (ts, ui)), WaitAck)"
      using s ex by (simp_all add: ts'_def finishUpload_def Let_def push_defs shown_eq upload_header_def payload_def flip: tr_def)
    have "stream ts' = upload_header ts # chunks @ [tr]" by (rule stream_snoc [OF st(1) sk(1) f(9,3)])
    then have "up_inv ts'"
      using f ro all st(3) by (auto simp: up_inv_def tr_def sent_all_def payload_def)
    moreover have "recv_inv ts'" using f by (simp add: recv_inv_def)
    moreover have "conn_inv (ts', ui)" using c f up sk by (auto simp: conn_inv_def active_def usable_def)
    ultimately show ?thesis by (simp add: client_inv_def ts'_def)
  next
    case (failed rc)
    have "end_ok (?ts0, ui)"
      using end_ok_inv [OF inv]
      by (simp add: end_ok_def sock_ok_def recv_base_def claim_ok_def shown_eq sent_all_def payload_def)
    moreover have "recv_inv ?ts0" using r by (simp add: recv_inv_def)
    ultimately have "client_inv (abortUpload en reason level ?ts0, ui)" for reason level
      by (rule abortUpload_inv) (simp add: ex)
    then show ?thesis using failed by (simp add: finishUpload_def flip: tr_def)
  qed
qed

lemma pumpUpload_inv:
  assumes "te_ok en" "client_inv (ts, ui)"
  shows "client_inv (pumpUpload en ts, ui)"
proof (cases "ts_uploading ts \<and> usable ts")
  case False
  then show ?thesis using assms(2) by (auto simp: pumpUpload_def)
next
  case True
  show ?thesis
  proof (cases "rd_failed (ts_reader ts)")
    case True
    let ?ts = "ts\<lparr>ts_reader := (await_mutex (ts_reader ts))\<lparr>rd_error := []\<rparr>\<rparr>"
    have i: "conn_inv (ts, ui)" "recv_inv ts" "up_inv ts" using assms(2) by (simp_all add: client_inv_def)
    have "reader_ok (rd\<lparr>rd_error := []\<rparr>) = reader_ok rd" for rd by (simp add: reader_ok_def slot_ok_def split: ReaderPc.splits)
    then have "reader_ok ((await_mutex (ts_reader ts))\<lparr>rd_error := []\<rparr>)" using i(3) by (simp add: up_inv_def)
    then have "end_ok (?ts, ui)"
      using end_ok_inv [OF assms(2)]
      by (simp add: end_ok_def sock_ok_def recv_base_def claim_ok_def shown_eq sent_all_def payload_def)
    moreover have "recv_inv ?ts" "ts_expecting ?ts = ExpNothing"
      using i(2) \<open>ts_uploading ts \<and> usable ts\<close> by (simp_all add: recv_inv_def)
    ultimately have "client_inv (abortUpload en reason level ?ts, ui)" for reason level by (rule abortUpload_inv)
    then show ?thesis using True \<open>ts_uploading ts \<and> usable ts\<close> by (simp add: pumpUpload_def takeError_def)
  next
    case False
    obtain ab ts1 where p: "pumpLoop en ts = (ab, ts1)" by fastforce
    from pumpLoop_inv [OF assms _ _ p] True have "client_inv (ts1, ui)" "\<not> ab \<longrightarrow> ts_uploading ts1 \<and> usable ts1" by simp_all
    then show ?thesis
      using True False p finishUpload_inv [OF assms(1), of ts1 ui] by (simp add: pumpUpload_def)
  qed
qed

section \<open>Receiving\<close>

text \<open>The connection of a running session.\<close>

definition on_line :: "client \<Rightarrow> bool" where
  "on_line c \<longleftrightarrow> (case c of (ts, ui) \<Rightarrow> sock_ok c \<and> usable ts \<and> ts_connected ts \<and> fst (shown c) = Connected)"

lemma on_line_inv: "client_inv (ts, ui) \<Longrightarrow> active ts \<Longrightarrow> on_line (ts, ui)"
  by (auto simp: client_inv_def conn_inv_def on_line_def sock_ok_def)

lemma conn_inv_on_line: "on_line (ts, ui) \<Longrightarrow> (isBusy (snd (shown (ts, ui))) \<longrightarrow> active ts) \<Longrightarrow> conn_inv (ts, ui)"
  by (auto simp: on_line_def conn_inv_def sock_ok_def usable_def split: option.splits)

lemma on_line_cong:
  "on_line (ts, ui) \<Longrightarrow> ts_socket ts' = ts_socket ts \<Longrightarrow> ts_connected ts' = ts_connected ts \<Longrightarrow>
    ts_connectTimer ts' = ts_connectTimer ts \<Longrightarrow> fst (shown (ts', ui)) = fst (shown (ts, ui)) \<Longrightarrow> on_line (ts', ui)"
  by (auto simp: on_line_def sock_ok_def usable_def split: option.splits)

lemma on_line_wrote:
  "on_line (ts, ui) \<Longrightarrow> ts_socket ts = Some sk \<Longrightarrow> on_line (ts\<lparr>ts_socket := Some (wrote b sk)\<rparr>, ui)"
  by (auto simp: on_line_def sock_ok_def usable_def shown_eq)

lemma on_line_socket: "on_line (ts, ui) \<Longrightarrow> \<exists>sk. ts_socket ts = Some sk \<and> \<not> sk_closing sk"
  by (auto simp: on_line_def usable_def split: option.splits)

lemma client_invI: "conn_inv (ts, ui) \<Longrightarrow> recv_inv ts \<Longrightarrow> up_inv ts \<Longrightarrow> client_inv (ts, ui)"
  by (simp add: client_inv_def)

lemma stream_cong: "ts_socket ts' = ts_socket ts \<Longrightarrow> ts_firstWrite ts' = ts_firstWrite ts \<Longrightarrow> stream ts' = stream ts"
  by (simp add: stream_def split: option.splits)

lemma client_inv_framer [simp]: "client_inv (ts\<lparr>ts_framer := f\<rparr>, ui) = client_inv (ts, ui)"
  using stream_cong [of "ts\<lparr>ts_framer := f\<rparr>" ts]
  by (simp add: client_inv_def conn_inv_def shown_eq active_def usable_def recv_inv_def up_inv_def streaming_def
      upload_header_def sent_all_def payload_def)

lemma finishDownload_inv:
  assumes en: "te_ok en" and e: "end_ok (ts, ui)" and o: "on_line (ts, ui)" and up: "\<not> ts_uploading ts"
    and cl: "ts_hasClaim ts" and full: "length (ts_csv ts) = unat (ts_csvSize ts)"
  shows "client_inv (finishDownload en ts, ui)"
proof (cases "crc32 0 (ts_csv ts) = ts_csvExpectedCrc ts")
  case False
  let ?ts = "ts\<lparr>ts_csv := [], ts_claim := (ts_claim ts)\<lparr>cl_received := 0\<rparr>\<rparr>"
  have "end_ok (?ts, ui)"
    using e cl by (auto simp: end_ok_def sock_ok_def shown_eq recv_base_def claim_ok_def sent_all_def payload_def)
  then show ?thesis using False cl failSession_inv [of ?ts ui en] by (simp add: finishDownload_def)
next
  case True
  let ?ts1 = "dropResultClaim (ts\<lparr>ts_resultCsv := ts_csv ts, ts_csv := [], ts_expecting := ExpNothing\<rparr>)"
  obtain sk where sk: "ts_socket ts = Some sk" "\<not> sk_closing sk" using on_line_socket [OF o] by blast
  have sk1: "ts_socket ?ts1 = Some sk" using sk by (simp add: dropResultClaim_def push_defs)
  have o1: "on_line (?ts1, ui)" by (rule on_line_cong [OF o]) (simp_all add: dropResultClaim_def push_defs shown_eq)
  have e1: "end_ok (?ts1, ui)"
    using e True full by (auto simp: end_ok_def sock_ok_def shown_eq recv_base_def claim_ok_def dropResultClaim_def push_defs)
  from en sk1 show ?thesis
  proof (cases rule: sendOn_cases [where bytes = encodeDownloadDone])
    case sent
    define ts' where "ts' = finishDownload en ts"
    have s: "sendOn en encodeDownloadDone ?ts1 = (0, ?ts1\<lparr>ts_socket := Some (wrote encodeDownloadDone sk)\<rparr>)"
      using sent(1) by (simp add: wrote_def)
    have f: "ts_uploading ts' = False" "ts_expecting ts' = ExpNothing" "ts_socket ts' = Some (wrote encodeDownloadDone sk)"
      "ts_hasClaim ts' = False" "ts_csv ts' = []" "ts_resultCsv ts' = ts_csv ts" "ts_reader ts' = ts_reader ts"
      "ts_csvExpectedCrc ts' = ts_csvExpectedCrc ts" "ts_csvSize ts' = ts_csvSize ts"
      "ts_connected ts' = ts_connected ts" "ts_connectTimer ts' = ts_connectTimer ts" "shown (ts', ui) = (fst (shown (ts, ui)), Done)"
      using s True up by (simp_all add: ts'_def finishDownload_def Let_def push_defs shown_eq dropResultClaim_def)
    have "on_line (ts', ui)"
      using f shown_events [of "ts\<lparr>ts_socket := Some (wrote encodeDownloadDone sk)\<rparr>" ts ui]
      by (intro on_line_cong [OF on_line_wrote [OF o sk(1), of encodeDownloadDone]]) simp_all
    then have "conn_inv (ts', ui)" by (rule conn_inv_on_line) (simp add: f)
    moreover have "recv_inv ts'" using f True full by (simp add: recv_inv_def)
    moreover have "up_inv ts'" using f e by (simp add: up_inv_def end_ok_def claim_ok_def)
    ultimately show ?thesis by (simp add: client_inv_def ts'_def)
  next
    case (failed rc)
    then show ?thesis using True failSession_inv [OF e1] by (simp add: finishDownload_def Let_def)
  qed
qed

definition receiving :: "ResultHeader \<Rightarrow> string \<Rightarrow> TransferService \<Rightarrow> TransferService" where
  "receiving header t ts = pushSession ReceivingResult (pushLog Info t
    (ts\<lparr>ts_csvSize := rh_csvSize header, ts_csvExpectedCrc := rh_crc32 header, ts_expecting := ExpCsvPayload\<rparr>))"

lemma beginCsvReceive_ok:
  assumes "\<not> (kMaxCsvSize < rh_csvSize header \<or> resuming \<and> unat (rh_csvSize header) < length (ts_csv ts))"
    and "\<not> resuming \<longrightarrow> ts_csv ts = []"
  shows "\<exists>t. beginCsvReceive en header resuming ts = (True, let ts4 = receiving header t ts in
    if length (ts_csv ts4) = unat (ts_csvSize ts4) then finishDownload en ts4 else ts4)"
proof -
  define ts1 where "ts1 = ts\<lparr>ts_csvSize := rh_csvSize header, ts_csvExpectedCrc := rh_crc32 header\<rparr>"
  have "(if resuming then ts1 else ts1\<lparr>ts_csv := []\<rparr>) = ts1"
    using assms(2) by (cases ts) (simp add: ts1_def)
  then show ?thesis
    using assms(1) unfolding beginCsvReceive_def receiving_def Let_def ts1_def by (simp only: de_Morgan_disj if_False) auto
qed

lemma beginCsvReceive_inv:
  assumes en: "te_ok en" and inv: "client_inv (ts, ui)" and cl: "ts_hasClaim ts" and act: "active ts"
    and nr: "\<not> resuming \<longrightarrow> ts_csv ts = []" and b: "beginCsvReceive en header resuming ts = (acc, ts')"
  shows "client_inv (ts', ui)"
proof (cases "kMaxCsvSize < rh_csvSize header \<or> resuming \<and> unat (rh_csvSize header) < length (ts_csv ts)")
  case True
  then show ?thesis
    using b failSession_inv [OF end_ok_inv [OF inv]] by (auto simp: beginCsvReceive_def split: if_splits)
next
  case False
  obtain t where t: "(acc, ts') = (True, let ts4 = receiving header t ts in
      if length (ts_csv ts4) = unat (ts_csvSize ts4) then finishDownload en ts4 else ts4)"
    using beginCsvReceive_ok [OF False nr, of en] b by metis
  define ts4 where "ts4 = receiving header t ts"
  have ts': "ts' = (if length (ts_csv ts) = unat (rh_csvSize header) then finishDownload en ts4 else ts4)"
    using t by (simp add: ts4_def Let_def receiving_def push_defs)
  have up: "\<not> ts_uploading ts" using inv cl by (simp add: client_inv_def recv_inv_def)
  have r: "recv_inv ts" "up_inv ts" using inv by (simp_all add: client_inv_def)
  have f: "ts_expecting ts4 = ExpCsvPayload" "ts_csvSize ts4 = rh_csvSize header" "ts_csv ts4 = ts_csv ts" "ts_hasClaim ts4 = ts_hasClaim ts"
    "ts_uploading ts4 = ts_uploading ts" "ts_claim ts4 = ts_claim ts" "ts_resultCsv ts4 = ts_resultCsv ts"
    "shown (ts4, ui) = (fst (shown (ts, ui)), ReceivingResult)" "ts_reader ts4 = ts_reader ts" "sent_all ts4 = sent_all ts"
    "ts_uploadFilename ts4 = ts_uploadFilename ts" "ts_uploadTotal ts4 = ts_uploadTotal ts" "ts_uploadCrc ts4 = ts_uploadCrc ts"
    by (simp_all add: ts4_def receiving_def push_defs shown_eq sent_all_def payload_def)
  have o4: "on_line (ts4, ui)"
    by (rule on_line_cong [OF on_line_inv [OF inv act]]) (simp_all add: ts4_def receiving_def push_defs shown_eq)
  have u4: "up_inv ts4" using r f cl by (simp add: up_inv_def up)
  show ?thesis
  proof (cases "length (ts_csv ts) = unat (rh_csvSize header)")
    case True
    have "end_ok (ts4, ui)"
      using o4 u4 r f cl by (auto simp: end_ok_def on_line_def recv_base_def recv_inv_def claim_ok_def up_inv_def)
    then show ?thesis using True ts' finishDownload_inv [OF en _ o4] f cl up by simp
  next
    case ne: False
    then have lt: "length (ts_csv ts) < unat (rh_csvSize header)" using False nr by (cases resuming) (auto simp: not_less)
    have "recv_inv ts4" using r f cl lt False by (auto simp: recv_inv_def up)
    moreover have "conn_inv (ts4, ui)" by (rule conn_inv_on_line [OF o4]) (simp add: active_def f)
    ultimately show ?thesis using u4 ts' ne by (simp add: client_inv_def)
  qed
qed

lemma handleAck_inv:
  assumes "te_ok en" "client_inv (ts, ui)" "ts_expecting ts = ExpAck" "handleAckBytes en data ts = (n, ts')"
  shows "client_inv (ts', ui)"
proof -
  obtain f k where fd: "feed (ts_framer ts) data = (f, k)" by fastforce
  let ?ts1 = "ts\<lparr>ts_framer := f\<rparr>"
  have i: "client_inv (?ts1, ui)" using assms(2) by simp
  note fl = failSession_inv [OF end_ok_inv [OF i]]
  have o: "on_line (ts, ui)" by (rule on_line_inv [OF assms(2)]) (simp add: active_def assms(3))
  have r: "recv_inv ts" "up_inv ts" using assms(2) by (simp_all add: client_inv_def)
  have c: "\<not> ts_uploading ts" "\<not> ts_hasClaim ts" "ts_csv ts = []" "ts_resultCsv ts = []"
    using r(1) assms(3) by (auto simp: recv_inv_def)
  define ok where "ok t = (pushSession WaitResult (pushLog Info t (pushEvent (ClaimEvent True)
      (?ts1\<lparr>ts_hasClaim := True, ts_claim := \<lparr>cl_filename = ts_uploadFilename ts, cl_fileSize = ts_uploadTotal ts,
        cl_crc32 = ts_uploadCrc ts, cl_received = 0\<rparr>\<rparr>))))\<lparr>ts_expecting := ExpResultHeader, ts_framer := framerReset ResultHeaderMsg f\<rparr>" for t
  have "client_inv (ok t, ui)" for t
  proof -
    have "on_line (ok t, ui)" by (rule on_line_cong [OF o]) (simp_all add: ok_def push_defs shown_eq)
    then have "conn_inv (ok t, ui)" by (rule conn_inv_on_line) (simp add: ok_def push_defs active_def)
    moreover have "recv_inv (ok t)" using r(1) c by (simp add: ok_def push_defs recv_inv_def)
    moreover have "up_inv (ok t)" using r(2) c assms(3) by (simp add: ok_def push_defs up_inv_def sent_all_def payload_def)
    ultimately show ?thesis by (simp add: client_inv_def)
  qed
  then show ?thesis
    using assms(4) i fl by (auto simp: handleAckBytes_def fd Let_def ok_def split: if_splits sum.splits)
qed

lemma handleResultHeader_inv:
  assumes "te_ok en" "client_inv (ts, ui)" "ts_expecting ts = ExpResultHeader" "handleResultHeaderBytes en data ts = (n, ts')"
  shows "client_inv (ts', ui)"
proof -
  obtain f k where fd: "feed (ts_framer ts) data = (f, k)" by fastforce
  let ?ts1 = "ts\<lparr>ts_framer := f\<rparr>"
  have i: "client_inv (?ts1, ui)" using assms(2) by simp
  have c: "ts_hasClaim ?ts1" "ts_csv ?ts1 = []" "active ?ts1"
    using assms(2,3) by (simp_all add: client_inv_def recv_inv_def active_def)
  show ?thesis
    using assms(4) i failSession_inv [OF end_ok_inv [OF i]] beginCsvReceive_inv [OF assms(1) i c(1,3), of False] c(2)
    by (auto simp: handleResultHeaderBytes_def fd Let_def split: if_splits sum.splits prod.splits)
qed

lemma handleResumeReply_inv:
  assumes "te_ok en" "client_inv (ts, ui)" "ts_expecting ts = ExpResumeReply" "handleResumeReplyBytes en data ts = (n, ts')"
  shows "client_inv (ts', ui)"
proof -
  obtain f k where fd: "feed (ts_framer ts) data = (f, k)" by fastforce
  let ?ts1 = "ts\<lparr>ts_framer := f\<rparr>"
  have i: "client_inv (?ts1, ui)" using assms(2) by simp
  have c: "ts_hasClaim ?ts1" "active ?ts1" using assms(2,3) by (simp_all add: client_inv_def recv_inv_def active_def)
  have "end_ok ((dropResultClaim ?ts1)\<lparr>ts_csv := []\<rparr>, ui)"
    using end_ok_inv [OF i]
    by (auto simp: end_ok_def sock_ok_def shown_eq recv_base_def claim_ok_def dropResultClaim_def push_defs)
  then show ?thesis
    using assms(4) i failSession_inv [OF end_ok_inv [OF i]] failSession_inv beginCsvReceive_inv [OF assms(1) i c, of True]
    by (auto simp: handleResumeReplyBytes_def fd Let_def split: if_splits sum.splits prod.splits)
qed

lemma handleCsv_inv:
  assumes "te_ok en" "client_inv (ts, ui)" "ts_expecting ts = ExpCsvPayload" "handleCsvBytes en data ts = (n, ts')"
  shows "client_inv (ts', ui)"
proof -
  have r: "recv_inv ts" "up_inv ts" using assms(2) by (simp_all add: client_inv_def)
  have c: "ts_hasClaim ts" "\<not> ts_uploading ts" "length (ts_csv ts) < unat (ts_csvSize ts)" "ts_csvSize ts \<le> kMaxCsvSize" "ts_resultCsv ts = []"
    using r(1) assms(3) by (auto simp: recv_inv_def)
  define k where "k = min (length data) (unat (ts_csvSize ts) - length (ts_csv ts))"
  define ts2 where "ts2 = ts\<lparr>ts_csv := ts_csv ts @ take k data,
    ts_claim := (ts_claim ts)\<lparr>cl_received := of_nat (length (ts_csv ts @ take k data))\<rparr>\<rparr>"
  have ts': "ts' = (if length (ts_csv ts2) = unat (ts_csvSize ts) then finishDownload en ts2 else ts2)"
    using assms(4) c(1) by (auto simp: handleCsvBytes_def Let_def ts2_def k_def min_def)
  have l: "length (ts_csv ts2) \<le> unat (ts_csvSize ts)" using c(3) by (simp add: ts2_def k_def)
  then have m: "length (ts_csv ts2) \<le> unat kMaxCsvSize" using c(4) by (simp add: word_le_nat_alt)
  have o: "on_line (ts2, ui)"
    by (rule on_line_cong [OF on_line_inv [OF assms(2)]]) (simp_all add: ts2_def shown_eq active_def assms(3))
  have u: "up_inv ts2"
    using r(2) c assms(3) by (simp add: ts2_def up_inv_def sent_all_def payload_def)
  show ?thesis
  proof (cases "length (ts_csv ts2) = unat (ts_csvSize ts)")
    case True
    have "end_ok (ts2, ui)"
      using o u c m by (auto simp: end_ok_def on_line_def recv_base_def claim_ok_def up_inv_def ts2_def)
    moreover have "\<not> ts_uploading ts2" "ts_hasClaim ts2" "ts_csvSize ts2 = ts_csvSize ts" using c by (simp_all add: ts2_def)
    ultimately show ?thesis using True ts' finishDownload_inv [OF assms(1) _ o] by simp
  next
    case False
    have "recv_inv ts2" using r(1) c m l False assms(3) by (auto simp: recv_inv_def ts2_def)
    moreover have "conn_inv (ts2, ui)" by (rule conn_inv_on_line [OF o]) (simp add: active_def ts2_def assms(3))
    ultimately show ?thesis using u ts' False by (simp add: client_inv_def)
  qed
qed

lemma onBytes_inv:
  assumes "te_ok en" "client_inv (ts, ui)"
  shows "client_inv (onBytes en data ts, ui)"
  using assms
proof (induction en data ts rule: onBytes.induct)
  case (1 en data ts)
  note IH = 1(1) [OF _ refl]
  show ?case
  proof (cases "data = []")
    case True
    then show ?thesis using 1(3) by (simp add: onBytes.simps)
  next
    case ne: False
    have next_: "client_inv (if n = 0 then ts1 else onBytes en (drop n data) ts1, ui)"
      if "client_inv (ts1, ui)" "(case ts_expecting ts of ExpAck \<Rightarrow> Some (handleAckBytes en data ts)
          | ExpResultHeader \<Rightarrow> Some (handleResultHeaderBytes en data ts)
          | ExpCsvPayload \<Rightarrow> Some (handleCsvBytes en data ts)
          | ExpResumeReply \<Rightarrow> Some (handleResumeReplyBytes en data ts)
          | ExpNothing \<Rightarrow> None) = Some (n, ts1)" for n ts1
      using that 1(1) [OF ne refl that(2) refl _ 1(2)] by auto
    show ?thesis
    proof (cases "ts_expecting ts")
      case ExpNothing
      then show ?thesis using failSession_inv [OF end_ok_inv [OF 1(3)]] ne by (simp add: onBytes.simps)
    next
      case ExpAck
      obtain n ts1 where h: "handleAckBytes en data ts = (n, ts1)" by fastforce
      then show ?thesis using handleAck_inv [OF 1(2,3) ExpAck h] next_ [of ts1 n] ExpAck ne by (simp add: onBytes.simps [of en data])
    next
      case ExpResultHeader
      obtain n ts1 where h: "handleResultHeaderBytes en data ts = (n, ts1)" by fastforce
      then show ?thesis using handleResultHeader_inv [OF 1(2,3) ExpResultHeader h] next_ [of ts1 n] ExpResultHeader ne
        by (simp add: onBytes.simps [of en data])
    next
      case ExpCsvPayload
      obtain n ts1 where h: "handleCsvBytes en data ts = (n, ts1)" by fastforce
      then show ?thesis using handleCsv_inv [OF 1(2,3) ExpCsvPayload h] next_ [of ts1 n] ExpCsvPayload ne
        by (simp add: onBytes.simps [of en data])
    next
      case ExpResumeReply
      obtain n ts1 where h: "handleResumeReplyBytes en data ts = (n, ts1)" by fastforce
      then show ?thesis using handleResumeReply_inv [OF 1(2,3) ExpResumeReply h] next_ [of ts1 n] ExpResumeReply ne
        by (simp add: onBytes.simps [of en data])
    qed
  qed
qed

section \<open>Commands and callbacks\<close>

text \<open>Without a session, only the connection and the reader matter.\<close>

lemma quiet_inv:
  assumes "client_inv (ts, ui)" "\<not> active ts" "conn_inv (ts', ui)" "reader_ok (ts_reader ts')"
    and "ts_uploading ts' = ts_uploading ts" "ts_expecting ts' = ts_expecting ts" "ts_csv ts' = ts_csv ts" "ts_claim ts' = ts_claim ts"
    "ts_hasClaim ts' = ts_hasClaim ts" "ts_resultCsv ts' = ts_resultCsv ts" "ts_csvSize ts' = ts_csvSize ts"
    "ts_csvExpectedCrc ts' = ts_csvExpectedCrc ts" "ts_uploadTotal ts' = ts_uploadTotal ts" "ts_uploadCrc ts' = ts_uploadCrc ts"
    "ts_source ts' = ts_source ts" "ts_uploadFilename ts' = ts_uploadFilename ts"
  shows "client_inv (ts', ui)"
  using assms by (simp add: client_inv_def recv_inv_def up_inv_def active_def sent_all_def payload_def)

lemma client_inv_log: "client_inv (pushLog level t ts, ui) = client_inv (ts, ui)"
  using stream_cong [of "pushLog level t ts" ts]
  by (simp add: client_inv_def conn_inv_def shown_eq active_def usable_def recv_inv_def up_inv_def streaming_def push_defs
      upload_header_def sent_all_def payload_def)

lemma close_quiet:
  assumes "client_inv (ts, ui)" "\<not> active ts"
  shows "client_inv (closeSocket en ts, ui)" "client_inv (closeSocket en (pushLink Disconnected ts), ui)"
    "client_inv (pushSession Idle (closeSocket en (pushLink Disconnected ts)), ui)"
proof -
  have c: "conn_inv (ts, ui)" and u: "up_inv ts" using assms(1) by (simp_all add: client_inv_def)
  have ro: "reader_ok (ts_reader ts)" using u by (simp add: up_inv_def)
  note s = shut_not_usable [of "ts_socket ts" en]
  show "client_inv (closeSocket en ts, ui)"
    by (rule quiet_inv [OF assms]) (use c s ro assms(2) in \<open>auto simp: closeSocket_eq conn_inv_def shown_eq usable_def active_def\<close>)
  show "client_inv (closeSocket en (pushLink Disconnected ts), ui)"
    by (rule quiet_inv [OF assms])
       (use c s ro assms(2) in \<open>auto simp: closeSocket_eq conn_inv_def shown_eq usable_def active_def push_defs\<close>)
  show "client_inv (pushSession Idle (closeSocket en (pushLink Disconnected ts)), ui)"
    by (rule quiet_inv [OF assms])
       (use c s ro assms(2) in \<open>auto simp: closeSocket_eq conn_inv_def shown_eq usable_def active_def push_defs\<close>)
qed

lemma timer_frame [simp]: "recv_inv (ts\<lparr>ts_connectTimer := x\<rparr>) = recv_inv ts" "up_inv (ts\<lparr>ts_connectTimer := x\<rparr>) = up_inv ts"
  using stream_cong [of "ts\<lparr>ts_connectTimer := x\<rparr>" ts]
  by (simp_all add: recv_inv_def up_inv_def streaming_def upload_header_def sent_all_def payload_def)

lemma conn_inv_timer:
  assumes "conn_inv (ts, ui)" "\<forall>tm. x = Some tm \<longrightarrow> \<not> timer_isActive tm"
  shows "conn_inv (ts\<lparr>ts_connectTimer := x\<rparr>, ui)"
  using assms by (simp add: conn_inv_def shown_eq active_def usable_def) blast

lemma stopTimer_inv:
  assumes "client_inv (ts, ui)"
  shows "client_inv (stopConnectTimer ts, ui)"
proof -
  have "\<forall>tm. map_option timer_stop (ts_connectTimer ts) = Some tm \<longrightarrow> \<not> timer_isActive tm" by auto
  with assms show ?thesis by (simp add: stopConnectTimer_def client_inv_def conn_inv_timer)
qed

lemma socket_not_active: "client_inv (ts, ui) \<Longrightarrow> ts_socket ts = None \<Longrightarrow> \<not> active ts"
  by (auto simp: client_inv_def conn_inv_def usable_def)

lemma handleConnect_inv:
  assumes "client_inv (ts, ui)"
  shows "client_inv (handleConnect en ip port ts, ui)"
proof (cases "ts_socket ts = None")
  case False
  then show ?thesis using assms by (simp add: handleConnect_def client_inv_log)
next
  case True
  have q: "\<not> active ts" by (rule socket_not_active [OF assms True])
  have c: "conn_inv (ts, ui)" and ro: "reader_ok (ts_reader ts)" using assms by (simp_all add: client_inv_def up_inv_def)
  have busy: "\<not> isBusy (snd (shown (ts, ui)))" using c q by (simp add: conn_inv_def)
  have "conn_inv (handleConnect en ip port ts, ui)"
  proof (cases "sock_connect en (newSocket (te_socketOk en)) < 0")
    case fails: True
    then show ?thesis
      using True q busy by (simp add: handleConnect_def beginConnect_def Let_def conn_inv_def push_defs shown_eq usable_def active_def)
  next
    case False
    then have v: "sk_valid (newSocket (te_socketOk en))" by (simp add: sock_connect_def kUvEinval_def split: if_splits)
    from False show ?thesis
      using True q busy v by (simp add: handleConnect_def beginConnect_def Let_def conn_inv_def push_defs shown_eq usable_def active_def)
  qed
  then show ?thesis
    by (rule quiet_inv [OF assms q]) (simp_all add: True ro handleConnect_def beginConnect_def Let_def push_defs)
qed

lemma handleDisconnect_inv:
  assumes "client_inv (ts, ui)"
  shows "client_inv (handleDisconnect en ts, ui)"
proof -
  let ?ts1 = "stopConnectTimer ts" and ?ts2 = "pushLog Info ''Disconnecting.'' (stopConnectTimer ts)"
  have i1: "client_inv (?ts1, ui)" by (rule stopTimer_inv [OF assms])
  then have i2: "client_inv (?ts2, ui)" by (simp add: client_inv_log)
  have "client_inv (pushLink Disconnected ?ts1, ui)" if "ts_socket ?ts1 = None"
  proof -
    note q = socket_not_active [OF i1 that]
    have c: "conn_inv (?ts1, ui)" and ro: "reader_ok (ts_reader ?ts1)" using i1 by (simp_all add: client_inv_def up_inv_def)
    show ?thesis
      by (rule quiet_inv [OF i1 q]) (use c ro q that in \<open>auto simp: conn_inv_def push_defs shown_eq usable_def active_def\<close>)
  qed
  moreover have "client_inv (abortUpload en reason level ?ts2, ui)" if "ts_uploading ?ts2" for reason level
    using abortUpload_inv [OF end_ok_inv [OF i2]] i2 that by (auto simp: client_inv_def recv_inv_def)
  moreover have "client_inv (closeSocket en ?ts2, ui)" if "\<not> active ?ts2" by (rule close_quiet(1) [OF i2 that])
  ultimately show ?thesis
    using failSession_inv [OF end_ok_inv [OF i2]] by (simp add: handleDisconnect_def Let_def active_def)
qed

lemma handleCancel_inv:
  assumes "client_inv (ts, ui)"
  shows "client_inv (handleCancelUpload en ts, ui)"
  using abortUpload_inv [OF end_ok_inv [OF assms]] assms by (auto simp: handleCancelUpload_def client_inv_def recv_inv_def)

lemma handleRequest_inv:
  assumes "te_ok en" "client_inv (ts, ui)" "usable ts \<longrightarrow> ts_connected ts"
  shows "client_inv (handleRequestResult en ts, ui)"
proof (cases "ts_hasClaim ts \<and> ts_socket ts \<noteq> None")
  case False
  then show ?thesis using assms(2) by (auto simp: handleRequestResult_def client_inv_log)
next
  case True
  then obtain sk where sk: "ts_socket ts = Some sk" and cl: "ts_hasClaim ts" by auto
  define rq where "rq = encodeResultRequest \<lparr>rr_fileSize = cl_fileSize (ts_claim ts), rr_crc32 = cl_crc32 (ts_claim ts),
    rr_startOffset = cl_received (ts_claim ts), rr_filename = cl_filename (ts_claim ts)\<rparr>"
  from assms(1) sk show ?thesis
  proof (cases rule: sendOn_cases [where bytes = rq])
    case sent
    define ts' where "ts' = handleRequestResult en ts"
    have s: "sendOn en rq ts = (0, ts\<lparr>ts_socket := Some (wrote rq sk)\<rparr>)" using sent(1) by (simp add: wrote_def)
    have f: "ts_socket ts' = Some (wrote rq sk)" "ts_expecting ts' = ExpResumeReply" "ts_uploading ts' = ts_uploading ts"
      "ts_hasClaim ts' = ts_hasClaim ts" "ts_claim ts' = ts_claim ts" "ts_csv ts' = ts_csv ts" "ts_resultCsv ts' = ts_resultCsv ts"
      "ts_connected ts' = ts_connected ts" "ts_connectTimer ts' = ts_connectTimer ts" "ts_reader ts' = ts_reader ts"
      "ts_uploadFilename ts' = ts_uploadFilename ts" "ts_uploadTotal ts' = ts_uploadTotal ts" "ts_uploadCrc ts' = ts_uploadCrc ts"
      "ts_source ts' = ts_source ts" "shown (ts', ui) = (fst (shown (ts, ui)), RequestingResult)"
      using s sk cl by (simp_all add: ts'_def handleRequestResult_def Let_def push_defs shown_eq flip: rq_def)
    have r: "recv_inv ts" "up_inv ts" "conn_inv (ts, ui)" using assms(2) by (simp_all add: client_inv_def)
    have up: "\<not> ts_uploading ts" "ts_resultCsv ts = []" using r(1) cl by (auto simp: recv_inv_def)
    have "conn_inv (ts', ui)"
      using r(3) f sk sent(2,3) assms(3) by (auto simp: conn_inv_def active_def usable_def)
    moreover have "recv_inv ts'" using r(1) f cl up by (simp add: recv_inv_def)
    moreover have "up_inv ts'" using r(2) f cl up by (simp add: up_inv_def sent_all_def payload_def)
    ultimately show ?thesis by (simp add: client_inv_def ts'_def)
  next
    case (failed rc)
    then show ?thesis
      using sk cl failSession_inv [OF end_ok_inv [OF assms(2)]] by (simp add: handleRequestResult_def Let_def flip: rq_def)
  qed
qed

lemma reader_steps_ok: "reader_ok rd \<Longrightarrow> reader_ok ((reader_step ^^ n) rd)"
  by (induction n) (simp_all add: reader_ok_step)

lemma reader_idle_steps: "reader_ok rd \<Longrightarrow> \<not> rd_uploading rd \<Longrightarrow> (reader_step ^^ n) rd = rd"
  by (induction n) (auto simp: reader_ok_def reader_step_def)

lemma drained_reader:
  assumes "reader_ok rd" "n = 0 \<or> \<not> rd_uploading rd"
  shows "reader_ok ((reader_step ^^ n) (cv_notify (drain_ring_of rd)))" "ring_contents (rd_ring ((reader_step ^^ n) (cv_notify (drain_ring_of rd)))) = []"
  using drain_empties [OF assms(1)] assms(2) reader_idle_steps [of "cv_notify (drain_ring_of rd)" n] by auto

lemma client_inv_reader:
  assumes "client_inv (ts, ui)" "\<not> ts_uploading ts" "reader_ok rd"
  shows "client_inv (ts\<lparr>ts_reader := rd\<rparr>, ui)"
proof -
  let ?ts = "ts\<lparr>ts_reader := rd\<rparr>"
  have "upload_header ?ts = upload_header ts" "payload ?ts = payload ts" "sent_all ?ts = sent_all ts" "stream ?ts = stream ts"
    by (simp_all add: upload_header_def payload_def sent_all_def stream_cong [of ?ts ts])
  then have "up_inv ?ts" using assms by (simp add: client_inv_def up_inv_def)
  then show ?thesis
    using assms(1) by (simp add: client_inv_def conn_inv_def shown_eq active_def usable_def recv_inv_def)
qed

text \<open>Either nothing is uploading after the command, or the header has been sent and the loop pumps the first chunks.\<close>

lemma handleStart_cases:
  assumes en: "te_ok en" and inv: "client_inv (ts, ui)" and g: "usable ts \<longrightarrow> ts_connected ts"
    and gap: "te_gap en = 0 \<or> \<not> rd_uploading (ts_reader ts)" and nu: "\<not> ts_uploading ts"
  obtains (idle) "client_inv (handleStartUpload en path filename sz ts, ui)" "\<not> ts_uploading (handleStartUpload en path filename sz ts)"
  | (begun) ts6 rd' where "handleStartUpload en path filename sz ts = pumpUpload en ts6" "client_inv (ts6, ui)" "ts_uploading ts6"
    "ts_reader ts6 = rd'" "\<not> rd_abort rd'" "\<not> rd_failed rd'" "\<not> rd_readComplete rd'" "rd_uploading rd'" "rd_pc rd' = RdIdle"
    "ts_inFlightWrites ts6 = 0"
proof (cases "\<not> usable ts")
  case True
  then show ?thesis using inv nu by (intro idle) (simp_all add: handleStartUpload_def client_inv_log, simp add: push_defs)
next
  case False
  then have up: "\<not> ts_uploading ts" and us: "usable ts" "ts_connected ts" using g nu by simp_all
  obtain sk where sk: "ts_socket ts = Some sk" "\<not> sk_closing sk" using us by (auto simp: usable_def split: option.splits)
  have c: "conn_inv (ts, ui)" and ro: "reader_ok (ts_reader ts)" using inv by (simp_all add: client_inv_def up_inv_def)
  define rd where "rd = (reader_step ^^ te_gap en) (cv_notify (drain_ring_of (ts_reader ts)))"
  note d = drained_reader [OF ro gap, folded rd_def]
  have i2: "client_inv (ts\<lparr>ts_reader := rd\<rparr>, ui)" by (rule client_inv_reader [OF inv up d(1)])
  show ?thesis
  proof (cases "beginUpload (te_files en) path (unat sz) rd")
    case (Inl err)
    then have "handleStartUpload en path filename sz ts = pushLog Error err (ts\<lparr>ts_reader := rd\<rparr>)"
      using up us by (simp add: handleStartUpload_def drainRing_def flip: rd_def)
    then show ?thesis using up i2 by (intro idle) (simp_all add: client_inv_log, simp add: push_defs)
  next
    case (Inr rd')
    from reading_begin [OF Inr d] obtain content where fc: "te_files en path = Some content"
      and rg: "reading content (unat sz) [] rd'" "reader_ok rd'" and fl: "\<not> rd_abort rd'" "\<not> rd_failed rd'" "\<not> rd_readComplete rd'" by blast
    have "\<not> rd_uploading rd" "rd_pc rd' = RdIdle \<longleftrightarrow> rd_pc rd = RdIdle" and rn: "rd_uploading rd'"
      using Inr by (auto simp: beginUpload_def split: if_splits option.splits)
    then have pc: "rd_pc rd' = RdIdle" using d(1) by (auto simp: reader_ok_def)
    define ts4 where "ts4 = pushSession SendingHeader ((dropResultClaim (ts\<lparr>ts_reader := rd', ts_uploading := True, ts_uploadFilename := filename\<rparr>))
      \<lparr>ts_inFlightWrites := 0, ts_trailerSent := False, ts_uploadTotal := sz, ts_uploadSent := 0,
       ts_uploadCrc := 0, ts_expecting := ExpNothing, ts_csv := [], ts_csvSize := 0, ts_csvExpectedCrc := 0,
       ts_resultCsv := [], ts_source := content, ts_firstWrite := length (sk_written sk)\<rparr>)"
    have f: "ts_socket ts4 = Some sk" "ts_uploading ts4" "ts_expecting ts4 = ExpNothing" "\<not> ts_hasClaim ts4" "ts_csv ts4 = []"
      "ts_resultCsv ts4 = []" "ts_reader ts4 = rd'" "ts_connected ts4 = ts_connected ts" "ts_connectTimer ts4 = ts_connectTimer ts"
      "ts_source ts4 = content" "ts_uploadTotal ts4 = sz" "ts_uploadSent ts4 = 0" "ts_uploadCrc ts4 = 0" "\<not> ts_trailerSent ts4"
      "ts_firstWrite ts4 = length (sk_written sk)" "ts_uploadFilename ts4 = filename"
      "shown (ts4, ui) = (fst (shown (ts, ui)), SendingHeader)"
      using sk by (simp_all add: ts4_def dropResultClaim_def push_defs shown_eq)
    have e4: "end_ok (ts4, ui)" "recv_inv ts4"
      using c f rg(2) sk by (auto simp: end_ok_def sock_ok_def conn_inv_def recv_base_def claim_ok_def recv_inv_def)
    define h where "h = encodeUploadHeader \<lparr>uh_fileSize = sz, uh_filename = filename\<rparr>"
    have eq: "handleStartUpload en path filename sz ts = (case sendOn en h ts4 of (result, ts5) \<Rightarrow>
        if result < 0 then abortUpload en (''Failed to send the upload header: '' @ uv_describe (te_uv en) result) Error ts5
        else pumpUpload en (pushSession Streaming (pushLog Info (''Uploading '' @ filename @ '' ('' @ to_string (unat sz) @ '' bytes)'') ts5)))"
      using up us Inr fc sk
      by (simp add: handleStartUpload_def drainRing_def ts4_def Let_def h_def dropResultClaim_def push_defs flip: rd_def)
    from en f(1) show ?thesis
    proof (cases rule: sendOn_cases [where bytes = h])
      case sent
      have s: "sendOn en h ts4 = (0, ts4\<lparr>ts_socket := Some (wrote h sk)\<rparr>)" using sent(1) by (simp add: wrote_def)
      define ts6 where "ts6 = pushSession Streaming (pushLog Info (''Uploading '' @ filename @ '' ('' @ to_string (unat sz) @ '' bytes)'')
        (ts4\<lparr>ts_socket := Some (wrote h sk)\<rparr>))"
      have f6: "shown (ts6, ui) = (fst (shown (ts, ui)), Streaming)" "ts_socket ts6 = Some (wrote h sk)"
        using f(17) by (simp_all add: ts6_def push_defs shown_eq)
      have k: "ts_uploading ts6" "ts_expecting ts6 = ExpNothing" "\<not> ts_hasClaim ts6" "ts_csv ts6 = []" "ts_resultCsv ts6 = []"
        "ts_reader ts6 = rd'" "ts_connected ts6 = ts_connected ts" "ts_connectTimer ts6 = ts_connectTimer ts"
        using f by (simp_all add: ts6_def push_defs)
      have "stream ts6 = [upload_header ts6]"
        using f by (simp add: stream_def ts6_def push_defs upload_header_def h_def)
      then have "streaming ts6"
        unfolding streaming_def by (intro exI [of _ "[]"]) (use f rg in \<open>simp add: ts6_def push_defs\<close>)
      then have "up_inv ts6" using k rg(2) by (simp add: up_inv_def)
      moreover have "recv_inv ts6" using k by (simp add: recv_inv_def)
      moreover have "conn_inv (ts6, ui)" using c k f6 sk us sent(2) by (auto simp: conn_inv_def active_def usable_def)
      ultimately have "client_inv (ts6, ui)" by (simp add: client_inv_def)
      moreover have "handleStartUpload en path filename sz ts = pumpUpload en ts6" by (simp add: eq s ts6_def)
      moreover have "ts_inFlightWrites ts6 = 0" by (simp add: ts6_def ts4_def push_defs)
      ultimately show ?thesis using k(1,6) fl rn pc by (intro begun) simp_all
    next
      case (failed rc)
      have "\<not> ts_uploading (abortUpload en reason level ts4)" for reason level
        by (simp add: abortUpload_def push_defs drainRing_def closeSocket_eq)
      then show ?thesis using failed abortUpload_inv [OF e4] f(3) by (intro idle) (simp_all add: eq)
    qed
  qed
qed

lemma handleStart_inv:
  assumes en: "te_ok en" and inv: "client_inv (ts, ui)" and g: "usable ts \<longrightarrow> ts_connected ts"
    and gap: "te_gap en = 0 \<or> \<not> rd_uploading (ts_reader ts)"
  shows "client_inv (handleStartUpload en path filename sz ts, ui)"
proof (cases "ts_uploading ts")
  case True
  then show ?thesis using inv by (auto simp: handleStartUpload_def client_inv_log)
next
  case False
  from assms False show ?thesis
  proof (cases rule: handleStart_cases [where path = path and filename = filename and sz = sz])
    case (begun ts6 rd')
    then show ?thesis using pumpUpload_inv [OF en] by simp
  qed
qed

lemma handle_inv:
  assumes "te_ok en" "client_inv (ts, ui)" "gated en cmd ts"
  shows "client_inv (handle en cmd ts, ui)"
  using assms(3)
  by (cases cmd) (simp_all add: assms handleConnect_inv handleDisconnect_inv handleStart_inv handleCancel_inv handleRequest_inv)

lemma drainCommands_inv:
  assumes "\<And>k. te_ok (en k)" "client_inv (ts, ui)" "gated_run en cs ts"
  shows "client_inv (drainCommands en cs ts, ui)"
  using assms by (induction en cs ts rule: drainCommands.induct) (simp_all add: handle_inv)

lemma client_inv_commands [simp]: "client_inv (ts\<lparr>ts_commands := cs\<rparr>, ui) = client_inv (ts, ui)"
  using stream_cong [of "ts\<lparr>ts_commands := cs\<rparr>" ts]
  by (simp add: client_inv_def conn_inv_def shown_eq active_def usable_def recv_inv_def up_inv_def streaming_def
      upload_header_def sent_all_def payload_def)

lemma client_inv_reader_upd:
  assumes "client_inv (ts, ui)" "reader_ok rd"
    and "\<And>content sz out. reading content sz out (ts_reader ts) \<Longrightarrow> reading content sz out rd"
  shows "client_inv (ts\<lparr>ts_reader := rd\<rparr>, ui)"
proof (cases "ts_uploading ts")
  case False
  then show ?thesis by (rule client_inv_reader [OF assms(1) _ assms(2)])
next
  case True
  let ?ts = "ts\<lparr>ts_reader := rd\<rparr>"
  have r: "recv_inv ts" and u: "up_inv ts" using assms(1) by (simp_all add: client_inv_def)
  have n: "ts_expecting ts = ExpNothing" "\<not> ts_hasClaim ts" using r True by (simp_all add: recv_inv_def)
  have "upload_header ?ts = upload_header ts" "stream ?ts = stream ts" by (simp_all add: upload_header_def stream_cong [of ?ts ts])
  then have "streaming ?ts" using u True assms(3) by (auto simp: up_inv_def streaming_def)
  then have "up_inv ?ts" using n assms(2) by (simp add: up_inv_def)
  then show ?thesis
    using assms(1) by (simp add: client_inv_def conn_inv_def shown_eq active_def usable_def recv_inv_def)
qed

lemma client_inv_reader_step:
  assumes "client_inv (ts, ui)"
  shows "client_inv (ts\<lparr>ts_reader := reader_step (ts_reader ts)\<rparr>, ui)"
proof -
  have "reader_ok (ts_reader ts)" using assms by (simp add: client_inv_def up_inv_def)
  then show ?thesis by (intro client_inv_reader_upd [OF assms]) (simp_all add: reader_ok_step reading_step)
qed

lemma signalled_frame: "reader_ok (rd\<lparr>rd_signalled := b\<rparr>) = reader_ok rd" "reading content sz out (rd\<lparr>rd_signalled := b\<rparr>) = reading content sz out rd"
proof -
  show "reader_ok (rd\<lparr>rd_signalled := b\<rparr>) = reader_ok rd"
    by (simp add: reader_ok_def slot_ok_def split: ReaderPc.splits)
  have "held (rd\<lparr>rd_signalled := b\<rparr>) = held rd" by (simp add: held_def split: ReaderPc.splits)
  then show "reading content sz out (rd\<lparr>rd_signalled := b\<rparr>) = reading content sz out rd" by (simp add: reading_def)
qed

lemma signal_inv:
  assumes "client_inv (ts, ui)"
  shows "client_inv (ts\<lparr>ts_commands := [], ts_reader := (ts_reader ts)\<lparr>rd_signalled := b\<rparr>\<rparr>, ui)"
proof -
  let ?rd = "(ts_reader ts)\<lparr>rd_signalled := b\<rparr>"
  have "client_inv (ts\<lparr>ts_commands := []\<rparr>, ui)" "reader_ok (ts_reader ts)" using assms by (simp, simp add: client_inv_def up_inv_def)
  then show ?thesis
    using client_inv_reader_upd [of "ts\<lparr>ts_commands := []\<rparr>" ui ?rd] by (simp add: signalled_frame)
qed

lemma onAsync_inv:
  assumes "\<And>k. te_ok (en k)" "client_inv (ts, ui)"
    and "gated_run en (ts_commands ts) (ts\<lparr>ts_commands := [], ts_reader := (ts_reader ts)\<lparr>rd_signalled := False\<rparr>\<rparr>)"
  shows "client_inv (onAsyncCb en ts, ui)"
  unfolding onAsyncCb_def by (intro pumpUpload_inv drainCommands_inv signal_inv assms)

lemma onConnect_inv:
  assumes inv: "client_inv (ts, ui)" and sk: "ts_socket ts = Some sk" and n: "\<not> ts_connected ts" and st: "status < 0 \<or> \<not> sk_closing sk"
  shows "client_inv (onConnect en status ts, ui)"
proof -
  have i: "client_inv (stopConnectTimer ts, ui)" by (rule stopTimer_inv [OF inv])
  have q: "\<not> active ts" using inv n by (auto simp: client_inv_def conn_inv_def)
  have q1: "\<not> active (stopConnectTimer ts)" using q by (simp add: active_def stopConnectTimer_def)
  have ro: "reader_ok (ts_reader (stopConnectTimer ts))" using i by (simp add: client_inv_def up_inv_def)
  have c: "conn_inv (stopConnectTimer ts, ui)" using i by (simp add: client_inv_def)
  have sk1: "ts_socket (stopConnectTimer ts) = Some sk" using sk by (simp add: stopConnectTimer_def)
  have tm: "\<not> timer_isActive tm" if "ts_connectTimer (stopConnectTimer ts) = Some tm" for tm
    using that by (auto simp: stopConnectTimer_def)
  show ?thesis
  proof (cases "status < 0")
    case True
    have "client_inv (pushLog Error (''Connect failed: '' @ uv_describe (te_uv en) status) (stopConnectTimer ts), ui)"
      using i by (simp add: client_inv_log)
    then show ?thesis
      using True q1 by (simp add: onConnect_def Let_def close_quiet(2) active_def push_defs del: pushLink_def)
  next
    case False
    obtain rc sk' where rd: "sock_startRead (te_uv en) sk = (rc, sk')" by fastforce
    have v: "sk_valid sk'" "sk_closing sk' = sk_closing sk" "\<not> sk_closing sk"
      using c sk1 sock_frame(4,6) [of "te_uv en" sk] rd False st by (auto simp: conn_inv_def)
    define ts3 where "ts3 = (pushLink Connected (pushLog Info (''Connected to '' @ te_peer en)
      ((stopConnectTimer ts)\<lparr>ts_connected := True\<rparr>)))\<lparr>ts_socket := Some sk'\<rparr>"
    have b: "\<not> isBusy (snd (shown (stopConnectTimer ts, ui)))" using c q1 by (simp add: conn_inv_def)
    have "conn_inv (ts3, ui)"
      using b v q1 tm by (auto simp: conn_inv_def ts3_def push_defs shown_eq active_def usable_def)
    then have i3: "client_inv (ts3, ui)"
      by (rule quiet_inv [OF i q1]) (simp_all add: ts3_def push_defs ro)
    have q3: "\<not> active (pushLog level t ts3)" for level t using q1 by (simp add: ts3_def push_defs active_def)
    have "onConnect en status ts = (if rc < 0 then closeSocket en (pushLog Error (''startRead failed: '' @ uv_describe (te_uv en) rc) ts3) else ts3)"
      using False sk1 rd by (simp add: onConnect_def Let_def ts3_def push_defs)
    then show ?thesis using i3 close_quiet(1) [OF _ q3] by (simp add: client_inv_log)
  qed
qed

lemma timeout_inv:
  assumes inv: "client_inv (ts, ui)" and tm: "ts_connectTimer ts = Some tm" "timer_elapse ms tm = (tm', True)"
  shows "client_inv (onConnectTimeout en (ts\<lparr>ts_connectTimer := Some tm'\<rparr>), ui)"
proof -
  let ?ts = "ts\<lparr>ts_connectTimer := Some tm'\<rparr>"
  have "timer_isActive tm" "\<not> timer_isActive tm'"
    using tm(2) by (auto simp: timer_elapse_def timer_isActive_def split: option.splits if_splits)
  then have i: "client_inv (?ts, ui)" and q: "\<not> active ?ts"
    using inv tm(1) by (auto simp: client_inv_def conn_inv_timer) (auto simp: conn_inv_def active_def)
  then have "client_inv (pushLog Error ''Connect timed out.'' ?ts, ui)" "\<not> active (pushLog Error ''Connect timed out.'' ?ts)"
    by (simp_all add: client_inv_log) (simp add: active_def push_defs)
  then show ?thesis using i close_quiet(3) by (simp add: onConnectTimeout_def)
qed

lemma ended_not_active: "\<not> active (abortUpload en reason level ts) \<longleftrightarrow> ts_expecting ts = ExpNothing"
  "\<not> active (failSession en reason level ts)"
  by (simp_all add: active_def abortUpload_def failSession_def push_defs closeSocket_eq drainRing_def Let_def)

lemma onError_inv:
  assumes inv: "client_inv (ts, ui)"
  shows "client_inv (client_onError en status whence ts, ui)"
proof -
  define ts1 where "ts1 = (if status = kUvEof then
      (if ts_sessionCompleted ts then pushLog Info ''Server closed the connection.'' ts
       else if \<not> (ts_uploading ts \<or> ts_expecting ts \<noteq> ExpNothing) then pushLog Warn ''Server closed the connection (idle timeout).'' ts
       else ts)
     else pushLog Error (whence @ '': '' @ uv_describe (te_uv en) status) ts)"
  have eq: "client_onError en status whence ts = closeSocket en (pushLink Disconnected
      (if ts_uploading ts1 then abortUpload en ''Upload aborted: the connection was lost.'' Error ts1
       else if ts_expecting ts1 \<noteq> ExpNothing then failSession en ''The connection was lost before the result arrived.'' Error ts1 else ts1))"
    unfolding client_onError_def Let_def ts1_def ..
  have i1: "client_inv (ts1, ui)" using inv by (simp add: ts1_def client_inv_log)
  have ex: "ts_expecting ts1 = ExpNothing" if "ts_uploading ts1" using i1 that by (simp add: client_inv_def recv_inv_def)
  show ?thesis
    unfolding eq
  proof (rule close_quiet(2))
    have "client_inv (abortUpload en reason level ts1, ui)" if "ts_uploading ts1" for reason level
      using abortUpload_inv [OF end_ok_inv [OF i1]] i1 that ex by (simp add: client_inv_def)
    then show "client_inv ((if ts_uploading ts1 then abortUpload en ''Upload aborted: the connection was lost.'' Error ts1
       else if ts_expecting ts1 \<noteq> ExpNothing then failSession en ''The connection was lost before the result arrived.'' Error ts1 else ts1), ui)"
      using i1 failSession_inv [OF end_ok_inv [OF i1]] by simp
    show "\<not> active (if ts_uploading ts1 then abortUpload en ''Upload aborted: the connection was lost.'' Error ts1
       else if ts_expecting ts1 \<noteq> ExpNothing then failSession en ''The connection was lost before the result arrived.'' Error ts1 else ts1)"
      using ended_not_active ex by (simp add: active_def)
  qed
qed

lemma client_inv_inFlight [simp]: "client_inv (ts\<lparr>ts_inFlightWrites := n\<rparr>, ui) = client_inv (ts, ui)"
  using stream_cong [of "ts\<lparr>ts_inFlightWrites := n\<rparr>" ts]
  by (simp add: client_inv_def conn_inv_def shown_eq active_def usable_def recv_inv_def up_inv_def streaming_def
      upload_header_def sent_all_def payload_def)

lemma client_sendComplete_inv:
  assumes "te_ok en" "client_inv (ts, ui)"
  shows "client_inv (client_onSendComplete en status ts, ui)"
proof -
  define ts1 where "ts1 = (if ts_inFlightWrites ts > 0 then ts\<lparr>ts_inFlightWrites := ts_inFlightWrites ts - 1\<rparr> else ts)"
  have i: "client_inv (ts1, ui)" using assms(2) by (simp add: ts1_def)
  have "client_inv (abortUpload en reason level ts1, ui)" if "ts_uploading ts1" for reason level
    using abortUpload_inv [OF end_ok_inv [OF i]] i that by (simp add: client_inv_def recv_inv_def)
  then show ?thesis
    using i pumpUpload_inv [OF assms(1) i] by (simp add: client_onSendComplete_def Let_def flip: ts1_def)
qed

lemma written_inv:
  assumes "client_inv (ts, ui)"
  shows "client_inv (ts\<lparr>ts_socket := map_option onWriteCb (ts_socket ts)\<rparr>, ui)"
proof -
  let ?ts = "ts\<lparr>ts_socket := map_option onWriteCb (ts_socket ts)\<rparr>"
  have st: "stream ?ts = stream ts" by (simp add: stream_def onWriteCb_def split: option.splits)
  have us: "usable ?ts = usable ts" by (simp add: usable_def onWriteCb_def split: option.splits)
  have c: "conn_inv (ts, ui)" using assms by (simp add: client_inv_def)
  have v: "\<forall>sk. ts_socket ?ts = Some sk \<longrightarrow> sk_valid sk" using c by (auto simp: conn_inv_def onWriteCb_def)
  have "conn_inv (?ts, ui)"
    by (rule conn_inv_cong [OF c _ _ _ us _ v]) (simp_all add: active_def)
  moreover have "recv_inv ?ts" using assms by (simp add: client_inv_def recv_inv_def)
  moreover have "upload_header ?ts = upload_header ts" "payload ?ts = payload ts" "sent_all ?ts = sent_all ts"
    by (simp_all add: upload_header_def payload_def sent_all_def)
  then have "up_inv ?ts" using assms st by (simp add: client_inv_def up_inv_def streaming_def)
  ultimately show ?thesis by (simp add: client_inv_def)
qed

lemma onWrite_inv:
  assumes "te_ok en" "client_inv (ts, ui)"
  shows "client_inv (client_onWrite en status ts, ui)"
  using client_sendComplete_inv [OF assms(1) written_inv [OF assms(2)]] onError_inv by (simp add: client_onWrite_def Let_def)

lemma onClosed_inv:
  assumes inv: "client_inv (ts, ui)" and sk: "ts_socket ts = Some sk" "sk_closing sk"
  shows "client_inv (client_onClosed ts, ui)"
proof -
  have q: "\<not> active ts" using inv sk by (auto simp: client_inv_def conn_inv_def usable_def)
  have c: "conn_inv (ts, ui)" and ro: "reader_ok (ts_reader ts)" using inv by (simp_all add: client_inv_def up_inv_def)
  have "conn_inv (client_onClosed ts, ui)"
    using c q by (auto simp: client_onClosed_def conn_inv_def push_defs shown_eq usable_def active_def)
  then show ?thesis by (rule quiet_inv [OF inv q]) (simp_all add: client_onClosed_def push_defs ro)
qed

text \<open>The window: what it shows once it has caught up only matters for the connection.\<close>

lemma shown_session: "shown (ts, ui\<lparr>ui_session := Idle\<rparr>) \<in> {shown (ts, ui), (fst (shown (ts, ui)), Idle)}"
proof -
  have "foldl showEvent (l, Idle) es \<in> {foldl showEvent (l, s) es, (fst (foldl showEvent (l, s) es), Idle)}" for l s es
  proof (induction es rule: rev_induct)
    case (snoc e es)
    have "showEvent (fst v, Idle) e \<in> {showEvent v e, (fst (showEvent v e), Idle)}" for v by (cases e) simp_all
    with snoc show ?case by fastforce
  qed simp
  then show ?thesis by (simp add: shown_eq)
qed

lemma client_inv_shown:
  assumes "client_inv (ts, ui)" "shown (ts', ui') \<in> {shown (ts, ui), (fst (shown (ts, ui)), Idle)}" "ts_socket ts' = ts_socket ts"
    "ts_connected ts' = ts_connected ts" "ts_connectTimer ts' = ts_connectTimer ts" "active ts' = active ts"
    "recv_inv ts' = recv_inv ts" "up_inv ts' = up_inv ts"
  shows "client_inv (ts', ui')"
  using assms by (auto simp: client_inv_def conn_inv_def usable_def)

lemma window_frame:
  "recv_inv (post cmd ts) = recv_inv ts" "up_inv (post cmd ts) = up_inv ts" "active (post cmd ts) = active ts"
  "recv_inv (ts\<lparr>ts_events := es\<rparr>) = recv_inv ts" "up_inv (ts\<lparr>ts_events := es\<rparr>) = up_inv ts" "active (ts\<lparr>ts_events := es\<rparr>) = active ts"
  using stream_cong [of "post cmd ts" ts] stream_cong [of "ts\<lparr>ts_events := es\<rparr>" ts]
  by (simp_all add: post_def recv_inv_def up_inv_def active_def streaming_def upload_header_def sent_all_def payload_def)

lemma client_inv_post: "client_inv (post cmd ts, ui) = client_inv (ts, ui)"
  by (simp add: client_inv_def window_frame) (simp add: post_def conn_inv_def shown_eq usable_def active_def)

lemma client_inv_ui [simp]:
  "client_inv (ts, ui_log stamp level t ui) = client_inv (ts, ui)"
  "client_inv (ts, ui\<lparr>ui_filePath := path, ui_fileName := name, ui_fileSize := sz\<rparr>) = client_inv (ts, ui)"
  "client_inv (ts, ui\<lparr>ui_serverIp := ip, ui_serverPort := port\<rparr>) = client_inv (ts, ui)"
  "client_inv (ts, ui\<lparr>ui_logDirty := b\<rparr>) = client_inv (ts, ui)"
  by (simp_all add: client_inv_def conn_inv_def shown_eq)

lemma client_step_inv:
  assumes "client_step c c'" "client_inv c"
  shows "client_inv c'"
  using assms
proof (induction rule: client_step.induct)
  case (pump c stamp)
  obtain ts ui where c: "c = (ts, ui)" by (cases c)
  obtain ui' where e: "pumpWorkerEvents stamp c = (ts\<lparr>ts_events := []\<rparr>, ui')"
    by (simp add: c pumpWorkerEvents_def drainEvents_def)
  have "shown (ts\<lparr>ts_events := []\<rparr>, ui') = shown (ts, ui)" using pump_shown [of stamp c] e c by simp
  then have "shown (ts\<lparr>ts_events := []\<rparr>, ui') \<in> {shown (ts, ui), (fst (shown (ts, ui)), Idle)}" by simp
  from client_inv_shown [OF _ this] pump c show ?case unfolding e by (simp add: window_frame)
next
  case (press_disconnect ui ts)
  have "client_inv (ts, ui\<lparr>ui_session := Idle\<rparr>)"
    using client_inv_shown [OF press_disconnect(2) shown_session] by simp
  then show ?case by (simp add: app_onDisconnect_def client_inv_post)
next
  case (press_connect ui ts stamp)
  then show ?case by (simp add: app_onConnect_def client_inv_post Let_def split: option.split)
qed (simp_all add: client_inv_reader_step onAsync_inv onConnect_inv timeout_inv onBytes_inv onError_inv onWrite_inv onClosed_inv
      app_onBrowse_def app_onSend_def app_onCancelUpload_def app_onRequestResult_def app_onPing_def app_onSaveResult_def clearLogDirty_def Let_def client_inv_post
      split: sum.split)

lemma client_inv_start: "client_inv (newTransferService, newUiState)"
  using reader_ok_new
  by (simp add: client_inv_def conn_inv_def shown_eq active_def usable_def recv_inv_def up_inv_def newTransferService_def newUiState_def)

lemma client_reach_inv: "client_reach c \<Longrightarrow> client_inv c"
  by (induction rule: client_reach.induct) (simp_all add: client_inv_start client_step_inv)

end
