(* ===== verification/ClientReceive.thy ===== *)
theory ClientReceive
  imports ClientSafety
begin

text \<open>
  The answer of the server through the client: however TCP cuts the acknowledgement, the result header and
  the result, and wherever the connection breaks in between, the client ends with the result, asking for no
  byte of it twice.
\<close>

section \<open>What is still to come\<close>

definition result_header :: "string \<Rightarrow> string" where
  "result_header full = encodeResultHeader \<lparr>rh_csvSize = of_nat (length full), rh_crc32 = crc32 0 full\<rparr>"

definition ok_ack :: "u64 \<Rightarrow> string" where
  "ok_ack n = encodeAck \<lparr>ack_status = AckOk, ack_receivedBytes = n\<rparr>"

definition at_ack :: "u64 \<Rightarrow> nat \<Rightarrow> TransferService \<Rightarrow> bool" where
  "at_ack n k ts \<longleftrightarrow> ts_expecting ts = ExpAck \<and> \<not> ts_uploading ts \<and> k < length (ok_ack n) \<and> ts_csv ts = [] \<and>
    ts_framer ts = (newFramer AckMsg AckMsg)\<lparr>fr_buffer := take k (ok_ack n)\<rparr>"

definition at_result_header :: "string \<Rightarrow> nat \<Rightarrow> TransferService \<Rightarrow> bool" where
  "at_result_header full k ts \<longleftrightarrow> ts_expecting ts = ExpResultHeader \<and> \<not> ts_uploading ts \<and> k < length (result_header full) \<and> ts_hasClaim ts \<and> ts_csv ts = [] \<and>
    ts_framer ts = (newFramer ResultHeaderMsg ResultHeaderMsg)\<lparr>fr_buffer := take k (result_header full)\<rparr>"

definition at_reply :: "string \<Rightarrow> nat \<Rightarrow> TransferService \<Rightarrow> bool" where
  "at_reply full k ts \<longleftrightarrow> ts_expecting ts = ExpResumeReply \<and> \<not> ts_uploading ts \<and> k < length (result_header full) \<and> ts_hasClaim ts \<and> prefix (ts_csv ts) full \<and>
    ts_framer ts = (newFramer AckMsg ResultHeaderMsg)\<lparr>fr_buffer := take k (result_header full)\<rparr>"

definition at_csv :: "string \<Rightarrow> TransferService \<Rightarrow> bool" where
  "at_csv full ts \<longleftrightarrow> ts_expecting ts = ExpCsvPayload \<and> \<not> ts_uploading ts \<and> ts_hasClaim ts \<and> strict_prefix (ts_csv ts) full \<and>
    ts_csvSize ts = of_nat (length full) \<and> ts_csvExpectedCrc ts = crc32 0 full"

definition at_done :: "string \<Rightarrow> TransferService \<Rightarrow> bool" where
  "at_done full ts \<longleftrightarrow> ts_resultCsv ts = full \<and> ts_expecting ts = ExpNothing \<and> \<not> ts_hasClaim ts"

definition awaits :: "bool \<Rightarrow> string \<Rightarrow> string \<Rightarrow> TransferService \<Rightarrow> bool" where
  "awaits b full to_come ts \<longleftrightarrow>
    (\<exists>n k. at_ack n k ts \<and> to_come = drop k (ok_ack n) @ result_header full @ full) \<or>
    (\<exists>k. at_result_header full k ts \<and> to_come = drop k (result_header full) @ full) \<or>
    b \<and> (\<exists>k. at_reply full k ts \<and> to_come = drop k (result_header full) @ drop (length (ts_csv ts)) full) \<or>
    at_csv full ts \<and> to_come = drop (length (ts_csv ts)) full \<or>
    at_done full ts \<and> to_come = []"

lemma awaits_intros:
  "at_ack n k ts \<Longrightarrow> awaits b full (drop k (ok_ack n) @ result_header full @ full) ts"
  "at_result_header full k ts \<Longrightarrow> awaits b full (drop k (result_header full) @ full) ts"
  "at_reply full k ts \<Longrightarrow> b \<Longrightarrow> awaits b full (drop k (result_header full) @ drop (length (ts_csv ts)) full) ts"
  "at_csv full ts \<Longrightarrow> awaits b full (drop (length (ts_csv ts)) full) ts" "at_done full ts \<Longrightarrow> awaits b full [] ts"
  unfolding awaits_def by blast+

lemma result_header_pos: "0 < length (result_header full)"
proof -
  have "8 \<le> length (result_header full)"
    unfolding result_header_def using resultHeader.enc_fields(4) unfolding kPreambleSize_def .
  then show ?thesis by linarith
qed

lemma framerReset_new: "framerReset t f = newFramer t t" "framerReset2 a b f = newFramer a b"
  by (cases f; simp add: framerReset_def framerReset2_def newFramer_def)+

lemma newFramer_fields [simp]:
  "fr_expected (newFramer a b) = a" "fr_alternate (newFramer a b) = b" "fr_status (newFramer a b) = NeedMoreData"
  "fr_buffer (newFramer a b) = []" "(newFramer a b)\<lparr>fr_buffer := []\<rparr> = newFramer a b"
  by (simp_all add: newFramer_def)

section \<open>One message at a time\<close>

lemma feed_message:
  assumes d: "data @ rst = drop k e @ later" and k: "k < length e" and ne: "data \<noteq> []"
    and f: "\<And>c tl. c = take (length c) (drop k e @ tl) \<Longrightarrow> feed fr c =
      (if k + length c < length e then (fr\<lparr>fr_buffer := take (k + length c) e\<rparr>, length c)
       else (fr\<lparr>fr_buffer := e, fr_status := Ok\<rparr>, length e - k))"
  obtains (part) "feed fr data = (fr\<lparr>fr_buffer := take (k + length data) e\<rparr>, length data)" "k + length data < length e"
      "rst = drop (k + length data) e @ later"
  | (whole) "feed fr data = (fr\<lparr>fr_buffer := e, fr_status := Ok\<rparr>, length e - k)" "0 < length e - k" "length e - k \<le> length data"
      "drop (length e - k) data @ rst = later"
proof (cases "k + length data < length e")
  case True
  have "data = take (length data) (drop k e @ later)" using d by (metis append_eq_conv_conj)
  moreover have "rst = drop (length data) (drop k e @ later)" using d by (metis append_eq_conv_conj)
  ultimately show thesis using True f [of data later] by (intro part) (simp_all add: add.commute)
next
  case False
  have "data = take (length data) (drop k e @ later)" using d by (metis append_eq_conv_conj)
  moreover have "drop (length e - k) (data @ rst) = later" unfolding d using k by simp
  ultimately show thesis using False k f [of data later] by (intro whole) auto
qed

lemma onBytes_Nil [simp]: "onBytes en [] ts = ts"
  by (simp add: onBytes.simps)

lemma onBytes_more: "n \<noteq> 0 \<Longrightarrow> data \<noteq> [] \<Longrightarrow> (case ts_expecting ts of ExpAck \<Rightarrow> Some (handleAckBytes en data ts)
      | ExpResultHeader \<Rightarrow> Some (handleResultHeaderBytes en data ts) | ExpCsvPayload \<Rightarrow> Some (handleCsvBytes en data ts)
      | ExpResumeReply \<Rightarrow> Some (handleResumeReplyBytes en data ts) | ExpNothing \<Rightarrow> None) = Some (n, ts') \<Longrightarrow>
    onBytes en data ts = onBytes en (drop n data) ts'"
  by (simp add: onBytes.simps [of en data])

lemma finishDownload_done:
  assumes "ts_csv ts = full" "ts_csvExpectedCrc ts = crc32 0 full"
  shows "at_done full (finishDownload en ts)"
proof -
  let ?ts1 = "dropResultClaim (ts\<lparr>ts_resultCsv := ts_csv ts, ts_csv := [], ts_expecting := ExpNothing\<rparr>)"
  obtain rc s where s: "sendOn en encodeDownloadDone ?ts1 = (rc, ?ts1\<lparr>ts_socket := s\<rparr>)"
  proof (cases "ts_socket ?ts1")
    case None
    then have "?ts1\<lparr>ts_socket := None\<rparr> = ?ts1" by (cases ?ts1) simp
    with None show thesis by (intro that [of kUvEinval None]) (simp add: sendOn_def)
  next
    case (Some sk)
    then show thesis by (intro that [of "fst (sock_send (te_uv en) encodeDownloadDone sk)" "Some (snd (sock_send (te_uv en) encodeDownloadDone sk))"])
      (simp add: sendOn_def split: prod.split)
  qed
  then show ?thesis
    using assms
    by (simp add: finishDownload_def at_done_def Let_def failSession_def push_defs closeSocket_eq dropResultClaim_def drainRing_def)
qed

lemma size_fits:
  assumes "length full \<le> unat kMaxCsvSize"
  shows "unat (of_nat (length full) :: u64) = length full" "(of_nat (length full) :: u64) \<le> kMaxCsvSize"
proof -
  have "length full < 2 ^ 64" using assms by (simp add: kMaxCsvSize_def)
  then show "unat (of_nat (length full) :: u64) = length full" by (simp add: unat_of_nat)
  then show "(of_nat (length full) :: u64) \<le> kMaxCsvSize" using assms by (simp add: word_le_nat_alt)
qed

lemma receive_begins:
  assumes fit: "length full \<le> unat kMaxCsvSize" and cl: "ts_hasClaim ts" "\<not> ts_uploading ts" and p: "prefix (ts_csv ts) full" "\<not> resuming \<longrightarrow> ts_csv ts = []"
  shows "\<exists>ts'. beginCsvReceive en \<lparr>rh_csvSize = of_nat (length full), rh_crc32 = crc32 0 full\<rparr> resuming ts = (True, ts') \<and>
    awaits b full (drop (length (ts_csv ts)) full) ts'"
proof -
  let ?h = "\<lparr>rh_csvSize = of_nat (length full), rh_crc32 = crc32 0 full\<rparr>"
  note sz = size_fits [OF fit]
  have "\<not> (kMaxCsvSize < rh_csvSize ?h \<or> resuming \<and> unat (rh_csvSize ?h) < length (ts_csv ts))"
    using sz prefix_length_le [OF p(1)] by (simp add: not_less)
  from beginCsvReceive_ok [OF this p(2), of en] obtain t where t: "beginCsvReceive en ?h resuming ts =
      (True, let ts4 = receiving ?h t ts in if length (ts_csv ts4) = unat (ts_csvSize ts4) then finishDownload en ts4 else ts4)"
    by blast
  let ?ts4 = "receiving ?h t ts"
  have f: "ts_csv ?ts4 = ts_csv ts" "ts_csvSize ?ts4 = of_nat (length full)" "ts_csvExpectedCrc ?ts4 = crc32 0 full"
    "ts_expecting ?ts4 = ExpCsvPayload" "ts_hasClaim ?ts4" "\<not> ts_uploading ?ts4"
    using cl by (simp_all add: receiving_def push_defs)
  show ?thesis
  proof (cases "length (ts_csv ts) = length full")
    case True
    then have "ts_csv ts = full" using p(1) by (metis prefix_def append_Nil2 append_eq_append_conv length_append add_cancel_left_right length_0_conv)
    then have "at_done full (finishDownload en ?ts4)" using f by (intro finishDownload_done) simp_all
    then show ?thesis using t True f sz by (simp add: awaits_def)
  next
    case False
    then have "strict_prefix (ts_csv ts) full" using p(1) by (auto simp: strict_prefix_def)
    then have "awaits b full (drop (length (ts_csv ts)) full) ?ts4" using f by (simp add: awaits_def at_csv_def)
    then show ?thesis using t False f sz by simp
  qed
qed

lemma step_ack:
  assumes fit: "length full \<le> unat kMaxCsvSize" and a: "at_ack n k ts" and d: "data @ rst = drop k (ok_ack n) @ result_header full @ full" and ne: "data \<noteq> []"
  shows "\<exists>m ts'. handleAckBytes en data ts = (m, ts') \<and> 0 < m \<and> m \<le> length data \<and> awaits b full (drop m data @ rst) ts'"
proof -
  note a' = a [unfolded at_ack_def]
  let ?f = "(newFramer AckMsg AckMsg)\<lparr>fr_buffer := take k (ok_ack n)\<rparr>"
  have k: "k < length (ok_ack n)" and fr: "ts_framer ts = ?f" using a' by simp_all
  have f: "feed ?f c = (if k + length c < length (ok_ack n) then (?f\<lparr>fr_buffer := take (k + length c) (ok_ack n)\<rparr>, length c)
       else (?f\<lparr>fr_buffer := ok_ack n, fr_status := Ok\<rparr>, length (ok_ack n) - k))" if "c = take (length c) (drop k (ok_ack n) @ tl)" for c tl
    unfolding ok_ack_def by (rule ack.feed_next) (use that k in \<open>simp_all add: ok_ack_def\<close>)
  show ?thesis
  proof (rule feed_message [OF d k ne f])
    let ?ts1 = "ts\<lparr>ts_framer := ?f\<lparr>fr_buffer := take (k + length data) (ok_ack n)\<rparr>\<rparr>"
    assume p: "feed ?f data = (?f\<lparr>fr_buffer := take (k + length data) (ok_ack n)\<rparr>, length data)" "k + length data < length (ok_ack n)"
      "rst = drop (k + length data) (ok_ack n) @ result_header full @ full"
    then have "at_ack n (k + length data) ?ts1" using a' by (simp add: at_ack_def)
    moreover have "handleAckBytes en data ts = (length data, ?ts1)" using p(1) by (simp add: handleAckBytes_def fr Let_def)
    ultimately show ?thesis using ne awaits_intros(1) p(3) by auto
  next
    assume w: "feed ?f data = (?f\<lparr>fr_buffer := ok_ack n, fr_status := Ok\<rparr>, length (ok_ack n) - k)" "0 < length (ok_ack n) - k"
      "length (ok_ack n) - k \<le> length data" "drop (length (ok_ack n) - k) data @ rst = result_header full @ full"
    have dec: "decodeAck (ok_ack n) = Inr \<lparr>ack_status = AckOk, ack_receivedBytes = n\<rparr>"
      using ack.dec_enc [of _ "[]"] by (simp add: ok_ack_def)
    obtain ts' where h: "handleAckBytes en data ts = (length (ok_ack n) - k, ts')" and e: "ts_expecting ts' = ExpResultHeader"
      "ts_hasClaim ts'" "ts_csv ts' = []" "\<not> ts_uploading ts'" "ts_framer ts' = newFramer ResultHeaderMsg ResultHeaderMsg"
      using a' w(1) dec by (simp add: handleAckBytes_def fr Let_def message_def framerReset_new push_defs)
    have "at_result_header full 0 ts'" using e result_header_pos by (simp add: at_result_header_def)
    from awaits_intros(2) [OF this] have "awaits b full (result_header full @ full) ts'" by simp
    then show ?thesis using h w by auto
  qed
qed

lemma step_header:
  assumes fit: "length full \<le> unat kMaxCsvSize" and a: "at_result_header full k ts" and d: "data @ rst = drop k (result_header full) @ full" and ne: "data \<noteq> []"
  shows "\<exists>m ts'. handleResultHeaderBytes en data ts = (m, ts') \<and> 0 < m \<and> m \<le> length data \<and> awaits b full (drop m data @ rst) ts'"
proof -
  note a' = a [unfolded at_result_header_def]
  let ?f = "(newFramer ResultHeaderMsg ResultHeaderMsg)\<lparr>fr_buffer := take k (result_header full)\<rparr>"
  have k: "k < length (result_header full)" and fr: "ts_framer ts = ?f" using a' by simp_all
  have f: "feed ?f c = (if k + length c < length (result_header full) then (?f\<lparr>fr_buffer := take (k + length c) (result_header full)\<rparr>, length c)
       else (?f\<lparr>fr_buffer := result_header full, fr_status := Ok\<rparr>, length (result_header full) - k))"
    if "c = take (length c) (drop k (result_header full) @ tl)" for c tl
    unfolding result_header_def by (rule resultHeader.feed_next) (use that k in \<open>simp_all add: result_header_def\<close>)
  show ?thesis
  proof (rule feed_message [OF d k ne f])
    let ?ts1 = "ts\<lparr>ts_framer := ?f\<lparr>fr_buffer := take (k + length data) (result_header full)\<rparr>\<rparr>"
    assume p: "feed ?f data = (?f\<lparr>fr_buffer := take (k + length data) (result_header full)\<rparr>, length data)" "k + length data < length (result_header full)"
      "rst = drop (k + length data) (result_header full) @ full"
    then have "at_result_header full (k + length data) ?ts1" using a' by (simp add: at_result_header_def)
    moreover have "handleResultHeaderBytes en data ts = (length data, ?ts1)" using p(1) by (simp add: handleResultHeaderBytes_def fr Let_def)
    ultimately show ?thesis using ne awaits_intros(2) p(3) by auto
  next
    assume w: "feed ?f data = (?f\<lparr>fr_buffer := result_header full, fr_status := Ok\<rparr>, length (result_header full) - k)"
      "0 < length (result_header full) - k" "length (result_header full) - k \<le> length data"
      "drop (length (result_header full) - k) data @ rst = full"
    have dec: "decodeResultHeader (result_header full) = Inr \<lparr>rh_csvSize = of_nat (length full), rh_crc32 = crc32 0 full\<rparr>"
      using resultHeader.dec_enc [of _ "[]"] by (simp add: result_header_def)
    let ?ts1 = "ts\<lparr>ts_framer := ?f\<lparr>fr_buffer := result_header full, fr_status := Ok\<rparr>\<rparr>"
    from receive_begins [OF fit, of ?ts1 False en] a' obtain ts' where
      bg: "beginCsvReceive en \<lparr>rh_csvSize = of_nat (length full), rh_crc32 = crc32 0 full\<rparr> False ?ts1 = (True, ts')" "awaits b full full ts'"
      by auto
    have "handleResultHeaderBytes en data ts = (length (result_header full) - k, ts')"
      using w(1) dec bg(1) by (simp add: handleResultHeaderBytes_def fr Let_def message_def)
    then show ?thesis using w bg(2) by auto
  qed
qed

lemma step_reply:
  assumes fit: "length full \<le> unat kMaxCsvSize" and a: "at_reply full k ts" and b: b
    and d: "data @ rst = drop k (result_header full) @ drop (length (ts_csv ts)) full" and ne: "data \<noteq> []"
  shows "\<exists>m ts'. handleResumeReplyBytes en data ts = (m, ts') \<and> 0 < m \<and> m \<le> length data \<and> awaits b full (drop m data @ rst) ts'"
proof -
  note a' = a [unfolded at_reply_def]
  let ?f = "(newFramer AckMsg ResultHeaderMsg)\<lparr>fr_buffer := take k (result_header full)\<rparr>"
  have k: "k < length (result_header full)" and fr: "ts_framer ts = ?f" using a' by simp_all
  have f: "feed ?f c = (if k + length c < length (result_header full) then (?f\<lparr>fr_buffer := take (k + length c) (result_header full)\<rparr>, length c)
       else (?f\<lparr>fr_buffer := result_header full, fr_status := Ok\<rparr>, length (result_header full) - k))"
    if "c = take (length c) (drop k (result_header full) @ tl)" for c tl
    unfolding result_header_def by (rule resultHeader.feed_next) (use that k in \<open>simp_all add: result_header_def\<close>)
  show ?thesis
  proof (rule feed_message [OF d k ne f])
    let ?ts1 = "ts\<lparr>ts_framer := ?f\<lparr>fr_buffer := take (k + length data) (result_header full)\<rparr>\<rparr>"
    assume p: "feed ?f data = (?f\<lparr>fr_buffer := take (k + length data) (result_header full)\<rparr>, length data)" "k + length data < length (result_header full)"
      "rst = drop (k + length data) (result_header full) @ drop (length (ts_csv ts)) full"
    then have "at_reply full (k + length data) ?ts1" using a' by (simp add: at_reply_def)
    moreover have "handleResumeReplyBytes en data ts = (length data, ?ts1)" using p(1) by (simp add: handleResumeReplyBytes_def fr Let_def)
    ultimately show ?thesis using ne awaits_intros(3) [of full "k + length data" ?ts1, OF _ b] p(3) by auto
  next
    assume w: "feed ?f data = (?f\<lparr>fr_buffer := result_header full, fr_status := Ok\<rparr>, length (result_header full) - k)"
      "0 < length (result_header full) - k" "length (result_header full) - k \<le> length data"
      "drop (length (result_header full) - k) data @ rst = drop (length (ts_csv ts)) full"
    have dec: "decodeResultHeader (result_header full) = Inr \<lparr>rh_csvSize = of_nat (length full), rh_crc32 = crc32 0 full\<rparr>"
      using resultHeader.dec_enc [of _ "[]"] by (simp add: result_header_def)
    let ?g = "?f\<lparr>fr_buffer := result_header full, fr_status := Ok\<rparr>"
    have mt: "messageType ?g = Some ResultHeaderMsg"
      using resultHeader.enc_fields(3) by (simp add: messageType_def result_header_def type_of_code_def)
    from receive_begins [OF fit, of "ts\<lparr>ts_framer := ?g\<rparr>" True en] a' obtain ts' where
      bg: "beginCsvReceive en \<lparr>rh_csvSize = of_nat (length full), rh_crc32 = crc32 0 full\<rparr> True (ts\<lparr>ts_framer := ?g\<rparr>) = (True, ts')"
        "awaits b full (drop (length (ts_csv ts)) full) ts'"
      by auto
    have "handleResumeReplyBytes en data ts = (length (result_header full) - k, ts')"
      using w(1) dec bg(1) mt by (simp add: handleResumeReplyBytes_def fr Let_def message_def)
    then show ?thesis using w bg(2) by auto
  qed
qed

lemma step_csv:
  assumes fit: "length full \<le> unat kMaxCsvSize" and a: "at_csv full ts" and d: "data @ rst = drop (length (ts_csv ts)) full" and ne: "data \<noteq> []"
  shows "\<exists>m ts'. handleCsvBytes en data ts = (m, ts') \<and> 0 < m \<and> m \<le> length data \<and> awaits b full (drop m data @ rst) ts'"
proof -
  note a' = a [unfolded at_csv_def]
  obtain tl where tl: "full = ts_csv ts @ tl" using a' by (auto simp: strict_prefix_def prefix_def)
  then have dt: "data @ rst = tl" using d by simp
  have n: "(if length data < unat (ts_csvSize ts) - length (ts_csv ts) then length data else unat (ts_csvSize ts) - length (ts_csv ts)) = length data"
    using a' size_fits(1) [OF fit] tl dt by auto
  define ts2 where "ts2 = ts\<lparr>ts_csv := ts_csv ts @ data, ts_claim := (ts_claim ts)\<lparr>cl_received := of_nat (length (ts_csv ts @ data))\<rparr>\<rparr>"
  have h: "handleCsvBytes en data ts = (length data, if length (ts_csv ts @ data) = length full then finishDownload en ts2 else ts2)"
    unfolding handleCsvBytes_def Let_def n using a' size_fits(1) [OF fit] by (simp add: ts2_def)
  have "awaits b full rst (if length (ts_csv ts @ data) = length full then finishDownload en ts2 else ts2)"
  proof (cases "rst = []")
    case True
    then have "ts_csv ts @ data = full" using dt tl by simp
    then have "at_done full (finishDownload en ts2)" using a' by (intro finishDownload_done) (simp_all add: ts2_def)
    then show ?thesis using True \<open>ts_csv ts @ data = full\<close> awaits_intros(5) by simp
  next
    case False
    have e: "full = (ts_csv ts @ data) @ rst" using dt tl by simp
    have "length (ts_csv ts @ data) \<noteq> length full" by (subst e) (use False in simp)
    moreover have "strict_prefix (ts_csv ts @ data) full" using e False by (metis strict_prefixI' strict_prefix_def prefixI self_append_conv)
    then have "at_csv full ts2" using a' by (simp add: at_csv_def ts2_def)
    from awaits_intros(4) [OF this] have "awaits b full rst ts2" using e by (simp add: ts2_def)
    ultimately show ?thesis by simp
  qed
  then show ?thesis using h ne by auto
qed

lemma onBytes_awaits:
  assumes "length full \<le> unat kMaxCsvSize" "awaits b full (data @ rst) ts"
  shows "awaits b full rst (onBytes en data ts)"
  using assms(2)
proof (induction "length data" arbitrary: data ts rule: less_induct)
  case less
  show ?case
  proof (cases "data = []")
    case True
    then show ?thesis using less.prems by simp
  next
    case ne: False
    from less.prems consider
        (ack) n k where "at_ack n k ts" "data @ rst = drop k (ok_ack n) @ result_header full @ full"
      | (header) k where "at_result_header full k ts" "data @ rst = drop k (result_header full) @ full"
      | (reply) k where "at_reply full k ts" b "data @ rst = drop k (result_header full) @ drop (length (ts_csv ts)) full"
      | (csv) "at_csv full ts" "data @ rst = drop (length (ts_csv ts)) full"
      using ne unfolding awaits_def by blast
    then obtain m ts' where m: "(case ts_expecting ts of ExpAck \<Rightarrow> Some (handleAckBytes en data ts)
        | ExpResultHeader \<Rightarrow> Some (handleResultHeaderBytes en data ts) | ExpCsvPayload \<Rightarrow> Some (handleCsvBytes en data ts)
        | ExpResumeReply \<Rightarrow> Some (handleResumeReplyBytes en data ts) | ExpNothing \<Rightarrow> None) = Some (m, ts')"
      "0 < m" "m \<le> length data" "awaits b full (drop m data @ rst) ts'"
    proof cases
      case ack
      from step_ack [OF assms(1) ack ne, where b = b and en = en] ack(1) show thesis by (auto simp: at_ack_def intro: that)
    next
      case header
      from step_header [OF assms(1) header ne, where b = b and en = en] header(1) show thesis by (auto simp: at_result_header_def intro: that)
    next
      case reply
      from step_reply [OF assms(1) reply ne, of en] reply(1) show thesis by (auto simp: at_reply_def intro: that)
    next
      case csv
      from step_csv [OF assms(1) csv ne, where b = b and en = en] csv(1) show thesis by (auto simp: at_csv_def intro: that)
    qed
    have "awaits b full rst (onBytes en (drop m data) ts')" by (rule less.hyps) (use m ne in auto)
    then show ?thesis using onBytes_more [OF _ ne m(1)] m(2) by simp
  qed
qed

section \<open>Chunks and interruptions\<close>

text \<open>Chunks as they arrive, each with what libuv answers meanwhile.\<close>

definition receive :: "(ClientEnv \<times> string) list \<Rightarrow> TransferService \<Rightarrow> TransferService" where
  "receive cs ts = foldl (\<lambda>ts (en, data). onBytes en data ts) ts cs"

lemma receive_awaits:
  assumes "length full \<le> unat kMaxCsvSize"
  shows "awaits b full (concat (map snd cs) @ rst) ts \<Longrightarrow> awaits b full rst (receive cs ts)"
  unfolding receive_def
proof (induction cs arbitrary: ts)
  case (Cons c cs)
  obtain en data where c: "c = (en, data)" by (cases c)
  have "awaits b full (concat (map snd cs) @ rst) (onBytes en data ts)"
    by (rule onBytes_awaits [OF assms]) (use Cons.prems c in simp)
  from Cons.IH [OF this] show ?case by (simp add: c)
qed simp

lemma awaits_Nil: "awaits b full [] ts \<Longrightarrow> at_done full ts"
  using result_header_pos [of full] by (auto simp: awaits_def at_ack_def at_result_header_def at_reply_def at_csv_def strict_prefix_def prefix_def)

text \<open>The connection breaks, the user connects again and asks for the result.\<close>

definition come_back :: "ClientEnv \<Rightarrow> int \<Rightarrow> string \<Rightarrow> u16 \<Rightarrow> TransferService \<Rightarrow> TransferService" where
  "come_back en status ip port ts = handleRequestResult en (onConnect en 0 (handleConnect en ip port
    (client_onClosed (client_onError en status ''read'' ts))))"

definition net_ok :: "ClientEnv \<Rightarrow> bool" where
  "net_ok en \<longleftrightarrow> te_socketOk en \<and> te_connect en = 0 \<and> uv_read_start (te_uv en) = 0 \<and> (\<forall>k. uv_write (te_uv en) k = 0)"

definition request_for :: "nat \<Rightarrow> TransferService \<Rightarrow> string" where
  "request_for m ts = encodeResultRequest \<lparr>rr_fileSize = cl_fileSize (ts_claim ts), rr_crc32 = cl_crc32 (ts_claim ts),
    rr_startOffset = of_nat m, rr_filename = cl_filename (ts_claim ts)\<rparr>"

lemma lost_claim:
  assumes "ts_hasClaim ts" "\<not> ts_uploading ts" "ts_expecting ts \<noteq> ExpNothing"
  shows "let t = client_onClosed (client_onError en status whence ts) in ts_hasClaim t \<and> \<not> ts_uploading t \<and> ts_csv t = ts_csv ts \<and> ts_socket t = None \<and>
    ts_claim t = (ts_claim ts)\<lparr>cl_received := of_nat (length (ts_csv ts))\<rparr>"
  using assms
  by (simp add: client_onClosed_def client_onError_def failSession_def push_defs closeSocket_eq Let_def)

lemma come_back_reply:
  fixes status :: int and ip :: string and port :: u16
  assumes net: "net_ok en" and cl: "ts_hasClaim ts" "\<not> ts_uploading ts" "ts_expecting ts \<noteq> ExpNothing" and p: "prefix (ts_csv ts) full"
  defines "t \<equiv> come_back en status ip port ts"
  shows "at_reply full 0 t" "ts_csv t = ts_csv ts" "\<exists>sk. ts_socket t = Some sk \<and> sk_written sk = [request_for (length (ts_csv ts)) ts]"
proof -
  define t0 where "t0 = client_onClosed (client_onError en status ''read'' ts)"
  have t0: "ts_hasClaim t0" "\<not> ts_uploading t0" "ts_csv t0 = ts_csv ts" "ts_socket t0 = None"
    "ts_claim t0 = (ts_claim ts)\<lparr>cl_received := of_nat (length (ts_csv ts))\<rparr>"
    using lost_claim [OF cl, of en status "''read''"] by (simp_all add: t0_def Let_def)
  define t1 where "t1 = onConnect en 0 (handleConnect en ip port t0)"
  have t1: "ts_hasClaim t1" "\<not> ts_uploading t1" "ts_csv t1 = ts_csv ts" "ts_claim t1 = ts_claim t0"
    "ts_socket t1 = Some ((newSocket True)\<lparr>sk_reading := True\<rparr>)"
    using t0 net
    by (simp_all add: t1_def onConnect_def handleConnect_def beginConnect_def sock_connect_def net_ok_def stopConnectTimer_def Let_def
        push_defs sock_startRead_def newSocket_def)
  have t: "t = handleRequestResult en t1" by (simp add: t_def come_back_def t1_def t0_def)
  show "at_reply full 0 t" "ts_csv t = ts_csv ts"
    using t1 net p result_header_pos [of full]
    by (simp_all add: t handleRequestResult_def sendOn_def sock_send_def newSocket_def net_ok_def Let_def push_defs framerReset_new at_reply_def)
  show "\<exists>sk. ts_socket t = Some sk \<and> sk_written sk = [request_for (length (ts_csv ts)) ts]"
    using t1 t0 net
    by (simp add: t handleRequestResult_def sendOn_def sock_send_def newSocket_def net_ok_def Let_def push_defs request_for_def)
qed

lemma waiting_ack: "ts_expecting ts = ExpAck \<Longrightarrow> \<not> ts_uploading ts \<Longrightarrow> ts_csv ts = [] \<Longrightarrow> ts_framer ts = newFramer AckMsg AckMsg \<Longrightarrow>
    awaits b full (ok_ack n @ result_header full @ full) ts"
proof -
  have "8 \<le> length (ok_ack n)" unfolding ok_ack_def using ack.enc_fields(4) unfolding kPreambleSize_def .
  then have "0 < length (ok_ack n)" by linarith
  moreover assume "ts_expecting ts = ExpAck" "\<not> ts_uploading ts" "ts_csv ts = []" "ts_framer ts = newFramer AckMsg AckMsg"
  ultimately have "at_ack n 0 ts" by (simp add: at_ack_def)
  from awaits_intros(1) [OF this] show ?thesis by simp
qed

text \<open>After the acknowledgement, what has been received is a prefix of the result and its length is known.\<close>

lemma awaits_received:
  assumes w: "awaits False full rst ts" and got: "got @ rst = ok_ack n @ result_header full @ full"
    and l: "length (ok_ack n) \<le> length got" and ne: "rst \<noteq> []"
  shows "ts_hasClaim ts" "\<not> ts_uploading ts" "ts_expecting ts \<noteq> ExpNothing" "prefix (ts_csv ts) full"
    "length (ts_csv ts) = length got - length (ok_ack n) - length (result_header full)"
proof -
  have len: "length got + length rst = length (ok_ack n) + length (result_header full) + length full"
    using arg_cong [OF got, of length] by simp
  have "length (ok_ack k) = length (ok_ack n)" for k by (simp add: ok_ack_def encodeAck_def putPreamble_def)
  then have "\<not> (\<exists>n k. at_ack n k ts \<and> rst = drop k (ok_ack n) @ result_header full @ full)"
    using len l by (auto simp: at_ack_def)
  then consider k where "at_result_header full k ts" "rst = drop k (result_header full) @ full"
    | "at_csv full ts" "rst = drop (length (ts_csv ts)) full"
    using w ne unfolding awaits_def by blast
  then have "ts_hasClaim ts \<and> \<not> ts_uploading ts \<and> ts_expecting ts \<noteq> ExpNothing \<and> prefix (ts_csv ts) full \<and>
    length (ts_csv ts) = length got - length (ok_ack n) - length (result_header full)"
  proof cases
    case 1
    then show ?thesis using len by (auto simp: at_result_header_def)
  next
    case 2
    then have "length (ts_csv ts) \<le> length full" "prefix (ts_csv ts) full"
      using prefix_length_le by (auto simp: at_csv_def strict_prefix_def)
    then show ?thesis using 2 len by (auto simp: at_csv_def)
  qed
  then show "ts_hasClaim ts" "\<not> ts_uploading ts" "ts_expecting ts \<noteq> ExpNothing" "prefix (ts_csv ts) full"
    "length (ts_csv ts) = length got - length (ok_ack n) - length (result_header full)" by simp_all
qed

end
