(* ===== verification/ClientHeader.thy ===== *)
theory ClientHeader
  imports ClientSafety
begin

text \<open>
  The upload header the client sends is one the server accepts: the file dialog lets only valid names and sizes
  through, the window hands on what the dialog gave it, and only the start of an upload sets the name and the
  size to send.
\<close>

section \<open>Only the start of an upload changes its name and size\<close>

text \<open>And no handler of the loop touches the commands that arrive meanwhile.\<close>

definition header_of :: "TransferService \<Rightarrow> UploadHeader" where
  "header_of ts = \<lparr>uh_fileSize = ts_uploadTotal ts, uh_filename = ts_uploadFilename ts\<rparr>"

definition sending :: "TransferService \<Rightarrow> bool" where
  "sending ts \<longleftrightarrow> ts_uploading ts \<or> ts_expecting ts = ExpAck"

definition keeps :: "TransferService \<Rightarrow> TransferService \<Rightarrow> bool" where
  "keeps ts ts' \<longleftrightarrow> header_of ts' = header_of ts \<and> ts_commands ts' = ts_commands ts \<and> (sending ts' \<longrightarrow> sending ts)"

lemmas keeps_defs = keeps_def header_of_def sending_def

lemma keeps_trans [trans]: "keeps a b \<Longrightarrow> keeps b c \<Longrightarrow> keeps a c"
  by (simp add: keeps_def)

lemma sendOn_frame [simp]:
  "ts_uploadTotal (snd (sendOn en b ts)) = ts_uploadTotal ts" "ts_uploadFilename (snd (sendOn en b ts)) = ts_uploadFilename ts"
  "ts_uploading (snd (sendOn en b ts)) = ts_uploading ts" "ts_expecting (snd (sendOn en b ts)) = ts_expecting ts"
  "ts_commands (snd (sendOn en b ts)) = ts_commands ts"
  by (simp_all add: sendOn_def split: option.split prod.split)

lemma closeSocket_frame [simp]:
  "ts_uploadTotal (closeSocket en ts) = ts_uploadTotal ts" "ts_uploadFilename (closeSocket en ts) = ts_uploadFilename ts"
  "ts_uploading (closeSocket en ts) = ts_uploading ts" "ts_expecting (closeSocket en ts) = ts_expecting ts"
  "ts_commands (closeSocket en ts) = ts_commands ts"
  by (simp_all add: closeSocket_eq)

lemma keeps_refl [simp]: "keeps ts ts" by (simp add: keeps_def)

lemma keeps_push [simp]: "keeps ts0 (pushLog level t ts) = keeps ts0 ts" "keeps ts0 (pushLink link ts) = keeps ts0 ts"
  "keeps ts0 (pushSession session ts) = keeps ts0 ts" "keeps ts0 (pushEvent e ts) = keeps ts0 ts"
  "keeps (pushLog level t ts) ts0 = keeps ts ts0" "keeps ts0 (closeSocket en ts) = keeps ts0 ts"
  by (simp_all add: keeps_defs push_defs)

lemma keeps_abort [simp]: "keeps ts (abortUpload en reason level ts)"
  by (simp add: keeps_defs abortUpload_def push_defs drainRing_def)

lemma keeps_fail [simp]: "keeps ts (failSession en reason level ts)"
  by (simp add: keeps_defs failSession_def push_defs drainRing_def Let_def)

lemma keeps_sendOn [simp]: "keeps ts (snd (sendOn en b ts))"
  by (simp add: keeps_defs)

lemma keeps_finishUpload: "ts_uploading ts \<Longrightarrow> keeps ts (finishUpload en ts)"
  by (simp add: keeps_defs finishUpload_def abortUpload_def push_defs drainRing_def Let_def split_beta)

lemma keeps_pumpLoop: "pumpLoop en ts = (aborted, ts') \<Longrightarrow> keeps ts ts' \<and> (\<not> aborted \<longrightarrow> ts_uploading ts' = ts_uploading ts)"
proof (induction en ts rule: pumpLoop.induct)
  case (1 en ts)
  show ?case
  proof (cases "ts_inFlightWrites ts < kMaxInFlightWrites \<and> tryPeek (rd_ring (ts_reader ts)) \<noteq> None")
    case False
    then show ?thesis using 1(2) by (auto simp: pumpLoop.simps [of en ts] split: if_splits)
  next
    case True
    then obtain chunk where pk: "tryPeek (rd_ring (ts_reader ts)) = Some chunk" and fl: "ts_inFlightWrites ts < kMaxInFlightWrites"
      by auto
    obtain rc ts1 where s: "sendOn en chunk (ts\<lparr>ts_uploadCrc := crc32 (ts_uploadCrc ts) chunk\<rparr>) = (rc, ts1)" by fastforce
    let ?ts2 = "ts1\<lparr>ts_inFlightWrites := ts_inFlightWrites ts1 + 1, ts_reader := notifySpaceAvailable (releaseSlot (ts_reader ts1))\<rparr>"
    let ?ts3 = "?ts2\<lparr>ts_uploadSent := ts_uploadSent ?ts2 + of_nat (length chunk)\<rparr>"
    have "keeps ts ts1" "ts_uploading ts1 = ts_uploading ts"
      using sendOn_frame [of en chunk "ts\<lparr>ts_uploadCrc := crc32 (ts_uploadCrc ts) chunk\<rparr>"] s by (simp_all add: keeps_defs)
    then have k: "keeps ts ?ts2" "keeps ts ?ts3" "ts_uploading ?ts3 = ts_uploading ts" by (simp_all add: keeps_defs)
    show ?thesis
    proof (cases "rc < 0")
      case True
      then show ?thesis using 1(2) pk fl s keeps_trans [OF k(1) keeps_abort] by (auto simp: pumpLoop.simps [of en ts] Let_def)
    next
      case False
      then have "pumpLoop en ?ts3 = (aborted, ts')" using 1(2) pk fl s by (simp add: pumpLoop.simps [of en ts] Let_def)
      from 1(1) [OF _ pk s [symmetric] refl False this] fl k keeps_trans [OF k(2)] show ?thesis by simp
    qed
  qed
qed

lemma keeps_pumpUpload [simp]: "keeps ts (pumpUpload en ts)"
proof -
  obtain aborted ts1 where p: "pumpLoop en ts = (aborted, ts1)" by fastforce
  note k = keeps_pumpLoop [OF p]
  have "keeps ts (finishUpload en ts1)" if "ts_uploading ts" "\<not> aborted" using k that keeps_finishUpload [of ts1 en] keeps_trans by blast
  moreover have "keeps ts (abortUpload en r l (ts\<lparr>ts_reader := rd\<rparr>))" for r l rd
    by (simp add: keeps_defs abortUpload_def push_defs drainRing_def)
  ultimately show ?thesis using k p by (auto simp: pumpUpload_def split_beta takeError_def)
qed

section \<open>Receiving\<close>

lemma keeps_finishDownload [simp]: "keeps ts (finishDownload en ts)"
  by (simp add: keeps_defs finishDownload_def failSession_def dropResultClaim_def push_defs drainRing_def Let_def split_beta)

lemma keeps_csv: "keeps ts (finishDownload en (ts\<lparr>ts_csv := a, ts_claim := b\<rparr>))" "keeps ts (finishDownload en (ts\<lparr>ts_csv := a\<rparr>))"
  "keeps ts (ts\<lparr>ts_csv := a, ts_claim := b\<rparr>)" "keeps ts (ts\<lparr>ts_csv := a\<rparr>)"
proof -
  show k: "keeps ts (ts\<lparr>ts_csv := a, ts_claim := b\<rparr>)" "keeps ts (ts\<lparr>ts_csv := a\<rparr>)" by (simp_all add: keeps_defs)
  show "keeps ts (finishDownload en (ts\<lparr>ts_csv := a, ts_claim := b\<rparr>))" "keeps ts (finishDownload en (ts\<lparr>ts_csv := a\<rparr>))"
    by (rule keeps_trans [OF k(1) keeps_finishDownload], rule keeps_trans [OF k(2) keeps_finishDownload])
qed

lemma keeps_handleCsv: "keeps ts (snd (handleCsvBytes en data ts))"
  by (simp add: handleCsvBytes_def Let_def keeps_csv)

lemma keeps_begin: "keeps ts (snd (beginCsvReceive en header resuming ts))"
proof -
  have "keeps ts (finishDownload en ts')" if "keeps ts ts'" for ts' using keeps_trans [OF that keeps_finishDownload] .
  moreover have "keeps ts (ts\<lparr>ts_csvSize := a, ts_csvExpectedCrc := b, ts_expecting := ExpCsvPayload\<rparr>)"
    "keeps ts (ts\<lparr>ts_csvSize := a, ts_csvExpectedCrc := b, ts_csv := c, ts_expecting := ExpCsvPayload\<rparr>)" for a b c
    by (simp_all add: keeps_defs)
  ultimately show ?thesis by (simp add: beginCsvReceive_def Let_def)
qed

lemma keeps_framer: "keeps ts ts' = keeps (ts\<lparr>ts_framer := f\<rparr>) ts'"
  by (simp add: keeps_defs)

lemma keeps_handleAck: "keeps ts (snd (handleAckBytes en data ts))"
  by (subst keeps_framer [of _ _ "fst (feed (ts_framer ts) data)"])
    (auto simp: handleAckBytes_def split_beta Let_def split: sum.split, auto simp: keeps_defs push_defs)

lemma keeps_handleHeader: "keeps ts (snd (handleResultHeaderBytes en data ts))"
  by (subst keeps_framer [of _ _ "fst (feed (ts_framer ts) data)"])
    (auto simp: handleResultHeaderBytes_def split_beta Let_def keeps_begin split: sum.split)

lemma keeps_handleReply: "keeps ts (snd (handleResumeReplyBytes en data ts))"
proof (subst keeps_framer [of _ _ "fst (feed (ts_framer ts) data)"])
  let ?ts = "ts\<lparr>ts_framer := fst (feed (ts_framer ts) data)\<rparr>"
  have "keeps ?ts ((dropResultClaim ?ts)\<lparr>ts_csv := []\<rparr>)" by (simp add: keeps_defs dropResultClaim_def push_defs)
  from keeps_trans [OF this keeps_fail] show "keeps ?ts (snd (handleResumeReplyBytes en data ts))"
    by (auto simp: handleResumeReplyBytes_def split_beta Let_def keeps_begin split: sum.split)
qed

lemmas keeps_handlers = keeps_handleAck keeps_handleHeader keeps_handleCsv keeps_handleReply

lemma keeps_onBytes: "keeps ts (onBytes en data ts)"
proof (induction en data ts rule: onBytes.induct)
  case (1 en data ts)
  let ?step = "case ts_expecting ts of ExpAck \<Rightarrow> Some (handleAckBytes en data ts)
      | ExpResultHeader \<Rightarrow> Some (handleResultHeaderBytes en data ts) | ExpCsvPayload \<Rightarrow> Some (handleCsvBytes en data ts)
      | ExpResumeReply \<Rightarrow> Some (handleResumeReplyBytes en data ts) | ExpNothing \<Rightarrow> None"
  show ?case
  proof (cases ?step)
    case None
    then show ?thesis by (subst onBytes.simps) simp
  next
    case (Some r)
    obtain n ts' where r: "r = (n, ts')" by fastforce
    have k: "keeps ts ts'" using Some keeps_handlers [of ts en data] r by (cases "ts_expecting ts") auto
    have "keeps ts' (onBytes en (drop n data) ts')" if "data \<noteq> []" "n \<noteq> 0"
      by (rule 1 [OF that(1) refl _ refl that(2)]) (use Some r in simp)
    with k keeps_trans [OF k] show ?thesis using Some r by (subst onBytes.simps) simp
  qed
qed

section \<open>Commands and callbacks\<close>

lemma keeps_connect: "keeps ts (handleConnect en ip port ts)"
  by (simp add: handleConnect_def beginConnect_def Let_def split_beta) (simp add: keeps_defs push_defs)

lemma keeps_timer: "keeps ts (stopConnectTimer ts)"
  by (simp add: keeps_defs stopConnectTimer_def)

lemma keeps_disconnect: "keeps ts (handleDisconnect en ts)"
proof -
  have "keeps ts (pushLog l t (stopConnectTimer ts))" for l t by (simp add: keeps_timer)
  from keeps_trans [OF this keeps_abort] keeps_trans [OF this keeps_fail] show ?thesis
    by (simp add: handleDisconnect_def Let_def keeps_timer)
qed

lemma keeps_request: "keeps ts (handleRequestResult en ts)"
proof -
  have "keeps ts ((snd (sendOn en b ts))\<lparr>ts_sessionCompleted := False, ts_expecting := ExpResumeReply, ts_framer := f\<rparr>)" for b f
    by (simp add: keeps_defs)
  with keeps_trans [OF keeps_sendOn keeps_fail] show ?thesis by (simp add: handleRequestResult_def Let_def split_beta)
qed

lemma keeps_quit: "keeps ts (handleQuit en ts)"
  by (simp add: keeps_defs handleQuit_def)

lemma keeps_onConnect: "keeps ts (onConnect en status ts)"
proof -
  have "keeps ts ((stopConnectTimer ts)\<lparr>ts_connected := True\<rparr>)" by (simp add: keeps_defs stopConnectTimer_def)
  then show ?thesis
    by (simp add: onConnect_def Let_def split_beta keeps_timer split: option.split) (simp add: keeps_defs push_defs)
qed

lemma keeps_sendComplete: "keeps ts (client_onSendComplete en status ts)"
proof -
  have "keeps ts (if ts_inFlightWrites ts > 0 then ts\<lparr>ts_inFlightWrites := ts_inFlightWrites ts - 1\<rparr> else ts)" by (simp add: keeps_defs)
  from keeps_trans [OF this keeps_abort] keeps_trans [OF this keeps_pumpUpload] this show ?thesis
    by (simp add: client_onSendComplete_def Let_def)
qed

lemma keeps_onError: "keeps ts (client_onError en status whence ts)"
proof -
  define ts1 where "ts1 = (if status = kUvEof then
      (if ts_sessionCompleted ts then pushLog Info ''Server closed the connection.'' ts
       else if \<not> (ts_uploading ts \<or> ts_expecting ts \<noteq> ExpNothing) then pushLog Warn ''Server closed the connection (idle timeout).'' ts
       else ts)
    else pushLog Error (whence @ '': '' @ uv_describe (te_uv en) status) ts)"
  have "keeps ts ts1" by (simp add: ts1_def)
  from keeps_trans [OF this keeps_abort] keeps_trans [OF this keeps_fail] this show ?thesis
    by (simp add: client_onError_def Let_def flip: ts1_def)
qed

lemma keeps_onWrite: "keeps ts (client_onWrite en status ts)"
proof -
  have "keeps ts (ts\<lparr>ts_socket := map_option onWriteCb (ts_socket ts)\<rparr>)" by (simp add: keeps_defs)
  note k = keeps_trans [OF this keeps_sendComplete]
  from k keeps_trans [OF k keeps_onError] show ?thesis by (simp add: client_onWrite_def Let_def)
qed

lemma keeps_onClosed: "keeps ts (client_onClosed ts)"
  by (simp add: client_onClosed_def) (simp add: keeps_defs)

section \<open>The invariant\<close>

fun command_ok :: "Command \<Rightarrow> bool" where
  "command_ok (StartUploadCommand path filename sz) = validUploadHeader \<lparr>uh_fileSize = sz, uh_filename = filename\<rparr>"
| "command_ok _ = True"

definition header_ok :: "TransferService \<Rightarrow> bool" where
  "header_ok ts \<longleftrightarrow> (sending ts \<longrightarrow> validUploadHeader (header_of ts)) \<and> list_all command_ok (ts_commands ts)"

definition choice_inv :: "client \<Rightarrow> bool" where
  "choice_inv c \<longleftrightarrow> (case c of (ts, ui) \<Rightarrow> header_ok ts \<and>
    (ui_filePath ui \<noteq> [] \<longrightarrow> validUploadHeader \<lparr>uh_fileSize = ui_fileSize ui, uh_filename = ui_fileName ui\<rparr>))"

lemma keeps_header_ok: "keeps ts ts' \<Longrightarrow> header_ok ts \<Longrightarrow> header_ok ts'"
  by (auto simp: keeps_def header_ok_def)

lemma start_header_ok:
  assumes "header_ok ts" "validUploadHeader \<lparr>uh_fileSize = sz, uh_filename = filename\<rparr>"
  shows "header_ok (handleStartUpload en path filename sz ts)"
proof -
  define ts2 where "ts2 = (drainRing ts)\<lparr>ts_reader := (reader_step ^^ te_gap en) (ts_reader (drainRing ts))\<rparr>"
  have k2: "keeps ts ts2" by (simp add: keeps_defs ts2_def drainRing_def)
  show ?thesis
  proof (cases "ts_uploading ts \<or> \<not> usable ts")
    case True
    then show ?thesis using assms(1) by (auto simp: handleStartUpload_def intro!: keeps_header_ok [OF _ assms(1)])
  next
    case False
    show ?thesis
    proof (cases "beginUpload (te_files en) path (unat sz) (ts_reader ts2)")
      case (Inl err)
      have "keeps ts (handleStartUpload en path filename sz ts)"
        unfolding handleStartUpload_def Let_def ts2_def [symmetric] using False Inl k2 by simp
      then show ?thesis using assms(1) by (rule keeps_header_ok)
    next
      case (Inr rd)
      define ts4 where "ts4 = (dropResultClaim (ts2\<lparr>ts_reader := rd, ts_uploading := True, ts_uploadFilename := filename\<rparr>))
        \<lparr>ts_inFlightWrites := 0, ts_trailerSent := False, ts_uploadTotal := sz, ts_uploadSent := 0,
         ts_uploadCrc := 0, ts_expecting := ExpNothing, ts_csv := [], ts_csvSize := 0, ts_csvExpectedCrc := 0,
         ts_resultCsv := [], ts_source := the (te_files en path),
         ts_firstWrite := (case ts_socket (dropResultClaim (ts2\<lparr>ts_reader := rd, ts_uploading := True, ts_uploadFilename := filename\<rparr>)) of
           None \<Rightarrow> 0 | Some sk \<Rightarrow> length (sk_written sk))\<rparr>"
      have v: "header_ok ts4" using assms by (simp add: header_ok_def header_of_def ts4_def ts2_def drainRing_def dropResultClaim_def pushEvent_def)
      have "keeps ts4 (pushSession SendingHeader ts4)" by simp
      note k5 = keeps_trans [OF this keeps_sendOn]
      have "keeps ts4 (handleStartUpload en path filename sz ts)"
        unfolding handleStartUpload_def Let_def ts2_def [symmetric]
        using False Inr k5 keeps_trans [OF k5 keeps_abort] keeps_trans [OF _ keeps_pumpUpload, of ts4]
        by (simp add: split_beta flip: ts4_def)
      then show ?thesis using v by (rule keeps_header_ok)
    qed
  qed
qed

lemma handle_header_ok: "header_ok ts \<Longrightarrow> command_ok c \<Longrightarrow> header_ok (handle en c ts)"
  by (cases c) (auto simp: start_header_ok handleCancelUpload_def
      intro: keeps_header_ok [OF keeps_connect] keeps_header_ok [OF keeps_disconnect] keeps_header_ok [OF keeps_request]
        keeps_header_ok [OF keeps_quit] keeps_header_ok [OF keeps_abort])

lemma drain_header_ok: "header_ok ts \<Longrightarrow> list_all command_ok cs \<Longrightarrow> header_ok (drainCommands en cs ts)"
  by (induction en cs ts rule: drainCommands.induct) (simp_all add: handle_header_ok)

lemma async_header_ok:
  assumes "header_ok ts"
  shows "header_ok (onAsyncCb en ts)"
proof -
  have "header_ok (ts\<lparr>ts_commands := [], ts_reader := (ts_reader ts)\<lparr>rd_signalled := False\<rparr>\<rparr>)"
    using assms by (simp add: header_ok_def keeps_defs)
  from drain_header_ok [OF this] assms show ?thesis
    unfolding onAsyncCb_def by (intro keeps_header_ok [OF keeps_pumpUpload]) (simp add: header_ok_def)
qed

lemma choice_inv_keeps: "choice_inv (ts, ui) \<Longrightarrow> keeps ts ts' \<Longrightarrow> choice_inv (ts', ui)"
  by (auto simp: choice_inv_def intro: keeps_header_ok)

lemma choice_inv_ui: "choice_inv (ts, ui) \<Longrightarrow> ui_filePath ui' = ui_filePath ui \<Longrightarrow> ui_fileSize ui' = ui_fileSize ui \<Longrightarrow>
    ui_fileName ui' = ui_fileName ui \<Longrightarrow> choice_inv (ts, ui')"
  by (simp add: choice_inv_def)

lemma choice_inv_post: "choice_inv (ts, ui) \<Longrightarrow> command_ok cmd \<Longrightarrow> choice_inv (post cmd ts, ui)"
  by (simp add: choice_inv_def header_ok_def post_def keeps_defs)

lemma events_file: "ui_filePath (foldl (applyEvent stamp) ui es) = ui_filePath ui" "ui_fileSize (foldl (applyEvent stamp) ui es) = ui_fileSize ui"
  "ui_fileName (foldl (applyEvent stamp) ui es) = ui_fileName ui"
proof -
  have "ui_filePath (applyEvent stamp ui e) = ui_filePath ui \<and> ui_fileSize (applyEvent stamp ui e) = ui_fileSize ui \<and>
    ui_fileName (applyEvent stamp ui e) = ui_fileName ui" for ui e by (cases e) simp_all
  then show "ui_filePath (foldl (applyEvent stamp) ui es) = ui_filePath ui" "ui_fileSize (foldl (applyEvent stamp) ui es) = ui_fileSize ui"
    "ui_fileName (foldl (applyEvent stamp) ui es) = ui_fileName ui" by (induction es arbitrary: ui) simp_all
qed

lemma choice_step:
  assumes "client_step c c'" "choice_inv c"
  shows "choice_inv c'"
  using assms
proof (induction rule: client_step.induct)
  case (reader ts ui)
  then show ?case by (rule choice_inv_keeps) (simp add: keeps_defs)
next
  case (async en ts ui)
  then show ?case by (simp add: choice_inv_def async_header_ok)
next
  case (connect en ts sk status ui)
  from connect(5) show ?case by (rule choice_inv_keeps [OF _ keeps_onConnect])
next
  case (timeout en ts tm ms tm' ui)
  from timeout(4) show ?case by (rule choice_inv_keeps) (simp add: onConnectTimeout_def, simp add: keeps_defs)
next
  case (bytes en ts sk ui data)
  from bytes(5) show ?case by (rule choice_inv_keeps [OF _ keeps_onBytes])
next
  case (error en ts sk status ui whence)
  from error(6) show ?case by (rule choice_inv_keeps [OF _ keeps_onError])
next
  case (written en ts sk status ui)
  from written(5) show ?case by (rule choice_inv_keeps [OF _ keeps_onWrite])
next
  case (closed ts sk ui)
  from closed(4) show ?case by (rule choice_inv_keeps [OF _ keeps_onClosed])
next
  case (pump c stamp)
  obtain ts ui where c: "c = (ts, ui)" by (cases c)
  have "choice_inv (ts\<lparr>ts_events := []\<rparr>, ui)" using pump c by (auto intro: choice_inv_keeps simp: keeps_defs)
  then show ?case by (simp add: c pumpWorkerEvents_def drainEvents_def choice_inv_ui events_file)
next
  case (press_connect ui ts stamp)
  then show ?case by (auto simp: app_onConnect_def Let_def split: option.split intro: choice_inv_ui choice_inv_post)
next
  case (press_disconnect ui ts)
  then show ?case by (simp add: app_onDisconnect_def choice_inv_def header_ok_def post_def keeps_defs)
next
  case (press_browse ui ts stamp da)
  show ?case
  proof (cases "openFileDialog da")
    case (Inr sf)
    then show ?thesis using press_browse selected_valid [OF Inr] by (simp add: app_onBrowse_def choice_inv_def)
  qed (use press_browse in \<open>auto simp: app_onBrowse_def intro: choice_inv_ui\<close>)
next
  case (press_send ui ts stamp confirmed)
  then show ?case by (auto simp: app_onSend_def choice_inv_def header_ok_def post_def keeps_defs canSend_def)
qed (auto simp: app_onCancelUpload_def app_onRequestResult_def app_onPing_def app_onSaveResult_def clearLogDirty_def Let_def
      split: sum.split intro: choice_inv_ui choice_inv_post)

lemma choice_reach: "client_reach c \<Longrightarrow> choice_inv c"
proof (induction rule: client_reach.induct)
  case start
  show ?case by (simp add: choice_inv_def header_ok_def sending_def newTransferService_def newUiState_def)
next
  case (step c c')
  then show ?case using choice_step by blast
qed

lemma sending_valid: "client_reach (ts, ui) \<Longrightarrow> sending ts \<Longrightarrow> validUploadHeader (header_of ts)"
  using choice_reach by (fastforce simp: choice_inv_def header_ok_def)

end
