(* ===== verification/ClientCorrect.thy ===== *)
theory ClientCorrect
  imports ClientReceive ClientHeader
begin

text \<open>
  A run of the client, from the first click to the end of an upload, and the properties of all its runs.
\<close>

section \<open>A run\<close>

definition run_env :: ClientEnv where
  "run_env = \<lparr>te_uv = \<lparr>uv_read_start = 0, uv_read_stop = 0, uv_write = (\<lambda>k. 0), uv_describe = (\<lambda>c. [])\<rparr>, te_socketOk = True, te_connect = 0,
    te_peer = ''10.0.0.1'', te_files = (\<lambda>path. if path = ''C:/a.log'' then Some ''abc'' else None), te_rate = [], te_gap = 0\<rparr>"

lemma run_env_ok: "te_ok run_env" "net_ok run_env" "te_gap run_env = 0"
  by (simp_all add: te_ok_def net_ok_def run_env_def)

definition run_ui :: UiState where
  "run_ui = newUiState\<lparr>ui_serverIp := ''10.0.0.1'' @ replicate 56 (CHR 0x00), ui_serverPort := ''23507'' @ replicate 11 (CHR 0x00)\<rparr>"

definition connecting :: TransferService where
  "connecting = onAsyncCb (\<lambda>k. run_env) (post (ConnectCommand ''10.0.0.1'' 23507) newTransferService)"

definition connected :: TransferService where
  "connected = onConnect run_env 0 connecting"

lemma newReader_signal: "newFileReader\<lparr>rd_signalled := False\<rparr> = newFileReader"
  by (simp add: newFileReader_def)

lemma connecting_fields:
  "ts_socket connecting = Some (newSocket True)" "ts_connected connecting = False" "ts_uploading connecting = False"
  "ts_reader connecting = newFileReader" "ts_commands connecting = []" "ts_expecting connecting = ExpNothing"
  "ts_hasClaim connecting = False" "ts_framer connecting = newFramer AckMsg AckMsg"
  "\<exists>t. ts_events connecting = [LinkEvent Reconnecting, LogEvent Info t]"
  by (simp_all add: connecting_def onAsyncCb_def post_def newTransferService_def newReader_signal handleConnect_def beginConnect_def
      sock_connect_def run_env_def newSocket_def Let_def push_defs pumpUpload_def)

lemma connected_fields:
  "ts_socket connected = Some ((newSocket True)\<lparr>sk_reading := True\<rparr>)" "ts_connected connected" "ts_uploading connected = False"
  "ts_reader connected = newFileReader" "ts_commands connected = []" "ts_expecting connected = ExpNothing"
  "ts_hasClaim connected = False" "ts_framer connected = newFramer AckMsg AckMsg"
  "\<exists>t t'. ts_events connected = [LinkEvent Reconnecting, LogEvent Info t, LogEvent Info t', LinkEvent Connected]"
proof -
  have eq: "connected = (pushLink Connected (pushLog Info (''Connected to '' @ te_peer run_env)
      ((stopConnectTimer connecting)\<lparr>ts_connected := True\<rparr>)))\<lparr>ts_socket := Some ((newSocket True)\<lparr>sk_reading := True\<rparr>)\<rparr>"
    using connecting_fields(1)
    by (simp add: connected_def onConnect_def stopConnectTimer_def Let_def push_defs sock_startRead_def run_env_def newSocket_def)
  show "ts_socket connected = Some ((newSocket True)\<lparr>sk_reading := True\<rparr>)" "ts_connected connected" "ts_uploading connected = False"
    "ts_reader connected = newFileReader" "ts_commands connected = []" "ts_expecting connected = ExpNothing"
    "ts_hasClaim connected = False" "ts_framer connected = newFramer AckMsg AckMsg"
    by (simp_all add: eq push_defs stopConnectTimer_def connecting_fields)
  obtain t where "ts_events connecting = [LinkEvent Reconnecting, LogEvent Info t]" using connecting_fields(9) by blast
  then show "\<exists>t t'. ts_events connected = [LinkEvent Reconnecting, LogEvent Info t, LogEvent Info t', LinkEvent Connected]"
    by (simp add: eq push_defs stopConnectTimer_def)
qed

lemma run_port: "parsePort run_ui = Some 23507" "bufferText (ui_serverIp run_ui) = ''10.0.0.1''"
proof -
  have "bufferText (ui_serverPort run_ui) = ''23507''" by (simp add: run_ui_def bufferText_def)
  moreover have "from_chars_unsigned (2 ^ 32 - 1) ''23507'' = (ErrcOk, 23507, 5)"
    by (simp add: from_chars_unsigned_def is_digit_def byte_nat_def digits_val_def digit_val_def)
  ultimately show "parsePort run_ui = Some 23507" by (simp add: parsePort_def)
qed (simp add: run_ui_def bufferText_def)

lemma reach_connected: "client_reach (connected, run_ui)"
proof -
  let ?ts = "post (ConnectCommand ''10.0.0.1'' 23507) newTransferService"
  have "client_step (newTransferService, newUiState) (newTransferService, run_ui)"
    unfolding run_ui_def by (rule client_step.edit) (simp_all add: canEditAddress_def newUiState_def)
  with client_reach.start have "client_reach (newTransferService, run_ui)" by (rule client_reach.step)
  moreover have "client_step (newTransferService, run_ui) (?ts, run_ui)"
    using client_step.press_connect [of run_ui newTransferService "[]"] run_port
    by (simp add: app_onConnect_def Let_def canConnect_def) (simp add: run_ui_def newUiState_def)
  ultimately have "client_reach (?ts, run_ui)" by (rule client_reach.step)
  moreover have "client_step (?ts, run_ui) (connecting, run_ui)"
    unfolding connecting_def by (rule client_step.async) (simp_all add: run_env_ok post_def newTransferService_def)
  ultimately have "client_reach (connecting, run_ui)" by (rule client_reach.step)
  moreover have "client_step (connecting, run_ui) (connected, run_ui)"
    unfolding connected_def by (rule client_step.connect [where sk = "newSocket True"]) (simp_all add: run_env_ok connecting_fields newSocket_def)
  ultimately show ?thesis by (rule client_reach.step)
qed

text \<open>The window catches up, a file is chosen and sent.\<close>

definition choice :: DialogAnswer where
  "choice = \<lparr>da_chosen = Some (''C:/a.log'', ''a.log''), da_attributes = Some (False, 0, 3)\<rparr>"

lemma choice_ok: "openFileDialog choice = Inr \<lparr>sf_path = ''C:/a.log'', sf_name = ''a.log'', sf_size = 3\<rparr>"
  by code_simp

definition shown_ui :: UiState where
  "shown_ui = snd (app_onBrowse [] choice (pumpWorkerEvents [] (connected, run_ui)))"

definition idle :: TransferService where
  "idle = connected\<lparr>ts_events := []\<rparr>"

definition started :: TransferService where
  "started = onAsyncCb (\<lambda>k. run_env) (post (StartUploadCommand ''C:/a.log'' ''a.log'' 3) idle)"

lemma reach_idle: "client_reach (idle, shown_ui)" "canSend shown_ui" "ui_filePath shown_ui = ''C:/a.log''" "ui_fileName shown_ui = ''a.log''"
  "ui_fileSize shown_ui = 3"
proof -
  obtain ui where ui: "pumpWorkerEvents [] (connected, run_ui) = (idle, ui)"
    by (simp add: pumpWorkerEvents_def drainEvents_def idle_def)
  obtain t t' where ev: "ts_events connected = [LinkEvent Reconnecting, LogEvent Info t, LogEvent Info t', LinkEvent Connected]"
    using connected_fields(9) by blast
  have u: "ui_link ui = Connected" "ui_session ui = Idle"
    using ui by (auto simp: pumpWorkerEvents_def drainEvents_def ev run_ui_def newUiState_def split: if_splits)
  have s: "app_onBrowse [] choice (idle, ui) = (idle, shown_ui)"
    by (simp add: shown_ui_def ui app_onBrowse_def choice_ok)
  have "client_reach (idle, ui)" using client_reach.step [OF reach_connected client_step.pump [of _ "[]"]] ui by simp
  moreover have "client_step (idle, ui) (idle, shown_ui)"
    unfolding s [symmetric] by (rule client_step.press_browse) (simp add: canBrowse_def u)
  ultimately show "client_reach (idle, shown_ui)" by (rule client_reach.step)
  show "canSend shown_ui" "ui_filePath shown_ui = ''C:/a.log''" "ui_fileName shown_ui = ''a.log''" "ui_fileSize shown_ui = 3"
    using u by (simp_all add: shown_ui_def ui app_onBrowse_def choice_ok canSend_def)
qed

definition posted :: TransferService where
  "posted = post (StartUploadCommand ''C:/a.log'' ''a.log'' 3) idle"

lemma reach_posted: "client_reach (posted, shown_ui)"
proof -
  have "client_step (idle, shown_ui) (posted, shown_ui)"
    using client_step.press_send [OF reach_idle(2), of idle "[]" True] reach_idle(3-5) by (simp add: app_onSend_def posted_def)
  with reach_idle(1) show ?thesis by (rule client_reach.step)
qed

lemma run_started: "\<exists>met. client_run [(run_env, StartUploadCommand ''C:/a.log'' ''a.log'' 3, met)] (started, shown_ui) \<and>
    gated run_env (StartUploadCommand ''C:/a.log'' ''a.log'' 3) met"
proof -
  have "client_run [] (posted, shown_ui)" by (rule reach_client_run [OF reach_posted])
  from client_run.async [OF this, of "\<lambda>k. run_env"]
  have "client_run [(run_env, StartUploadCommand ''C:/a.log'' ''a.log'' 3, connected\<lparr>ts_events := [], ts_commands := [], ts_reader := newFileReader\<rparr>)]
      (started, shown_ui)"
    by (simp add: run_env_ok started_def posted_def post_def idle_def connected_fields newReader_signal)
  moreover have "gated run_env (StartUploadCommand ''C:/a.log'' ''a.log'' 3) (connected\<lparr>ts_events := [], ts_commands := [], ts_reader := newFileReader\<rparr>)"
    by (simp add: run_env_ok connected_fields)
  ultimately show ?thesis by blast
qed

lemma reach_started: "client_reach (started, shown_ui)"
  using run_started client_run_reach by fastforce

text \<open>The reader: an empty ring, then the file in it and nothing left to read.\<close>

lemma new_ring: "ring_contents (rd_ring newFileReader) = []" "tryPeek (rd_ring newFileReader) = None" "drain_ring_of newFileReader = newFileReader"
  "cv_notify newFileReader = newFileReader"
proof -
  have "tryPeek (rd_ring newFileReader) = None" by (simp add: newFileReader_def newRing_def tryPeek_def)
  then show "tryPeek (rd_ring newFileReader) = None" "drain_ring_of newFileReader = newFileReader"
    by (simp_all add: drain_ring_of.simps [of newFileReader])
  show "cv_notify newFileReader = newFileReader" by (simp add: newFileReader_def cv_notify_def)
  show "ring_contents (rd_ring newFileReader) = []"
    using \<open>tryPeek (rd_ring newFileReader) = None\<close> by (simp add: tryPeek_contents split: list.splits)
qed

definition reader0 :: FileReader where
  "reader0 = newFileReader\<lparr>rd_uploading := True, rd_file := ''abc'', rd_remaining := 3, rd_error := [], rd_abort := False,
    rd_readComplete := False, rd_failed := False\<rparr>"

lemma ring_room:
  assumes "ring_ok rb" "rb_slotCount rb = 64" "length (ring_contents rb) < 64"
  shows "\<exists>off. tryAcquire rb = Some (off, rb_slotSize rb)"
proof -
  have "\<not> ring_full rb" using assms ring_full_iff [of rb] by (simp add: ring_ok_def)
  then show ?thesis by (simp add: tryAcquire_def ring_full_def)
qed

lemma six_steps:
  assumes "tryAcquire (rd_ring reader0) = Some (off, cap)" "3 \<le> cap"
    and "tryAcquire (commit 3 (writeAt off ''abc'' (rd_ring reader0))) = Some (off2, cap2)"
  shows "(reader_step ^^ 6) reader0 = reader0\<lparr>rd_file := [], rd_remaining := 0,
    rd_ring := commit 3 (writeAt off ''abc'' (rd_ring reader0)), rd_signalled := True, rd_readComplete := True, rd_pc := RdClose\<rparr>"
proof -
  have r0: "rd_pc reader0 = RdIdle" "\<not> rd_quit reader0" "rd_uploading reader0" "\<not> rd_abort reader0" "rd_file reader0 = ''abc''" "rd_remaining reader0 = 3"
    by (simp_all add: reader0_def newFileReader_def)
  let ?r2 = "reader0\<lparr>rd_pc := RdRead off cap\<rparr>"
  let ?r3 = "reader0\<lparr>rd_file := [], rd_remaining := 0, rd_ring := writeAt off ''abc'' (rd_ring reader0), rd_pc := RdCommit 3\<rparr>"
  let ?r4 = "reader0\<lparr>rd_file := [], rd_remaining := 0, rd_ring := commit 3 (writeAt off ''abc'' (rd_ring reader0)), rd_signalled := True, rd_pc := RdTop\<rparr>"
  have "reader_step (reader_step reader0) = ?r2" using r0 assms(1) by (simp add: reader_step_def)
  moreover have "reader_step ?r2 = ?r3"
    using r0 assms(2) by (cases "cap = 3") (simp_all add: reader_step_def readSlot_def Let_def)
  moreover have "reader_step ?r3 = ?r4" by (simp add: reader_step_def wake_def)
  moreover have "reader_step (reader_step ?r4) = reader0\<lparr>rd_file := [], rd_remaining := 0,
    rd_ring := commit 3 (writeAt off ''abc'' (rd_ring reader0)), rd_signalled := True, rd_readComplete := True, rd_pc := RdClose\<rparr>"
    using r0 assms(3) by (simp add: reader_step_def wake_def readSlot_def)
  ultimately show ?thesis by (simp add: eval_nat_numeral)
qed

lemma reader_run:
  obtains rb where "(reader_step ^^ 6) reader0 = reader0\<lparr>rd_file := [], rd_remaining := 0, rd_ring := rb, rd_signalled := True,
      rd_readComplete := True, rd_pc := RdClose\<rparr>" "ring_contents rb = [''abc'']" "ring_ok rb"
proof -
  let ?rb = "rd_ring reader0"
  have r0: "rd_ring reader0 = rd_ring newFileReader" by (simp add: reader0_def)
  have ok: "ring_ok ?rb" and c: "rb_slotCount ?rb = 64" "rb_slotSize ?rb = 65536"
    using ring_ok_new by (simp_all add: r0, simp_all add: newFileReader_def newRing_def ringSlotCountFor_def ring_sizes)
  obtain off where a: "tryAcquire ?rb = Some (off, 65536)" using ring_room [OF ok] c new_ring(1) r0 by auto
  let ?w = "writeAt off ''abc'' ?rb"
  note st = store_slot [OF ok a, of "''abc''"]
  have w: "tryAcquire ?w = Some (off, 65536)" using a by simp
  have w2: "rb_slotSize ?w = 65536" "rb_slotCount ?w = 64" using c by (simp_all add: writeAt_def)
  have t3: "take 3 (drop off (rb_storage ?w)) = ''abc''" using st(3) by (simp add: numeral_3_eq_3)
  have k: "ring_ok (commit 3 ?w)" "ring_contents (commit 3 ?w) = [''abc'']"
    using commit_slot [of ?w off 65536 3] st(1,2) t3 w w2 new_ring(1) by (simp_all add: r0)
  have k2: "rb_slotCount (commit 3 ?w) = 64" using w2 by (simp add: commit_def)
  obtain off2 where "tryAcquire (commit 3 ?w) = Some (off2, rb_slotSize (commit 3 ?w))" using ring_room [OF k(1) k2] k(2) by auto
  from six_steps [OF a _ this] k show thesis by (intro that) simp_all
qed

text \<open>From the first byte in the ring to the wait for the acknowledgement.\<close>

lemma pump_nothing: "tryPeek (rd_ring (ts_reader ts)) = None \<Longrightarrow> \<not> rd_failed (ts_reader ts) \<Longrightarrow> \<not> rd_readComplete (ts_reader ts) \<Longrightarrow>
    pumpUpload en ts = ts"
  by (simp add: pumpUpload_def pumpLoop.simps)

lemma started_fields:
  "ts_reader started = reader0" "ts_uploading started" "ts_commands started = []" "ts_inFlightWrites started = 0"
  "\<not> ts_trailerSent started" "ts_uploadTotal started = 3" "ts_uploadSent started = 0" "ts_uploadCrc started = 0" "ts_csv started = []"
  "\<exists>sk. ts_socket started = Some sk \<and> sk_valid sk \<and> \<not> sk_closing sk \<and> sk_reading sk"
  "ts_framer started = newFramer AckMsg AckMsg" "ts_uploadFilename started = ''a.log''" "ts_source started = ''abc''"
proof -
  have b: "beginUpload (te_files run_env) ''C:/a.log'' (unat (3 :: u64)) newFileReader = Inr reader0"
    by (simp add: beginUpload_def run_env_def reader0_def newFileReader_def cv_notify_def)
  have r0: "tryPeek (rd_ring reader0) = None" "\<not> rd_failed reader0" "\<not> rd_readComplete reader0"
    using new_ring(2) by (simp_all add: reader0_def)
  have sg: "reader0\<lparr>rd_signalled := False\<rparr> = reader0" by (simp add: reader0_def newFileReader_def)
  have "ts_socket idle = Some ((newSocket True)\<lparr>sk_reading := True\<rparr>)" by (simp add: idle_def connected_fields)
  note f = this
  show "ts_reader started = reader0" "ts_uploading started" "ts_commands started = []" "ts_inFlightWrites started = 0"
    "\<not> ts_trailerSent started" "ts_uploadTotal started = 3" "ts_uploadSent started = 0" "ts_uploadCrc started = 0" "ts_csv started = []"
    "\<exists>sk. ts_socket started = Some sk \<and> sk_valid sk \<and> \<not> sk_closing sk \<and> sk_reading sk"
    "ts_framer started = newFramer AckMsg AckMsg" "ts_uploadFilename started = ''a.log''" "ts_source started = ''abc''"
    using f b r0
    by (simp_all add: started_def onAsyncCb_def post_def idle_def connected_fields newReader_signal handleStartUpload_def usable_def newSocket_def
        drainRing_def new_ring run_env_ok(3) Let_def sendOn_def sock_send_def dropResultClaim_def push_defs pump_nothing)
      (simp_all add: run_env_def pump_nothing)
qed

definition filled :: TransferService where
  "filled = started\<lparr>ts_reader := (reader_step ^^ 6) (ts_reader started)\<rparr>"

definition waiting :: TransferService where
  "waiting = onAsyncCb (\<lambda>k. run_env) filled"

lemma steps_reader: "client_step\<^sup>*\<^sup>* (ts, ui) (ts\<lparr>ts_reader := (reader_step ^^ n) (ts_reader ts)\<rparr>, ui)"
proof (induction n)
  case (Suc n)
  from rtranclp.rtrancl_into_rtrancl [OF Suc.IH client_step.reader] show ?case by simp
qed simp

lemma run_steps: "client_step\<^sup>*\<^sup>* c c' \<Longrightarrow> client_run h c \<Longrightarrow> client_run h c'"
  by (induction rule: rtranclp_induct) (auto intro: client_run.step)

lemma run_waiting: "\<exists>met. client_run [(run_env, StartUploadCommand ''C:/a.log'' ''a.log'' 3, met)] (waiting, shown_ui) \<and>
    gated run_env (StartUploadCommand ''C:/a.log'' ''a.log'' 3) met"
proof -
  have "client_step (filled, shown_ui) (waiting, shown_ui)"
    unfolding waiting_def by (rule client_step.async) (simp_all add: run_env_ok filled_def started_fields)
  then have "client_step\<^sup>*\<^sup>* (started, shown_ui) (waiting, shown_ui)"
    using steps_reader [of started shown_ui] unfolding filled_def by (meson rtranclp.rtrancl_into_rtrancl)
  then show ?thesis using run_started run_steps by blast
qed

lemma reach_waiting: "client_reach (waiting, shown_ui)"
  using run_waiting client_run_reach by fastforce

lemma pump_once:
  assumes "tryPeek (rd_ring (ts_reader ts)) = Some chunk" "tryPeek (release (rd_ring (ts_reader ts))) = None" "ts_inFlightWrites ts = 0"
    "sendOn en chunk (ts\<lparr>ts_uploadCrc := crc32 (ts_uploadCrc ts) chunk\<rparr>) = (0, ts1)"
    "rd_ring (ts_reader ts1) = rd_ring (ts_reader ts)"
  shows "pumpLoop en ts = (False, ts1\<lparr>ts_inFlightWrites := ts_inFlightWrites ts1 + 1, ts_reader := notifySpaceAvailable (releaseSlot (ts_reader ts1)),
    ts_uploadSent := ts_uploadSent ts1 + of_nat (length chunk)\<rparr>)"
  using assms by (simp add: pumpLoop.simps Let_def releaseSlot_def kMaxInFlightWrites_def split: option.split)

lemma waiting_fields: "ts_expecting waiting = ExpAck" "\<not> ts_uploading waiting" "ts_csv waiting = []" "ts_framer waiting = newFramer AckMsg AckMsg"
  "\<exists>sk. ts_socket waiting = Some sk \<and> \<not> sk_closing sk \<and> sk_reading sk" "ts_uploadTotal waiting = 3" "ts_uploadFilename waiting = ''a.log''" "ts_source waiting = ''abc''"
proof -
  obtain rb where r: "(reader_step ^^ 6) reader0 = reader0\<lparr>rd_file := [], rd_remaining := 0, rd_ring := rb, rd_signalled := True,
      rd_readComplete := True, rd_pc := RdClose\<rparr>" "ring_contents rb = [''abc'']" "ring_ok rb"
    by (rule reader_run)
  obtain sk where sk: "ts_socket started = Some sk" "sk_valid sk" "\<not> sk_closing sk" "sk_reading sk" using started_fields(10) by blast
  let ?f = "filled\<lparr>ts_commands := [], ts_reader := (ts_reader filled)\<lparr>rd_signalled := False\<rparr>\<rparr>"
  have i: "ring_inv rb" using r(3) by (simp add: ring_ok_def)
  have rb: "rd_ring (ts_reader ?f) = rb" "rd_readComplete (ts_reader ?f)" "\<not> rd_failed (ts_reader ?f)"
    using r(1) by (simp_all add: filled_def started_fields) (simp add: reader0_def)
  have pk: "tryPeek rb = Some ''abc''" using r(2) i by (simp add: tryPeek_contents)
  have rc: "ring_contents (release rb) = []" using ring_contents_release [OF i] r(2) by simp
  have ri: "ring_inv (release rb)" using ring_inv_release [OF i] r(2) by simp
  have pk2: "tryPeek (release rb) = None" using rc ri by (simp add: tryPeek_contents)
  have em: "ring_empty (release rb)" using rc length_ring_contents [of "release rb"] by (simp add: ring_empty_def)
  let ?sk = "wrote ''abc'' sk"
  let ?t1 = "?f\<lparr>ts_uploadCrc := crc32 0 ''abc'', ts_socket := Some ?sk\<rparr>"
  have "sendOn run_env ''abc'' (?f\<lparr>ts_uploadCrc := crc32 (ts_uploadCrc ?f) ''abc''\<rparr>) = (0, ?t1)"
    using sk by (simp add: filled_def started_fields sendOn_def sock_send_def run_env_def wrote_def)
  note pl = pump_once [OF _ _ _ this]
  have pl: "pumpLoop run_env ?f = (False, ?t1\<lparr>ts_inFlightWrites := 1, ts_reader := notifySpaceAvailable (releaseSlot (ts_reader ?f)), ts_uploadSent := 3\<rparr>)"
    using pl rb pk pk2 by (simp add: filled_def started_fields)
  let ?t2 = "?t1\<lparr>ts_inFlightWrites := 1, ts_reader := notifySpaceAvailable (releaseSlot (ts_reader ?f)), ts_uploadSent := 3\<rparr>"
  have "usable ?f" "ts_uploading ?f" using sk by (simp_all add: usable_def filled_def started_fields)
  then have "pumpUpload run_env ?f = finishUpload run_env ?t2"
    using pl rb em by (simp add: pumpUpload_def releaseSlot_def filled_def started_fields)
  then have w: "waiting = finishUpload run_env ?t2" by (simp add: waiting_def onAsyncCb_def filled_def started_fields)
  show "ts_expecting waiting = ExpAck" "\<not> ts_uploading waiting" "ts_csv waiting = []" "ts_framer waiting = newFramer AckMsg AckMsg"
    "\<exists>sk. ts_socket waiting = Some sk \<and> \<not> sk_closing sk \<and> sk_reading sk" "ts_uploadTotal waiting = 3" "ts_uploadFilename waiting = ''a.log''" "ts_source waiting = ''abc''"
    unfolding w using sk
    by (simp_all add: finishUpload_def sendOn_def sock_send_def run_env_def Let_def push_defs filled_def started_fields framerReset_new wrote_def)
qed

text \<open>What every client that waits for the acknowledgement has written, and is ready for.\<close>

lemma waiting_stream:
  assumes "client_reach (ts, ui)" "ts_expecting ts = ExpAck"
  shows "length (payload ts) = unat (ts_uploadTotal ts)"
    "concat (stream ts) = upload_header ts @ payload ts @ encodeUploadTrailer \<lparr>ut_crc32 = crc32 0 (payload ts)\<rparr>"
    "\<not> ts_uploading ts" "ts_csv ts = []" "validUploadHeader (header_of ts)"
proof -
  show "validUploadHeader (header_of ts)" using sending_valid [OF assms(1)] assms(2) by (simp add: sending_def)
  have "up_inv ts" "recv_inv ts" using client_reach_inv [OF assms(1)] by (simp_all add: client_inv_def)
  then show "length (payload ts) = unat (ts_uploadTotal ts)" "\<not> ts_uploading ts" "ts_csv ts = []"
    "concat (stream ts) = upload_header ts @ payload ts @ encodeUploadTrailer \<lparr>ut_crc32 = crc32 0 (payload ts)\<rparr>"
    using assms(2) by (auto simp: up_inv_def recv_inv_def sent_all_def split: if_splits)
qed

text \<open>The answer of the server, and the client when it has it.\<close>

definition answer :: string where
  "answer = ok_ack 3 @ result_header ''a,b'' @ ''a,b''"

definition finished :: TransferService where
  "finished = onBytes run_env answer waiting"

lemma finished_ok: "client_reach (finished, shown_ui)" "ts_resultCsv finished = ''a,b''"
proof -
  obtain sk where "ts_socket waiting = Some sk" "\<not> sk_closing sk" "sk_reading sk" using waiting_fields(5) by blast
  then have "client_step (waiting, shown_ui) (finished, shown_ui)"
    unfolding finished_def by (intro client_step.bytes [OF run_env_ok(1)])
  with reach_waiting show "client_reach (finished, shown_ui)" by (rule client_reach.step)
  have "length ''a,b'' \<le> unat kMaxCsvSize" by (simp add: kMaxCsvSize_def)
  moreover have "awaits False ''a,b'' (answer @ []) waiting"
    using waiting_ack [OF waiting_fields(1-4), of False "''a,b''" 3] by (simp add: answer_def)
  ultimately have "awaits False ''a,b'' [] finished" unfolding finished_def by (rule onBytes_awaits)
  from awaits_Nil [OF this] show "ts_resultCsv finished = ''a,b''" by (simp add: at_done_def)
qed

section \<open>Properties\<close>

text \<open>
  C6. However TCP cuts the server's answer, a client that has sent its upload ends with exactly the result
  the server sent, and nothing more to ask for.
\<close>

theorem client_result_delivered:
  assumes "length full \<le> unat kMaxCsvSize"
    and "ts_expecting ts = ExpAck" "\<not> ts_uploading ts" "ts_csv ts = []" "ts_framer ts = newFramer AckMsg AckMsg"
    and "concat (map snd cs) = encodeAck \<lparr>ack_status = AckOk, ack_receivedBytes = n\<rparr> @
      encodeResultHeader \<lparr>rh_csvSize = of_nat (length full), rh_crc32 = crc32 0 full\<rparr> @ full"
  shows "takeResultCsv (receive cs ts) = full \<and> ts_expecting (receive cs ts) = ExpNothing \<and> \<not> ts_hasClaim (receive cs ts)"
proof -
  have "awaits False full (concat (map snd cs) @ []) ts"
    using waiting_ack [OF assms(2-5), of False full n] assms(6) by (simp add: ok_ack_def result_header_def)
  from awaits_Nil [OF receive_awaits [OF assms(1) this]] show ?thesis by (simp add: at_done_def takeResultCsv_def)
qed

theorem client_result_delivered_witness:
  "takeResultCsv (receive [(run_env, answer)] waiting) = ''a,b''"
  using client_result_delivered [OF _ waiting_fields(1-4), of "''a,b''" "[(run_env, answer)]" 3]
  by (simp add: answer_def ok_ack_def result_header_def kMaxCsvSize_def)

text \<open>
  C5. A break costs nothing but the break: wherever the connection is lost after the acknowledgement, the
  request the client sends on the next connection names the same upload and starts right after the bytes of
  the result it already has, and with the rest of the result, cut anyhow, it ends with the whole of it.
\<close>

theorem client_result_resumed:
  assumes "length full \<le> unat kMaxCsvSize" and "net_ok en"
    and "ts_expecting ts = ExpAck" "\<not> ts_uploading ts" "ts_csv ts = []" "ts_framer ts = newFramer AckMsg AckMsg"
    and "concat (map snd cs) @ missing = ok_ack n @ result_header full @ full" "missing \<noteq> []" "length (ok_ack n) \<le> length (concat (map snd cs))"
    and "m = length (concat (map snd cs)) - length (ok_ack n) - length (result_header full)"
    and "concat (map snd ds) = result_header full @ drop m full"
  shows "let broken = receive cs ts; back = come_back en status ip port broken in
    (\<exists>sk. ts_socket back = Some sk \<and> sk_written sk = [request_for m broken]) \<and> takeResultCsv (receive ds back) = full"
proof -
  have "awaits False full (concat (map snd cs) @ missing) ts"
    using waiting_ack [OF assms(3-6), of False full n] assms(7) by simp
  from receive_awaits [OF assms(1) this] have w: "awaits False full missing (receive cs ts)" .
  note r = awaits_received [OF w assms(7,9,8)]
  note b = come_back_reply [OF assms(2) r(1-4), of status ip port]
  have "awaits True full (concat (map snd ds) @ []) (come_back en status ip port (receive cs ts))"
    using awaits_intros(3) [OF b(1)] b(2) r(5) assms(10,11) by simp
  from awaits_Nil [OF receive_awaits [OF assms(1) this]] b(3) r(5) assms(10)
  show ?thesis by (simp add: at_done_def takeResultCsv_def Let_def)
qed

theorem client_result_resumed_witness:
  "let broken = receive [(run_env, ok_ack 3 @ result_header ''a,b'' @ ''a'')] waiting; back = come_back run_env (- 104) ''10.0.0.1'' 23507 broken in
    (\<exists>sk. ts_socket back = Some sk \<and> sk_written sk = [request_for 1 broken]) \<and> takeResultCsv (receive [(run_env, result_header ''a,b''), (run_env, '',b'')] back) = ''a,b''"
  by (rule client_result_resumed [OF _ run_env_ok(2) waiting_fields(1-4), where n = 3 and missing = "'',b''"]) (simp_all add: kMaxCsvSize_def)

text \<open>
  C4. What the client puts on the wire is an upload: while it uploads, the header with the name and size of the file,
  which is one the server accepts, and then a prefix of the file, in order and without gaps; and when it waits for the acknowledgement, the header,
  exactly as many bytes of the file as announced, and a trailer with their CRC-32, whatever the reader thread, the
  event loop, the network and the user have done in between; provided that every Send found either a connected socket or none, and
  that at each Send the reader thread had finished with an earlier upload or did not run between the emptying of the
  ring and the start of the new upload.  The code does not ensure the last: a chunk of an
  aborted upload committed in that moment is still in the ring when the new upload begins, and would be sent as its first.
\<close>

theorem client_upload_stream:
  assumes "client_run h (ts, ui)" and "\<forall>(e, cmd, met) \<in> set h. gated e cmd met"
  defines "bytes \<equiv> concat (stream ts)" and "file \<equiv> take (unat (ts_uploadTotal ts)) (ts_source ts)"
    and "header \<equiv> \<lparr>uh_fileSize = ts_uploadTotal ts, uh_filename = ts_uploadFilename ts\<rparr>"
  shows "(ts_uploading ts \<longrightarrow> validUploadHeader header \<and> (\<exists>sent. bytes = encodeUploadHeader header @ sent \<and> prefix sent file)) \<and>
    (ts_expecting ts = ExpAck \<longrightarrow> validUploadHeader header \<and> length file = unat (ts_uploadTotal ts) \<and>
      bytes = encodeUploadHeader header @ file @ encodeUploadTrailer \<lparr>ut_crc32 = crc32 0 file\<rparr>) \<and>
    (\<forall>rd n files path content sz. reader_ok rd \<and> rd_pc rd = RdCommit n \<and> rd_abort rd \<and> files path = Some content \<longrightarrow>
      (\<exists>rd'. beginUpload files path sz ((reader_step ^^ 3) (notifySpaceAvailable (drain_ring_of rd))) = Inr rd' \<and>
        ring_contents (rd_ring rd') = [held rd]))"
proof -
  have reach: "client_reach (ts, ui)" by (rule client_run_reach [OF assms(1,2)])
  have i: "up_inv ts" using client_reach_inv [OF reach] by (simp add: client_inv_def)
  have "validUploadHeader header \<and> (\<exists>sent. bytes = encodeUploadHeader header @ sent \<and> prefix sent file)" if up: "ts_uploading ts"
  proof -
    obtain chunks where c: "stream ts = upload_header ts # chunks" "reading (ts_source ts) (unat (ts_uploadTotal ts)) (concat chunks) (ts_reader ts)"
      using i up by (auto simp: up_inv_def streaming_def)
    from reading_prefix [OF c(2)] have "prefix (concat chunks) file" unfolding file_def by (metis take_is_prefix take_take min.absorb1)
    moreover have "validUploadHeader header" using sending_valid [OF reach] up by (simp add: sending_def header_def header_of_def)
    ultimately show ?thesis using c(1) by (simp add: bytes_def header_def upload_header_def)
  qed
  moreover have "validUploadHeader header \<and> length file = unat (ts_uploadTotal ts) \<and>
      bytes = encodeUploadHeader header @ file @ encodeUploadTrailer \<lparr>ut_crc32 = crc32 0 file\<rparr>" if "ts_expecting ts = ExpAck"
    using waiting_stream(1,2,5) [OF reach that] by (simp add: payload_def file_def bytes_def header_def header_of_def upload_header_def)
  ultimately show ?thesis using stale_chunk by blast
qed

theorem client_upload_stream_witness:
  "concat (stream waiting) = encodeUploadHeader \<lparr>uh_fileSize = 3, uh_filename = ''a.log''\<rparr> @ ''abc'' @ encodeUploadTrailer \<lparr>ut_crc32 = crc32 0 ''abc''\<rparr>"
proof -
  obtain met where w: "client_run [(run_env, StartUploadCommand ''C:/a.log'' ''a.log'' 3, met)] (waiting, shown_ui)"
    "gated run_env (StartUploadCommand ''C:/a.log'' ''a.log'' 3) met" using run_waiting by blast
  have "\<forall>(e, cmd, met) \<in> set [(run_env, StartUploadCommand ''C:/a.log'' ''a.log'' 3, met)]. gated e cmd met" using w(2) by simp
  from client_upload_stream [OF w(1) this] show ?thesis by (simp add: waiting_fields)
qed

text \<open>
  C12. A result the client hands to the user has the size and the CRC-32 its header announced; what it keeps of an
  unfinished one is within the limit of the protocol, and its claim to the rest names the file sent, its size and
  its CRC-32, and how many bytes of the result it already has.
\<close>

theorem client_result_verified:
  assumes "client_reach (ts, ui)"
  shows "(ts_resultCsv ts \<noteq> [] \<longrightarrow>
      crc32_ref 0 (takeResultCsv ts) = ts_csvExpectedCrc ts \<and> length (takeResultCsv ts) = unat (ts_csvSize ts)) \<and>
    length (ts_csv ts) \<le> unat kMaxCsvSize \<and>
    (ts_hasClaim ts \<longrightarrow> ts_claim ts = \<lparr>cl_filename = ts_uploadFilename ts, cl_fileSize = ts_uploadTotal ts,
      cl_crc32 = crc32_ref 0 (take (unat (ts_uploadTotal ts)) (ts_source ts)), cl_received = of_nat (length (ts_csv ts))\<rparr>)"
proof -
  have "recv_inv ts" "up_inv ts" using client_reach_inv [OF assms] by (simp_all add: client_inv_def)
  then show ?thesis by (cases "ts_claim ts") (auto simp: recv_inv_def up_inv_def takeResultCsv_def sent_all_def payload_def crc32_eq_ref [symmetric])
qed

theorem client_result_verified_witness: "takeResultCsv finished = ''a,b'' \<and> crc32_ref 0 ''a,b'' = ts_csvExpectedCrc finished"
  using client_result_verified [OF finished_ok(1)] finished_ok(2) by (simp add: takeResultCsv_def)

text \<open>
  C13. The window is never locked: once it has applied the events of the worker, a window that shows a session at
  work shows a connection, and the worker has a connected, open socket for it; and when the socket is gone, the
  user can connect again.
\<close>

theorem client_window_never_locked:
  assumes "client_reach c" and "pumpWorkerEvents stamp c = (ts, ui)"
  shows "(isBusy (ui_session ui) \<longrightarrow> canDisconnect ui \<and> usable ts \<and> ts_connected ts) \<and> (ts_socket ts = None \<longrightarrow> canConnect ui)"
proof -
  have "client_inv (ts, ui)" using client_reach_inv [OF client_reach.step [OF assms(1) client_step.pump [of c stamp]]] assms(2) by simp
  moreover have "shown (ts, ui) = (ui_link ui, ui_session ui)"
    using assms(2) by (auto simp: pumpWorkerEvents_def drainEvents_def shown_eq split: prod.splits)
  ultimately show ?thesis by (auto simp: client_inv_def conn_inv_def gate_defs usable_def active_def)
qed

theorem client_window_never_locked_witness: "canConnect (snd (pumpWorkerEvents [] (newTransferService, newUiState)))"
proof -
  obtain ts ui where p: "pumpWorkerEvents [] (newTransferService, newUiState) = (ts, ui)" by fastforce
  then have "ts_socket ts = None" by (auto simp: pumpWorkerEvents_def drainEvents_def newTransferService_def)
  then show ?thesis using client_window_never_locked [OF client_reach.start p] p by simp
qed

end
