(* ===== verification/Steps.thy ===== *)
theory Steps
  imports Main
begin

text \<open>
  Termination of the loops whose steps several threads share.  A component gives the moves its threads can make,
  an invariant of the states they pass through, and a rank in a well-ordered type; the contract is that every
  move keeps the invariant and lowers the rank, and that some move is possible until the work is finished.
  Then no schedule of the moves goes on for ever, and every schedule that cannot be continued has finished.
\<close>

locale ranked_moves =
  fixes move :: "'s \<Rightarrow> 's \<Rightarrow> bool" and inv :: "'s \<Rightarrow> bool" and finished :: "'s \<Rightarrow> bool" and rank :: "'s \<Rightarrow> 'r::wellorder"
  assumes move_inv: "inv s \<Longrightarrow> move s s' \<Longrightarrow> inv s'"
    and move_rank: "inv s \<Longrightarrow> move s s' \<Longrightarrow> rank s' < rank s"
    and move_on: "inv s \<Longrightarrow> \<not> finished s \<Longrightarrow> \<exists>s'. move s s'"
begin

lemma run_inv:
  assumes "move\<^sup>*\<^sup>* s s'" and "inv s"
  shows "inv s'"
  using assms by (induction rule: rtranclp_induct) (auto intro: move_inv)

lemma no_infinite_run:
  assumes "inv (f 0)"
  shows "\<exists>i. \<not> move (f i) (f (Suc i))"
  using assms
proof (induction "rank (f 0)" arbitrary: f rule: less_induct)
  case less
  show ?case
  proof (cases "move (f 0) (f 1)")
    case True
    from less.hyps [of "\<lambda>i. f (Suc i)"] move_rank [OF less.prems True] move_inv [OF less.prems True]
    show ?thesis by (metis One_nat_def)
  next
    case False
    then show ?thesis by (metis One_nat_def)
  qed
qed

lemma stuck_finished:
  assumes "move\<^sup>*\<^sup>* s s'" and "inv s" and "\<And>s''. \<not> move s' s''"
  shows "finished s'"
  using move_on [OF run_inv [OF assms(1,2)]] assms(3) by blast

lemma run_to_end:
  assumes "inv s"
  shows "\<exists>s'. move\<^sup>*\<^sup>* s s' \<and> finished s'"
  using assms
proof (induction "rank s" arbitrary: s rule: less_induct)
  case less
  show ?case
  proof (cases "finished s")
    case False
    then obtain s1 where m: "move s s1" using move_on [OF less.prems] by blast
    from less.hyps [OF move_rank [OF less.prems m] move_inv [OF less.prems m]] m
    show ?thesis by (meson converse_rtranclp_into_rtranclp)
  qed blast
qed

end

end
