(* ===== verification/ServerApp.thy ===== *)
theory ServerApp
  imports Steps ServerSafety ServerConfig Logger
begin

text \<open>
  The server's application object, \<^verbatim>\<open>server/src/app/ServerApp.cpp\<close>, and the life of what it owns: the signal handles, the
  parser thread with its three wake-up handles (\<^verbatim>\<open>ParserThread::start\<close>, \<open>stop\<close>, \<open>closeHandles\<close>), the listening
  socket (\<^verbatim>\<open>common/net/Listener.cpp\<close>), the manager's idle handle and the timer that prunes the log.  Of a libuv handle,
  the model keeps whether it has been initialised, and closed; the result codes of libuv and the local time are
  the record \<open>AppEnv\<close>.  For signals it keeps what the kernel keeps: which have a handler, and which threads
  block them.
\<close>

section \<open>Handles\<close>

datatype UvHandle = Fresh | Open | Closing | Misused

text \<open>\<^verbatim>\<open>uv_close\<close> is for a handle that has been initialised; on another it is outside what libuv allows.\<close>

fun uv_close :: "UvHandle \<Rightarrow> UvHandle" where
  "uv_close Fresh = Misused"
| "uv_close Open = Closing"
| "uv_close Closing = Misused"
| "uv_close Misused = Misused"

definition uv_is_closing :: "UvHandle \<Rightarrow> bool" where
  "uv_is_closing h \<longleftrightarrow> h = Closing"

definition closeHandle :: "UvHandle \<Rightarrow> UvHandle" where
  "closeHandle h = (if \<not> uv_is_closing h then uv_close h else h)"

text \<open>A handle behind a \<^verbatim>\<open>unique_ptr\<close>: whether the pointer is still held, and the handle.\<close>

record OwnedHandle =
  oh_held :: bool
  oh_handle :: UvHandle

definition newHandle :: OwnedHandle where
  "newHandle = \<lparr>oh_held = True, oh_handle = Fresh\<rparr>"

definition closeOwned :: "OwnedHandle \<Rightarrow> OwnedHandle" where
  "closeOwned h = (if \<not> oh_held h then h else \<lparr>oh_held = False, oh_handle = closeHandle (oh_handle h)\<rparr>)"

record AppEnv =
  ae_loopInit :: int
  ae_signalInit :: "nat \<Rightarrow> int"
  ae_signalStart :: "nat \<Rightarrow> int"
  ae_tcpInit :: int
  ae_idleInit :: int
  ae_asyncInit :: "nat \<Rightarrow> int"
  ae_ip4Addr :: int
  ae_tcpBind :: int
  ae_listen :: int
  ae_timerInit :: int
  ae_strerror :: "int \<Rightarrow> string"

section \<open>The parser thread's life\<close>

record ParserLife =
  pl_completion :: OwnedHandle
  pl_resume :: OwnedHandle
  pl_abortDone :: OwnedHandle
  pl_started :: bool

definition newParserLife :: ParserLife where
  "newParserLife = \<lparr>pl_completion = newHandle, pl_resume = newHandle, pl_abortDone = newHandle, pl_started = False\<rparr>"

definition closeHandles :: "ParserLife \<Rightarrow> ParserLife" where
  "closeHandles pl = pl\<lparr>pl_completion := closeOwned (pl_completion pl), pl_resume := closeOwned (pl_resume pl),
    pl_abortDone := closeOwned (pl_abortDone pl)\<rparr>"

text \<open>An error is the text; the state is the one left behind.\<close>

definition parser_start :: "AppEnv \<Rightarrow> ParserLife \<Rightarrow> string option \<times> ParserLife" where
  "parser_start en pl =
    (if pl_started pl then (None, pl)
     else if ae_asyncInit en 0 \<noteq> 0 then (Some (''uv_async_init(completion): '' @ ae_strerror en (ae_asyncInit en 0)), pl)
     else let pl1 = pl\<lparr>pl_completion := (pl_completion pl)\<lparr>oh_handle := Open\<rparr>\<rparr> in
     if ae_asyncInit en 1 \<noteq> 0 then (Some (''uv_async_init(resume): '' @ ae_strerror en (ae_asyncInit en 1)), pl1)
     else let pl2 = pl1\<lparr>pl_resume := (pl_resume pl1)\<lparr>oh_handle := Open\<rparr>\<rparr> in
     if ae_asyncInit en 2 \<noteq> 0 then (Some (''uv_async_init(abortDone): '' @ ae_strerror en (ae_asyncInit en 2)), pl2)
     else (None, pl2\<lparr>pl_abortDone := (pl_abortDone pl2)\<lparr>oh_handle := Open\<rparr>, pl_started := True\<rparr>))"

text \<open>
  Joining the thread: the caller is blocked, and the parser thread runs alone, to the end of its main loop.  Once a
  stop has been requested its program points follow a fixed order, so it does get there.
\<close>

fun stop_distance :: "ParserPc \<Rightarrow> nat" where
  "stop_distance AtStopped = 0"
| "stop_distance AtWait = 1"
| "stop_distance AtAborted = 2"
| "stop_distance AtClear = 2"
| "stop_distance AtReset = 3"
| "stop_distance AtFinish = 4"
| "stop_distance AtCheck = 5"
| "stop_distance AtConsume = 6"
| "stop_distance AtWoke = 7"

lemma stopping_run:
  assumes "pt_stopRequested (w_pt w)" "parser_run w = Some w'"
  shows "stop_distance (w_pc w') < stop_distance (w_pc w) \<and> pt_stopRequested (w_pt w')"
proof (cases "w_pc w")
  case AtConsume
  then show ?thesis using assms by (cases "tryPeek (pt_ring (w_pt w))") (auto simp: parser_run_def Let_def)
next
  case AtWoke
  then show ?thesis using assms by (cases "pt_abortRequested (w_pt w)") (auto simp: parser_run_def Let_def reset_rest(2))
next
  case AtCheck
  then show ?thesis
    using assms by (cases "pt_uploadComplete (w_pt w) \<and> ring_empty (pt_ring (w_pt w))") (auto simp: parser_run_def Let_def)
qed (use assms in \<open>auto simp: parser_run_def Let_def finishResult_rest(5) finishReset_rest(5)\<close>)

lemma stopping_step:
  assumes "pt_stopRequested (mg_parser (sv_mgr sv))" "parser_step sv = Some sv'"
  shows "stop_distance (sv_pc sv') < stop_distance (sv_pc sv)" "pt_stopRequested (mg_parser (sv_mgr sv'))"
  using assms by (auto simp: parser_step_def split: option.splits dest: stopping_run [rotated])

function parser_join :: "Server \<Rightarrow> Server" where
  "parser_join sv =
    (if \<not> pt_stopRequested (mg_parser (sv_mgr sv)) then sv
     else case parser_step sv of None \<Rightarrow> sv | Some sv' \<Rightarrow> parser_join sv')"
  by pat_completeness auto
termination
  by (relation "measure (\<lambda>sv. stop_distance (sv_pc sv))") (simp_all add: stopping_step)

declare parser_join.simps [simp del]

definition parser_stop :: "ParserLife \<times> Server \<Rightarrow> ParserLife \<times> Server" where
  "parser_stop p =
    (case p of (pl, sv) \<Rightarrow>
      if \<not> pl_started pl then (closeHandles pl, sv)
      else
        let sv1 = sv\<lparr>sv_mgr := (sv_mgr sv)\<lparr>mg_parser := (mg_parser (sv_mgr sv))\<lparr>pt_stopRequested := True\<rparr>\<rparr>\<rparr>
        in (closeHandles (pl\<lparr>pl_started := False\<rparr>), parser_join sv1))"

section \<open>Signals\<close>

datatype Signal = SIGTERM | SIGINT | OtherSignal nat

fun signalName :: "Signal \<Rightarrow> string" where
  "signalName SIGTERM = ''SIGTERM''"
| "signalName SIGINT = ''SIGINT''"
| "signalName (OtherSignal n) = ''signal '' @ to_string n"

section \<open>The application\<close>

definition kListenBacklog :: nat where "kListenBacklog = 128"
definition kLogPruneHour :: nat where "kLogPruneHour = 3"
definition kPruneCheckIntervalMs :: nat where "kPruneCheckIntervalMs = 60 * 60 * 1000"

text \<open>
  The session manager is there with the server it runs, its parser thread's life, its listening socket and its idle
  handle.  A timer whose handle could not be initialised never starts: it is the same as none.
\<close>

record Sessions =
  sm_server :: Server
  sm_parser :: ParserLife
  sm_listener :: OwnedHandle
  sm_listening :: "(string \<times> u16 \<times> nat) option"
  sm_reaper :: OwnedHandle

record ServerApp =
  ap_config :: ServerConfig
  ap_sessions :: "Sessions option"
  ap_sigterm :: UvHandle
  ap_sigint :: UvHandle
  ap_pruneTimer :: "Timer option"
  ap_lastPruneDate :: string
  ap_loopReady :: bool
  ap_shuttingDown :: bool
  ap_handled :: "Signal set"
  ap_blocked :: "Signal set"
  ap_logger :: Logger

definition newServerApp :: "ServerConfig \<Rightarrow> Logger \<Rightarrow> ServerApp" where
  "newServerApp config lg = \<lparr>ap_config = config, ap_sessions = None, ap_sigterm = Fresh, ap_sigint = Fresh, ap_pruneTimer = None,
    ap_lastPruneDate = [], ap_loopReady = False, ap_shuttingDown = False, ap_handled = {}, ap_blocked = {}, ap_logger = lg\<rparr>"

subsection \<open>Initialisation\<close>

definition registerSignal :: "AppEnv \<Rightarrow> nat \<Rightarrow> Signal \<Rightarrow> UvHandle \<times> Signal set \<Rightarrow> string option \<times> UvHandle \<times> Signal set" where
  "registerSignal en k sig st =
    (case st of (h, handled) \<Rightarrow>
      if ae_signalInit en k \<noteq> 0 then (Some (''uv_signal_init: '' @ ae_strerror en (ae_signalInit en k)), h, handled)
      else if ae_signalStart en k \<noteq> 0 then (Some (''uv_signal_start: '' @ ae_strerror en (ae_signalStart en k)), Open, handled)
      else (None, Open, insert sig handled))"

definition newSessions :: "AppEnv \<Rightarrow> ServerConfig \<Rightarrow> Sessions" where
  "newSessions en config =
    (let sv = newServer (sc_chunkSize config) (ringSlotCountFor (sc_chunkSize config)) defaultTimeouts in
     \<lparr>sm_server = sv\<lparr>sv_mgr := (sv_mgr sv)\<lparr>mg_reaper := (ae_idleInit en = 0)\<rparr>\<rparr>, sm_parser = newParserLife,
      sm_listener = \<lparr>oh_held = (ae_tcpInit en = 0), oh_handle = if ae_tcpInit en = 0 then Open else Fresh\<rparr>, sm_listening = None,
      sm_reaper = \<lparr>oh_held = (ae_idleInit en = 0), oh_handle = if ae_idleInit en = 0 then Open else Fresh\<rparr>\<rparr>)"

definition startParser :: "AppEnv \<Rightarrow> Sessions \<Rightarrow> string option \<times> Sessions" where
  "startParser en sm = (case parser_start en (sm_parser sm) of (err, pl) \<Rightarrow> (err, sm\<lparr>sm_parser := pl\<rparr>))"

definition sessions_listen :: "AppEnv \<Rightarrow> string \<Rightarrow> u16 \<Rightarrow> nat \<Rightarrow> Sessions \<Rightarrow> int \<times> Sessions" where
  "sessions_listen en ip port backlog sm =
    (if \<not> oh_held (sm_listener sm) then (kUvEinval, sm)
     else if ae_ip4Addr en \<noteq> 0 then (ae_ip4Addr en, sm)
     else if ae_tcpBind en \<noteq> 0 then (ae_tcpBind en, sm)
     else (ae_listen en, if ae_listen en = 0 then sm\<lparr>sm_listening := Some (ip, port, backlog)\<rparr> else sm))"

definition armPruneTimer :: "ServerApp \<Rightarrow> ServerApp" where
  "armPruneTimer a = a\<lparr>ap_pruneTimer := map_option (timer_start kPruneCheckIntervalMs) (ap_pruneTimer a)\<rparr>"

text \<open>The signal handles, then the sessions.\<close>

definition app_register :: "AppEnv \<Rightarrow> ServerApp \<Rightarrow> string option \<times> ServerApp" where
  "app_register en a =
    (case registerSignal en 0 SIGTERM (ap_sigterm a, ap_handled a) of (err, h, handled) \<Rightarrow>
      let a1 = a\<lparr>ap_sigterm := h, ap_handled := handled\<rparr> in
      if err \<noteq> None then (err, a1)
      else case registerSignal en 1 SIGINT (ap_sigint a1, ap_handled a1) of (err, h, handled) \<Rightarrow>
        (err, a1\<lparr>ap_sigint := h, ap_handled := handled\<rparr>))"

definition app_serve :: "AppEnv \<Rightarrow> ServerApp \<Rightarrow> string option \<times> ServerApp" where
  "app_serve en a =
    (case startParser en (newSessions en (ap_config a)) of (err, sm) \<Rightarrow>
      let a1 = a\<lparr>ap_sessions := Some sm\<rparr> in
      if err \<noteq> None then (err, a1)
      else case sessions_listen en ''0.0.0.0'' (sc_port (ap_config a)) kListenBacklog sm of (rc, sm2) \<Rightarrow>
        let a2 = a1\<lparr>ap_sessions := Some sm2\<rparr> in
        if rc \<noteq> 0 then
          (Some (''listen on port '' @ to_string (unat (sc_port (ap_config a))) @ '': '' @ ae_strerror en rc), a2)
        else (None, if activeFilePath (ap_logger a2) \<noteq> None then armPruneTimer (a2\<lparr>ap_pruneTimer := if ae_timerInit en = 0 then Some newTimer else None\<rparr>) else a2))"

definition app_init :: "AppEnv \<Rightarrow> ServerApp \<Rightarrow> string option \<times> ServerApp" where
  "app_init en a =
    (if ae_loopInit en \<noteq> 0 then (Some (''uv_loop_init: '' @ ae_strerror en (ae_loopInit en)), a)
     else case app_register en (a\<lparr>ap_loopReady := True\<rparr>) of (err, a1) \<Rightarrow>
       if err \<noteq> None then (err, a1) else app_serve en a1)"

subsection \<open>The hourly check\<close>

text \<open>
  What a tick of the timer meets: the local hour and date, if the conversions succeed; for the pruning, the date
  before which logs are old, the entries of the log directory and which of them can be removed; and the logger's
  environment.
\<close>

record PruneTick =
  tk_local :: "(nat \<times> string) option"
  tk_cutoff :: string
  tk_entries :: "(string \<times> bool) list"
  tk_removable :: "string \<Rightarrow> bool"
  tk_log :: LogEnv

definition kLogRetentionDays :: int where "kLogRetentionDays = 7"

definition prune_due :: "(nat \<times> string) option \<Rightarrow> string \<Rightarrow> bool" where
  "prune_due local lastDate \<longleftrightarrow>
    (case local of None \<Rightarrow> False | Some (hour, today) \<Rightarrow> hour = kLogPruneHour \<and> today \<noteq> [] \<and> lastDate \<noteq> today)"

definition onPruneTick :: "PruneTick \<Rightarrow> ServerApp \<Rightarrow> ServerApp" where
  "onPruneTick tk a =
    armPruneTimer
      (if prune_due (tk_local tk) (ap_lastPruneDate a) then
         case pruneOldLogs (tk_cutoff tk) kLogRetentionDays (tk_removable tk) (tk_entries tk) (ap_logger a) of (pruned, lg) \<Rightarrow>
           a\<lparr>ap_lastPruneDate := snd (the (tk_local tk)),
             ap_logger := if pruned > 0 then logger_log (tk_log tk) Info (''Pruned '' @ to_string pruned @ '' expired log directory(ies)'') lg
               else lg\<rparr>
       else a)"

subsection \<open>Shutdown\<close>

text \<open>The listening socket keeps its handle until the close callback.\<close>

definition listener_close :: "OwnedHandle \<Rightarrow> OwnedHandle" where
  "listener_close h = (if \<not> oh_held h \<or> oh_handle h = Closing then h else h\<lparr>oh_handle := uv_close (oh_handle h)\<rparr>)"

definition sessions_close :: "Sessions \<Rightarrow> Sessions" where
  "sessions_close sm =
    (case parser_stop (sm_parser sm, (sm_server sm)\<lparr>sv_mgr := manager_close (sv_mgr (sm_server sm))\<rparr>) of (pl, sv) \<Rightarrow>
      sm\<lparr>sm_server := sv, sm_parser := pl, sm_listener := listener_close (sm_listener sm),
         sm_reaper := closeOwned (sm_reaper sm)\<rparr>)"

text \<open>The actions of \<^verbatim>\<open>shutdown\<close> one by one: a signal can arrive between any two of them.\<close>

definition blockSignals :: "ServerApp \<Rightarrow> ServerApp" where
  "blockSignals a = a\<lparr>ap_blocked := {SIGTERM, SIGINT}\<rparr>"

definition closeSessions :: "ServerApp \<Rightarrow> ServerApp" where
  "closeSessions a = a\<lparr>ap_sessions := map_option sessions_close (ap_sessions a)\<rparr>"

definition stopSignal :: "Signal \<Rightarrow> ServerApp \<Rightarrow> ServerApp" where
  "stopSignal sig a = a\<lparr>ap_handled := ap_handled a - {sig}\<rparr>"

definition shutdown_actions :: "(ServerApp \<Rightarrow> ServerApp) list" where
  "shutdown_actions =
    [blockSignals, closeSessions, \<lambda>a. a\<lparr>ap_pruneTimer := None\<rparr>, stopSignal SIGTERM, stopSignal SIGINT,
     \<lambda>a. a\<lparr>ap_sigterm := closeHandle (ap_sigterm a)\<rparr>, \<lambda>a. a\<lparr>ap_sigint := closeHandle (ap_sigint a)\<rparr>]"

definition app_shutdown :: "ServerApp \<Rightarrow> ServerApp" where
  "app_shutdown a = fold (\<lambda>f. f) shutdown_actions a"

definition onSignal :: "LogEnv \<Rightarrow> Signal \<Rightarrow> ServerApp \<Rightarrow> ServerApp" where
  "onSignal le sig a =
    (if ap_shuttingDown a then
       a\<lparr>ap_logger := logger_log le Warn (''Ignoring '' @ signalName sig @ '' (shutdown already in progress)'') (ap_logger a)\<rparr>
     else app_shutdown (a\<lparr>ap_shuttingDown := True,
       ap_logger := logger_log le Info (''Received '' @ signalName sig @ '' '' @ [CHR 0xE2, CHR 0x80, CHR 0x94] @ '' starting graceful shutdown'') (ap_logger a)\<rparr>))"

section \<open>The running server\<close>

text \<open>
  The events of the loop and the steps of the parser thread: those of the server while it is not shutting down, the
  ticks of the timer, and the two signals.
\<close>

datatype AppEvent = AppServer Env ServerEvent | AppTick PruneTick | AppSignal LogEnv Signal

fun app_exec :: "AppEvent \<Rightarrow> ServerApp \<Rightarrow> ServerApp option" where
  "app_exec (AppServer en ev) a =
    (case ap_sessions a of
       None \<Rightarrow> None
     | Some sm \<Rightarrow>
         if ap_shuttingDown a \<or> ev = SvClose \<or> \<not> env_ok (sv_pc (sm_server sm)) en then None
         else map_option (\<lambda>sv. a\<lparr>ap_sessions := Some (sm\<lparr>sm_server := sv\<rparr>)\<rparr>) (server_exec en ev (sm_server sm)))"
| "app_exec (AppTick tk) a =
    (case ap_pruneTimer a of
       None \<Rightarrow> None
     | Some t \<Rightarrow> if timer_isActive t then Some (onPruneTick tk (a\<lparr>ap_pruneTimer := Some (t\<lparr>tm_due := None\<rparr>)\<rparr>)) else None)"
| "app_exec (AppSignal le sig) a = (if sig \<in> ap_handled a \<or> ap_shuttingDown a then Some (onSignal le sig a) else None)"

text \<open>\<^verbatim>\<open>uv_run\<close> returns once no handle is left open; \<open>evs\<close> is what happened until then.\<close>

fun app_loop :: "AppEvent list \<Rightarrow> ServerApp \<Rightarrow> ServerApp option" where
  "app_loop [] a = Some a"
| "app_loop (ev # evs) a = (case app_exec ev a of None \<Rightarrow> None | Some a' \<Rightarrow> app_loop evs a')"

inductive app_reach :: "AppEnv \<Rightarrow> ServerConfig \<Rightarrow> ServerApp \<Rightarrow> bool" for en config where
  start: "app_init en (newServerApp config lg) = (None, a) \<Longrightarrow> ae_idleInit en = 0 \<Longrightarrow> app_reach en config a"
| step: "app_reach en config a \<Longrightarrow> app_exec ev a = Some a' \<Longrightarrow> app_reach en config a'"

subsection \<open>Destruction\<close>

text \<open>
  \<^verbatim>\<open>~ServerApp\<close> and what its members' destructors do: the session and the idle handle, the parser thread, the listening
  socket.  The signal handles are plain members.
\<close>

definition sessions_destroy :: "Sessions \<Rightarrow> Sessions" where
  "sessions_destroy sm =
    (case parser_stop (sm_parser sm, (sm_server sm)\<lparr>sv_mgr := (sv_mgr (sm_server sm))\<lparr>mg_session := None, mg_reaper := False\<rparr>\<rparr>)
     of (pl, sv) \<Rightarrow> sm\<lparr>sm_server := sv, sm_parser := pl, sm_listener := closeOwned (sm_listener sm), sm_reaper := closeOwned (sm_reaper sm)\<rparr>)"

definition app_destroy :: "ServerApp \<Rightarrow> ServerApp" where
  "app_destroy a = a\<lparr>ap_pruneTimer := None, ap_sessions := map_option sessions_destroy (ap_sessions a)\<rparr>"

section \<open>The parser thread can be joined\<close>

lemma parser_step_reach:
  assumes "server_reach c n t sv" "parser_step sv = Some sv'"
  shows "server_reach c n t sv'"
  using server_reach.step [OF assms(1), of env_good SvParser sv'] assms(2) env_good_calm by (simp add: env_ok_def env_calm_def)

lemma parser_step_pc: "sv_pc sv \<noteq> AtStopped \<Longrightarrow> sv_pc sv \<noteq> AtWait \<or> pt_stopRequested (mg_parser (sv_mgr sv)) \<Longrightarrow> parser_step sv \<noteq> None"
  by (cases "sv_pc sv") (auto simp: parser_step_def parser_run_def Let_def split: option.split if_splits)

interpretation join: ranked_moves "\<lambda>sv sv'. parser_step sv = Some sv'" "\<lambda>sv. pt_stopRequested (mg_parser (sv_mgr sv))"
  "\<lambda>sv. sv_pc sv = AtStopped" "\<lambda>sv. stop_distance (sv_pc sv)"
  by unfold_locales (use stopping_step parser_step_pc in \<open>auto\<close>)

lemma parser_join_run: "(\<lambda>sv sv'. parser_step sv = Some sv')\<^sup>*\<^sup>* sv (parser_join sv) \<and>
    (pt_stopRequested (mg_parser (sv_mgr sv)) \<longrightarrow> parser_step (parser_join sv) = None)"
proof (induction sv rule: parser_join.induct)
  case (1 sv)
  show ?case
  proof (cases "pt_stopRequested (mg_parser (sv_mgr sv)) \<and> parser_step sv \<noteq> None")
    case True
    then obtain sv' where st: "parser_step sv = Some sv'" by auto
    have "parser_join sv = parser_join sv'" using True st by (subst parser_join.simps) simp
    with 1 [OF _ st] True st stopping_step(2) [OF _ st] show ?thesis
      by (auto intro: converse_rtranclp_into_rtranclp)
  next
    case False
    then have "parser_join sv = sv" by (subst parser_join.simps) (auto split: option.split)
    with False show ?thesis by auto
  qed
qed

lemma parser_join_stops: "pt_stopRequested (mg_parser (sv_mgr sv)) \<Longrightarrow> sv_pc (parser_join sv) = AtStopped"
  using parser_join_run [of sv] join.stuck_finished [of sv "parser_join sv"] by simp

lemma parser_join_reach: "server_reach c n t sv \<Longrightarrow> server_reach c n t (parser_join sv)"
proof -
  assume r: "server_reach c n t sv"
  have "(\<lambda>sv sv'. parser_step sv = Some sv')\<^sup>*\<^sup>* sv sv' \<Longrightarrow> server_reach c n t sv'" for sv'
    by (induction rule: rtranclp_induct) (auto intro: r parser_step_reach)
  then show ?thesis using parser_join_run by blast
qed

lemma parser_join_session: "mg_session (sv_mgr (parser_join sv)) = mg_session (sv_mgr sv)"
proof -
  have "(\<lambda>sv sv'. parser_step sv = Some sv')\<^sup>*\<^sup>* sv sv' \<Longrightarrow> mg_session (sv_mgr sv') = mg_session (sv_mgr sv)" for sv'
    by (induction rule: rtranclp_induct) (auto simp: parser_step_def split: option.splits)
  then show ?thesis using parser_join_run by blast
qed

section \<open>The handles, the signals and the server over a run\<close>

text \<open>The handles of the loop: the session's socket and timer go with the session.\<close>

definition handles :: "ServerApp \<Rightarrow> UvHandle list" where
  "handles a = [ap_sigterm a, ap_sigint a] @
    (case ap_sessions a of
       None \<Rightarrow> []
     | Some sm \<Rightarrow> [oh_handle (pl_completion (sm_parser sm)), oh_handle (pl_resume (sm_parser sm)), oh_handle (pl_abortDone (sm_parser sm)),
         oh_handle (sm_listener sm), oh_handle (sm_reaper sm)] @
         (if mg_session (sv_mgr (sm_server sm)) = None then [] else [Open, Open])) @
    (if ap_pruneTimer a = None then [] else [Open])"

definition parser_alive :: "ServerApp \<Rightarrow> bool" where
  "parser_alive a \<longleftrightarrow> (case ap_sessions a of None \<Rightarrow> False | Some sm \<Rightarrow> pl_started (sm_parser sm))"

text \<open>A signal would end the process: it has no handler, and some thread can receive it.  The parser thread blocks none.\<close>

definition fatal :: "Signal \<Rightarrow> ServerApp \<Rightarrow> bool" where
  "fatal sig a \<longleftrightarrow> sig \<notin> ap_handled a \<and> (sig \<notin> ap_blocked a \<or> parser_alive a)"

definition sessions_up :: "ServerConfig \<Rightarrow> Sessions \<Rightarrow> bool" where
  "sessions_up config sm \<longleftrightarrow>
    server_reach (sc_chunkSize config) (ringSlotCountFor (sc_chunkSize config)) defaultTimeouts (sm_server sm) \<and>
    sm_parser sm = \<lparr>pl_completion = \<lparr>oh_held = True, oh_handle = Open\<rparr>, pl_resume = \<lparr>oh_held = True, oh_handle = Open\<rparr>,
      pl_abortDone = \<lparr>oh_held = True, oh_handle = Open\<rparr>, pl_started = True\<rparr> \<and>
    sm_listener sm = \<lparr>oh_held = True, oh_handle = Open\<rparr> \<and> sm_listening sm = Some (''0.0.0.0'', sc_port config, kListenBacklog) \<and>
    sm_reaper sm = \<lparr>oh_held = True, oh_handle = Open\<rparr>"

definition app_up :: "ServerConfig \<Rightarrow> ServerApp \<Rightarrow> bool" where
  "app_up config a \<longleftrightarrow> \<not> ap_shuttingDown a \<and> ap_config a = config \<and> (\<exists>sm. ap_sessions a = Some sm \<and> sessions_up config sm) \<and>
    ap_sigterm a = Open \<and> ap_sigint a = Open \<and> ap_handled a = {SIGTERM, SIGINT} \<and> ap_blocked a = {} \<and>
    (\<forall>t. ap_pruneTimer a = Some t \<longrightarrow> tm_due t = Some kPruneCheckIntervalMs)"

definition app_down :: "ServerConfig \<Rightarrow> ServerApp \<Rightarrow> bool" where
  "app_down config a \<longleftrightarrow> ap_shuttingDown a \<and> set (handles a) \<subseteq> {Closing} \<and> ap_pruneTimer a = None \<and> ap_handled a = {} \<and>
    ap_blocked a = {SIGTERM, SIGINT} \<and> \<not> parser_alive a \<and>
    (\<exists>sm. ap_sessions a = Some sm \<and> sv_pc (sm_server sm) = AtStopped \<and>
      server_reach (sc_chunkSize config) (ringSlotCountFor (sc_chunkSize config)) defaultTimeouts (sm_server sm))"

lemma init_up:
  assumes "app_init en (newServerApp config lg) = (None, a)" "ae_idleInit en = 0"
  shows "app_up config a"
proof -
  let ?sv = "newServer (sc_chunkSize config) (ringSlotCountFor (sc_chunkSize config)) defaultTimeouts"
  have sv: "?sv\<lparr>sv_mgr := (sv_mgr ?sv)\<lparr>mg_reaper := True\<rparr>\<rparr> = ?sv" by (simp add: newServer_def newManager_def)
  let ?a = "(newServerApp config lg)\<lparr>ap_loopReady := True\<rparr>"
  from assms(1) obtain a1 where r: "app_register en ?a = (None, a1)" and s: "app_serve en a1 = (None, a)"
    by (auto simp: app_init_def split: if_splits prod.splits)
  have a1: "a1 = ?a\<lparr>ap_sigterm := Open, ap_sigint := Open, ap_handled := {SIGTERM, SIGINT}\<rparr>"
    using r by (auto simp: app_register_def registerSignal_def newServerApp_def Let_def split: if_splits prod.splits)
  have n: "newSessions en config = \<lparr>sm_server = ?sv, sm_parser = newParserLife,
      sm_listener = \<lparr>oh_held = (ae_tcpInit en = 0), oh_handle = if ae_tcpInit en = 0 then Open else Fresh\<rparr>, sm_listening = None,
      sm_reaper = \<lparr>oh_held = True, oh_handle = Open\<rparr>\<rparr>"
    using assms(2) sv by (simp add: newSessions_def Let_def)
  show ?thesis
    using s server_reach.init [of "sc_chunkSize config" "ringSlotCountFor (sc_chunkSize config)" defaultTimeouts]
    unfolding a1
    by (auto simp: app_serve_def n startParser_def parser_start_def newParserLife_def newHandle_def sessions_listen_def kUvEinval_def
        newServerApp_def Let_def app_up_def sessions_up_def armPruneTimer_def timer_start_def split: if_splits prod.splits)
qed

lemma tick_up: "app_up config a \<Longrightarrow> app_up config (onPruneTick tk (a\<lparr>ap_pruneTimer := Some t\<rparr>))"
  by (auto simp: app_up_def onPruneTick_def armPruneTimer_def timer_start_def split: prod.split)

lemma close_up:
  assumes "sessions_up config sm"
  defines "sm' \<equiv> sessions_close sm"
  shows "server_reach (sc_chunkSize config) (ringSlotCountFor (sc_chunkSize config)) defaultTimeouts (sm_server sm')"
    "sv_pc (sm_server sm') = AtStopped" "mg_session (sv_mgr (sm_server sm')) = None" "\<not> pl_started (sm_parser sm')"
    "oh_handle (pl_completion (sm_parser sm')) = Closing" "oh_handle (pl_resume (sm_parser sm')) = Closing"
    "oh_handle (pl_abortDone (sm_parser sm')) = Closing" "oh_handle (sm_listener sm') = Closing" "oh_handle (sm_reaper sm') = Closing"
proof -
  let ?sv = "(sm_server sm)\<lparr>sv_mgr := manager_close (sv_mgr (sm_server sm))\<rparr>"
  let ?sv1 = "?sv\<lparr>sv_mgr := (sv_mgr ?sv)\<lparr>mg_parser := (mg_parser (sv_mgr ?sv))\<lparr>pt_stopRequested := True\<rparr>\<rparr>\<rparr>"
  have e: "?sv1 = ?sv" by (simp add: manager_close_def)
  have r: "server_reach (sc_chunkSize config) (ringSlotCountFor (sc_chunkSize config)) defaultTimeouts ?sv"
    using server_reach.step [of _ _ _ "sm_server sm" env_good SvClose] assms(1) env_good_calm
    by (simp add: sessions_up_def env_ok_def env_calm_def)
  have pc: "sv_pc (parser_join ?sv) = AtStopped" by (rule parser_join_stops) (simp add: manager_close_def)
  have ss: "mg_session (sv_mgr (parser_join ?sv)) = None" by (simp add: parser_join_session manager_close_def)
  have c: "sm' = sm\<lparr>sm_server := parser_join ?sv, sm_parser := closeHandles ((sm_parser sm)\<lparr>pl_started := False\<rparr>),
      sm_listener := listener_close (sm_listener sm), sm_reaper := closeOwned (sm_reaper sm)\<rparr>"
    using assms(1) e by (simp add: sm'_def sessions_close_def parser_stop_def sessions_up_def Let_def)
  show "server_reach (sc_chunkSize config) (ringSlotCountFor (sc_chunkSize config)) defaultTimeouts (sm_server sm')"
    "sv_pc (sm_server sm') = AtStopped" "mg_session (sv_mgr (sm_server sm')) = None"
    using parser_join_reach [OF r] pc ss by (simp_all add: c)
  show "\<not> pl_started (sm_parser sm')"
    "oh_handle (pl_completion (sm_parser sm')) = Closing" "oh_handle (pl_resume (sm_parser sm')) = Closing"
    "oh_handle (pl_abortDone (sm_parser sm')) = Closing" "oh_handle (sm_listener sm') = Closing" "oh_handle (sm_reaper sm') = Closing"
    using assms(1) by (simp_all add: c sessions_up_def closeHandles_def closeOwned_def closeHandle_def uv_is_closing_def listener_close_def)
qed

lemma shutdown_down:
  assumes "app_up config a"
  shows "app_down config (app_shutdown (a\<lparr>ap_shuttingDown := True, ap_logger := lg\<rparr>))"
proof -
  obtain sm where sm: "ap_sessions a = Some sm" "sessions_up config sm" using assms by (auto simp: app_up_def)
  show ?thesis
    using assms sm(1) close_up [OF sm(2)]
    by (simp add: app_up_def app_down_def app_shutdown_def shutdown_actions_def blockSignals_def closeSessions_def stopSignal_def
        handles_def parser_alive_def closeHandle_def uv_is_closing_def)
qed

lemma app_down_logger [simp]: "app_down config (a\<lparr>ap_logger := lg\<rparr>) = app_down config a"
  by (simp add: app_down_def handles_def parser_alive_def)

lemma step_up_down:
  assumes "app_exec ev a = Some a'" "app_up config a \<or> app_down config a"
  shows "app_up config a' \<or> app_down config a'"
proof (cases ev)
  case (AppServer en e)
  then obtain sm sv where sm: "ap_sessions a = Some sm" "\<not> ap_shuttingDown a" "env_ok (sv_pc (sm_server sm)) en"
    and x: "server_exec en e (sm_server sm) = Some sv" and a': "a' = a\<lparr>ap_sessions := Some (sm\<lparr>sm_server := sv\<rparr>)\<rparr>"
    using assms(1) by (auto split: option.splits if_splits)
  then have up: "app_up config a" using assms(2) by (auto simp: app_down_def)
  then have "sessions_up config sm" using sm(1) by (auto simp: app_up_def)
  then have "sessions_up config (sm\<lparr>sm_server := sv\<rparr>)" using server_reach.step [OF _ sm(3) x] by (simp add: sessions_up_def)
  then show ?thesis using up by (simp add: a' app_up_def)
next
  case (AppTick tk)
  then show ?thesis
    using assms tick_up [of config a tk] by (auto simp: app_down_def split: option.splits if_splits)
next
  case (AppSignal le sig)
  show ?thesis
  proof (cases "app_up config a")
    case True
    then show ?thesis
      using AppSignal assms(1) shutdown_down [OF True] by (auto simp: onSignal_def app_up_def split: if_splits)
  next
    case False
    with assms(2) have d: "app_down config a" and "ap_shuttingDown a" by (simp_all add: app_down_def)
    then obtain lg where "a' = a\<lparr>ap_logger := lg\<rparr>" using AppSignal assms(1) by (simp add: onSignal_def) blast
    with d show ?thesis by simp
  qed
qed

lemma app_reach_states: "app_reach en config a \<Longrightarrow> app_up config a \<or> app_down config a"
  by (induction rule: app_reach.induct) (auto dest: init_up step_up_down)

section \<open>Properties\<close>

definition quiet_env :: AppEnv where
  "quiet_env = \<lparr>ae_loopInit = 0, ae_signalInit = (\<lambda>k. 0), ae_signalStart = (\<lambda>k. 0), ae_tcpInit = 0, ae_idleInit = 0,
    ae_asyncInit = (\<lambda>k. 0), ae_ip4Addr = 0, ae_tcpBind = 0, ae_listen = 0, ae_timerInit = 0, ae_strerror = (\<lambda>k. [])\<rparr>"

lemma quiet_reach: "\<exists>a. app_reach quiet_env defaultConfig a \<and> \<not> ap_shuttingDown a"
proof -
  have i: "ae_idleInit quiet_env = 0" by (simp add: quiet_env_def)
  obtain a where a: "app_init quiet_env (newServerApp defaultConfig undefined) = (None, a)"
    by (simp add: quiet_env_def app_init_def app_register_def registerSignal_def app_serve_def startParser_def parser_start_def newSessions_def
        newParserLife_def sessions_listen_def Let_def)
  show ?thesis using app_reach.start [OF a i] init_up [OF a i] by (auto simp: app_up_def)
qed

text \<open>
  C16. The process runs the server that was configured.  In every state the application reaches from a successful start, its
  session manager and parser thread are in a state of the server model for the configured chunk size and the
  ring that fits it, with the default time limits, listening on the configured port until shutdown begins; what
  is proved of the server's runs holds of the process.
\<close>

theorem server_app_serves:
  assumes "app_reach en config a"
  shows "\<exists>sm. ap_sessions a = Some sm \<and>
    server_reach (sc_chunkSize config) (ringSlotCountFor (sc_chunkSize config)) defaultTimeouts (sm_server sm) \<and>
    (\<not> ap_shuttingDown a \<longrightarrow> sm_listening sm = Some (''0.0.0.0'', sc_port config, kListenBacklog))"
  using app_reach_states [OF assms] by (auto simp: app_up_def app_down_def sessions_up_def)

theorem server_app_serves_witness:
  "\<exists>(a :: ServerApp) sm. ap_sessions a = Some sm \<and> server_reach 65536 64 defaultTimeouts (sm_server sm) \<and>
    sm_listening sm = Some (''0.0.0.0'', of_nat kDefaultPort, 128)"
proof -
  obtain a where a: "app_reach quiet_env defaultConfig a" "\<not> ap_shuttingDown a" using quiet_reach by blast
  have "sc_chunkSize defaultConfig = 65536" "ringSlotCountFor 65536 = 64" "sc_port defaultConfig = of_nat kDefaultPort"
    by (simp_all add: defaultConfig_def ringSlotCountFor_def ring_sizes)
  with server_app_serves [OF a(1)] a(2) show ?thesis by (intro exI [of _ a]) (auto simp: kListenBacklog_def)
qed

text \<open>
  C15. A signal ends the server in good order.  When one of the two signals is handled, then after any number of the actions of
  the shutdown neither signal would kill the process, in whichever thread it arrives; at the end the
  parser thread has ended, its join having returned, and every handle of the loop is being closed, so that
  \<^verbatim>\<open>uv_run\<close> returns.  A further signal changes nothing but the log.
\<close>

theorem server_shutdown_clean:
  assumes "app_reach en config a" and "\<not> ap_shuttingDown a" and "sig \<in> {SIGTERM, SIGINT}"
  shows "\<not> fatal sig (fold (\<lambda>f. f) (take n shutdown_actions) (a\<lparr>ap_shuttingDown := True, ap_logger := lg\<rparr>)) \<and> set (handles (onSignal le sig' a)) = {Closing} \<and>
    (\<exists>sm. ap_sessions (onSignal le sig' a) = Some sm \<and> sv_pc (sm_server sm) = AtStopped) \<and>
    (\<exists>lg'. onSignal le' sig'' (onSignal le sig' a) = (onSignal le sig' a)\<lparr>ap_logger := lg'\<rparr>)"
proof -
  from app_reach_states [OF assms(1)] assms(2) have up: "app_up config a" by (auto simp: app_down_def)
  then obtain sm where sm: "ap_sessions a = Some sm" "sessions_up config sm" by (auto simp: app_up_def)
  note c = close_up(4) [OF sm(2)]
  have "n \<in> {0, 1, 2, 3, 4, 5, 6} \<or> 7 \<le> n" by auto
  then have "\<not> fatal sig (fold (\<lambda>f. f) (take n shutdown_actions) (a\<lparr>ap_shuttingDown := True, ap_logger := lg\<rparr>))"
    using up sm(1) c assms(3)
    by (auto simp: shutdown_actions_def app_up_def fatal_def blockSignals_def closeSessions_def stopSignal_def parser_alive_def)
  moreover have d: "app_down config (onSignal le sig' a)" using shutdown_down [OF up] assms(2) by (simp add: onSignal_def)
  then have "ap_shuttingDown (onSignal le sig' a)" by (simp add: app_down_def)
  then have "\<exists>lg'. onSignal le' sig'' (onSignal le sig' a) = (onSignal le sig' a)\<lparr>ap_logger := lg'\<rparr>"
    by (auto simp: onSignal_def [of le' sig''])
  moreover have "set (handles (onSignal le sig' a)) = {Closing}" using d by (auto simp: app_down_def handles_def)
  ultimately show ?thesis using d by (auto simp: app_down_def)
qed

theorem server_shutdown_clean_witness:
  "\<exists>a lg. \<not> fatal SIGTERM (fold (\<lambda>f. f) (take 5 shutdown_actions) (a\<lparr>ap_shuttingDown := True, ap_logger := lg\<rparr>)) \<and>
    set (handles (onSignal fine SIGINT a)) = {Closing}"
proof -
  obtain a where a: "app_reach quiet_env defaultConfig a" "\<not> ap_shuttingDown a" using quiet_reach by blast
  show ?thesis using server_shutdown_clean [OF a, of SIGTERM] by blast
qed

text \<open>The part of the start before the sessions, and what it leaves of the handles when it fails.\<close>

lemma register_handles:
  assumes "app_register en (newServerApp config lg\<lparr>ap_loopReady := True\<rparr>) = (err, a)"
  shows "ap_sessions a = None" "ap_config a = config" "Misused \<notin> {ap_sigterm a, ap_sigint a}"
    "err = None \<longleftrightarrow> (\<forall>k<2. ae_signalInit en k = 0 \<and> ae_signalStart en k = 0)"
  using assms
  by (auto simp: app_register_def registerSignal_def newServerApp_def Let_def less_2_cases_iff split: if_splits prod.splits)

definition life_up :: ParserLife where
  "life_up = \<lparr>pl_completion = \<lparr>oh_held = True, oh_handle = Open\<rparr>, pl_resume = \<lparr>oh_held = True, oh_handle = Open\<rparr>,
    pl_abortDone = \<lparr>oh_held = True, oh_handle = Open\<rparr>, pl_started = True\<rparr>"

lemma start_life:
  assumes "parser_start en newParserLife = (e, pl)"
  shows "e \<noteq> None \<longleftrightarrow> ae_asyncInit en 0 \<noteq> 0 \<or> ae_asyncInit en 1 \<noteq> 0 \<or> ae_asyncInit en 2 \<noteq> 0"
    "e \<noteq> None \<Longrightarrow> \<not> pl_started pl \<and> pl_abortDone pl = newHandle" "e = None \<Longrightarrow> pl = life_up"
  using assms by (auto simp: parser_start_def newParserLife_def newHandle_def life_up_def Let_def split: if_splits)

lemma closed_fresh: "pl_abortDone pl = newHandle \<Longrightarrow> oh_handle (pl_abortDone (closeHandles pl)) = Misused"
  by (simp add: closeHandles_def closeOwned_def newHandle_def closeHandle_def uv_is_closing_def)

lemma closed_up:
  "pl_started life_up" "oh_handle (pl_completion (closeHandles (life_up\<lparr>pl_started := b\<rparr>))) = Closing"
  "oh_handle (pl_resume (closeHandles (life_up\<lparr>pl_started := b\<rparr>))) = Closing"
  "oh_handle (pl_abortDone (closeHandles (life_up\<lparr>pl_started := b\<rparr>))) = Closing"
  by (simp_all add: life_up_def closeHandles_def closeOwned_def closeHandle_def uv_is_closing_def)

lemma newSessions_handles:
  "oh_handle (closeOwned (sm_listener (newSessions en config))) \<noteq> Misused" "oh_handle (closeOwned (sm_reaper (newSessions en config))) \<noteq> Misused"
  by (simp_all add: newSessions_def Let_def closeOwned_def closeHandle_def uv_is_closing_def)

text \<open>
  C37. A failed start and its clean-up.  When the start fails, destroying the application passes only initialised handles to
  \<^verbatim>\<open>uv_close\<close>, except in one case: if one of the three \<^verbatim>\<open>uv_async_init\<close> calls fails, the destructor of the parser
  thread closes handles that were never initialised.
\<close>

theorem failed_start_closes_fresh:
  assumes "app_init en (newServerApp config lg) = (Some err, a)"
  shows "Misused \<in> set (handles (app_destroy a)) \<longleftrightarrow>
    ae_loopInit en = 0 \<and> (\<forall>k<2. ae_signalInit en k = 0 \<and> ae_signalStart en k = 0) \<and> (\<exists>k<3. ae_asyncInit en k \<noteq> 0)"
proof (cases "ae_loopInit en = 0")
  case False
  then show ?thesis using assms by (auto simp: app_init_def app_destroy_def handles_def newServerApp_def)
next
  case True
  obtain err1 a1 where r: "app_register en (newServerApp config lg\<lparr>ap_loopReady := True\<rparr>) = (err1, a1)" by fastforce
  note h = register_handles [OF r]
  have three: "(\<exists>k<3. ae_asyncInit en k \<noteq> 0) \<longleftrightarrow> ae_asyncInit en 0 \<noteq> 0 \<or> ae_asyncInit en 1 \<noteq> 0 \<or> ae_asyncInit en 2 \<noteq> 0"
    by (auto simp: eval_nat_numeral less_Suc_eq)
  show ?thesis
  proof (cases "err1 = None")
    case False
    then show ?thesis using assms True r h by (auto simp: app_init_def app_destroy_def handles_def)
  next
    case None: True
    then have s: "app_serve en a1 = (Some err, a)" using assms True r by (simp add: app_init_def)
    obtain e pl where p: "parser_start en newParserLife = (e, pl)" by fastforce
    note l = start_life [OF p]
    let ?sm = "(newSessions en config)\<lparr>sm_parser := pl\<rparr>"
    have sp: "startParser en (newSessions en (ap_config a1)) = (e, ?sm)" using p h(2) by (simp add: startParser_def newSessions_def Let_def)
    have "Misused \<in> set (handles (app_destroy a)) \<longleftrightarrow> e \<noteq> None"
    proof (cases "e = None")
      case False
      then have "ap_sessions a = Some ?sm" using s sp by (auto simp: app_serve_def Let_def)
      then have "Misused \<in> set (handles (app_destroy a))"
        using l(2) [OF False] by (simp add: handles_def app_destroy_def sessions_destroy_def parser_stop_def closed_fresh)
      then show ?thesis using False by simp
    next
      case True
      have "ap_sessions a = Some ?sm" "ap_sigterm a = ap_sigterm a1" "ap_sigint a = ap_sigint a1"
        using s sp True by (auto simp: app_serve_def sessions_listen_def Let_def split: if_splits)
      then show ?thesis
        using l(3) [OF True] True h(3) newSessions_handles [of en config]
        by (simp add: handles_def app_destroy_def sessions_destroy_def parser_stop_def closed_up parser_join_session Let_def)
    qed
    then have "Misused \<in> set (handles (app_destroy a)) \<longleftrightarrow> (\<exists>k<3. ae_asyncInit en k \<noteq> 0)" using l(1) three by simp
    then show ?thesis using True None h(4) by simp
  qed
qed

theorem failed_start_closes_fresh_witness:
  "\<exists>err a. app_init (quiet_env\<lparr>ae_asyncInit := (\<lambda>k. if k = 1 then -24 else 0)\<rparr>) (newServerApp defaultConfig fresh_log) = (Some err, a) \<and>
    Misused \<in> set (handles (app_destroy a))"
proof -
  let ?en = "quiet_env\<lparr>ae_asyncInit := (\<lambda>k. if k = 1 then -24 else 0)\<rparr>"
  obtain err a where i: "app_init ?en (newServerApp defaultConfig fresh_log) = (Some err, a)"
    by (simp add: quiet_env_def app_init_def app_register_def registerSignal_def app_serve_def startParser_def parser_start_def newSessions_def
        newParserLife_def Let_def)
  have "Misused \<in> set (handles (app_destroy a))"
    unfolding failed_start_closes_fresh [OF i] by (auto simp: quiet_env_def intro!: exI [of _ 1])
  with i show ?thesis by blast
qed

text \<open>The dates on which a run of ticks prunes the log.\<close>

fun prune_dates :: "PruneTick list \<Rightarrow> ServerApp \<Rightarrow> string list" where
  "prune_dates [] a = []"
| "prune_dates (tk # tks) a =
    (if prune_due (tk_local tk) (ap_lastPruneDate a) then [snd (the (tk_local tk))] else []) @ prune_dates tks (onPruneTick tk a)"

lemma tick_date: "ap_lastPruneDate (onPruneTick tk a) = (if prune_due (tk_local tk) (ap_lastPruneDate a) then snd (the (tk_local tk)) else ap_lastPruneDate a)"
  by (simp add: onPruneTick_def armPruneTimer_def split: prod.split)

text \<open>
  The log is pruned once a day.  As long as the date does not go back, however often and whenever the timer fires:
  every date on which it fires in the pruning hour is pruned exactly once, and no other, the date pruned last excepted.
\<close>

theorem log_pruned_once_a_day:
  assumes "\<And>tk. tk \<in> set tks \<Longrightarrow> tk_local tk \<noteq> None" and "sorted (ap_lastPruneDate a # map (\<lambda>tk. snd (the (tk_local tk))) tks)"
  shows "distinct (prune_dates tks a) \<and>
    set (prune_dates tks a) = {d. \<exists>tk \<in> set tks. tk_local tk = Some (kLogPruneHour, d)} - {[], ap_lastPruneDate a}"
  using assms
proof (induction tks arbitrary: a)
  case (Cons tk tks)
  obtain hour today where l: "tk_local tk = Some (hour, today)" using Cons.prems(1) [of tk] by (cases "tk_local tk") auto
  let ?a = "onPruneTick tk a"
  have s: "sorted (ap_lastPruneDate ?a # map (\<lambda>tk. snd (the (tk_local tk))) tks)"
    using Cons.prems(2) l by (auto simp: tick_date prune_due_def)
  have ih: "distinct (prune_dates tks ?a)"
    "set (prune_dates tks ?a) = {d. \<exists>tk \<in> set tks. tk_local tk = Some (kLogPruneHour, d)} - {[], ap_lastPruneDate ?a}"
    using Cons.IH [OF _ s] Cons.prems(1) by simp_all
  have mono: "ap_lastPruneDate a \<le> today" "\<And>tk d. tk \<in> set tks \<Longrightarrow> tk_local tk = Some (kLogPruneHour, d) \<Longrightarrow> today \<le> d"
    using Cons.prems(2) l by force+
  have old: "ap_lastPruneDate a \<notin> set (prune_dates tks ?a)" if "prune_due (tk_local tk) (ap_lastPruneDate a)"
  proof
    assume "ap_lastPruneDate a \<in> set (prune_dates tks ?a)"
    then have "today \<le> ap_lastPruneDate a" using ih(2) mono(2) by auto
    with mono(1) that l show False by (auto simp: prune_due_def)
  qed
  show ?case
  proof (cases "prune_due (tk_local tk) (ap_lastPruneDate a)")
    case True
    then have d: "ap_lastPruneDate ?a = today" "hour = kLogPruneHour" "today \<noteq> []" "ap_lastPruneDate a \<noteq> today"
      using l by (auto simp: tick_date prune_due_def)
    then show ?thesis using True ih old l by auto
  next
    case False
    then have d: "ap_lastPruneDate ?a = ap_lastPruneDate a" "hour \<noteq> kLogPruneHour \<or> today = [] \<or> today = ap_lastPruneDate a"
      using l by (auto simp: tick_date prune_due_def)
    then show ?thesis using False ih l by auto
  qed
qed simp

theorem log_pruned_once_a_day_witness:
  "\<exists>tk tk' a. tk_local tk = Some (3, ''20250101'') \<and> tk_local tk' = Some (3, ''20250102'') \<and>
    set (prune_dates [tk, tk, tk'] a) = {''20250101'', ''20250102''}"
proof -
  define tick where "tick d = \<lparr>tk_local = Some (3 :: nat, d), tk_cutoff = [], tk_entries = [], tk_removable = (\<lambda>e. True), tk_log = fine\<rparr>" for d
  let ?tks = "[tick ''20250101'', tick ''20250101'', tick ''20250102'']"
  have h: "kLogPruneHour = 3" by (simp add: kLogPruneHour_def)
  have "''20250101'' < ''20250102''" by code_simp
  then have "sorted (ap_lastPruneDate (newServerApp defaultConfig fresh_log) # map (\<lambda>tk. snd (the (tk_local tk))) ?tks)"
    by (simp add: tick_def newServerApp_def less_imp_le)
  moreover have "\<And>tk. tk \<in> set ?tks \<Longrightarrow> tk_local tk \<noteq> None" by (auto simp: tick_def)
  ultimately have t: "set (prune_dates ?tks (newServerApp defaultConfig fresh_log)) = {d. \<exists>tk \<in> set ?tks. tk_local tk = Some (kLogPruneHour, d)} -
      {[], ap_lastPruneDate (newServerApp defaultConfig fresh_log)}"
    using log_pruned_once_a_day by blast
  have l: "ap_lastPruneDate (newServerApp defaultConfig fresh_log) = []" by (simp add: newServerApp_def)
  have "{d. \<exists>tk \<in> set ?tks. tk_local tk = Some (kLogPruneHour, d)} = {''20250101'', ''20250102''}" by (auto simp: tick_def h)
  with t have "set (prune_dates ?tks (newServerApp defaultConfig fresh_log)) = {''20250101'', ''20250102''} - {[], []}"
    unfolding l by (simp only:)
  then show ?thesis
    by (intro exI [of _ "tick ''20250101''"] exI [of _ "tick ''20250102''"] exI [of _ "newServerApp defaultConfig fresh_log"] conjI)
      (simp add: tick_def, simp add: tick_def, simp del: prune_dates.simps)
qed

end
