(* ===== verification/Daemon.thy ===== *)
theory Daemon
  imports ServerApp
begin

text \<open>
  The server as a process: \<^verbatim>\<open>server/src/app/Daemon.cpp\<close> and \<^verbatim>\<open>server/src/app/main.cpp\<close>.  The state is what the process leaves outside
  itself (the PID file, the log files, what it wrote to its terminal) and its own settings that outlive a call
  (ignored signals, the session, the file mode mask).  What the kernel and the file system answer is the record
  \<open>ProcEnv\<close>; a call of \<^verbatim>\<open>fork\<close> answers differently in parent and child, and the model follows either.
\<close>

section \<open>Daemon\<close>

datatype ForkResult = ForkError | ForkParent | ForkChild

record ProcEnv =
  pe_fork :: "nat \<Rightarrow> ForkResult"
  pe_setsid :: bool
  pe_devNull :: bool
  pe_dup2 :: "nat \<Rightarrow> bool"
  pe_errno :: string
  pe_pid :: nat
  pe_fopen :: bool
  pe_fprintf :: "nat option"
  pe_fflush :: bool
  pe_fclose :: bool
  pe_configText :: "string option"
  pe_log :: "nat \<Rightarrow> LogEnv"
  pe_cutoff :: string
  pe_entries :: "(string \<times> bool) list"
  pe_removable :: "string \<Rightarrow> bool"
  pe_app :: AppEnv
  pe_events :: "AppEvent list"

record Process =
  pr_ignored :: "string set"
  pr_ownSession :: bool
  pr_umask :: "nat option"
  pr_devNull :: bool
  pr_pidFile :: "string option"
  pr_stdout :: string
  pr_stderr :: string
  pr_logger :: Logger

definition newProcess :: "Logger \<Rightarrow> string option \<Rightarrow> Process" where
  "newProcess lg pidFile = \<lparr>pr_ignored = {}, pr_ownSession = False, pr_umask = None, pr_devNull = False, pr_pidFile = pidFile,
    pr_stdout = [], pr_stderr = [], pr_logger = lg\<rparr>"

text \<open>A call returns a value, or the process has ended with an exit code.\<close>

datatype 'a Control = Returned 'a Process | Exited nat Process

definition errnoText :: "ProcEnv \<Rightarrow> string \<Rightarrow> string" where
  "errnoText en what = what @ '' failed: '' @ pe_errno en"

definition installProcessSignalDefaults :: "Process \<Rightarrow> Process" where
  "installProcessSignalDefaults p = p\<lparr>pr_ignored := {''SIGPIPE'', ''SIGHUP''} \<union> pr_ignored p\<rparr>"

definition redirectStdioToDevNull :: "ProcEnv \<Rightarrow> Process \<Rightarrow> string option \<times> Process" where
  "redirectStdioToDevNull en p =
    (if \<not> pe_devNull en then (Some (errnoText en ''open(/dev/null)''), p)
     else if pe_dup2 en 0 \<and> pe_dup2 en 1 \<and> pe_dup2 en 2 then (None, p\<lparr>pr_devNull := True\<rparr>)
     else (Some (errnoText en ''dup2''), p))"

definition daemonize :: "ProcEnv \<Rightarrow> Process \<Rightarrow> string option Control" where
  "daemonize en p =
    (case pe_fork en 0 of
       ForkError \<Rightarrow> Returned (Some (errnoText en ''fork'')) p
     | ForkParent \<Rightarrow> Exited 0 p
     | ForkChild \<Rightarrow>
         if \<not> pe_setsid en then Returned (Some (errnoText en ''setsid'')) p
         else let p1 = p\<lparr>pr_ownSession := True\<rparr> in
           case pe_fork en 1 of
             ForkError \<Rightarrow> Returned (Some (errnoText en ''second fork'')) p1
           | ForkParent \<Rightarrow> Exited 0 p1
           | ForkChild \<Rightarrow> (case redirectStdioToDevNull en (p1\<lparr>pr_umask := Some 23\<rparr>) of (err, p2) \<Rightarrow> Returned err p2))"

definition kPidFilePath :: string where "kPidFilePath = ''./server.pid''"

text \<open>Opening for writing truncates the file; of a failed \<^verbatim>\<open>fprintf\<close> nothing is in it, of a failed flush at most a part.\<close>

definition pid_text :: "ProcEnv \<Rightarrow> string" where
  "pid_text en = to_string (pe_pid en) @ [CHR 0x0A]"

definition pid_written :: "ProcEnv \<Rightarrow> bool" where
  "pid_written en \<longleftrightarrow> pe_fprintf en = None \<and> pe_fflush en \<and> pe_fclose en"

definition writePidFile :: "ProcEnv \<Rightarrow> Process \<Rightarrow> string option \<times> Process" where
  "writePidFile en p =
    (if \<not> pe_fopen en then (Some (''cannot open pid file '' @ [CHR 0x27] @ kPidFilePath @ [CHR 0x27] @ '': '' @ pe_errno en), p)
     else if pid_written en then (None, p\<lparr>pr_pidFile := Some (pid_text en)\<rparr>)
     else (Some (''cannot write pid file '' @ [CHR 0x27] @ kPidFilePath @ [CHR 0x27]),
       p\<lparr>pr_pidFile := Some (case pe_fprintf en of None \<Rightarrow> pid_text en | Some n \<Rightarrow> take n (pid_text en))\<rparr>))"

definition removePidFile :: "Process \<Rightarrow> Process" where
  "removePidFile p = p\<lparr>pr_pidFile := None\<rparr>"

section \<open>Main\<close>

text \<open>The directory and the name of a path, as \<^verbatim>\<open>std::filesystem::path\<close> splits it.\<close>

definition path_filename :: "string \<Rightarrow> string" where
  "path_filename p = rev (takeWhile (\<lambda>c. c \<noteq> CHR ''/'') (rev p))"

definition parent_path :: "string \<Rightarrow> string" where
  "parent_path p =
    (let dir = take (length p - length (path_filename p)) p;
         stripped = rev (dropWhile (\<lambda>c. c = CHR ''/'') (rev dir))
     in if dir \<noteq> [] \<and> stripped = [] then ''/'' else stripped)"

text \<open>Becoming a daemon, with its log and its PID file.\<close>

definition become_daemon :: "ProcEnv \<Rightarrow> ServerConfig \<Rightarrow> Process \<Rightarrow> unit Control" where
  "become_daemon en config p =
    (case daemonize en p of
       Exited code p1 \<Rightarrow> Exited code p1
     | Returned (Some err) p1 \<Rightarrow> Exited 1 (p1\<lparr>pr_stderr := pr_stderr p1 @ ''error: daemonize: '' @ err @ [CHR 0x0A]\<rparr>)
     | Returned None p1 \<Rightarrow>
         let logName = (if path_filename (sc_logPath config) = [] then ''server.log'' else path_filename (sc_logPath config)) in
         case openFile (pe_log en 0) (parent_path (sc_logPath config)) logName (pr_logger p1) of (opened, lg) \<Rightarrow>
           if \<not> opened then Exited 1 (p1\<lparr>pr_logger := lg\<rparr>)
           else case pruneOldLogs (pe_cutoff en) kLogRetentionDays (pe_removable en) (pe_entries en) lg of (pruned, lg1) \<Rightarrow>
             let lg2 = (if pruned > 0
                   then logger_log (pe_log en 1) Info (''Pruned '' @ to_string pruned @ '' expired log directory(ies) at startup'') lg1 else lg1)
             in case writePidFile en (p1\<lparr>pr_logger := lg2\<rparr>) of (err, p2) \<Rightarrow>
               (case err of
                  Some e \<Rightarrow> Exited 1 (p2\<lparr>pr_logger := logger_log (pe_log en 2) Error e lg2\<rparr>)
                | None \<Rightarrow> Returned () (p2\<lparr>pr_logger := logger_log (pe_log en 2) Info (''Daemonized (pid file '' @ kPidFilePath @ '')'') lg2\<rparr>)))"

text \<open>\<^verbatim>\<open>ServerApp::run\<close>: the loop runs \<open>pe_events\<close>; its exit code does not depend on what happened.\<close>

definition app_run :: "ProcEnv \<Rightarrow> ServerApp \<Rightarrow> nat \<times> ServerApp" where
  "app_run en a =
    (let a1 = a\<lparr>ap_logger := logger_log (pe_log en 3) Info (''Server started (port '' @ to_string (unat (sc_port (ap_config a))) @ '', pid '' @
           to_string (pe_pid en) @ '')'') (ap_logger a)\<rparr>;
         a2 = (case app_loop (pe_events en) a1 of None \<Rightarrow> a1 | Some a' \<Rightarrow> a');
         open = length (filter (\<lambda>h. h = Open) (handles a2));
         lg3 = (if open \<noteq> 0 then logger_log (pe_log en 4) Warn (''uv_run returned with '' @ to_string open @ '' active handle(s) remaining'')
           (ap_logger a2) else ap_logger a2)
     in (0, a2\<lparr>ap_logger := logger_log (pe_log en 5) Info ''Server stopped'' lg3\<rparr>))"

definition serve :: "ProcEnv \<Rightarrow> ServerConfig \<Rightarrow> Process \<Rightarrow> nat \<times> Process" where
  "serve en config p =
    (case app_init (pe_app en) (newServerApp config (pr_logger p)) of
       (Some err, a) \<Rightarrow>
         let p1 = p\<lparr>pr_logger := logger_log (pe_log en 6) Error (''Initialization failed: '' @ err) (pr_logger p)\<rparr> in
         (1, if sc_daemonize config then removePidFile p1 else p1\<lparr>pr_stderr := pr_stderr p1 @ ''error: '' @ err @ [CHR 0x0A]\<rparr>)
     | (None, a) \<Rightarrow>
         (case app_run en a of (exitCode, a') \<Rightarrow>
            let p1 = p\<lparr>pr_logger := ap_logger a'\<rparr>;
                p2 = (if sc_daemonize config then removePidFile p1 else p1)
            in (exitCode, p2\<lparr>pr_logger := logger_close (pr_logger p2)\<rparr>)))"

definition usageText :: string where
  "usageText = concat (map (\<lambda>line. line @ [CHR 0x0A])
    [''Usage: server [-d] [-p PORT] [-c CONFIG]'',
     ''  -d           run as a daemon (double-fork, detach from terminal)'',
     ''  -p PORT      listen port (default: '' @ to_string kDefaultPort @ '')'',
     ''  -c CONFIG    config file path (default: ./server.conf)'',
     ''  -h, --help   show this message''])"

definition server_main :: "ProcEnv \<Rightarrow> string list \<Rightarrow> Process \<Rightarrow> nat \<times> Process" where
  "server_main en args p0 =
    (let p = installProcessSignalDefaults p0 in
     case parseCommandLine args of
       Inl err \<Rightarrow> (1, p\<lparr>pr_stderr := pr_stderr p @ ''error: '' @ err @ [CHR 0x0A, CHR 0x0A] @ usageText\<rparr>)
     | Inr cli \<Rightarrow>
         if cl_helpRequested cli then (0, p\<lparr>pr_stdout := pr_stdout p @ usageText\<rparr>)
         else case buildConfig cli (pe_configText en) of
           Inl err \<Rightarrow> (1, p\<lparr>pr_stderr := pr_stderr p @ ''error: '' @ err @ [CHR 0x0A]\<rparr>)
         | Inr config \<Rightarrow>
             if \<not> sc_daemonize config then serve en config p
             else (case become_daemon en config p of
                Exited code p1 \<Rightarrow> (code, p1)
              | Returned _ p1 \<Rightarrow> serve en config p1))"

section \<open>Exit codes and the PID file\<close>

lemma serve_result:
  assumes "serve en config p = (code, p')"
  shows "code \<in> {0, 1}" "code = 0 \<longleftrightarrow> fst (app_init (pe_app en) (newServerApp config (pr_logger p))) = None"
    "pr_pidFile p' = (if sc_daemonize config then None else pr_pidFile p)"
    "code = 1 \<Longrightarrow> \<not> sc_daemonize config \<Longrightarrow> pr_stderr p' \<noteq> pr_stderr p"
  using assms
  by (auto simp: serve_def removePidFile_def app_run_def Let_def split: prod.splits option.splits if_splits)

lemma daemonize_pid:
  "daemonize en p = Returned err p' \<Longrightarrow> pr_pidFile p' = pr_pidFile p" "daemonize en p = Exited code p' \<Longrightarrow>
    pr_pidFile p' = pr_pidFile p \<and> code = 0 \<and> (pe_fork en 0 = ForkParent \<or> pe_fork en 1 = ForkParent)"
  by (auto simp: daemonize_def redirectStdioToDevNull_def Let_def split: ForkResult.splits if_splits)

text \<open>The ways a daemon's start ends.\<close>

lemma become_daemon_cases:
  assumes "become_daemon en config p = r"
  obtains (parent) p1 where "r = Exited 0 p1" "pr_pidFile p1 = pr_pidFile p" "pe_fork en 0 = ForkParent \<or> pe_fork en 1 = ForkParent"
  | (failed) p1 where "r = Exited 1 p1" "pr_pidFile p1 = pr_pidFile p"
  | (halfWritten) p1 where "r = Exited 1 p1" "pr_pidFile p1 \<noteq> None" "pe_fopen en" "\<not> pid_written en"
  | (daemon) p1 where "r = Returned () p1" "pr_pidFile p1 = Some (pid_text en)" "pid_written en"
proof (cases "daemonize en p")
  case (Exited code p1)
  then show thesis using assms daemonize_pid(2) [OF Exited] by (intro parent [of p1]) (auto simp: become_daemon_def)
next
  case (Returned err p1)
  note d = daemonize_pid(1) [OF Returned]
  show thesis
  proof (cases err)
    case (Some e)
    then show thesis using assms Returned d by (auto simp: become_daemon_def intro: failed)
  next
    case None
    obtain opened lg where o: "openFile (pe_log en 0) (parent_path (sc_logPath config))
        (if path_filename (sc_logPath config) = [] then ''server.log'' else path_filename (sc_logPath config)) (pr_logger p1) = (opened, lg)"
      by fastforce
    note b = assms [unfolded become_daemon_def Returned None Control.case option.case Let_def o prod.case]
    consider "\<not> opened" | "opened" "\<not> pe_fopen en" | "opened" "pe_fopen en" "\<not> pid_written en" | "opened" "pe_fopen en" "pid_written en"
      by blast
    then show thesis
    proof cases
      case 1
      then show thesis using b d by (auto intro: failed)
    next
      case 2
      then show thesis using b d by (auto simp: writePidFile_def split: prod.splits intro: failed)
    next
      case 3
      then show thesis using b by (auto simp: writePidFile_def split: prod.splits intro: halfWritten)
    next
      case 4
      then show thesis using b by (auto simp: writePidFile_def split: prod.splits intro: daemon)
    qed
  qed
qed

text \<open>When the application starts: every call to libuv on the way succeeds.\<close>

definition server_starts :: "AppEnv \<Rightarrow> bool" where
  "server_starts en \<longleftrightarrow> ae_loopInit en = 0 \<and> (\<forall>k<2. ae_signalInit en k = 0 \<and> ae_signalStart en k = 0) \<and> (\<forall>k<3. ae_asyncInit en k = 0) \<and>
    ae_tcpInit en = 0 \<and> ae_ip4Addr en = 0 \<and> ae_tcpBind en = 0 \<and> ae_listen en = 0"

lemma less_3_cases: "(\<forall>k<3. P k) \<longleftrightarrow> P 0 \<and> P 1 \<and> P (2 :: nat)"
  by (auto simp: eval_nat_numeral less_Suc_eq)

lemma listen_rc:
  "fst (sessions_listen en ip port backlog (newSessions en config\<lparr>sm_parser := pl\<rparr>)) = 0 \<longleftrightarrow>
    ae_tcpInit en = 0 \<and> ae_ip4Addr en = 0 \<and> ae_tcpBind en = 0 \<and> ae_listen en = 0"
  by (simp add: sessions_listen_def newSessions_def Let_def kUvEinval_def)

lemma app_init_None: "fst (app_init en (newServerApp config lg)) = None \<longleftrightarrow> server_starts en"
proof -
  obtain err a where r: "app_register en (newServerApp config lg\<lparr>ap_loopReady := True\<rparr>) = (err, a)" by fastforce
  note h = register_handles [OF r]
  obtain e pl where p: "parser_start en newParserLife = (e, pl)" by fastforce
  have l: "e = None \<longleftrightarrow> (\<forall>k<3. ae_asyncInit en k = 0)" using start_life(1) [OF p] by (auto simp: less_3_cases)
  have sp: "startParser en (newSessions en config) = (e, (newSessions en config)\<lparr>sm_parser := pl\<rparr>)"
    using p by (simp add: startParser_def newSessions_def Let_def)
  have "fst (app_serve en a) = None \<longleftrightarrow> e = None \<and>
      ae_tcpInit en = 0 \<and> ae_ip4Addr en = 0 \<and> ae_tcpBind en = 0 \<and> ae_listen en = 0"
    using listen_rc [where en = en and ip = "''0.0.0.0''" and port = "sc_port config" and backlog = kListenBacklog and config = config and pl = pl] h(2)
    by (auto simp: app_serve_def sp Let_def split: prod.splits)
  then show ?thesis using r h(4) l by (auto simp: app_init_def server_starts_def)
qed

text \<open>
  The parent of a fork that succeeded, and the daemon that has detached itself, opened its log and written its PID.
\<close>

definition forked_parent :: "ProcEnv \<Rightarrow> bool" where
  "forked_parent en \<longleftrightarrow> pe_fork en 0 = ForkParent \<or> pe_fork en 0 = ForkChild \<and> pe_setsid en \<and> pe_fork en 1 = ForkParent"

definition daemon_ready :: "ProcEnv \<Rightarrow> bool" where
  "daemon_ready en \<longleftrightarrow> pe_fork en 0 = ForkChild \<and> pe_setsid en \<and> pe_fork en 1 = ForkChild \<and> pe_devNull en \<and> pe_dup2 en 0 \<and> pe_dup2 en 1 \<and>
    pe_dup2 en 2 \<and> le_today (pe_log en 0) \<noteq> [] \<and> le_open (pe_log en 0) 0 \<and> pe_fopen en \<and> pid_written en"

lemma openFile_ok: "name \<noteq> [] \<Longrightarrow> fst (openFile en dir name lg) \<longleftrightarrow> le_today en \<noteq> [] \<and> le_open en 0"
  by (auto simp: openFile_def openForDateLocked_def Let_def split: prod.splits)

lemma daemonize_result:
  "(\<exists>code p'. daemonize en p = Exited code p') \<longleftrightarrow> forked_parent en"
  "(\<exists>p'. daemonize en p = Returned None p') \<longleftrightarrow> pe_fork en 0 = ForkChild \<and> pe_setsid en \<and> pe_fork en 1 = ForkChild \<and> pe_devNull en \<and>
    pe_dup2 en 0 \<and> pe_dup2 en 1 \<and> pe_dup2 en 2"
  by (cases "pe_fork en 0"; cases "pe_fork en 1"; simp add: daemonize_def forked_parent_def redirectStdioToDevNull_def Let_def)+

lemma become_daemon_result:
  "(\<exists>p1. become_daemon en config p = Exited 0 p1) \<longleftrightarrow> forked_parent en"
  "(\<exists>p1. become_daemon en config p = Returned () p1) \<longleftrightarrow> daemon_ready en"
proof -
  let ?name = "if path_filename (sc_logPath config) = [] then ''server.log'' else path_filename (sc_logPath config)"
  have n: "?name \<noteq> []" by simp
  have "(\<exists>p1. become_daemon en config p = Exited 0 p1) \<longleftrightarrow> (\<exists>code p'. daemonize en p = Exited code p')"
    using daemonize_pid(2) [of en p]
    by (cases "daemonize en p") (auto simp: become_daemon_def Let_def split: prod.splits option.splits)
  then show "(\<exists>p1. become_daemon en config p = Exited 0 p1) \<longleftrightarrow> forked_parent en" by (simp add: daemonize_result)
  have "(\<exists>p1. become_daemon en config p = Returned () p1) \<longleftrightarrow> (\<exists>p'. daemonize en p = Returned None p' \<and>
      le_today (pe_log en 0) \<noteq> [] \<and> le_open (pe_log en 0) 0 \<and> pe_fopen en \<and> pid_written en)"
  proof (cases "\<exists>p'. daemonize en p = Returned None p'")
    case True
    then obtain p' where d: "daemonize en p = Returned None p'" by blast
    obtain opened lg where o: "openFile (pe_log en 0) (parent_path (sc_logPath config)) ?name (pr_logger p') = (opened, lg)" by fastforce
    have "opened \<longleftrightarrow> le_today (pe_log en 0) \<noteq> [] \<and> le_open (pe_log en 0) 0" using openFile_ok [OF n] o by (metis fst_conv)
    then show ?thesis using d o by (auto simp: become_daemon_def writePidFile_def Let_def split: prod.splits)
  next
    case False
    then show ?thesis by (auto simp: become_daemon_def split: Control.splits option.splits)
  qed
  also have "\<dots> \<longleftrightarrow> daemon_ready en" using daemonize_result(2) [of en p] by (auto simp: daemon_ready_def)
  finally show "(\<exists>p1. become_daemon en config p = Returned () p1) \<longleftrightarrow> daemon_ready en" .
qed

text \<open>
  C36. How the server ends.  The exit code is 0 or 1, and it is 0 exactly for the help text, for the parent that has forked the daemon,
  and for a server, in the foreground or as a daemon that came up, that started and ran to its end; a failure outside a daemon is told on the
  terminal.  A PID file that was not there before is gone at the end, unless writing it failed half-way: then it is left
  behind.
\<close>

theorem server_exit:
  assumes "server_main en args (newProcess lg None) = (code, p)"
  shows "code \<in> {0, 1} \<and>
    (pr_pidFile p \<noteq> None \<longrightarrow> code = 1 \<and> pe_fopen en \<and> \<not> pid_written en) \<and>
    (code = 1 \<longrightarrow> pr_stderr p \<noteq> [] \<or> (\<exists>cli config. parseCommandLine args = Inr cli \<and> buildConfig cli (pe_configText en) = Inr config \<and> sc_daemonize config)) \<and>
    (code = 0 \<longleftrightarrow> (\<exists>cli. parseCommandLine args = Inr cli \<and> (cl_helpRequested cli \<or>
      (\<exists>config. buildConfig cli (pe_configText en) = Inr config \<and>
        (if sc_daemonize config then forked_parent en \<or> daemon_ready en \<and> server_starts (pe_app en) else server_starts (pe_app en))))))"
proof -
  let ?p = "installProcessSignalDefaults (newProcess lg None)"
  have p: "pr_pidFile ?p = None" "pr_stderr ?p = []" by (simp_all add: installProcessSignalDefaults_def newProcess_def)
  show ?thesis
  proof (cases "parseCommandLine args")
    case (Inl err)
    then show ?thesis using assms p by (auto simp: server_main_def Let_def)
  next
    case (Inr cli)
    show ?thesis
    proof (cases "cl_helpRequested cli")
      case True
      then show ?thesis using assms Inr p by (auto simp: server_main_def Let_def)
    next
      case False
      note nohelp = False
      show ?thesis
      proof (cases "buildConfig cli (pe_configText en)")
        case (Inl err)
        then show ?thesis using assms Inr nohelp p by (auto simp: server_main_def Let_def)
      next
        case conf: (Inr config)
        show ?thesis
        proof (cases "sc_daemonize config")
          case False
          then have "serve en config ?p = (code, p)" using assms Inr nohelp conf by (simp add: server_main_def)
          note s = serve_result [OF this, unfolded app_init_None]
          then show ?thesis using p False Inr nohelp conf by auto
        next
          case True
          define r where "r = become_daemon en config ?p"
          have m: "(case r of Exited code p1 \<Rightarrow> (code, p1) | Returned _ p1 \<Rightarrow> serve en config p1) = (code, p)"
            using assms Inr nohelp conf True by (simp add: server_main_def r_def)
          note R = become_daemon_result [of en config ?p, folded r_def]
          have nr: "forked_parent en \<Longrightarrow> \<not> daemon_ready en" by (auto simp: forked_parent_def daemon_ready_def)
          show ?thesis using r_def [symmetric]
          proof (cases rule: become_daemon_cases)
            case (daemon p1)
            with m have "serve en config p1 = (code, p)" by simp
            note s = serve_result [OF this, unfolded app_init_None]
            have "daemon_ready en" using R(2) daemon(1) by blast
            then show ?thesis using s(1-3) True Inr nohelp conf nr by auto
          qed (use m p True Inr nohelp conf R in auto)
        qed
      qed
    qed
  qed
qed

definition plain_env :: ProcEnv where
  "plain_env = \<lparr>pe_fork = (\<lambda>k. ForkChild), pe_setsid = True, pe_devNull = True, pe_dup2 = (\<lambda>k. True), pe_errno = [], pe_pid = 7,
    pe_fopen = True, pe_fprintf = Some 0, pe_fflush = True, pe_fclose = True, pe_configText = None, pe_log = (\<lambda>k. fine), pe_cutoff = [],
    pe_entries = [], pe_removable = (\<lambda>e. False), pe_app = quiet_env, pe_events = []\<rparr>"

theorem server_exit_witness:
  "\<exists>p. server_main plain_env [''server'', ''-d''] (newProcess fresh_log None) = (1, p) \<and> pr_pidFile p \<noteq> None \<and> \<not> pid_written plain_env"
proof -
  obtain code p where m: "server_main plain_env [''server'', ''-d''] (newProcess fresh_log None) = (code, p)" by fastforce
  have c: "parseCommandLine [''server'', ''-d''] = Inr (newCommandLine\<lparr>cl_daemonize := True\<rparr>)" by code_simp
  have b: "buildConfig (newCommandLine\<lparr>cl_daemonize := True\<rparr>) None = Inr (defaultConfig\<lparr>sc_daemonize := True\<rparr>)"
    by (simp add: buildConfig_def newCommandLine_def defaultConfig_def Let_def)
  define r where "r = become_daemon plain_env (defaultConfig\<lparr>sc_daemonize := True\<rparr>) (installProcessSignalDefaults (newProcess fresh_log None))"
  have "\<exists>p1. r = Exited 1 p1 \<and> pr_pidFile p1 = Some []"
    by (simp add: r_def become_daemon_def daemonize_def plain_env_def redirectStdioToDevNull_def openFile_def openForDateLocked_def fine_def
        path_filename_def defaultConfig_def writePidFile_def pid_written_def Let_def split: prod.split)
  then have "pr_pidFile p \<noteq> None" using m c b by (auto simp: server_main_def r_def Let_def newCommandLine_def plain_env_def)
  with server_exit [OF m] m show ?thesis by auto
qed

end
