(* ===== verification/UiRenderer.thy ===== *)
theory UiRenderer
  imports ClientApp Binary64
begin

text \<open>
  One frame of the window: \<^verbatim>\<open>client/src/ui/UiRenderer.cpp\<close> and \<^verbatim>\<open>Application::renderFrame\<close>.  Dear ImGui is a library the
  program calls: what the user does to a widget is the record \<open>FrameInput\<close>, a function of the widget and of whether it is
  drawn disabled, and that a disabled widget does not react is the hypothesis \<open>imgui_ok\<close>.  The result of drawing is the list
  of the widgets with their texts; colours, sizes and positions are left out, and so are the values of the progress
  bars.  A callback runs in the middle of the frame, so the widgets after it see the state it leaves.
\<close>

section \<open>Widgets\<close>

datatype Widget =
    WText string
  | WDim string
  | WInput string bool
  | WButton string bool
  | WProgress
  | WLog LogLevel string
  | WScrollToEnd

text \<open>
  What the user does, and what the callbacks meet: the answers of the file dialogs and of the shell, and the time stamp
  of log lines.
\<close>

record FrameInput =
  fi_button :: "string \<Rightarrow> bool \<Rightarrow> bool"
  fi_inputText :: "string \<Rightarrow> bool \<Rightarrow> string \<Rightarrow> string"
  fi_stamp :: string
  fi_shell :: "string \<Rightarrow> bool"
  fi_dialog :: DialogAnswer
  fi_wideText :: "string \<Rightarrow> bool"
  fi_messageBox :: "string \<Rightarrow> bool"
  fi_savePath :: "string option"
  fi_saveOpened :: bool
  fi_saveGood :: bool

text \<open>A button reports a press, and a text field changes its buffer, only when not disabled; a buffer keeps its size.\<close>

definition imgui_ok :: "FrameInput \<Rightarrow> bool" where
  "imgui_ok fi \<longleftrightarrow> (\<forall>label. \<not> fi_button fi label True) \<and> (\<forall>label buf. fi_inputText fi label True buf = buf) \<and>
    (\<forall>label disabled buf. length (fi_inputText fi label disabled buf) = length buf)"

definition buttonGated :: "FrameInput \<Rightarrow> string \<Rightarrow> bool \<Rightarrow> bool" where
  "buttonGated fi label enabled = fi_button fi label (\<not> enabled)"

fun sessionLabel :: "ClientSessionState \<Rightarrow> string" where
  "sessionLabel Connecting = ''Connecting''"
| "sessionLabel SendingHeader = ''Sending header''"
| "sessionLabel Streaming = ''Uploading''"
| "sessionLabel WaitAck = ''Waiting for ack''"
| "sessionLabel WaitResult = ''Analyzing on server''"
| "sessionLabel ReceivingResult = ''Receiving result''"
| "sessionLabel RequestingResult = ''Requesting result''"
| "sessionLabel Done = ''Done''"
| "sessionLabel Idle = ''Idle''"

text \<open>
  \<^verbatim>\<open>printf("%.1f")\<close> of a double writes the decimal nearest to its exact value, ties to even; the division by a power of
  two is exact.
\<close>

definition humanSize :: "u64 \<Rightarrow> string" where
  "humanSize bytes =
    (if unat bytes \<ge> 1024 * 1024 then
       let tenths = nat (round_even (rnd (of_nat (unat bytes)) / (1024 * 1024) * 10))
       in to_string (tenths div 10) @ ''.'' @ to_string (tenths mod 10) @ '' MB''
     else to_string (unat bytes) @ '' bytes'')"

text \<open>
  The question before an upload (\<^verbatim>\<open>FileDialog.cpp\<close>): whether its text can be converted, and the answer to it, are the input's.
\<close>

definition confirmText :: "string \<Rightarrow> u64 \<Rightarrow> string \<Rightarrow> string" where
  "confirmText fileName fileSize destination = ''Send '' @ fileName @ '' ('' @ humanSize fileSize @ '') to '' @ destination @ ''?''"

definition confirmUpload :: "FrameInput \<Rightarrow> string \<Rightarrow> u64 \<Rightarrow> string \<Rightarrow> bool" where
  "confirmUpload fi fileName fileSize destination =
    (let question = confirmText fileName fileSize destination in fi_wideText fi question \<and> fi_messageBox fi question)"

definition send_pressed :: "FrameInput \<Rightarrow> client \<Rightarrow> client" where
  "send_pressed fi c =
    (let ui = snd c; destination = bufferText (ui_serverIp ui) @ '':'' @ bufferText (ui_serverPort ui)
     in app_onSend (fi_stamp fi) (confirmUpload fi (ui_fileName ui) (ui_fileSize ui) destination) c)"

section \<open>The rows of the window\<close>

fun linkText :: "LinkState \<Rightarrow> string" where
  "linkText Connected = ''* Connected''"
| "linkText Reconnecting = ''* Reconnecting...''"
| "linkText Disconnected = ''* Disconnected''"

definition editAddress :: "FrameInput \<Rightarrow> client \<Rightarrow> client" where
  "editAddress fi c =
    (case c of (ts, ui) \<Rightarrow>
      let addressEditable = canEditAddress ui in
      (ts, ui\<lparr>ui_serverIp := fi_inputText fi ''##ip'' (\<not> addressEditable) (ui_serverIp ui),
              ui_serverPort := fi_inputText fi ''##port'' (\<not> addressEditable) (ui_serverPort ui)\<rparr>))"

text \<open>A button with its callback.\<close>

definition press :: "FrameInput \<Rightarrow> string \<Rightarrow> (UiState \<Rightarrow> bool) \<Rightarrow> (client \<Rightarrow> client) \<Rightarrow> client \<Rightarrow> client" where
  "press fi label gate callback c = (if buttonGated fi label (gate (snd c)) then callback c else c)"

definition renderServerRow :: "FrameInput \<Rightarrow> client \<Rightarrow> Widget list \<times> client" where
  "renderServerRow fi c =
    (let editable = canEditAddress (snd c);
         c1 = editAddress fi c;
         c2 = press fi ''Connect'' canConnect (app_onConnect (fi_stamp fi)) c1;
         c3 = press fi ''Disconnect'' canDisconnect app_onDisconnect c2;
         c4 = press fi ''Ping'' (\<lambda>ui. True) (app_onPing (fi_stamp fi) (fi_shell fi)) c3
     in ([WText ''Server'', WText ''IP'', WInput ''##ip'' editable, WText ''Port'', WInput ''##port'' editable,
          WButton ''Connect'' (canConnect (snd c1)), WButton ''Disconnect'' (canDisconnect (snd c2)), WButton ''Ping'' True,
          WText (linkText (ui_link (snd c4)))], c4))"

definition renderTransferRow :: "FrameInput \<Rightarrow> client \<Rightarrow> Widget list \<times> client" where
  "renderTransferRow fi c =
    (let shown = (if ui_filePath (snd c) = [] then ''(no file selected)'' else ui_filePath (snd c));
         c1 = press fi ''...'' canBrowse (app_onBrowse (fi_stamp fi) (fi_dialog fi)) c;
         size = (if ui_filePath (snd c1) \<noteq> [] then [WDim (humanSize (ui_fileSize (snd c1)))] else []);
         c2 = press fi ''Send'' canSend (send_pressed fi) c1;
         c3 = press fi ''Cancel'' canCancelUpload app_onCancelUpload c2;
         c4 = press fi ''Get result'' canRequestResult app_onRequestResult c3;
         c5 = press fi ''Save'' canSaveResult (\<lambda>c. fst (app_onSaveResult (fi_stamp fi) (fi_savePath fi) (fi_saveOpened fi) (fi_saveGood fi) c)) c4
     in ([WText ''Transfer'', WText ''File'', WText shown, WButton ''...'' (canBrowse (snd c))] @ size @
         [WText ''Send'', WProgress, WButton ''Send'' (canSend (snd c1)), WButton ''Cancel'' (canCancelUpload (snd c2)),
          WText ''Result'', WProgress, WButton ''Get result'' (canRequestResult (snd c3)), WButton ''Save'' (canSaveResult (snd c4)),
          WDim (''State: '' @ sessionLabel (ui_session (snd c5)))] @
         (if canSaveResult (snd c5) then [WDim ''- result.csv received; Save needs no connection''] else []), c5))"

definition renderLogPanel :: "client \<Rightarrow> Widget list \<times> client" where
  "renderLogPanel c =
    (case c of (ts, ui) \<Rightarrow>
      let entries = WText ''Log'' # map (\<lambda>e. WLog (le_level e) (le_text e)) (ui_logEntries ui) in
      if ui_logDirty ui then (entries @ [WScrollToEnd], (ts, clearLogDirty ui)) else (entries, c))"

definition render :: "FrameInput \<Rightarrow> client \<Rightarrow> Widget list \<times> client" where
  "render fi c =
    (case renderServerRow fi c of (w1, c1) \<Rightarrow>
     case renderTransferRow fi c1 of (w2, c2) \<Rightarrow>
     case renderLogPanel c2 of (w3, c3) \<Rightarrow> (w1 @ w2 @ w3, c3))"

definition renderFrame :: "FrameInput \<Rightarrow> client \<Rightarrow> Widget list \<times> client" where
  "renderFrame fi c = render fi (pumpWorkerEvents (fi_stamp fi) c)"

section \<open>A frame is a run of the client\<close>

text \<open>The text fields keep their size.\<close>

definition fields_ok :: "client \<Rightarrow> bool" where
  "fields_ok c \<longleftrightarrow> length (ui_serverIp (snd c)) = 64 \<and> length (ui_serverPort (snd c)) = 16"

lemma events_fields: "ui_serverIp (foldl (applyEvent stamp) ui es) = ui_serverIp ui" "ui_serverPort (foldl (applyEvent stamp) ui es) = ui_serverPort ui"
proof -
  have "ui_serverIp (applyEvent stamp ui e) = ui_serverIp ui" "ui_serverPort (applyEvent stamp ui e) = ui_serverPort ui" for ui e
    by (cases e; simp)+
  then show "ui_serverIp (foldl (applyEvent stamp) ui es) = ui_serverIp ui" "ui_serverPort (foldl (applyEvent stamp) ui es) = ui_serverPort ui"
    by (induction es arbitrary: ui) simp_all
qed

lemma step_fields: "client_step c c' \<Longrightarrow> fields_ok c \<Longrightarrow> fields_ok c'"
proof (induction rule: client_step.induct)
  case (pump c stamp)
  then show ?case by (cases c) (simp add: fields_ok_def pumpWorkerEvents_def drainEvents_def events_fields)
next
  case (press_connect ui ts stamp)
  then show ?case by (simp add: fields_ok_def app_onConnect_def Let_def split: option.split)
next
  case (press_browse ui ts stamp da)
  then show ?case by (simp add: fields_ok_def app_onBrowse_def split: sum.split)
next
  case (press_ping ts ui stamp shellExecute)
  then show ?case by (simp add: fields_ok_def app_onPing_def Let_def split: sum.split)
next
  case (press_save ui ts stamp chosen opened good)
  then show ?case by (simp add: fields_ok_def app_onSaveResult_def Let_def split: sum.split)
qed (simp_all add: fields_ok_def clearLogDirty_def app_onDisconnect_def app_onSend_def app_onCancelUpload_def app_onRequestResult_def)

lemma reach_fields: "client_reach c \<Longrightarrow> fields_ok c"
proof (induction rule: client_reach.induct)
  case start
  have "length (to_string kDefaultPort) = 5" by (simp add: kDefaultPort_def to_string.simps)
  then show ?case by (simp add: fields_ok_def newUiState_def Let_def)
qed (rule step_fields)

lemma press_step:
  assumes "imgui_ok fi" "\<And>ts ui. gate ui \<Longrightarrow> client_step (ts, ui) (callback (ts, ui))" "client_step\<^sup>*\<^sup>* c0 c"
  shows "client_step\<^sup>*\<^sup>* c0 (press fi label gate callback c)"
proof (cases "buttonGated fi label (gate (snd c))")
  case True
  then have "gate (snd c)" using assms(1) by (cases "gate (snd c)") (simp_all add: buttonGated_def imgui_ok_def)
  then have "client_step c (callback c)" using assms(2) [of "snd c" "fst c"] by simp
  then show ?thesis using True assms(3) by (simp add: press_def)
qed (use assms(3) in \<open>simp add: press_def\<close>)

lemma edit_step:
  assumes "imgui_ok fi" "fields_ok c" "client_step\<^sup>*\<^sup>* c0 c"
  shows "client_step\<^sup>*\<^sup>* c0 (editAddress fi c)"
proof -
  obtain ts ui where c: "c = (ts, ui)" by (cases c)
  show ?thesis
  proof (cases "canEditAddress ui")
    case True
    then have "client_step c (editAddress fi c)"
      using client_step.edit [OF True] assms(1,2) by (simp add: c editAddress_def imgui_ok_def fields_ok_def Let_def)
    with assms(3) show ?thesis by simp
  next
    case False
    then have "editAddress fi c = c" using assms(1) by (cases ui) (simp add: c editAddress_def imgui_ok_def Let_def)
    with assms(3) show ?thesis by simp
  qed
qed

lemma steps_fields: "client_step\<^sup>*\<^sup>* c c' \<Longrightarrow> fields_ok c \<Longrightarrow> fields_ok c'"
  by (induction rule: rtranclp_induct) (auto intro: step_fields)

lemma steps_reach: "client_step\<^sup>*\<^sup>* c c' \<Longrightarrow> client_reach c \<Longrightarrow> client_reach c'"
  by (induction rule: rtranclp_induct) (auto intro: client_reach.step)

lemma renderServerRow_steps: "imgui_ok fi \<Longrightarrow> fields_ok c \<Longrightarrow> client_step\<^sup>*\<^sup>* c0 c \<Longrightarrow> client_step\<^sup>*\<^sup>* c0 (snd (renderServerRow fi c))"
  unfolding renderServerRow_def Let_def snd_conv
  by (intro press_step edit_step) (auto intro: client_step.intros)

lemma renderTransferRow_steps: "imgui_ok fi \<Longrightarrow> client_step\<^sup>*\<^sup>* c0 c \<Longrightarrow> client_step\<^sup>*\<^sup>* c0 (snd (renderTransferRow fi c))"
  unfolding renderTransferRow_def Let_def snd_conv
  by (intro press_step) (auto simp: send_pressed_def Let_def intro: client_step.intros)

lemma renderLogPanel_steps: "client_step\<^sup>*\<^sup>* c0 c \<Longrightarrow> client_step\<^sup>*\<^sup>* c0 (snd (renderLogPanel c))"
  using client_step.drawn by (cases c) (fastforce simp: renderLogPanel_def Let_def intro: rtranclp.rtrancl_into_rtrancl)

lemma renderFrame_steps:
  assumes "imgui_ok fi" "client_reach c"
  shows "client_step\<^sup>*\<^sup>* c (snd (renderFrame fi c))"
proof -
  let ?c0 = "pumpWorkerEvents (fi_stamp fi) c"
  have p: "client_step\<^sup>*\<^sup>* c ?c0" by (rule r_into_rtranclp) (rule client_step.pump)
  have "fields_ok ?c0" by (rule steps_fields [OF p reach_fields [OF assms(2)]])
  from renderLogPanel_steps [OF renderTransferRow_steps [OF assms(1) renderServerRow_steps [OF assms(1) this p]]]
  show ?thesis by (simp add: renderFrame_def render_def split_beta)
qed

text \<open>Nothing below the first row changes the connection shown.\<close>

lemma press_link:
  assumes "\<And>c. ui_link (snd (callback c)) = ui_link (snd c)"
  shows "ui_link (snd (press fi label gate callback c)) = ui_link (snd c)"
  using assms by (simp add: press_def)

lemma renderTransferRow_link: "ui_link (snd (snd (renderTransferRow fi c))) = ui_link (snd c)"
  unfolding renderTransferRow_def Let_def snd_conv
  by (simp add: press_link app_onBrowse_def send_pressed_def app_onSend_def app_onCancelUpload_def app_onRequestResult_def app_onSaveResult_def Let_def
      split: sum.split prod.split)

lemma renderLogPanel_frame: "ui_link (snd (snd (renderLogPanel c))) = ui_link (snd c)"
  "ui_session (snd (snd (renderLogPanel c))) = ui_session (snd c)"
  by (cases c; simp add: renderLogPanel_def clearLogDirty_def Let_def)+

end
