(* ===== verification/ClientProgress.thy ===== *)
theory ClientProgress
  imports Steps ClientCorrect "HOL-Library.Product_Lexorder"
begin

text \<open>
  An upload comes to its end.  The reader thread, the event loop and the network take turns in any order; the loop
  runs only when the reader has woken it or a write has completed, so that a wake-up that got lost would leave
  the upload hanging.  First, in every state the client reaches, either the loop has been woken or there is
  nothing for it to do (\<open>lively\<close>); then every move of an upload lowers a rank, and there is a move until the trailer
  is sent, or until the reader sleeps through the room it was waiting for because the notification came before it slept.
\<close>

section \<open>No wake-up is lost\<close>

text \<open>What the loop would do if it ran: send a chunk, or the trailer.\<close>

definition work_left :: "TransferService \<Rightarrow> bool" where
  "work_left ts \<longleftrightarrow>
    (if ring_empty (rd_ring (ts_reader ts)) then rd_readComplete (ts_reader ts) else ts_inFlightWrites ts < kMaxInFlightWrites)"

definition pending :: "TransferService \<Rightarrow> nat" where
  "pending ts = (case ts_socket ts of None \<Rightarrow> 0 | Some sk \<Rightarrow> sk_pendingWrites sk)"

definition fits :: "TransferService \<Rightarrow> bool" where
  "fits ts \<longleftrightarrow> unat (ts_uploadTotal ts) \<le> length (ts_source ts)"

text \<open>A reader thread that waits for room, waits for a reason, unless it missed the notification.\<close>

definition sleeps_well :: "FileReader \<Rightarrow> bool" where
  "sleeps_well rd \<longleftrightarrow> (rd_pc rd \<in> {RdBlock, RdAsleep} \<longrightarrow> ring_full (rd_ring rd) \<or> rd_missed rd)"

lemma sleeps_well_notify [simp]: "sleeps_well (cv_notify rd)"
  by (simp add: sleeps_well_def cv_notify_def split: ReaderPc.split)

lemma sleeps_well_simps [simp]: "sleeps_well (rd\<lparr>rd_signalled := b\<rparr>) = sleeps_well rd" "rd_pc rd \<noteq> RdBlock \<Longrightarrow> rd_pc rd \<noteq> RdAsleep \<Longrightarrow> sleeps_well rd"
  by (simp_all add: sleeps_well_def)

lemma sleeps_well_step: "sleeps_well rd \<Longrightarrow> sleeps_well (reader_step rd)"
  by (auto simp: sleeps_well_def reader_step_def readSlot_def wake_def Let_def split: ReaderPc.splits option.splits)

text \<open>The reader thread is at work or done, and every write counted is one the socket has not completed.\<close>

definition running :: "TransferService \<Rightarrow> bool" where
  "running ts \<longleftrightarrow> \<not> rd_abort (ts_reader ts) \<and> (fits ts \<longrightarrow> \<not> rd_failed (ts_reader ts)) \<and>
    (rd_uploading (ts_reader ts) \<and> rd_pc (ts_reader ts) \<noteq> RdClose \<or> rd_readComplete (ts_reader ts) \<or> rd_failed (ts_reader ts)) \<and>
    ts_inFlightWrites ts \<le> pending ts \<and> sleeps_well (ts_reader ts)"

definition woken :: "TransferService \<Rightarrow> bool" where
  "woken ts \<longleftrightarrow> (fits ts \<and> work_left ts \<longrightarrow> rd_signalled (ts_reader ts))"

definition lively :: "TransferService \<Rightarrow> bool" where
  "lively ts \<longleftrightarrow> (ts_uploading ts \<longrightarrow> running ts \<and> woken ts)"

lemmas lively_defs = running_def woken_def work_left_def pending_def fits_def

subsection \<open>The reader thread\<close>

lemma tryAcquire_None: "tryAcquire rb = None \<longleftrightarrow> ring_full rb"
  by (simp add: tryAcquire_def ring_full_def)

lemma tryPeek_None: "tryPeek rb = None \<longleftrightarrow> ring_empty rb"
  by (simp add: tryPeek_def ring_empty_def)

text \<open>A file that is long enough never ends early.\<close>

lemma read_not_failed:
  assumes "reading content sz out rd" "reader_ok rd" "rd_pc rd = RdRead off cap" "sz \<le> length content" "\<not> rd_failed rd"
  shows "\<not> rd_failed (readSlot off cap rd)"
proof -
  from assms(1-3) obtain r where r: "r \<le> sz" "rd_remaining rd = sz - r" "rd_file rd = drop r content"
    by (auto simp: reading_def reader_ok_def)
  have "take n (rd_file rd) \<noteq> []" if "0 < n" "n \<le> rd_remaining rd" for n using that r assms(4) by simp
  then show ?thesis using assms(5) by (simp add: readSlot_def wake_def Let_def)
qed

lemma reader_lively:
  assumes "client_inv (ts, ui)" "lively ts"
  shows "lively (ts\<lparr>ts_reader := reader_step (ts_reader ts)\<rparr>)"
proof (cases "ts_uploading ts")
  case False
  then show ?thesis by (simp add: lively_def)
next
  case True
  let ?rd = "ts_reader ts"
  have l: "running ts" "woken ts" using assms(2) True by (simp_all add: lively_def)
  have ok: "reader_ok ?rd" and "streaming ts" using assms(1) True by (simp_all add: client_inv_def up_inv_def)
  then obtain out where rg: "reading (ts_source ts) (unat (ts_uploadTotal ts)) out ?rd" by (auto simp: streaming_def)
  have sw: "sleeps_well (reader_step ?rd)" using sleeps_well_step l(1) by (simp add: running_def)
  show ?thesis
  proof (cases "rd_pc ?rd")
    case (RdRead off cap)
    have "rd_uploading ?rd" using ok RdRead by (auto simp: reader_ok_def)
    then show ?thesis using True l read_not_failed [OF rg ok RdRead] RdRead
      by (auto simp: lively_def lively_defs reader_step_def readSlot_def wake_def Let_def ring_empty_def writeAt_def)
  qed (use True l ok sw in \<open>auto simp: lively_def lively_defs reader_step_def wake_def reader_ok_def split: option.split\<close>)
qed

subsection \<open>The loop that sends\<close>

text \<open>It stops with the ring empty or the window of writes full.\<close>

lemma abort_idle [simp]: "\<not> ts_uploading (abortUpload en reason level ts)"
  by (simp add: abortUpload_def push_defs drainRing_def closeSocket_eq)

lemma finish_idle [simp]: "\<not> ts_uploading (finishUpload en ts)"
  by (simp add: finishUpload_def push_defs Let_def split_beta)

definition sent_out :: "TransferService \<Rightarrow> bool" where
  "sent_out ts \<longleftrightarrow> ring_empty (rd_ring (ts_reader ts)) \<or> \<not> ts_inFlightWrites ts < kMaxInFlightWrites"

lemma release_frame [simp]:
  "rd_abort (releaseSlot rd) = rd_abort rd" "rd_failed (releaseSlot rd) = rd_failed rd" "rd_uploading (releaseSlot rd) = rd_uploading rd"
  "rd_readComplete (releaseSlot rd) = rd_readComplete rd" "rd_pc (releaseSlot rd) = rd_pc rd" "rd_signalled (releaseSlot rd) = rd_signalled rd"
  "rd_remaining (releaseSlot rd) = rd_remaining rd"
  by (simp_all add: releaseSlot_def)

lemma pumpLoop_running:
  assumes "te_ok en" "ts_uploading ts" "usable ts" "running ts" "pumpLoop en ts = (ab, ts')"
  shows "if ab then \<not> ts_uploading ts' else running ts' \<and> sent_out ts' \<and> ts_uploading ts'"
  using assms
proof (induction en ts arbitrary: ab ts' rule: pumpLoop.induct)
  case (1 en ts)
  obtain sk where sk: "ts_socket ts = Some sk" "\<not> sk_closing sk" using 1(4) by (auto simp: usable_def split: option.splits)
  show ?case
  proof (cases "ts_inFlightWrites ts < kMaxInFlightWrites \<and> tryPeek (rd_ring (ts_reader ts)) \<noteq> None")
    case False
    then show ?thesis using 1(3-6) by (auto simp: pumpLoop.simps [of en ts] sent_out_def tryPeek_None [symmetric] split: if_splits)
  next
    case True
    then obtain chunk where pk: "tryPeek (rd_ring (ts_reader ts)) = Some chunk" and fl: "ts_inFlightWrites ts < kMaxInFlightWrites"
      by auto
    let ?ts0 = "ts\<lparr>ts_uploadCrc := crc32 (ts_uploadCrc ts) chunk\<rparr>"
    have sk0: "ts_socket ?ts0 = Some sk" using sk by simp
    from 1(2) sk0 show ?thesis
    proof (cases rule: sendOn_cases [where bytes = chunk])
      case sent
      note s = sent(1) [folded wrote_def]
      let ?ts3 = "?ts0\<lparr>ts_socket := Some (wrote chunk sk), ts_inFlightWrites := Suc (ts_inFlightWrites ts),
        ts_reader := notifySpaceAvailable (releaseSlot (ts_reader ts)), ts_uploadSent := ts_uploadSent ts + of_nat (length chunk)\<rparr>"
      have "running ?ts3" using 1(5) sk by (simp add: running_def fits_def pending_def wrote_def)
      from 1(1) [OF _ pk s [symmetric] refl] fl this 1(2,3,6) sk show ?thesis
        by (simp add: pumpLoop.simps [of en ts] pk s Let_def usable_def)
    next
      case (failed rc)
      then show ?thesis using 1(6) fl by (auto simp: pumpLoop.simps [of en ts] pk Let_def)
    qed
  qed
qed

lemma all_read_all_sent:
  assumes "client_inv (ts, ui)" "ts_uploading ts" "rd_readComplete (ts_reader ts)" "ring_empty (rd_ring (ts_reader ts))"
  shows "\<not> ts_trailerSent ts" "ts_uploadTotal ts \<le> ts_uploadSent ts"
proof -
  from assms(1,2) obtain chunks where st: "reading (ts_source ts) (unat (ts_uploadTotal ts)) (concat chunks) (ts_reader ts)"
    "ts_uploadSent ts = of_nat (length (concat chunks))" "reader_ok (ts_reader ts)" and "\<not> ts_trailerSent ts"
    by (auto simp: client_inv_def up_inv_def streaming_def)
  then show "\<not> ts_trailerSent ts" by simp
  show "ts_uploadTotal ts \<le> ts_uploadSent ts" using reading_complete [OF st(1,3) assms(3,4)] st(2) by simp
qed

lemma pump_lively:
  assumes "te_ok en" "client_inv (ts, ui)" "ts_uploading ts \<longrightarrow> running ts"
  shows "lively (pumpUpload en ts)"
proof (cases "ts_uploading ts \<and> \<not> rd_failed (ts_reader ts)")
  case False
  then show ?thesis
    using assms(2) by (auto simp: pumpUpload_def lively_def takeError_def client_inv_def conn_inv_def active_def)
next
  case True
  then have us: "usable ts" and rn: "running ts" using assms(2,3) by (simp_all add: client_inv_def conn_inv_def active_def)
  obtain ab ts1 where p: "pumpLoop en ts = (ab, ts1)" by fastforce
  note r = pumpLoop_running [OF assms(1) _ us rn p]
  show ?thesis
  proof (cases ab)
    case True
    with \<open>ts_uploading ts \<and> _\<close> r us p show ?thesis by (simp add: pumpUpload_def lively_def)
  next
    case False
    note i = pumpLoop_inv [OF assms(1,2) _ us p]
    have "running ts1 \<and> woken ts1" if "\<not> (rd_readComplete (ts_reader ts1) \<and> ring_empty (rd_ring (ts_reader ts1)))"
      using that r False True by (auto simp: woken_def work_left_def sent_out_def)
    then show ?thesis
      using True False us p all_read_all_sent [of ts1 ui] i r by (auto simp: pumpUpload_def lively_def)
  qed
qed

subsection \<open>The commands and the callbacks\<close>

definition runs :: "TransferService \<Rightarrow> bool" where
  "runs ts \<longleftrightarrow> (ts_uploading ts \<longrightarrow> running ts)"

lemma lively_runs: "lively ts \<Longrightarrow> runs ts"
  by (simp add: lively_def runs_def)

lemma lively_cong:
  assumes "ts_reader ts' = ts_reader ts" "ts_uploading ts' = ts_uploading ts" "ts_inFlightWrites ts' = ts_inFlightWrites ts"
    "pending ts' = pending ts" "ts_uploadTotal ts' = ts_uploadTotal ts" "ts_source ts' = ts_source ts"
  shows "runs ts' = runs ts" "lively ts' = lively ts"
  using assms by (simp_all add: lively_def runs_def running_def woken_def work_left_def fits_def)

lemma lively_push [simp]:
  "runs (pushLog level t ts) = runs ts" "lively (pushLog level t ts) = lively ts"
  "runs (pushLink link ts) = runs ts" "lively (pushLink link ts) = lively ts"
  by (rule lively_cong; simp add: push_defs pending_def)+

lemma lively_post: "lively (post cmd ts) = lively ts"
  by (rule lively_cong) (simp_all add: post_def pending_def)

lemma not_uploading_lively: "\<not> ts_uploading ts \<Longrightarrow> lively ts"
  by (simp add: lively_def)

lemma fail_idle [simp]: "\<not> ts_uploading (failSession en reason level ts)"
  by (simp add: failSession_def push_defs drainRing_def closeSocket_eq Let_def)

lemma sendOn_uploading: "sendOn en b ts = (rc, ts1) \<Longrightarrow> ts_uploading ts1 = ts_uploading ts"
  using sendOn_frame(3) [of en b ts] by simp

lemma handle_runs:
  assumes "te_ok en" "client_inv (ts, ui)" "gated en cmd ts" "runs ts"
  shows "runs (handle en cmd ts)"
proof (cases "ts_uploading ts")
  case True
  then have "ts_socket ts \<noteq> None" "\<not> ts_hasClaim ts"
    using assms(2) by (auto simp: client_inv_def conn_inv_def active_def usable_def recv_inv_def split: option.splits)
  then show ?thesis
    using True assms(3,4)
  proof (cases cmd)
    case DisconnectCommand
    then show ?thesis using True \<open>ts_socket ts \<noteq> None\<close> by (auto simp: runs_def handleDisconnect_def stopConnectTimer_def push_defs Let_def)
  next
    case CancelUploadCommand
    then show ?thesis using True by (simp add: runs_def handleCancelUpload_def)
  qed (simp_all add: handleConnect_def handleStartUpload_def handleRequestResult_def)
next
  case False
  show ?thesis
  proof (cases cmd)
    case (StartUploadCommand path filename sz)
    then have g: "usable ts \<longrightarrow> ts_connected ts" "te_gap en = 0 \<or> \<not> rd_uploading (ts_reader ts)" using assms(3) by simp_all
    from assms(1,2) g False show ?thesis
    proof (cases rule: handleStart_cases [where path = path and filename = filename and sz = sz])
      case idle
      then show ?thesis by (simp add: StartUploadCommand runs_def)
    next
      case (begun ts6 rd')
      then have "running ts6" by (simp add: running_def)
      from lively_runs [OF pump_lively [OF assms(1) begun(2)]] begun(1) this show ?thesis by (simp add: StartUploadCommand)
    qed
  qed (use False in \<open>auto simp: runs_def handleConnect_def beginConnect_def handleDisconnect_def handleCancelUpload_def handleRequestResult_def
      handleQuit_def stopConnectTimer_def push_defs Let_def closeSocket_eq split: prod.splits if_splits dest!: sendOn_uploading\<close>)
qed

lemma drain_runs:
  assumes "\<And>k. te_ok (en k)" "client_inv (ts, ui)" "gated_run en cs ts" "runs ts"
  shows "runs (drainCommands en cs ts)"
  using assms by (induction en cs ts rule: drainCommands.induct) (simp_all add: handle_runs handle_inv)

lemma signal_runs: "runs (ts\<lparr>ts_commands := cs, ts_reader := (ts_reader ts)\<lparr>rd_signalled := b\<rparr>\<rparr>) = runs ts"
  by (simp add: runs_def lively_defs)

lemma async_lively:
  assumes "\<And>k. te_ok (en k)" "client_inv (ts, ui)" "runs ts"
    and "gated_run en (ts_commands ts) (ts\<lparr>ts_commands := [], ts_reader := (ts_reader ts)\<lparr>rd_signalled := False\<rparr>\<rparr>)"
  shows "lively (onAsyncCb en ts)"
proof -
  let ?ts = "ts\<lparr>ts_commands := [], ts_reader := (ts_reader ts)\<lparr>rd_signalled := False\<rparr>\<rparr>"
  have i: "client_inv (?ts, ui)" by (rule signal_inv [OF assms(2)])
  have "runs ?ts" using assms(3) by (simp add: signal_runs)
  from drain_runs [OF assms(1) i assms(4) this] pump_lively [OF assms(1) drainCommands_inv [OF assms(1) i assms(4)]]
  show ?thesis by (simp add: onAsyncCb_def runs_def)
qed

lemma received_idle:
  assumes "\<not> ts_uploading ts"
  shows "\<not> ts_uploading (finishDownload en ts)" "\<not> ts_uploading (snd (beginCsvReceive en header resuming ts))"
    "\<not> ts_uploading (snd (handleAckBytes en data ts))" "\<not> ts_uploading (snd (handleCsvBytes en data ts))"
proof -
  have d: "\<not> ts_uploading (finishDownload en ts)" if "\<not> ts_uploading ts" for ts
    using that by (simp add: finishDownload_def dropResultClaim_def push_defs Let_def split_beta)
  from assms show "\<not> ts_uploading (finishDownload en ts)" by (rule d)
  show "\<not> ts_uploading (snd (beginCsvReceive en header resuming ts))"
    using assms by (simp add: beginCsvReceive_def d push_defs Let_def)
  show "\<not> ts_uploading (snd (handleAckBytes en data ts))"
    using assms by (simp add: handleAckBytes_def push_defs Let_def split_beta split: sum.split)
  show "\<not> ts_uploading (snd (handleCsvBytes en data ts))"
    using assms by (simp add: handleCsvBytes_def d Let_def)
qed

lemma reply_idle:
  assumes "\<not> ts_uploading ts"
  shows "\<not> ts_uploading (snd (handleResultHeaderBytes en data ts))" "\<not> ts_uploading (snd (handleResumeReplyBytes en data ts))"
  using assms received_idle(2) [of "ts\<lparr>ts_framer := fst (feed (ts_framer ts) data)\<rparr>" en]
  by (simp_all add: handleResultHeaderBytes_def handleResumeReplyBytes_def Let_def split_beta split: sum.split)

lemma onBytes_idle:
  assumes "\<not> ts_uploading ts"
  shows "\<not> ts_uploading (onBytes en data ts)"
  using assms
proof (induction en data ts rule: onBytes.induct)
  case (1 en data ts)
  show ?case
  proof (cases "data = [] \<or> ts_expecting ts = ExpNothing")
    case True
    then show ?thesis using 1(2) by (auto simp: onBytes.simps [of en data ts])
  next
    case False
    then obtain p where st: "(case ts_expecting ts of ExpAck \<Rightarrow> Some (handleAckBytes en data ts)
        | ExpResultHeader \<Rightarrow> Some (handleResultHeaderBytes en data ts) | ExpCsvPayload \<Rightarrow> Some (handleCsvBytes en data ts)
        | ExpResumeReply \<Rightarrow> Some (handleResumeReplyBytes en data ts) | ExpNothing \<Rightarrow> None) = Some p"
      by (cases "ts_expecting ts") auto
    obtain n ts1 where p: "p = (n, ts1)" by (cases p)
    have "\<not> ts_uploading (snd p)"
      using st received_idle(3,4) [OF 1(2)] reply_idle [OF 1(2)] by (cases "ts_expecting ts") auto
    then show ?thesis
      using 1(1) [OF _ refl st p [symmetric]] False st p by (subst onBytes.simps) (simp add: Let_def)
  qed
qed

lemma onBytes_lively:
  assumes "client_inv (ts, ui)" "lively ts"
  shows "lively (onBytes en data ts)"
proof (cases "ts_uploading ts")
  case True
  then have "ts_expecting ts = ExpNothing" using assms(1) by (simp add: client_inv_def recv_inv_def)
  then show ?thesis using assms(2) by (simp add: onBytes.simps [of en data ts] not_uploading_lively)
qed (simp add: onBytes_idle not_uploading_lively)

lemma written_lively:
  assumes "te_ok en" "client_inv (ts, ui)" "lively ts" "ts_socket ts = Some sk" "0 < sk_pendingWrites sk"
  shows "lively (client_onWrite en status ts)"
proof -
  let ?ts1 = "ts\<lparr>ts_socket := Some (onWriteCb sk)\<rparr>"
  let ?ts2 = "if ts_inFlightWrites ts > 0 then ?ts1\<lparr>ts_inFlightWrites := ts_inFlightWrites ts - 1\<rparr> else ?ts1"
  have i1: "client_inv (?ts1, ui)" using written_inv [OF assms(2)] assms(4) by simp
  then have i2: "client_inv (?ts2, ui)" by simp
  have "runs ?ts2"
    using lively_runs [OF assms(3)] assms(4,5) by (auto simp: runs_def running_def pending_def fits_def onWriteCb_def)
  with pump_lively [OF assms(1) i2] have p: "lively (pumpUpload en ?ts2)" by (simp add: runs_def)
  have e: "client_onSendComplete en status ?ts1 =
      (if status < 0 then if ts_uploading ts then abortUpload en (''Send failed: '' @ uv_describe (te_uv en) status) Error ?ts2 else ?ts2
       else pumpUpload en ?ts2)"
    by (simp add: client_onSendComplete_def Let_def)
  have err: "\<not> ts_uploading (client_onError en status whence t)" for whence t
    by (simp add: client_onError_def push_defs closeSocket_eq Let_def)
  show ?thesis
  proof (cases "status = 0")
    case True
    then show ?thesis using p e assms(4) by (simp add: client_onWrite_def)
  next
    case False
    then show ?thesis by (simp add: client_onWrite_def Let_def err not_uploading_lively)
  qed
qed

lemma step_lively:
  assumes "client_step c c'" "client_inv c" "lively (fst c)"
  shows "lively (fst c')"
  using assms
proof (induction rule: client_step.induct)
  case (reader ts ui)
  then show ?case using reader_lively by simp
next
  case (async en ts ui)
  then show ?case using async_lively lively_runs by simp
next
  case (connect en ts sk status ui)
  then have "\<not> ts_uploading ts" by (auto simp: client_inv_def conn_inv_def active_def)
  then show ?case
    by (intro not_uploading_lively) (simp add: onConnect_def stopConnectTimer_def push_defs closeSocket_eq Let_def split: option.split prod.split)
next
  case (timeout en ts tm ms tm' ui)
  then have "timer_isActive tm" by (auto simp: timer_elapse_def timer_isActive_def split: option.splits)
  with timeout have "\<not> ts_uploading ts" by (auto simp: client_inv_def conn_inv_def active_def)
  then show ?case by (intro not_uploading_lively) (simp add: onConnectTimeout_def push_defs closeSocket_eq)
next
  case (bytes en ts sk ui data)
  then show ?case using onBytes_lively by simp
next
  case (error en ts sk status ui whence)
  show ?case by (intro not_uploading_lively) (simp add: client_onError_def push_defs closeSocket_eq Let_def)
next
  case (written en ts sk status ui)
  then show ?case using written_lively by simp
next
  case (closed ts sk ui)
  then have "\<not> ts_uploading ts" by (auto simp: client_inv_def conn_inv_def active_def usable_def)
  then show ?case by (intro not_uploading_lively) (simp add: client_onClosed_def push_defs)
next
  case (pump c stamp)
  obtain ts ui where c: "c = (ts, ui)" by (cases c)
  have "lively (ts\<lparr>ts_events := []\<rparr>) = lively ts" by (rule lively_cong) (simp_all add: pending_def)
  then show ?case using pump by (simp add: c pumpWorkerEvents_def drainEvents_def)
qed (auto simp: app_onConnect_def app_onDisconnect_def app_onBrowse_def app_onPing_def app_onSaveResult_def app_onSend_def
    app_onCancelUpload_def app_onRequestResult_def Let_def lively_post split: option.split sum.split)

lemma lively_reach: "client_reach c \<Longrightarrow> lively (fst c)"
proof (induction rule: client_reach.induct)
  case start
  show ?case by (simp add: lively_def newTransferService_def)
next
  case (step c c')
  then show ?case using step_lively client_reach_inv by blast
qed

section \<open>An upload comes to its end\<close>

text \<open>The moves: of the reader thread unless it waits, of the loop once woken, and the completion of a write.\<close>

inductive upload_move :: "ClientEnv \<Rightarrow> TransferService \<Rightarrow> TransferService \<Rightarrow> bool" for en where
  reader: "ts_uploading ts \<Longrightarrow> reader_step (ts_reader ts) \<noteq> ts_reader ts \<Longrightarrow>
    upload_move en ts (ts\<lparr>ts_reader := reader_step (ts_reader ts)\<rparr>)"
| async: "ts_uploading ts \<Longrightarrow> rd_signalled (ts_reader ts) \<Longrightarrow> ts_commands ts = [] \<Longrightarrow> upload_move en ts (onAsyncCb (\<lambda>k. en) ts)"
| written: "ts_uploading ts \<Longrightarrow> ts_socket ts = Some sk \<Longrightarrow> 0 < sk_pendingWrites sk \<Longrightarrow> upload_move en ts (client_onWrite en 0 ts)"

definition writes_ok :: "ClientEnv \<Rightarrow> bool" where
  "writes_ok en \<longleftrightarrow> (\<forall>k. uv_write (te_uv en) k = 0)"

lemma writes_ok_te: "writes_ok en \<Longrightarrow> te_ok en"
  by (simp add: writes_ok_def te_ok_def)

subsection \<open>The rank\<close>

definition to_read :: "FileReader \<Rightarrow> nat" where
  "to_read rd = (if rd_readComplete rd then 0 else Suc (rd_remaining rd))"

definition queued :: "FileReader \<Rightarrow> nat" where
  "queued rd = ring_count (rd_ring rd) + (case rd_pc rd of RdCommit n \<Rightarrow> 1 | _ \<Rightarrow> 0)"

definition point :: "FileReader \<Rightarrow> nat" where
  "point rd = (case rd_pc rd of RdIdle \<Rightarrow> if rd_uploading rd then 6 else 0 | RdCommit n \<Rightarrow> 5
    | RdFull \<Rightarrow> if ring_full (rd_ring rd) then 2 else 4 | RdTop \<Rightarrow> 3 | RdBlock \<Rightarrow> 1 | RdAsleep \<Rightarrow> 0 | RdExit \<Rightarrow> 0 | _ \<Rightarrow> 1)"

definition upload_rank :: "TransferService \<Rightarrow> nat \<times> nat \<times> nat \<times> nat \<times> nat \<times> nat" where
  "upload_rank ts = (of_bool (ts_uploading ts), to_read (ts_reader ts), queued (ts_reader ts), pending ts,
    point (ts_reader ts), of_bool (rd_signalled (ts_reader ts)))"

lemmas rank_defs = to_read_def queued_def point_def

lemma ring_count_store [simp]: "ring_count (writeAt off bs rb) = ring_count rb"
  by (simp add: ring_count_def writeAt_def)

lemma reader_rank:
  assumes ok: "reader_ok rd" and "\<not> rd_abort rd" and mv: "reader_step rd \<noteq> rd" and nf: "\<not> rd_failed (reader_step rd)"
  shows "(to_read (reader_step rd), queued (reader_step rd), point (reader_step rd)) < (to_read rd, queued rd, point rd)"
proof (cases "rd_pc rd")
  case (RdRead off cap)
  have n: "\<not> rd_readComplete rd" using ok RdRead by (auto simp: reader_ok_def)
  define k where "k = (if rd_remaining rd < cap then rd_remaining rd else cap)"
  have st: "reader_step rd = readSlot off cap rd" using RdRead by (simp add: reader_step_def)
  have "take k (rd_file rd) \<noteq> []" if "k > 0" using nf that unfolding st readSlot_def Let_def k_def [symmetric] by (auto simp: wake_def)
  then have "k = 0 \<or> 0 < length (take k (rd_file rd)) \<and> take k (rd_file rd) \<noteq> [] \<and> k \<le> rd_remaining rd" by (auto simp: k_def)
  then show ?thesis
    using n RdRead unfolding st readSlot_def Let_def k_def [symmetric] by (auto simp: rank_defs wake_def)
next
  case (RdCommit n)
  then obtain off cap where a: "tryAcquire (rd_ring rd) = Some (off, cap)" "ring_inv (rd_ring rd)"
    using ok by (auto simp: reader_ok_def slot_ok_def ring_ok_def)
  have "ring_count (commit n (rd_ring rd)) = Suc (ring_count (rd_ring rd))"
    by (rule ring_count_commit [OF a(2) tryAcquire_Some(1) [OF a(1)]])
  with RdCommit show ?thesis by (simp add: reader_step_def rank_defs wake_def)
qed (use assms in \<open>auto simp: reader_step_def rank_defs reader_ok_def tryAcquire_None split: if_splits option.splits\<close>)

lemma reader_waits:
  assumes "reader_ok rd" "\<not> rd_abort rd" "reader_step rd = rd"
  shows "rd_pc rd = RdAsleep \<or> \<not> rd_uploading rd"
proof (cases "rd_pc rd")
  case (RdRead off cap)
  then have "rd_pc (reader_step rd) \<noteq> rd_pc rd" by (simp add: reader_step_def readSlot_def wake_def Let_def)
  then show ?thesis using assms(3) by simp
next
  case (RdCommit n)
  then have "rd_pc (reader_step rd) \<noteq> rd_pc rd" by (simp add: reader_step_def wake_def)
  then show ?thesis using assms(3) by simp
next
  case RdTop
  then have "rd_pc (reader_step rd) \<noteq> rd_pc rd" using assms(2) by (simp add: reader_step_def split: option.split)
  then show ?thesis using assms(3) by simp
next
  case RdIdle
  then have "rd_uploading rd \<longrightarrow> rd_pc (reader_step rd) \<noteq> rd_pc rd" using assms(1) by (simp add: reader_step_def reader_ok_def)
  then show ?thesis using assms(3) by auto
next
  case RdFull
  then have "rd_pc (reader_step rd) \<noteq> rd_pc rd" using assms(1,2) by (simp add: reader_step_def reader_ok_def)
  then show ?thesis using assms(3) by simp
next
  case RdBlock
  then have "rd_pc (reader_step rd) \<noteq> rd_pc rd" by (simp add: reader_step_def)
  then show ?thesis using assms(3) by simp
next
  case RdAsleep
  then show ?thesis by simp
next
  case RdClose
  then have "rd_pc (reader_step rd) \<noteq> rd_pc rd" by (simp add: reader_step_def)
  then show ?thesis using assms(3) by simp
next
  case RdExit
  then show ?thesis using assms(1) by (simp add: reader_ok_def)
qed

text \<open>With a network that takes every write, the pump sends something, or finishes, or there was nothing to do.\<close>

lemma sendOn_ok:
  assumes "writes_ok en" "ts_socket ts = Some sk" "sk_valid sk" "\<not> sk_closing sk"
  shows "sendOn en bytes ts = (0, ts\<lparr>ts_socket := Some (wrote bytes sk)\<rparr>)"
  using assms by (simp add: sendOn_def sock_send_def wrote_def writes_ok_def)

lemma pumpLoop_rank:
  assumes "writes_ok en" "ts_socket ts = Some sk" "sk_valid sk" "\<not> sk_closing sk" "pumpLoop en ts = (ab, ts')"
  shows "\<not> ab \<and> ts_uploading ts' = ts_uploading ts \<and> ts_source ts' = ts_source ts \<and> to_read (ts_reader ts') = to_read (ts_reader ts) \<and>
    rd_readComplete (ts_reader ts') = rd_readComplete (ts_reader ts) \<and> (rd_pc (ts_reader ts) = RdBlock \<longrightarrow> rd_pc (ts_reader ts') = RdBlock) \<and>
    (ts' = ts \<or> queued (ts_reader ts') < queued (ts_reader ts)) \<and> (\<exists>sk'. ts_socket ts' = Some sk' \<and> sk_valid sk' \<and> \<not> sk_closing sk')"
  using assms
proof (induction en ts arbitrary: sk ab ts' rule: pumpLoop.induct)
  case (1 en ts)
  show ?case
  proof (cases "ts_inFlightWrites ts < kMaxInFlightWrites \<and> tryPeek (rd_ring (ts_reader ts)) \<noteq> None")
    case False
    then show ?thesis using 1(3-6) by (auto simp: pumpLoop.simps [of en ts] split: if_splits)
  next
    case True
    then obtain chunk where pk: "tryPeek (rd_ring (ts_reader ts)) = Some chunk" and fl: "ts_inFlightWrites ts < kMaxInFlightWrites"
      by auto
    let ?ts0 = "ts\<lparr>ts_uploadCrc := crc32 (ts_uploadCrc ts) chunk\<rparr>"
    have s: "sendOn en chunk ?ts0 = (0, ?ts0\<lparr>ts_socket := Some (wrote chunk sk)\<rparr>)"
      using 1(2-5) by (intro sendOn_ok) simp_all
    let ?ts3 = "?ts0\<lparr>ts_socket := Some (wrote chunk sk), ts_inFlightWrites := Suc (ts_inFlightWrites ts),
      ts_reader := notifySpaceAvailable (releaseSlot (ts_reader ts)), ts_uploadSent := ts_uploadSent ts + of_nat (length chunk)\<rparr>"
    have q: "queued (cv_notify (releaseSlot (ts_reader ts))) < queued (ts_reader ts)"
        "to_read (cv_notify (releaseSlot (ts_reader ts))) = to_read (ts_reader ts)"
        "rd_pc (ts_reader ts) = RdBlock \<longrightarrow> rd_pc (cv_notify (releaseSlot (ts_reader ts))) = RdBlock"
      using tryPeek_release_count [OF pk] by (simp_all add: rank_defs releaseSlot_def cv_notify_def split: ReaderPc.split)
    have "pumpLoop en ?ts3 = (ab, ts')" using 1(6) fl by (simp add: pumpLoop.simps [of en ts] pk s Let_def)
    from 1(1) [OF _ pk s [symmetric] refl, of "wrote chunk sk" ab ts'] fl this 1(2-5) q show ?thesis by auto
  qed
qed

lemma pump_rank:
  assumes "writes_ok en" "client_inv (ts, ui)" "ts_uploading ts" "\<not> rd_failed (ts_reader ts)"
  shows "(ts_uploading (pumpUpload en ts) \<or> ts_expecting (pumpUpload en ts) = ExpAck) \<and> ts_source (pumpUpload en ts) = ts_source ts \<and>
    upload_rank (pumpUpload en ts) \<le> upload_rank ts"
proof -
  obtain sk where sk: "ts_socket ts = Some sk" "sk_valid sk" "\<not> sk_closing sk" and us: "usable ts"
    using assms(2,3) by (auto simp: client_inv_def conn_inv_def active_def usable_def split: option.splits)
  obtain ab ts1 where p: "pumpLoop en ts = (ab, ts1)" by fastforce
  from pumpLoop_rank [OF assms(1) sk p] obtain sk' where r: "\<not> ab" "ts_uploading ts1" "ts_source ts1 = ts_source ts"
    "to_read (ts_reader ts1) = to_read (ts_reader ts)" "ts1 = ts \<or> queued (ts_reader ts1) < queued (ts_reader ts)"
    "ts_socket (ts1\<lparr>ts_trailerSent := True\<rparr>) = Some sk'" "sk_valid sk'" "\<not> sk_closing sk'" using assms(3) by auto
  have f: "ts_expecting (finishUpload en ts1) = ExpAck" "ts_source (finishUpload en ts1) = ts_source ts"
    using sendOn_ok [OF assms(1) r(6-8)] r(3) by (simp_all add: finishUpload_def push_defs Let_def)
  have "upload_rank (finishUpload en ts1) < upload_rank ts" using assms(3) by (simp add: upload_rank_def)
  moreover have "upload_rank ts1 \<le> upload_rank ts" using r assms(3) by (auto simp: upload_rank_def)
  ultimately show ?thesis using f r(1-3) us p assms(3,4) by (simp add: pumpUpload_def less_imp_le)
qed

subsection \<open>Every move lowers it\<close>

definition upload_inv :: "ClientEnv \<Rightarrow> TransferService \<Rightarrow> bool" where
  "upload_inv en ts \<longleftrightarrow> writes_ok en \<and> (\<exists>ui. client_inv (ts, ui)) \<and> lively ts \<and> ts_commands ts = [] \<and> fits ts \<and>
    (ts_uploading ts \<or> ts_expecting ts = ExpAck)"

lemma move_client_step:
  assumes "upload_move en ts ts'" "writes_ok en"
  shows "client_step (ts, ui) (ts', ui)"
  using assms
proof (cases rule: upload_move.cases)
  case async
  then show ?thesis using client_step.async [of "\<lambda>k. en" ts ui] assms(2) by (simp add: writes_ok_te)
next
  case (written sk)
  then show ?thesis using client_step.written [of en ts sk 0 ui] assms(2) by (simp add: writes_ok_te)
qed (simp add: client_step.reader)

lemma onWrite_pump:
  "ts_socket ts = Some sk \<Longrightarrow> client_onWrite en 0 ts = pumpUpload en
    (ts\<lparr>ts_socket := Some (onWriteCb sk), ts_inFlightWrites := ts_inFlightWrites ts - 1\<rparr>)"
  by (cases "ts_inFlightWrites ts"; cases ts) (simp_all add: client_onWrite_def client_onSendComplete_def)

lemma move_lowers:
  assumes "upload_inv en ts" "upload_move en ts ts'"
  shows "upload_rank ts' < upload_rank ts" "ts_source ts' = ts_source ts" "ts_uploading ts' \<or> ts_expecting ts' = ExpAck"
proof -
  obtain ui where en: "writes_ok en" and inv: "client_inv (ts, ui)" and lv: "lively ts" and cs: "ts_commands ts = []" and ft: "fits ts"
    using assms(1) by (auto simp: upload_inv_def)
  have "upload_rank ts' < upload_rank ts \<and> ts_source ts' = ts_source ts \<and> (ts_uploading ts' \<or> ts_expecting ts' = ExpAck)"
    using assms(2)
  proof (cases rule: upload_move.cases)
    case reader
    have "lively ts'" using step_lively [OF move_client_step [OF assms(2) en, of ui]] inv lv by simp
    then have nf: "\<not> rd_failed (reader_step (ts_reader ts))" "\<not> rd_abort (ts_reader ts)"
      using reader ft lv by (simp_all add: lively_def running_def fits_def)
    have "reader_ok (ts_reader ts)" using inv by (simp add: client_inv_def up_inv_def)
    from reader_rank [OF this nf(2) reader(3) nf(1)] reader show ?thesis by (auto simp: upload_rank_def pending_def)
  next
    case async
    let ?ts = "ts\<lparr>ts_commands := [], ts_reader := (ts_reader ts)\<lparr>rd_signalled := False\<rparr>\<rparr>"
    have r: "upload_rank ?ts < upload_rank ts" using async by (simp add: upload_rank_def rank_defs pending_def split: ReaderPc.split)
    have nf: "\<not> rd_failed (ts_reader ts)" using lv async ft by (simp add: lively_def running_def)
    with pump_rank [OF en signal_inv [OF inv, of False]] async r show ?thesis by (auto simp: onAsyncCb_def intro: le_less_trans)
  next
    case (written sk)
    let ?ts = "ts\<lparr>ts_socket := Some (onWriteCb sk), ts_inFlightWrites := ts_inFlightWrites ts - 1\<rparr>"
    have "client_inv (?ts, ui)" using written_inv [OF inv] written by simp
    note p = pump_rank [OF en this]
    have r: "upload_rank ?ts < upload_rank ts" using written by (simp add: upload_rank_def pending_def onWriteCb_def)
    have nf: "\<not> rd_failed (ts_reader ts)" using lv written ft by (simp add: lively_def running_def)
    with p written r show ?thesis by (auto simp: onWrite_pump [OF written(3)] intro: le_less_trans)
  qed
  then show "upload_rank ts' < upload_rank ts" "ts_source ts' = ts_source ts" "ts_uploading ts' \<or> ts_expecting ts' = ExpAck" by simp_all
qed

lemma move_keeps:
  assumes "upload_move en ts ts'"
  shows "keeps ts ts'"
  using assms
proof (cases rule: upload_move.cases)
  case async
  then show ?thesis
    using keeps_trans [OF _ keeps_pumpUpload, of ts "ts\<lparr>ts_commands := [], ts_reader := (ts_reader ts)\<lparr>rd_signalled := False\<rparr>\<rparr>" en]
    by (simp add: onAsyncCb_def, simp add: keeps_defs)
next
  case written
  then show ?thesis using keeps_onWrite by simp
qed (simp add: keeps_defs)

text \<open>The reader sleeps although there is room: the notification of it came before the sleep.\<close>

definition overslept :: "TransferService \<Rightarrow> bool" where
  "overslept ts \<longleftrightarrow> rd_pc (ts_reader ts) = RdAsleep \<and> rd_missed (ts_reader ts)"

lemma upload_moves_on:
  assumes "upload_inv en ts" "\<not> (ts_expecting ts = ExpAck \<or> overslept ts)"
  shows "\<exists>ts'. upload_move en ts ts'"
proof (rule ccontr)
  assume no: "\<nexists>ts'. upload_move en ts ts'"
  obtain ui where inv: "client_inv (ts, ui)" and lv: "lively ts" and cs: "ts_commands ts = []" and ft: "fits ts" and up: "ts_uploading ts"
    using assms by (auto simp: upload_inv_def)
  have ok: "reader_ok (ts_reader ts)" and rn: "running ts" and wk: "woken ts" using inv lv up by (simp_all add: client_inv_def up_inv_def lively_def)
  from no up have "reader_step (ts_reader ts) = ts_reader ts" by (metis upload_move.reader)
  from reader_waits [OF ok _ this] rn assms(2) have w: "ring_full (rd_ring (ts_reader ts)) \<or> \<not> rd_uploading (ts_reader ts)"
    by (auto simp: running_def sleeps_well_def overslept_def)
  have sg: "\<not> rd_signalled (ts_reader ts)" using no up cs by (metis upload_move.async)
  have "pending ts = 0" using no up upload_move.written [of ts _ en] by (fastforce simp: pending_def split: option.splits)
  then have "ts_inFlightWrites ts = 0" using rn by (simp add: running_def)
  with wk sg ft have e: "ring_empty (rd_ring (ts_reader ts))" "\<not> rd_readComplete (ts_reader ts)"
    by (auto simp: woken_def work_left_def kMaxInFlightWrites_def split: if_splits)
  have "ring_inv (rd_ring (ts_reader ts))" using ok by (simp add: reader_ok_def ring_ok_def)
  then have "ring_full (rd_ring (ts_reader ts)) \<longrightarrow> ring_count (rd_ring (ts_reader ts)) \<noteq> 0"
    using ring_full_iff [of "rd_ring (ts_reader ts)"] by (metis ring_inv_def less_numeral_extra(3))
  with e(1) have "\<not> ring_full (rd_ring (ts_reader ts))" by (simp add: ring_empty_def)
  with w have "\<not> rd_uploading (ts_reader ts)" by simp
  with rn e(2) ft show False by (auto simp: running_def)
qed

interpretation upload: ranked_moves "upload_move en" "upload_inv en" "\<lambda>ts. ts_expecting ts = ExpAck \<or> overslept ts" upload_rank for en
proof
  fix ts ts'
  assume i: "upload_inv en ts" and m: "upload_move en ts ts'"
  show "upload_rank ts' < upload_rank ts" by (rule move_lowers(1) [OF i m])
  obtain ui where en: "writes_ok en" and inv: "client_inv (ts, ui)" and lv: "lively ts" and cs: "ts_commands ts = []" and ft: "fits ts"
    using i by (auto simp: upload_inv_def)
  note st = move_client_step [OF m en, of ui]
  show "upload_inv en ts'"
    using en client_step_inv [OF st inv] step_lively [OF st inv] lv cs ft move_keeps [OF m] move_lowers(2,3) [OF i m]
    by (auto simp: upload_inv_def fits_def keeps_defs)
qed (rule upload_moves_on)

text \<open>
  A reader that has just found the ring full and is about to sleep: when the loop sends all that is in the ring before
  the sleep begins, nothing is left to wake it.
\<close>

lemma pump_block:
  assumes "writes_ok en" "client_inv (ts, ui)" "ts_uploading ts" "\<not> rd_failed (ts_reader ts)" "rd_pc (ts_reader ts) = RdBlock"
  shows "ts_uploading (pumpUpload en ts) \<and> rd_pc (ts_reader (pumpUpload en ts)) = RdBlock"
proof -
  obtain sk where sk: "ts_socket ts = Some sk" "sk_valid sk" "\<not> sk_closing sk" and us: "usable ts"
    using assms(2,3) by (auto simp: client_inv_def conn_inv_def active_def usable_def split: option.splits)
  have "\<not> rd_readComplete (ts_reader ts)" using assms(2,5) by (auto simp: client_inv_def up_inv_def reader_ok_def)
  moreover obtain ab ts1 where p: "pumpLoop en ts = (ab, ts1)" by fastforce
  ultimately show ?thesis using pumpLoop_rank [OF assms(1) sk p] us assms(3-5) by (simp add: pumpUpload_def)
qed

lemma loop_move_block:
  assumes "upload_inv en ts" "ts_uploading ts" "rd_pc (ts_reader ts) = RdBlock" "rd_signalled (ts_reader ts) \<or> 0 < pending ts"
  shows "\<exists>ts'. upload_move en ts ts' \<and> ts_uploading ts' \<and> rd_pc (ts_reader ts') = RdBlock"
proof -
  obtain ui where en: "writes_ok en" and inv: "client_inv (ts, ui)" and lv: "lively ts" and cs: "ts_commands ts = []" and ft: "fits ts"
    using assms(1) by (auto simp: upload_inv_def)
  have nf: "\<not> rd_failed (ts_reader ts)" using lv assms(2) ft by (simp add: lively_def running_def)
  show ?thesis
  proof (cases "rd_signalled (ts_reader ts)")
    case True
    have "upload_move en ts (onAsyncCb (\<lambda>k. en) ts)" by (rule upload_move.async [OF assms(2) True cs])
    moreover have "ts_uploading (onAsyncCb (\<lambda>k. en) ts) \<and> rd_pc (ts_reader (onAsyncCb (\<lambda>k. en) ts)) = RdBlock"
      using pump_block [OF en signal_inv [OF inv, of False]] assms(2,3) nf cs by (simp add: onAsyncCb_def)
    ultimately show ?thesis by blast
  next
    case False
    then obtain sk where sk: "ts_socket ts = Some sk" "0 < sk_pendingWrites sk" using assms(4) by (auto simp: pending_def split: option.splits)
    have "upload_move en ts (client_onWrite en 0 ts)" by (rule upload_move.written [OF assms(2) sk])
    moreover have "client_inv (ts\<lparr>ts_socket := Some (onWriteCb sk), ts_inFlightWrites := ts_inFlightWrites ts - 1\<rparr>, ui)"
      using written_inv [OF inv] sk by simp
    from pump_block [OF en this] have "ts_uploading (client_onWrite en 0 ts) \<and> rd_pc (ts_reader (client_onWrite en 0 ts)) = RdBlock"
      using assms(2,3) nf unfolding onWrite_pump [OF sk(1)] by simp
    ultimately show ?thesis by blast
  qed
qed

lemma block_hangs:
  assumes "upload_inv en ts" "ts_uploading ts" "rd_pc (ts_reader ts) = RdBlock"
  shows "\<exists>ts'. (upload_move en)\<^sup>*\<^sup>* ts ts' \<and> (\<nexists>ts''. upload_move en ts' ts'') \<and> ts_expecting ts' \<noteq> ExpAck"
  using assms
proof (induction "upload_rank ts" arbitrary: ts rule: less_induct)
  case less
  show ?case
  proof (cases "rd_signalled (ts_reader ts) \<or> 0 < pending ts")
    case True
    from loop_move_block [OF less.prems True] obtain ts1 where m: "upload_move en ts ts1" "ts_uploading ts1" "rd_pc (ts_reader ts1) = RdBlock" by blast
    have "upload_inv en ts1" by (rule upload.move_inv [OF less.prems(1) m(1)])
    from less.hyps [OF move_lowers(1) [OF less.prems(1) m(1)] this m(2,3)] show ?thesis using m(1) by (meson converse_rtranclp_into_rtranclp)
  next
    case False
    let ?rd = "(ts_reader ts)\<lparr>rd_pc := RdAsleep\<rparr>"
    have st: "reader_step (ts_reader ts) = ?rd" using less.prems(3) by (simp add: reader_step_def)
    have "rd_pc ?rd \<noteq> rd_pc (ts_reader ts)" using less.prems(3) by simp
    then have "?rd \<noteq> ts_reader ts" by metis
    then have "upload_move en ts (ts\<lparr>ts_reader := ?rd\<rparr>)" using upload_move.reader [OF less.prems(2), of en] st by simp
    moreover have "\<not> upload_move en (ts\<lparr>ts_reader := ?rd\<rparr>) ts''" for ts''
      using False by (auto simp: reader_step_def pending_def elim!: upload_move.cases)
    moreover have "ts_expecting (ts\<lparr>ts_reader := ?rd\<rparr>) \<noteq> ExpAck"
      using less.prems(1,2) by (auto simp: upload_inv_def client_inv_def recv_inv_def)
    ultimately show ?thesis by blast
  qed
qed

text \<open>
  C14. The end of an upload.  Once an upload has begun, in any run of the client whose commands met the conditions of
  \<open>gated\<close> (every Send a connected socket or none, and a reader that was done with an earlier upload or stood still during the start of this one),
  with a file at least as long as announced and a network that takes the writes: however the reader thread, the loop and the completions of the
  writes are scheduled, they come to a standstill after finitely many moves.  The loop runs only when it has been woken, and the reader
  sleeps until it is notified.  At the standstill the trailer has been sent and the client waits for the acknowledgement, unless the reader
  sleeps through a notification that came between its test of the ring and its sleep.  The code does not exclude that, because it notifies without the mutex:
  from every state in which the reader has found the ring full and not yet gone to sleep there is a schedule that stands still
  before the trailer.
\<close>

theorem client_upload_terminates:
  assumes "client_run h (ts, ui)" and "\<forall>(e, cmd, met) \<in> set h. gated e cmd met" and "ts_uploading ts" and "ts_commands ts = []"
    and "unat (ts_uploadTotal ts) \<le> length (ts_source ts)" and "\<And>k. uv_write (te_uv en) k = 0"
  shows "(f 0 = ts \<longrightarrow> (\<exists>i. \<not> upload_move en (f i) (f (Suc i)))) \<and>
    ((upload_move en)\<^sup>*\<^sup>* ts ts' \<and> (\<nexists>nxt. upload_move en ts' nxt) \<longrightarrow> ts_expecting ts' = ExpAck \<or> overslept ts') \<and>
    ((upload_move en)\<^sup>*\<^sup>* ts ts' \<and> ts_uploading ts' \<and> rd_pc (ts_reader ts') = RdBlock \<longrightarrow>
      (\<exists>ts''. (upload_move en)\<^sup>*\<^sup>* ts' ts'' \<and> (\<nexists>nxt. upload_move en ts'' nxt) \<and> ts_expecting ts'' \<noteq> ExpAck))"
proof -
  have reach: "client_reach (ts, ui)" by (rule client_run_reach [OF assms(1,2)])
  have i: "upload_inv en ts"
    using reach assms(3-6) client_reach_inv lively_reach [of "(ts, ui)"] by (auto simp: upload_inv_def writes_ok_def fits_def)
  have "upload_inv en ts'" if "(upload_move en)\<^sup>*\<^sup>* ts ts'" using upload.run_inv that i by blast
  then show ?thesis using upload.no_infinite_run upload.stuck_finished i block_hangs by blast
qed

theorem client_upload_terminates_witness:
  "\<exists>ts'. (upload_move run_env)\<^sup>*\<^sup>* started ts' \<and> (\<nexists>nxt. upload_move run_env ts' nxt) \<and> (ts_expecting ts' = ExpAck \<or> overslept ts')"
proof -
  obtain met where w: "client_run [(run_env, StartUploadCommand ''C:/a.log'' ''a.log'' 3, met)] (started, shown_ui)"
    "gated run_env (StartUploadCommand ''C:/a.log'' ''a.log'' 3) met" using run_started by blast
  have g: "\<forall>(e, cmd, met) \<in> set [(run_env, StartUploadCommand ''C:/a.log'' ''a.log'' 3, met)]. gated e cmd met" using w(2) by simp
  have "\<And>k. uv_write (te_uv run_env) k = 0" using run_env_ok(2) by (simp add: net_ok_def)
  note t = client_upload_terminates [OF w(1) g started_fields(2,3) _ this]
  show ?thesis
  proof (rule ccontr)
    assume c: "\<not> ?thesis"
    have "ts_expecting ts' = ExpAck \<or> overslept ts'" if "(upload_move run_env)\<^sup>*\<^sup>* started ts'" "\<nexists>nxt. upload_move run_env ts' nxt" for ts'
      using t [of _ ts'] that started_fields(6,13) by simp
    with c have "\<forall>ts'. (upload_move run_env)\<^sup>*\<^sup>* started ts' \<longrightarrow> (\<exists>ts''. upload_move run_env ts' ts'')" by blast
    then obtain g where g: "\<And>ts'. (upload_move run_env)\<^sup>*\<^sup>* started ts' \<Longrightarrow> upload_move run_env ts' (g ts')" by metis
    define f where "f i = (g ^^ i) started" for i
    have r: "(upload_move run_env)\<^sup>*\<^sup>* started (f i)" for i by (induction i) (auto simp: f_def intro: rtranclp.rtrancl_into_rtrancl g)
    have "upload_move run_env (f i) (f (Suc i))" for i using g [OF r] by (simp add: f_def)
    then show False using t [of f] started_fields(6,13) by (auto simp: f_def)
  qed
qed

end
