(* ===== verification/ClientWindow.thy ===== *)
theory ClientWindow
  imports UiRenderer ClientProgress
begin

text \<open>
  The rest of \<^verbatim>\<open>client/src/app/Application.cpp\<close> and \<^verbatim>\<open>client/src/app/main.cpp\<close>: where the window is placed, its messages, its start
  and its end, and with them the start and the stop of the worker (\<^verbatim>\<open>TransferService::start\<close>, \<open>stop\<close>, \<^verbatim>\<open>FileReader::stop\<close>).
  What Windows, Direct3D, the ImGui backends and libuv answer is the record \<open>AppAnswers\<close>.  Coordinates are integers
  without a bound; those of a desktop are far from the limits of 32 bits.
\<close>

section \<open>The window\<close>

definition kDefaultWidth :: int where "kDefaultWidth = 1000"
definition kDefaultHeight :: int where "kDefaultHeight = 700"

text \<open>No position is \<^verbatim>\<open>CW_USEDEFAULT\<close>: the system chooses.\<close>

record WindowPlacement =
  wp_position :: "(int \<times> int) option"
  wp_width :: int
  wp_height :: int

record WorkArea =
  wa_left :: int
  wa_top :: int
  wa_right :: int
  wa_bottom :: int

definition centeredOnPrimaryMonitor :: "WorkArea option \<Rightarrow> WindowPlacement" where
  "centeredOnPrimaryMonitor info =
    (let placement = \<lparr>wp_position = None, wp_width = kDefaultWidth, wp_height = kDefaultHeight\<rparr> in
     case info of
       None \<Rightarrow> placement
     | Some rc \<Rightarrow>
         let workWidth = wa_right rc - wa_left rc; workHeight = wa_bottom rc - wa_top rc in
         if workWidth \<le> 0 \<or> workHeight \<le> 0 then placement
         else
           let width = min kDefaultWidth workWidth; height = min kDefaultHeight workHeight
           in \<lparr>wp_position = Some (wa_left rc + (workWidth - width) div 2, wa_top rc + (workHeight - height) div 2),
               wp_width = width, wp_height = height\<rparr>)"

record Window =
  wn_classRegistered :: bool
  wn_hwnd :: bool
  wn_self :: bool
  wn_device :: bool
  wn_renderTarget :: bool
  wn_imgui :: bool
  wn_pending :: "nat \<times> nat"
  wn_buffers :: "nat \<times> nat"
  wn_quitPosted :: bool

definition newWindow :: Window where
  "newWindow = \<lparr>wn_classRegistered = False, wn_hwnd = False, wn_self = False, wn_device = False, wn_renderTarget = False, wn_imgui = False,
    wn_pending = (0, 0), wn_buffers = (0, 0), wn_quitPosted = False\<rparr>"

datatype WinMessage = WmNcCreate | WmSize bool nat nat | WmSysCommand nat | WmDestroy | WmOther

definition kScKeyMenu :: nat where "kScKeyMenu = 61696"

text \<open>The value is the result, or none when the message goes to the default procedure; \<open>taken\<close> says that ImGui handled it.\<close>

definition windowProc :: "bool \<Rightarrow> WinMessage \<Rightarrow> Window \<Rightarrow> nat option \<times> Window" where
  "windowProc taken msg wn =
    (let wn1 = (if msg = WmNcCreate then wn\<lparr>wn_self := True\<rparr> else wn) in
     if taken then (Some 1, wn1)
     else case msg of
       WmSize minimized width height \<Rightarrow>
         (Some 0, if wn_self wn1 \<and> \<not> minimized then wn1\<lparr>wn_pending := (width, height)\<rparr> else wn1)
     | WmSysCommand w \<Rightarrow> ((if w div 16 * 16 mod 65536 = kScKeyMenu then Some 0 else None), wn1)
     | WmDestroy \<Rightarrow> (Some 0, wn1\<lparr>wn_quitPosted := True\<rparr>)
     | _ \<Rightarrow> (None, wn1))"

text \<open>The render target is let go of before the buffers change, and made again after.\<close>

definition resizeIfRequested :: "bool \<Rightarrow> Window \<Rightarrow> Window" where
  "resizeIfRequested targetOk wn =
    (if fst (wn_pending wn) = 0 \<or> snd (wn_pending wn) = 0 then wn
     else wn\<lparr>wn_renderTarget := targetOk, wn_buffers := wn_pending wn, wn_pending := (0, 0)\<rparr>)"

section \<open>The worker's life\<close>

record Worker =
  wk_running :: bool
  wk_loopInitialized :: bool
  wk_service :: TransferService

record AppAnswers =
  aa_registerClass :: bool
  aa_workArea :: "WorkArea option"
  aa_createWindow :: bool
  aa_createDevice :: bool
  aa_createTarget :: bool
  aa_imguiBackends :: bool
  aa_modulePath :: "string option"
  aa_baseDir :: string
  aa_log :: LogEnv
  aa_cutoff :: string
  aa_entries :: "(string \<times> bool) list"
  aa_removable :: "string \<Rightarrow> bool"
  aa_stamp :: string
  aa_buildDate :: string
  aa_loopInit :: int
  aa_asyncInit :: int
  aa_strerror :: "int \<Rightarrow> string"

definition worker_start :: "AppAnswers \<Rightarrow> Worker \<Rightarrow> string option \<times> Worker" where
  "worker_start en w =
    (if wk_running w then (None, w)
     else if aa_loopInit en < 0 then (Some (''uv_loop_init failed: '' @ aa_strerror en (aa_loopInit en)), w)
     else if aa_asyncInit en < 0 then
       (Some (''uv_async_init failed: '' @ aa_strerror en (aa_asyncInit en)), w\<lparr>wk_loopInitialized := False\<rparr>)
     else (None, w\<lparr>wk_loopInitialized := True, wk_running := True\<rparr>))"

text \<open>
  Joining the reader thread: it runs alone until its main loop ends.  A stop has been requested and the upload aborted, so
  it leaves every wait it has been woken from; one asleep stays there, and the join would not return.
\<close>

fun exit_distance :: "ReaderPc \<Rightarrow> nat" where
  "exit_distance RdExit = 0"
| "exit_distance RdIdle = 1"
| "exit_distance RdClose = 2"
| "exit_distance RdTop = 3"
| "exit_distance RdFull = 3"
| "exit_distance RdAsleep = 0"
| "exit_distance RdBlock = 1"
| "exit_distance (RdCommit n) = 4"
| "exit_distance (RdRead off cap) = 5"

lemma exiting_step:
  assumes "rd_quit rd" "rd_abort rd" "rd_pc rd \<noteq> RdExit" "rd_pc rd \<noteq> RdAsleep"
  shows "exit_distance (rd_pc (reader_step rd)) < exit_distance (rd_pc rd)" "rd_quit (reader_step rd)" "rd_abort (reader_step rd)"
  using assms by (cases "rd_pc rd"; simp add: reader_step_def readSlot_def wake_def Let_def)+

function reader_join :: "FileReader \<Rightarrow> FileReader" where
  "reader_join rd =
    (if \<not> rd_quit rd \<or> \<not> rd_abort rd \<or> rd_pc rd = RdExit \<or> rd_pc rd = RdAsleep then rd else reader_join (reader_step rd))"
  by pat_completeness auto
termination
  by (relation "measure (\<lambda>rd. exit_distance (rd_pc rd))") (simp_all add: exiting_step)

declare reader_join.simps [simp del]

text \<open>
  Joining the loop thread, after the command to quit: the callback runs the commands that are left, libuv cancels the
  writes of the closing socket and reports its close.
\<close>

definition kUvEcanceled :: int where "kUvEcanceled = -125"

definition loop_join :: "(nat \<Rightarrow> ClientEnv) \<Rightarrow> TransferService \<Rightarrow> TransferService" where
  "loop_join en ts =
    (let ts1 = onAsyncCb en ts in
     case ts_socket ts1 of
       None \<Rightarrow> ts1
     | Some sk \<Rightarrow> client_onClosed ((client_onWrite (en (length (ts_commands ts))) kUvEcanceled ^^ sk_pendingWrites sk) ts1))"

definition worker_stop :: "(nat \<Rightarrow> ClientEnv) \<Rightarrow> Worker \<Rightarrow> Worker" where
  "worker_stop en w =
    (if \<not> wk_running w then w\<lparr>wk_loopInitialized := False\<rparr>
     else
       let ts1 = loop_join en (post QuitCommand (wk_service w))
       in w\<lparr>wk_service := ts1\<lparr>ts_reader := reader_join (reader_stop (ts_reader ts1))\<rparr>, wk_running := False, wk_loopInitialized := False\<rparr>)"

section \<open>Start and end of the application\<close>

record Application =
  an_window :: Window
  an_ui :: UiState
  an_worker :: Worker
  an_logger :: Logger

definition newApplication :: "Logger \<Rightarrow> Application" where
  "newApplication lg = \<lparr>an_window = newWindow, an_ui = newUiState,
    an_worker = \<lparr>wk_running = False, wk_loopInitialized = False, wk_service = newTransferService\<rparr>, an_logger = lg\<rparr>"

definition createWindow :: "AppAnswers \<Rightarrow> Window \<Rightarrow> string option \<times> Window" where
  "createWindow en wn =
    (if \<not> aa_registerClass en then (Some ''Failed to register the window class.'', wn)
     else if \<not> aa_createWindow en then (Some ''Failed to create the main window.'', wn\<lparr>wn_classRegistered := True\<rparr>)
     else (None, wn\<lparr>wn_classRegistered := True, wn_hwnd := True, wn_self := True\<rparr>))"

text \<open>Every line of the window's log goes to the log file too.\<close>

definition app_log :: "AppAnswers \<Rightarrow> LogLevel \<Rightarrow> string \<Rightarrow> Application \<Rightarrow> Application" where
  "app_log en level msg an = an\<lparr>an_ui := ui_log (aa_stamp en) level msg (an_ui an), an_logger := logger_log (aa_log en) level msg (an_logger an)\<rparr>"

definition path_text :: "LogPath \<Rightarrow> string" where
  "path_text p = (case p of (dir, date, name) \<Rightarrow> dir @ ''/logs/'' @ date @ ''/'' @ name)"

definition openLogFile :: "AppAnswers \<Rightarrow> Application \<Rightarrow> Application" where
  "openLogFile en an =
    (if aa_modulePath en = None then app_log en Warn ''Cannot resolve the executable path - file logging is disabled.'' an
     else case openFile (aa_log en) (aa_baseDir en) ''client.log'' (an_logger an) of (opened, lg) \<Rightarrow>
       let an1 = an\<lparr>an_logger := lg\<rparr> in
       if \<not> opened then app_log en Warn (''Cannot open a log file under '' @ aa_baseDir en @ [CHR 0x5C] @ ''logs - file logging is disabled.'') an1
       else
         let an2 = app_log en Info (''Logging to '' @ (case activeFilePath lg of None \<Rightarrow> [] | Some p \<Rightarrow> path_text p)) an1 in
         case pruneOldLogs (aa_cutoff en) 7 (aa_removable en) (aa_entries en) (an_logger an2) of (pruned, lg2) \<Rightarrow>
           let an3 = an2\<lparr>an_logger := lg2\<rparr>
           in if pruned > 0 then app_log en Info (''Removed '' @ to_string pruned @ '' expired log folder(s)'') an3 else an3)"

definition initialize :: "AppAnswers \<Rightarrow> Application \<Rightarrow> string option \<times> Application" where
  "initialize en an =
    (case createWindow en (an_window an) of (err, wn) \<Rightarrow>
      let an1 = an\<lparr>an_window := wn\<rparr> in
      if err \<noteq> None then (err, an1)
      else if \<not> aa_createDevice en then (Some ''Failed to create the Direct3D 11 device and swap chain.'', an1)
      else let an2 = an1\<lparr>an_window := (an_window an1)\<lparr>wn_device := True\<rparr>\<rparr> in
      if \<not> aa_createTarget en then (Some ''Failed to create the render target view.'', an2)
      else let an3 = an2\<lparr>an_window := (an_window an2)\<lparr>wn_renderTarget := True\<rparr>\<rparr> in
      if \<not> aa_imguiBackends en then (Some ''Failed to initialize the Dear ImGui Win32/DX11 backend.'', an3)
      else let an4 = openLogFile en (an3\<lparr>an_window := (an_window an3)\<lparr>wn_imgui := True\<rparr>\<rparr>) in
      case worker_start en (an_worker an4) of (err, wk) \<Rightarrow>
        let an5 = an4\<lparr>an_worker := wk\<rparr> in
        if err \<noteq> None then (err, an5)
        else (None, app_log en Info (''log-transfer-analyzer client started (built '' @ aa_buildDate en @ '')'') an5))"

text \<open>\<^verbatim>\<open>~Application\<close>: the worker first, the log last.\<close>

definition application_destroy :: "(nat \<Rightarrow> ClientEnv) \<Rightarrow> Application \<Rightarrow> Application" where
  "application_destroy en an =
    an\<lparr>an_worker := worker_stop en (an_worker an),
       an_window := (an_window an)\<lparr>wn_imgui := False, wn_renderTarget := False, wn_hwnd := False, wn_classRegistered := False\<rparr>,
       an_logger := logger_close (an_logger an)\<rparr>"

text \<open>
  The main loop: in every round the waiting messages are dispatched; one that says quit ends the loop, otherwise the window
  is resized if a message asked for it, and one frame is drawn.
\<close>

record Round =
  rn_messages :: "(bool \<times> WinMessage) list"
  rn_quit :: bool
  rn_targetOk :: bool
  rn_input :: FrameInput

definition dispatch :: "(bool \<times> WinMessage) list \<Rightarrow> Window \<Rightarrow> Window" where
  "dispatch msgs wn = fold (\<lambda>(taken, msg) wn. snd (windowProc taken msg wn)) msgs wn"

definition draw_round :: "Round \<Rightarrow> Application \<Rightarrow> Application" where
  "draw_round rn an =
    (case snd (renderFrame (rn_input rn) (wk_service (an_worker an), an_ui an)) of (ts, ui) \<Rightarrow>
      an\<lparr>an_window := resizeIfRequested (rn_targetOk rn) (an_window an), an_ui := ui, an_worker := (an_worker an)\<lparr>wk_service := ts\<rparr>\<rparr>)"

fun window_run :: "Round list \<Rightarrow> Application \<Rightarrow> Application" where
  "window_run [] an = an"
| "window_run (rn # rns) an =
    (let an1 = an\<lparr>an_window := dispatch (rn_messages rn) (an_window an)\<rparr> in
     if rn_quit rn then an1 else window_run rns (draw_round rn an1))"

definition wWinMain :: "AppAnswers \<Rightarrow> (nat \<Rightarrow> ClientEnv) \<Rightarrow> Round list \<Rightarrow> Logger \<Rightarrow> nat \<times> string option \<times> Application" where
  "wWinMain en ce rns lg =
    (case initialize en (newApplication lg) of
       (Some err, an) \<Rightarrow> (1, Some err, application_destroy ce an)
     | (None, an) \<Rightarrow> (0, None, application_destroy ce (window_run rns an)))"

section \<open>Properties\<close>

text \<open>
  The window is on the screen.  Whatever the work area of the primary monitor, also with negative coordinates, the window is
  placed inside it with its default size or the size of the area, whichever is smaller, and in its middle.
\<close>

theorem window_on_screen:
  assumes "wa_left rc < wa_right rc" and "wa_top rc < wa_bottom rc"
  shows "\<exists>x y. let wp = centeredOnPrimaryMonitor (Some rc) in wp_position wp = Some (x, y) \<and>
    wa_left rc \<le> x \<and> x + wp_width wp \<le> wa_right rc \<and> wa_top rc \<le> y \<and> y + wp_height wp \<le> wa_bottom rc \<and>
    wp_width wp = min 1000 (wa_right rc - wa_left rc) \<and> wp_height wp = min 700 (wa_bottom rc - wa_top rc) \<and>
    (x - wa_left rc) - (wa_right rc - (x + wp_width wp)) \<in> {-1, 0} \<and> (y - wa_top rc) - (wa_bottom rc - (y + wp_height wp)) \<in> {-1, 0}"
proof -
  let ?w = "wa_right rc - wa_left rc" and ?h = "wa_bottom rc - wa_top rc"
  have half: "0 \<le> d div 2 \<and> d div 2 \<le> d \<and> d div 2 - (d - d div 2) \<in> {-1, 0}" if "0 \<le> d" for d :: int using that by auto
  note w = half [of "?w - min 1000 ?w"] and h = half [of "?h - min 700 ?h"]
  show ?thesis
    using assms w h
    by (intro exI [of _ "wa_left rc + (?w - min 1000 ?w) div 2"] exI [of _ "wa_top rc + (?h - min 700 ?h) div 2"])
      (simp add: centeredOnPrimaryMonitor_def Let_def kDefaultWidth_def kDefaultHeight_def)
qed

theorem window_on_screen_witness:
  "centeredOnPrimaryMonitor (Some \<lparr>wa_left = -1366, wa_top = 0, wa_right = 0, wa_bottom = 728\<rparr>) =
    \<lparr>wp_position = Some (-1183, 14), wp_width = 1000, wp_height = 700\<rparr>"
proof -
  let ?rc = "\<lparr>wa_left = -1366, wa_top = 0, wa_right = 0, wa_bottom = 728\<rparr> :: WorkArea"
  obtain x y where "wp_position (centeredOnPrimaryMonitor (Some ?rc)) = Some (x, y)" "wp_width (centeredOnPrimaryMonitor (Some ?rc)) = 1000"
    "wp_height (centeredOnPrimaryMonitor (Some ?rc)) = 700" "(x + 1366) + (x + 1000) \<in> {-1, 0}" "y - (28 - y) \<in> {-1, 0}"
    using window_on_screen [of ?rc] by (auto simp: Let_def)
  moreover have "x = -1183" "y = 14" using calculation(4,5) by auto
  ultimately show ?thesis by simp
qed

lemma exiting_awake:
  assumes "rd_quit rd" "rd_abort rd" "rd_pc rd \<notin> {RdBlock, RdAsleep}"
  shows "rd_pc (reader_step rd) \<notin> {RdBlock, RdAsleep}"
  using assms by (cases "rd_pc rd"; simp add: reader_step_def readSlot_def wake_def Let_def)

lemma reader_join_exits: "rd_quit rd \<Longrightarrow> rd_abort rd \<Longrightarrow> rd_pc rd \<notin> {RdBlock, RdAsleep} \<Longrightarrow> rd_pc (reader_join rd) = RdExit"
proof (induction rd rule: reader_join.induct)
  case (1 rd)
  show ?case
  proof (cases "rd_pc rd = RdExit")
    case False
    then have go: "\<not> (\<not> rd_quit rd \<or> \<not> rd_abort rd \<or> rd_pc rd = RdExit \<or> rd_pc rd = RdAsleep)" using 1(2-4) by simp
    have "rd_quit (reader_step rd)" "rd_abort (reader_step rd)" using exiting_step(2,3) [of rd] go by simp_all
    from 1(1) [OF go this exiting_awake [OF 1(2-4)]] show ?thesis using go by (simp add: reader_join.simps [of rd])
  qed (simp add: reader_join.simps [of rd])
qed

lemma stop_wakes: "rd_pc (reader_stop rd) \<notin> {RdBlock, RdAsleep}"
  by (simp add: reader_stop_def cv_notify_def await_mutex_def split: ReaderPc.split)

lemma drain_append: "drainCommands en (cs @ [cmd]) ts = handle (en (length cs)) cmd (drainCommands en cs ts)"
  by (induction en cs ts rule: drainCommands.induct) simp_all

lemma cancelled_idle: "\<not> ts_uploading ts \<Longrightarrow> \<not> ts_uploading ((client_onWrite en kUvEcanceled ^^ n) ts)"
  by (induction n) (simp_all add: client_onWrite_def client_onError_def kUvEcanceled_def Let_def push_defs closeSocket_eq)

text \<open>
  Stopping the worker returns: the loop thread runs the commands that are left and ends, and after it the reader thread, with
  nothing uploading, no socket, and the reader past its main loop.
\<close>

theorem client_stop_returns:
  assumes "wk_running w"
  shows "ts_socket (wk_service (worker_stop en w)) = None \<and> \<not> ts_uploading (wk_service (worker_stop en w)) \<and>
    rd_pc (ts_reader (wk_service (worker_stop en w))) = RdExit \<and> \<not> wk_running (worker_stop en w)"
proof -
  define ts0 where "ts0 = onAsyncCb en (post QuitCommand (wk_service w))"
  have q: "\<not> ts_uploading ts0"
    by (simp add: ts0_def onAsyncCb_def post_def drain_append handleQuit_def pumpUpload_def closeSocket_eq)
  define ts1 where "ts1 = loop_join en (post QuitCommand (wk_service w))"
  have "ts_socket ts1 = None \<and> \<not> ts_uploading ts1"
    using q cancelled_idle [OF q] by (simp add: ts1_def loop_join_def ts0_def [symmetric] Let_def client_onClosed_def push_defs split: option.split)
  moreover have "rd_pc (reader_join (reader_stop (ts_reader ts1))) = RdExit" by (rule reader_join_exits [OF _ _ stop_wakes]) (simp_all add: reader_stop_def)
  ultimately show ?thesis using assms by (simp add: worker_stop_def ts1_def [symmetric])
qed

text \<open>
  C17. The window drives the client only as the model says.  With widgets that do not react while disabled, drawing one frame, with
  the worker's events, the text fields and the buttons pressed in it, is a sequence of steps of the client,
  each under the condition its button has at that moment; so whatever is proved of the client's runs holds of
  the program, frame after frame.  And the frame shows the connection and the session as they are.
\<close>

theorem frame_runs_client:
  assumes "imgui_ok fi" and "client_reach c" and "renderFrame fi c = (ws, c')"
  shows "client_step\<^sup>*\<^sup>* c c' \<and> client_reach c' \<and> WText (linkText (ui_link (snd c'))) \<in> set ws \<and>
    WDim (''State: '' @ sessionLabel (ui_session (snd c'))) \<in> set ws"
proof -
  have s: "client_step\<^sup>*\<^sup>* c c'" using renderFrame_steps [OF assms(1,2)] assms(3) by simp
  define c1 where "c1 = snd (renderServerRow fi (pumpWorkerEvents (fi_stamp fi) c))"
  define c2 where "c2 = snd (renderTransferRow fi c1)"
  have w: "ws = fst (renderServerRow fi (pumpWorkerEvents (fi_stamp fi) c)) @ fst (renderTransferRow fi c1) @ fst (renderLogPanel c2)"
    and c': "c' = snd (renderLogPanel c2)"
    using assms(3) by (auto simp: renderFrame_def render_def c1_def c2_def split_beta)
  have "ui_link (snd c') = ui_link (snd c1)" by (simp add: c' c2_def renderTransferRow_link renderLogPanel_frame)
  then have "WText (linkText (ui_link (snd c'))) \<in> set ws" by (simp add: w c1_def renderServerRow_def Let_def)
  moreover have "ui_session (snd c') = ui_session (snd c2)" by (simp add: c' renderLogPanel_frame)
  then have "WDim (''State: '' @ sessionLabel (ui_session (snd c'))) \<in> set ws" by (simp add: w c2_def renderTransferRow_def Let_def)
  ultimately show ?thesis using s steps_reach [OF s assms(2)] by blast
qed

definition no_input :: FrameInput where
  "no_input = \<lparr>fi_button = (\<lambda>label disabled. False), fi_inputText = (\<lambda>label disabled buf. buf), fi_stamp = [], fi_shell = (\<lambda>cmd. True),
    fi_dialog = choice, fi_wideText = (\<lambda>t. True), fi_messageBox = (\<lambda>t. False), fi_savePath = None, fi_saveOpened = False, fi_saveGood = False\<rparr>"

text \<open>The user presses Cancel in every frame; it counts only while the button is enabled.\<close>

theorem frame_runs_client_witness:
  "client_reach (snd (renderFrame (no_input\<lparr>fi_button := (\<lambda>label disabled. label = ''Cancel'' \<and> \<not> disabled)\<rparr>) (started, shown_ui)))"
proof -
  let ?fi = "no_input\<lparr>fi_button := (\<lambda>label disabled. label = ''Cancel'' \<and> \<not> disabled)\<rparr>"
  have "imgui_ok ?fi" by (simp add: imgui_ok_def no_input_def)
  from frame_runs_client [OF this reach_started] show ?thesis by (metis prod.collapse)
qed

text \<open>So the whole main loop, from any state of the client, only runs it.\<close>

lemma window_run_reach:
  assumes "\<And>rn. rn \<in> set rns \<Longrightarrow> imgui_ok (rn_input rn)" "client_reach (wk_service (an_worker an), an_ui an)"
  shows "client_reach (wk_service (an_worker (window_run rns an)), an_ui (window_run rns an))"
  using assms
proof (induction rns arbitrary: an)
  case (Cons rn rns)
  let ?c = "(wk_service (an_worker an), an_ui an)"
  have "client_reach (snd (renderFrame (rn_input rn) ?c))"
    using steps_reach [OF renderFrame_steps [of "rn_input rn" ?c]] Cons.prems by simp
  then have "client_reach (wk_service (an_worker (draw_round rn (an\<lparr>an_window := wn\<rparr>))), an_ui (draw_round rn (an\<lparr>an_window := wn\<rparr>)))" for wn
    by (auto simp: draw_round_def split: prod.split)
  then show ?case using Cons.IH [of "draw_round rn (an\<lparr>an_window := wn\<rparr>)" for wn] Cons.prems by (simp add: Let_def)
qed simp

end
