(* ===== verification/SocketLife.thy ===== *)
theory SocketLife
  imports Steps Net
begin

text \<open>
  Who frees what, in \<^verbatim>\<open>common/net\<close>: the constructors, destructors and callbacks of \<^verbatim>\<open>Timer\<close>, \<^verbatim>\<open>Listener\<close> and \<^verbatim>\<open>TcpSocket\<close>.  libuv keeps a
  pointer to a handle until the close callback, and to a request until its own callback, so a wrapper that is
  destroyed before has to leave them to the loop.  The state is the memory involved: the wrapper object, its
  handle, the requests and the pointers between them.  Every use of memory is checked, and a use or a release of
  memory that is not there sets \<open>hm_fault\<close>.  Of libuv, what it documents is assumed: after \<^verbatim>\<open>uv_close\<close>, the callbacks
  of all outstanding requests come first, then the close callback, once.
\<close>

section \<open>Handles and their wrappers\<close>

datatype UvState = NotInit | Active | CloseAsked | CloseDone

text \<open>
  The wrapper object is there, with its members \<^verbatim>\<open>_handle\<close> (held or null), \<^verbatim>\<open>_closing\<close>, \<^verbatim>\<open>_closed\<close>; the handle is allocated, its
  \<^verbatim>\<open>data\<close> points to the object or is null; what libuv has done with it, and whether its close has a callback.
\<close>

record HandleMem =
  hm_object :: bool
  hm_held :: bool
  hm_closing :: bool
  hm_closed :: bool
  hm_alloc :: bool
  hm_data :: bool
  hm_uv :: UvState
  hm_callback :: bool
  hm_fault :: bool

definition newHandleMem :: "bool \<Rightarrow> HandleMem" where
  "newHandleMem initOk = \<lparr>hm_object = True, hm_held = initOk, hm_closing = False, hm_closed = False, hm_alloc = initOk, hm_data = initOk,
    hm_uv = (if initOk then Active else NotInit), hm_callback = False, hm_fault = False\<rparr>"

definition touch :: "bool \<Rightarrow> 'a HandleMem_scheme \<Rightarrow> 'a HandleMem_scheme" where
  "touch live m = m\<lparr>hm_fault := hm_fault m \<or> \<not> live\<rparr>"

definition free_handle :: "'a HandleMem_scheme \<Rightarrow> 'a HandleMem_scheme" where
  "free_handle m = (touch (hm_alloc m) m)\<lparr>hm_alloc := False\<rparr>"

definition loop_close :: "bool \<Rightarrow> 'a HandleMem_scheme \<Rightarrow> 'a HandleMem_scheme" where
  "loop_close callback m = (touch (hm_alloc m \<and> hm_uv m = Active) m)\<lparr>hm_uv := CloseAsked, hm_callback := callback\<rparr>"

definition loop_closing :: "'a HandleMem_scheme \<Rightarrow> bool" where
  "loop_closing m \<longleftrightarrow> hm_uv m = CloseAsked \<or> hm_uv m = CloseDone"

text \<open>The body of a destructor, and the release of the members that follows it.\<close>

definition release_handle :: "'a HandleMem_scheme \<Rightarrow> 'a HandleMem_scheme" where
  "release_handle m =
    (if \<not> hm_held m \<or> hm_closed m then m
     else let m1 = (touch (hm_alloc m) m)\<lparr>hm_data := False, hm_held := False\<rparr>
       in if loop_closing m1 then m1 else loop_close True m1)"

definition end_object :: "'a HandleMem_scheme \<Rightarrow> 'a HandleMem_scheme" where
  "end_object m = (if hm_held m then free_handle m else m)\<lparr>hm_held := False, hm_object := False\<rparr>"

definition timer_destroy :: "'a HandleMem_scheme \<Rightarrow> 'a HandleMem_scheme" where
  "timer_destroy m = end_object (release_handle m)"

definition timer_onCloseCb :: "'a HandleMem_scheme \<Rightarrow> 'a HandleMem_scheme" where
  "timer_onCloseCb m =
    (let m1 = touch (hm_alloc m) m
     in if \<not> hm_data m1 then free_handle m1 else (touch (hm_object m1) m1)\<lparr>hm_closed := True\<rparr>)"

text \<open>A callback that passes an event on to the object.\<close>

definition onTimeoutCb :: "'a HandleMem_scheme \<Rightarrow> 'a HandleMem_scheme" where
  "onTimeoutCb m = (let m1 = touch (hm_alloc m) m in if \<not> hm_data m1 then m1 else touch (hm_object m1) m1)"

definition listener_mem_close :: "'a HandleMem_scheme \<Rightarrow> 'a HandleMem_scheme" where
  "listener_mem_close m = (if \<not> hm_held m \<or> hm_closing m then m else loop_close True (m\<lparr>hm_closing := True\<rparr>))"

text \<open>The other calls guard the handle and use it.\<close>

definition use_handle :: "'a HandleMem_scheme \<Rightarrow> 'a HandleMem_scheme" where
  "use_handle m = (if \<not> hm_held m then m else touch (hm_alloc m) m)"

text \<open>The walk over the handles of the loop that have not been closed yet (\<^verbatim>\<open>TransferService::onWalkCloseCb\<close>).\<close>

definition walk_close :: "'a HandleMem_scheme \<Rightarrow> 'a HandleMem_scheme" where
  "walk_close m = (if \<not> loop_closing m then loop_close False m else m)"

text \<open>
  What can happen to a timer or a listener: its owner uses it, closes it (a listener) or destroys it; the loop passes
  on an event or delivers the close callback; the walk closes the handle, without a callback.
\<close>

datatype WrapperOp = WUse | WClose | WDestroy | WEvent | WClosed | WWalk

fun wrapper_exec :: "WrapperOp \<Rightarrow> HandleMem \<Rightarrow> HandleMem option" where
  "wrapper_exec WUse m = (if hm_object m then Some (use_handle m) else None)"
| "wrapper_exec WClose m = (if hm_object m then Some (listener_mem_close m) else None)"
| "wrapper_exec WDestroy m = (if hm_object m then Some (timer_destroy m) else None)"
| "wrapper_exec WEvent m = (if hm_uv m = Active then Some (onTimeoutCb m) else None)"
| "wrapper_exec WClosed m =
    (if hm_uv m = CloseAsked then Some (let m1 = m\<lparr>hm_uv := CloseDone\<rparr> in if hm_callback m then timer_onCloseCb m1 else m1) else None)"
| "wrapper_exec WWalk m = (if hm_uv m = Active \<or> hm_uv m = CloseAsked then Some (walk_close m) else None)"

inductive wrapper_reach :: "HandleMem \<Rightarrow> bool" where
  wrapper_new: "wrapper_reach (newHandleMem initOk)"
| wrapper_step: "wrapper_reach m \<Longrightarrow> op \<noteq> WWalk \<Longrightarrow> wrapper_exec op m = Some m' \<Longrightarrow> wrapper_reach m'"

section \<open>The socket\<close>

text \<open>
  A socket has requests besides: \<^verbatim>\<open>_connectRequest\<close>, which it owns, and the writes, which are their own owners and which it
  knows by \<^verbatim>\<open>_pendingWrites\<close>.  A write request is allocated when \<open>mm_writes\<close> has it, with whether its pointer to the socket
  is set.  The loop has its own list of what is outstanding.  \<open>mm_afterSend\<close>: \<^verbatim>\<open>onWriteCb\<close> has told its owner of a failed
  write, and is about to report the error.
\<close>

record SocketMem = HandleMem +
  mm_connect :: "nat option"
  mm_pending :: "nat list"
  mm_connects :: "nat set"
  mm_writes :: "nat \<Rightarrow> bool option"
  mm_loopConnect :: "nat option"
  mm_loopWrites :: "nat list"
  mm_afterSend :: bool
  mm_next :: nat

definition newSocketMem :: "bool \<Rightarrow> SocketMem" where
  "newSocketMem initOk = HandleMem.extend (newHandleMem initOk)
    \<lparr>mm_connect = None, mm_pending = [], mm_connects = {}, mm_writes = Map.empty, mm_loopConnect = None, mm_loopWrites = [],
     mm_afterSend = False, mm_next = 0\<rparr>"

definition dropConnect :: "SocketMem \<Rightarrow> SocketMem" where
  "dropConnect m =
    (case mm_connect m of
       None \<Rightarrow> m
     | Some i \<Rightarrow> (touch (i \<in> mm_connects m) m)\<lparr>mm_connect := None, mm_connects := mm_connects m - {i}\<rparr>)"

definition mem_connect :: "int \<Rightarrow> int \<Rightarrow> SocketMem \<Rightarrow> SocketMem" where
  "mem_connect addrRc rc m =
    (if \<not> hm_held m \<or> addrRc \<noteq> 0 then m
     else let i = mm_next m;
              m1 = (dropConnect m)\<lparr>mm_connect := Some i, mm_next := Suc i\<rparr>;
              m2 = touch (hm_alloc m1) (m1\<lparr>mm_connects := insert i (mm_connects m1)\<rparr>)
       in if rc \<noteq> 0 then dropConnect m2 else m2\<lparr>mm_loopConnect := Some i\<rparr>)"

definition mem_send :: "int \<Rightarrow> SocketMem \<Rightarrow> SocketMem" where
  "mem_send rc m =
    (if \<not> hm_held m \<or> hm_closing m then m
     else let i = mm_next m;
              m1 = touch (hm_alloc m) (m\<lparr>mm_writes := (mm_writes m)(i \<mapsto> True), mm_next := Suc i\<rparr>)
       in if rc \<noteq> 0 then m1\<lparr>mm_writes := (mm_writes m1)(i := None)\<rparr>
          else m1\<lparr>mm_pending := mm_pending m1 @ [i], mm_loopWrites := mm_loopWrites m1 @ [i]\<rparr>)"

definition mem_close :: "SocketMem \<Rightarrow> SocketMem" where
  "mem_close m =
    (if \<not> hm_held m \<or> hm_closing m then m else loop_close True (use_handle (m\<lparr>hm_closing := True\<rparr>)))"

definition detach :: "nat \<Rightarrow> SocketMem \<Rightarrow> SocketMem" where
  "detach i m = (touch (mm_writes m i \<noteq> None) m)\<lparr>mm_writes := (mm_writes m)(i := Some False)\<rparr>"

definition mem_destroy :: "SocketMem \<Rightarrow> SocketMem" where
  "mem_destroy m = end_object (dropConnect (release_handle (fold detach (mm_pending m) m)))"

definition mem_onAllocCb :: "SocketMem \<Rightarrow> SocketMem" where
  "mem_onAllocCb m = (let m1 = touch (hm_alloc m) m in if \<not> hm_data m1 then m1 else touch (hm_object m1) m1)"

definition mem_onReadCb :: "SocketMem \<Rightarrow> SocketMem" where
  "mem_onReadCb m = (let m1 = touch (hm_alloc m) m in if \<not> hm_data m1 then m1 else touch (hm_object m1) m1)"

text \<open>A completed write; \<open>ok\<close> is its status.\<close>

definition mem_onWriteCb :: "bool \<Rightarrow> nat \<Rightarrow> SocketMem \<Rightarrow> SocketMem" where
  "mem_onWriteCb ok i m =
    (let m1 = touch (mm_writes m i \<noteq> None) m;
         m2 = (if mm_writes m1 i \<noteq> Some True then m1
               else (touch (hm_object m1) m1)\<lparr>mm_pending := filter (\<lambda>j. j \<noteq> i) (mm_pending m1), mm_afterSend := \<not> ok\<rparr>)
     in m2\<lparr>mm_writes := (mm_writes m2)(i := None)\<rparr>)"

definition mem_onConnectCb :: "nat \<Rightarrow> SocketMem \<Rightarrow> SocketMem" where
  "mem_onConnectCb i m = (let m1 = touch (i \<in> mm_connects m) m in touch (hm_object m1) m1)"

definition mem_onCloseCb :: "SocketMem \<Rightarrow> SocketMem" where
  "mem_onCloseCb m =
    (let m1 = touch (hm_alloc m) m
     in if \<not> hm_data m1 then free_handle m1 else (touch (hm_object m1) m1)\<lparr>hm_closed := True\<rparr>)"

datatype SocketOp =
    MConnect int int
  | MSend int
  | MClose
  | MDestroy
  | MAlloc
  | MRead
  | MWrite bool
  | MWriteError
  | MConnected
  | MClosed

definition loop_free :: "SocketMem \<Rightarrow> bool" where
  "loop_free m \<longleftrightarrow> \<not> mm_afterSend m"

fun mem_exec :: "SocketOp \<Rightarrow> SocketMem \<Rightarrow> SocketMem option" where
  "mem_exec (MConnect addrRc rc) m = (if hm_object m then Some (mem_connect addrRc rc m) else None)"
| "mem_exec (MSend rc) m = (if hm_object m then Some (mem_send rc m) else None)"
| "mem_exec MClose m = (if hm_object m then Some (mem_close m) else None)"
| "mem_exec MDestroy m = (if hm_object m then Some (mem_destroy m) else None)"
| "mem_exec MAlloc m = (if loop_free m \<and> hm_uv m = Active then Some (mem_onAllocCb m) else None)"
| "mem_exec MRead m = (if loop_free m \<and> (hm_uv m = Active \<or> hm_uv m = CloseAsked) then Some (mem_onReadCb m) else None)"
| "mem_exec (MWrite ok) m =
    (case mm_loopWrites m of
       [] \<Rightarrow> None
     | i # rest \<Rightarrow> if loop_free m then Some (mem_onWriteCb ok i (m\<lparr>mm_loopWrites := rest\<rparr>)) else None)"
| "mem_exec MWriteError m =
    (if mm_afterSend m then Some (touch (hm_object m) (m\<lparr>mm_afterSend := False\<rparr>)) else None)"
| "mem_exec MConnected m =
    (case mm_loopConnect m of
       None \<Rightarrow> None
     | Some i \<Rightarrow> if loop_free m then Some (mem_onConnectCb i (m\<lparr>mm_loopConnect := None\<rparr>)) else None)"
| "mem_exec MClosed m =
    (if loop_free m \<and> hm_uv m = CloseAsked \<and> mm_loopWrites m = [] \<and> mm_loopConnect m = None
     then Some (mem_onCloseCb (m\<lparr>hm_uv := CloseDone\<rparr>)) else None)"

text \<open>
  How an owner uses a socket: it connects only when no attempt is under way and it is not closed, and destroys it
  neither while one is nor in the callback that tells it of a failed write.  The class checks none of this.
\<close>

fun careful :: "SocketOp \<Rightarrow> SocketMem \<Rightarrow> bool" where
  "careful (MConnect addrRc rc) m \<longleftrightarrow> mm_loopConnect m = None \<and> \<not> hm_closing m"
| "careful MDestroy m \<longleftrightarrow> mm_loopConnect m = None \<and> \<not> mm_afterSend m"
| "careful _ m \<longleftrightarrow> True"

text \<open>The runs of a socket, with every operation and the state it met.\<close>

inductive socket_run :: "(SocketOp \<times> SocketMem) list \<Rightarrow> SocketMem \<Rightarrow> bool" where
  socket_new: "socket_run [] (newSocketMem initOk)"
| socket_step: "socket_run ops m \<Longrightarrow> mem_exec op m = Some m' \<Longrightarrow> socket_run (ops @ [(op, m)]) m'"

text \<open>The callbacks that libuv owes: those of the requests, and of the close.\<close>

definition loop_move :: "SocketMem \<Rightarrow> SocketMem \<Rightarrow> bool" where
  "loop_move m m' \<longleftrightarrow> (\<exists>op \<in> {MWrite True, MWrite False, MWriteError, MConnected, MClosed}. mem_exec op m = Some m')"

definition all_freed :: "SocketMem \<Rightarrow> bool" where
  "all_freed m \<longleftrightarrow> \<not> hm_object m \<and> \<not> hm_alloc m \<and> mm_connects m = {} \<and> (\<forall>i. mm_writes m i = None)"

section \<open>Invariants\<close>

text \<open>
  While the object is there, it holds the handle, unless that could not be initialised; afterwards the handle is
  there exactly until the loop has closed it.
\<close>

definition handle_ok :: "'a HandleMem_scheme \<Rightarrow> bool" where
  "handle_ok m \<longleftrightarrow> \<not> hm_fault m \<and> hm_uv m \<noteq> NotInit \<and> (hm_uv m = CloseAsked \<longrightarrow> hm_callback m) \<and>
    (if hm_object m then hm_held m \<and> hm_alloc m \<and> hm_data m \<and> hm_closed m = (hm_uv m = CloseDone) \<and> hm_closing m = loop_closing m
     else \<not> hm_held m \<and> hm_uv m \<noteq> Active \<and> hm_alloc m = (hm_uv m = CloseAsked) \<and> (hm_alloc m \<longrightarrow> \<not> hm_data m))"

definition handle_none :: "'a HandleMem_scheme \<Rightarrow> bool" where
  "handle_none m \<longleftrightarrow> \<not> hm_fault m \<and> hm_uv m = NotInit \<and> \<not> hm_held m \<and> \<not> hm_alloc m"

lemmas handle_defs = handle_ok_def handle_none_def touch_def free_handle_def loop_close_def loop_closing_def release_handle_def end_object_def
  timer_destroy_def timer_onCloseCb_def onTimeoutCb_def listener_mem_close_def use_handle_def Let_def

lemma touch_True [simp]: "touch True m = m"
  by (simp add: touch_def)

text \<open>The destructor's part for the handle.\<close>

lemma release_handle_ok:
  assumes "handle_ok m \<or> handle_none m" "hm_object m"
  shows "handle_ok (end_object (release_handle m)) \<or> handle_none (end_object (release_handle m))"
    "hm_uv (release_handle m) = (if hm_uv m = Active then CloseAsked else hm_uv m)"
proof -
  consider "handle_none m" | "handle_ok m" "hm_uv m = Active" | "handle_ok m" "hm_uv m = CloseAsked" | "handle_ok m" "hm_uv m = CloseDone"
    using assms(1) by (cases "hm_uv m") (auto simp: handle_ok_def)
  then have "(handle_ok (end_object (release_handle m)) \<or> handle_none (end_object (release_handle m))) \<and>
    hm_uv (release_handle m) = (if hm_uv m = Active then CloseAsked else hm_uv m)"
    by cases (use assms(2) in \<open>simp_all add: handle_defs\<close>)
  then show "handle_ok (end_object (release_handle m)) \<or> handle_none (end_object (release_handle m))"
    "hm_uv (release_handle m) = (if hm_uv m = Active then CloseAsked else hm_uv m)" by simp_all
qed

lemma wrapper_exec_none: "handle_none m \<Longrightarrow> wrapper_exec op m = Some m' \<Longrightarrow> handle_none m'"
  by (cases op) (auto simp: handle_none_def use_handle_def listener_mem_close_def timer_destroy_def release_handle_def end_object_def split: if_splits)

lemma wrapper_exec_ok:
  assumes "handle_ok m" and "op \<noteq> WWalk" and "wrapper_exec op m = Some m'"
  shows "handle_ok m' \<or> handle_none m'"
proof (cases op)
  case WUse
  then show ?thesis using assms by (auto simp: use_handle_def handle_ok_def split: if_splits)
next
  case WClose
  then have "m' = m \<or> hm_object m \<and> hm_uv m = Active \<and> m' = m\<lparr>hm_closing := True, hm_uv := CloseAsked, hm_callback := True\<rparr>"
    using assms by (cases "hm_uv m") (simp_all add: listener_mem_close_def loop_close_def loop_closing_def handle_ok_def split: if_splits)
  then show ?thesis using assms(1) by (auto simp: handle_ok_def loop_closing_def)
next
  case WDestroy
  then show ?thesis using assms release_handle_ok(1) [of m] by (auto simp: timer_destroy_def split: if_splits)
next
  case WEvent
  then show ?thesis using assms by (auto simp: onTimeoutCb_def handle_ok_def split: if_splits)
next
  case WClosed
  then show ?thesis
    using assms by (cases "hm_object m") (auto simp: timer_onCloseCb_def free_handle_def loop_closing_def Let_def handle_ok_def split: if_splits)
qed (use assms in simp)

lemma wrapper_reach_ok: "wrapper_reach m \<Longrightarrow> handle_ok m \<or> handle_none m"
proof (induction rule: wrapper_reach.induct)
  case (wrapper_new initOk)
  then show ?case by (cases initOk) (simp_all add: newHandleMem_def handle_defs)
next
  case (wrapper_step m op m')
  then show ?case using wrapper_exec_ok wrapper_exec_none by blast
qed

text \<open>The requests: allocated exactly as long as somebody will come back to them.\<close>

definition writes_of :: "bool \<Rightarrow> nat list \<Rightarrow> nat \<Rightarrow> bool option" where
  "writes_of b is = (\<lambda>i. if i \<in> set is then Some b else None)"

lemma writes_of_simps:
  "writes_of b is i = (if i \<in> set is then Some b else None)" "writes_of b [] = Map.empty"
  "(writes_of b is)(i \<mapsto> b) = writes_of b (is @ [i])" "i \<notin> set is \<Longrightarrow> (writes_of b is)(i := None) = writes_of b is"
  "i \<notin> set is \<Longrightarrow> (writes_of b (i # is))(i := None) = writes_of b is"
  by (auto simp: writes_of_def)

definition requests_ok :: "SocketMem \<Rightarrow> bool" where
  "requests_ok m \<longleftrightarrow> distinct (mm_loopWrites m) \<and> (\<forall>i \<in> set (mm_loopWrites m). i < mm_next m) \<and>
    mm_writes m = writes_of (hm_object m) (mm_loopWrites m) \<and>
    mm_connects m = set_option (mm_connect m) \<and> (mm_loopConnect m \<noteq> None \<longrightarrow> mm_loopConnect m = mm_connect m) \<and>
    (hm_uv m \<in> {NotInit, CloseDone} \<longrightarrow> mm_loopWrites m = [] \<and> mm_loopConnect m = None) \<and>
    (if hm_object m then mm_pending m = mm_loopWrites m else mm_connect m = None \<and> \<not> mm_afterSend m)"

definition mem_ok :: "SocketMem \<Rightarrow> bool" where
  "mem_ok m \<longleftrightarrow> (handle_ok m \<or> handle_none m) \<and> requests_ok m"

lemma handle_frame [simp]:
  "handle_ok (m\<lparr>mm_connect := a\<rparr>) = handle_ok m" "handle_ok (m\<lparr>mm_pending := b\<rparr>) = handle_ok m"
  "handle_ok (m\<lparr>mm_connects := c\<rparr>) = handle_ok m" "handle_ok (m\<lparr>mm_writes := d\<rparr>) = handle_ok m"
  "handle_ok (m\<lparr>mm_loopConnect := a\<rparr>) = handle_ok m" "handle_ok (m\<lparr>mm_loopWrites := b\<rparr>) = handle_ok m"
  "handle_ok (m\<lparr>mm_afterSend := e\<rparr>) = handle_ok m" "handle_ok (m\<lparr>mm_next := n\<rparr>) = handle_ok m"
  "handle_none (m\<lparr>mm_connect := a\<rparr>) = handle_none m" "handle_none (m\<lparr>mm_pending := b\<rparr>) = handle_none m"
  "handle_none (m\<lparr>mm_connects := c\<rparr>) = handle_none m" "handle_none (m\<lparr>mm_writes := d\<rparr>) = handle_none m"
  "handle_none (m\<lparr>mm_loopConnect := a\<rparr>) = handle_none m" "handle_none (m\<lparr>mm_loopWrites := b\<rparr>) = handle_none m"
  "handle_none (m\<lparr>mm_afterSend := e\<rparr>) = handle_none m" "handle_none (m\<lparr>mm_next := n\<rparr>) = handle_none m"
  by (simp_all add: handle_ok_def handle_none_def loop_closing_def)

text \<open>The facts about a live socket the callbacks rest on.\<close>

lemma live_handle:
  assumes "mem_ok m" "hm_object m" "hm_held m"
  shows "hm_alloc m" "hm_data m" "handle_ok m" "hm_closing m = loop_closing m" "hm_closed m = (hm_uv m = CloseDone)"
  using assms by (auto simp: mem_ok_def handle_ok_def handle_none_def)

lemma held_object: "mem_ok m \<Longrightarrow> hm_held m \<Longrightarrow> hm_object m"
  by (auto simp: mem_ok_def handle_ok_def handle_none_def split: if_splits)

lemma connects_held: "mem_ok m \<Longrightarrow> mm_connects m = set_option (mm_connect m)"
  by (simp add: mem_ok_def requests_ok_def)

lemma drop_connect: "mm_connects m = set_option (mm_connect m) \<Longrightarrow> dropConnect m = m\<lparr>mm_connect := None, mm_connects := {}\<rparr>"
  by (cases "mm_connect m") (simp_all add: dropConnect_def)

lemma fold_detach:
  assumes "mm_writes m = (\<lambda>i. if i \<in> D then Some False else writes_of True js i)" "set is \<subseteq> D \<union> set js"
  shows "fold detach is m = m\<lparr>mm_writes := (\<lambda>i. if i \<in> D \<union> set is then Some False else writes_of True js i)\<rparr>"
  using assms
proof (induction "is" arbitrary: m D)
  case (Cons i ks)
  have d: "detach i m = m\<lparr>mm_writes := (\<lambda>j. if j \<in> insert i D then Some False else writes_of True js j)\<rparr>"
  proof -
    have "mm_writes m i \<noteq> None" using Cons.prems by (auto simp: writes_of_def simp del: not_None_eq)
    then have "detach i m = m\<lparr>mm_writes := (mm_writes m)(i := Some False)\<rparr>" unfolding detach_def by (simp only: touch_True simp_thms not_None_eq)
    moreover have "(mm_writes m)(i := Some False) = (\<lambda>j. if j \<in> insert i D then Some False else writes_of True js j)"
      using Cons.prems(1) by auto
    ultimately show ?thesis by (simp only:)
  qed
  have "fold detach ks (detach i m) = (detach i m)\<lparr>mm_writes := (\<lambda>j. if j \<in> insert i D \<union> set ks then Some False else writes_of True js j)\<rparr>"
    using Cons.prems(2) by (intro Cons.IH) (auto simp: d)
  moreover have "insert i D \<union> set ks = D \<union> set (i # ks)" by auto
  ultimately show ?case by (simp add: d)
qed simp

lemma connect_ok:
  assumes "mem_ok m" "hm_object m" "mm_loopConnect m = None" "\<not> hm_closing m"
  shows "mem_ok (mem_connect a rc m)"
proof (cases "hm_held m \<and> a = 0")
  case True
  then have "mem_connect a rc m = (if rc \<noteq> 0 then m\<lparr>mm_connect := None, mm_connects := {}, mm_next := Suc (mm_next m)\<rparr>
    else m\<lparr>mm_connect := Some (mm_next m), mm_connects := {mm_next m}, mm_next := Suc (mm_next m), mm_loopConnect := Some (mm_next m)\<rparr>)"
    using live_handle [OF assms(1,2)] connects_held [OF assms(1)] by (simp add: mem_connect_def drop_connect Let_def)
  moreover have "hm_uv m \<noteq> NotInit" "hm_uv m \<noteq> CloseDone"
    using live_handle(3,4) [OF assms(1,2)] True assms(4) by (auto simp: handle_ok_def loop_closing_def)
  ultimately show ?thesis using assms live_handle(3) [OF assms(1,2)] True
    by (auto simp: mem_ok_def requests_ok_def)
qed (use assms in \<open>auto simp: mem_connect_def\<close>)

lemma send_ok:
  assumes "mem_ok m" "hm_object m"
  shows "mem_ok (mem_send rc m)"
proof (cases "hm_held m \<and> \<not> hm_closing m")
  case True
  let ?i = "mm_next m"
  have f: "?i \<notin> set (mm_loopWrites m)" "mm_writes m = writes_of True (mm_loopWrites m)"
    using assms by (auto simp: mem_ok_def requests_ok_def)
  have "mem_send rc m = (if rc \<noteq> 0 then m\<lparr>mm_next := Suc ?i\<rparr>
    else m\<lparr>mm_writes := writes_of True (mm_loopWrites m @ [?i]), mm_next := Suc ?i, mm_pending := mm_pending m @ [?i], mm_loopWrites := mm_loopWrites m @ [?i]\<rparr>)"
    using True live_handle(1) [OF assms] f by (simp add: mem_send_def Let_def writes_of_simps(4) flip: writes_of_simps(3))
  moreover have "hm_uv m \<noteq> NotInit" "hm_uv m \<noteq> CloseDone"
    using live_handle(3,4) [OF assms] True by (auto simp: handle_ok_def loop_closing_def)
  ultimately show ?thesis using assms live_handle(3) [OF assms] True f(1) by (auto simp: mem_ok_def requests_ok_def)
qed (use assms in \<open>auto simp: mem_send_def\<close>)

lemma close_ok:
  assumes "mem_ok m" "hm_object m"
  shows "mem_ok (mem_close m)"
proof (cases "hm_held m \<and> \<not> hm_closing m")
  case True
  note l = live_handle [OF assms]
  have "hm_uv m = Active" using l(3,4) True by (cases "hm_uv m") (auto simp: handle_ok_def loop_closing_def)
  then have "mem_close m = m\<lparr>hm_closing := True, hm_uv := CloseAsked, hm_callback := True\<rparr>"
    using True l(1) by (simp add: mem_close_def use_handle_def loop_close_def)
  then show ?thesis using assms l True by (auto simp: mem_ok_def requests_ok_def handle_ok_def loop_closing_def)
qed (use assms in \<open>auto simp: mem_close_def\<close>)

lemma release_handle_frame [simp]:
  "mm_connect (release_handle m) = mm_connect m" "mm_connects (release_handle m) = mm_connects m" "mm_writes (release_handle m) = mm_writes m"
  "mm_loopConnect (release_handle m) = mm_loopConnect m" "mm_loopWrites (release_handle m) = mm_loopWrites m" "mm_afterSend (release_handle m) = mm_afterSend m"
  "mm_next (release_handle m) = mm_next m"
  by (simp_all add: release_handle_def touch_def loop_close_def Let_def)

lemma end_frame [simp]:
  "mm_connect (end_object m) = mm_connect m" "mm_connects (end_object m) = mm_connects m" "mm_writes (end_object m) = mm_writes m"
  "mm_loopConnect (end_object m) = mm_loopConnect m" "mm_loopWrites (end_object m) = mm_loopWrites m" "mm_afterSend (end_object m) = mm_afterSend m"
  "mm_next (end_object m) = mm_next m" "hm_uv (end_object m) = hm_uv m" "\<not> hm_object (end_object m)"
  "end_object (m\<lparr>mm_connect := a, mm_connects := c\<rparr>) = (end_object m)\<lparr>mm_connect := a, mm_connects := c\<rparr>"
  by (simp_all add: end_object_def free_handle_def touch_def)

lemma destroy_eq:
  assumes "mem_ok m" "hm_object m"
  shows "mem_destroy m = (end_object (release_handle (m\<lparr>mm_writes := writes_of False (mm_loopWrites m)\<rparr>)))\<lparr>mm_connect := None, mm_connects := {}\<rparr>"
proof -
  have r: "mm_writes m = writes_of True (mm_loopWrites m)" "mm_pending m = mm_loopWrites m" "mm_connects m = set_option (mm_connect m)"
    using assms by (simp_all add: mem_ok_def requests_ok_def)
  have "(\<lambda>i. if i \<in> set (mm_loopWrites m) then Some False else writes_of True (mm_loopWrites m) i) = writes_of False (mm_loopWrites m)"
    by (auto simp: writes_of_def)
  then have "fold detach (mm_pending m) m = m\<lparr>mm_writes := writes_of False (mm_loopWrites m)\<rparr>"
    using fold_detach [of m "{}" "mm_loopWrites m" "mm_loopWrites m"] r by simp
  then show ?thesis using r(3) by (simp add: mem_destroy_def drop_connect)
qed

lemma destroy_ok:
  assumes "mem_ok m" "hm_object m" "mm_loopConnect m = None" "\<not> mm_afterSend m"
  shows "mem_ok (mem_destroy m)"
proof -
  let ?m = "m\<lparr>mm_writes := writes_of False (mm_loopWrites m)\<rparr>"
  have h: "handle_ok ?m \<or> handle_none ?m" "hm_object ?m" using assms by (simp_all add: mem_ok_def)
  show ?thesis unfolding destroy_eq [OF assms(1,2)]
    using release_handle_ok [OF h] assms by (auto simp: mem_ok_def requests_ok_def)
qed

lemma write_ok:
  assumes "mem_ok m" "mm_loopWrites m = i # rest" "\<not> mm_afterSend m"
  shows "mem_ok (mem_onWriteCb ok i (m\<lparr>mm_loopWrites := rest\<rparr>))"
proof -
  have r: "mm_writes m = writes_of (hm_object m) (i # rest)" "i \<notin> set rest" using assms by (auto simp: mem_ok_def requests_ok_def)
  then have "filter (\<lambda>j. j \<noteq> i) (i # rest) = rest" by (auto simp: filter_id_conv)
  then show ?thesis using assms r
    by (cases "hm_object m") (auto simp: mem_onWriteCb_def Let_def writes_of_simps mem_ok_def requests_ok_def)
qed

lemma connected_ok:
  assumes "mem_ok m" "mm_loopConnect m = Some i"
  shows "mem_ok (mem_onConnectCb i (m\<lparr>mm_loopConnect := None\<rparr>))"
proof -
  have "hm_object m" "i \<in> mm_connects m" using assms by (auto simp: mem_ok_def requests_ok_def split: if_splits)
  then show ?thesis using assms by (simp add: mem_onConnectCb_def mem_ok_def requests_ok_def)
qed

lemma closed_ok:
  assumes "mem_ok m" "hm_uv m = CloseAsked" "mm_loopWrites m = []" "mm_loopConnect m = None"
  shows "mem_ok (mem_onCloseCb (m\<lparr>hm_uv := CloseDone\<rparr>))"
proof -
  have h: "handle_ok m" using assms by (auto simp: mem_ok_def handle_none_def)
  then show ?thesis using assms
    by (cases "hm_object m") (auto simp: mem_onCloseCb_def free_handle_def Let_def mem_ok_def requests_ok_def handle_ok_def loop_closing_def)
qed

lemma read_ok:
  assumes "mem_ok m" "hm_uv m = Active \<or> hm_uv m = CloseAsked"
  shows "mem_onAllocCb m = m" "mem_onReadCb m = m"
  using assms by (auto simp: mem_onAllocCb_def mem_onReadCb_def Let_def mem_ok_def handle_ok_def handle_none_def split: if_splits)

lemma error_ok: "mem_ok m \<Longrightarrow> mm_afterSend m \<Longrightarrow> mem_ok (touch (hm_object m) (m\<lparr>mm_afterSend := False\<rparr>))"
  by (cases "hm_object m") (auto simp: mem_ok_def requests_ok_def)

lemma mem_exec_ok:
  assumes "mem_ok m" "careful op m" "mem_exec op m = Some m'"
  shows "mem_ok m'"
  using assms
  by (cases op) (auto simp: loop_free_def connect_ok send_ok close_ok destroy_ok read_ok write_ok error_ok connected_ok closed_ok
      split: if_splits list.splits option.splits)

lemma socket_run_ok:
  assumes "socket_run ops m" and "\<forall>(op, m0) \<in> set ops. careful op m0"
  shows "mem_ok m"
  using assms
proof (induction rule: socket_run.induct)
  case (socket_new initOk)
  then show ?case
    by (cases initOk) (simp_all add: newSocketMem_def newHandleMem_def HandleMem.extend_def mem_ok_def requests_ok_def writes_of_simps
        handle_ok_def handle_none_def loop_closing_def)
next
  case (socket_step ops m op m')
  then show ?case by (auto intro: mem_exec_ok)
qed

text \<open>What the loop has left to do for a socket that is gone: one callback per write, and the close.\<close>

definition teardown_rank :: "SocketMem \<Rightarrow> nat" where
  "teardown_rank m = length (mm_loopWrites m) + (if hm_uv m = CloseAsked then 1 else 0)"

lemma move_ok: "mem_ok m \<Longrightarrow> loop_move m m' \<Longrightarrow> mem_ok m'"
  unfolding loop_move_def by (elim bexE) (erule mem_exec_ok, auto)

lemma gone_defs: "mem_ok m \<Longrightarrow> \<not> hm_object m \<Longrightarrow> mm_loopConnect m = None \<and> \<not> mm_afterSend m \<and> hm_uv m \<noteq> Active"
  by (auto simp: mem_ok_def requests_ok_def handle_ok_def handle_none_def)

lemma gone_move:
  assumes "mem_ok m" "\<not> hm_object m" "loop_move m m'"
  shows "\<not> hm_object m' \<and> teardown_rank m' < teardown_rank m"
  using assms(3) gone_defs [OF assms(1,2)] assms(2)
  by (auto simp: loop_move_def teardown_rank_def mem_onWriteCb_def mem_onCloseCb_def touch_def free_handle_def Let_def split: list.splits if_splits)

lemma gone_stuck:
  assumes "mem_ok m" "\<not> hm_object m" "\<not> all_freed m"
  shows "\<exists>m'. loop_move m m'"
proof (cases "mm_loopWrites m")
  case Nil
  then have "hm_uv m = CloseAsked"
    using assms by (cases "hm_uv m") (auto simp: mem_ok_def requests_ok_def handle_ok_def handle_none_def all_freed_def writes_of_simps(2))
  then have "mem_exec MClosed m \<noteq> None" using Nil gone_defs [OF assms(1,2)] by (simp add: loop_free_def)
  then show ?thesis by (auto simp: loop_move_def)
next
  case (Cons i rest)
  then have "mem_exec (MWrite True) m \<noteq> None" using gone_defs [OF assms(1,2)] by (simp add: loop_free_def)
  then show ?thesis by (auto simp: loop_move_def)
qed

interpretation teardown: ranked_moves loop_move "\<lambda>m. mem_ok m \<and> \<not> hm_object m" all_freed teardown_rank
  by unfold_locales (auto simp: move_ok dest: gone_move gone_stuck)

text \<open>The flags of \<^verbatim>\<open>Net\<close> are the members of the object seen here: the operations of both models go together.\<close>

definition agrees :: "SocketMem \<Rightarrow> TcpSocket \<Rightarrow> bool" where
  "agrees m sk \<longleftrightarrow> sk_valid sk = hm_held m \<and> sk_closing sk = hm_closing m \<and> sk_closed sk = hm_closed m \<and> sk_pendingWrites sk = length (mm_pending m)"

lemma memory_refines_flags:
  "agrees (newSocketMem initOk) (newSocket initOk)"
  "agrees m sk \<Longrightarrow> agrees (mem_send (uv_write uv (length (sk_written sk))) m) (snd (sock_send uv bytes sk))"
  "agrees m sk \<Longrightarrow> agrees (mem_close m) (sock_close uv sk)"
  "agrees m sk \<Longrightarrow> mem_ok m \<Longrightarrow> hm_object m \<Longrightarrow> mm_loopWrites m = i # rest \<Longrightarrow>
    agrees (mem_onWriteCb ok i (m\<lparr>mm_loopWrites := rest\<rparr>)) (onWriteCb sk)"
  "agrees m sk \<Longrightarrow> mem_ok m \<Longrightarrow> hm_object m \<Longrightarrow> hm_uv m = CloseAsked \<Longrightarrow> agrees (mem_onCloseCb (m\<lparr>hm_uv := CloseDone\<rparr>)) (onCloseCb sk)"
proof -
  show "agrees (newSocketMem initOk) (newSocket initOk)"
    by (simp add: agrees_def newSocketMem_def newHandleMem_def HandleMem.extend_def newSocket_def)
  show "agrees m sk \<Longrightarrow> agrees (mem_send (uv_write uv (length (sk_written sk))) m) (snd (sock_send uv bytes sk))"
    by (simp add: agrees_def mem_send_def sock_send_def touch_def Let_def)
  show "agrees m sk \<Longrightarrow> agrees (mem_close m) (sock_close uv sk)"
    by (simp add: agrees_def mem_close_def sock_close_def use_handle_def loop_close_def touch_def sock_stopRead_def)
next
  assume a: "agrees m sk" "mem_ok m" "hm_object m"
  show "agrees (mem_onWriteCb ok i (m\<lparr>mm_loopWrites := rest\<rparr>)) (onWriteCb sk)" if l: "mm_loopWrites m = i # rest"
  proof -
    have "mm_pending m = i # rest" "i \<notin> set rest" "mm_writes m i = Some True"
      using a(2,3) l by (auto simp: mem_ok_def requests_ok_def writes_of_simps(1))
    moreover from this(2) have "filter (\<lambda>j. j \<noteq> i) rest = rest" by (auto simp: filter_id_conv)
    ultimately show ?thesis using a(1,3) by (simp add: agrees_def mem_onWriteCb_def onWriteCb_def touch_def Let_def)
  qed
  show "agrees (mem_onCloseCb (m\<lparr>hm_uv := CloseDone\<rparr>)) (onCloseCb sk)" if u: "hm_uv m = CloseAsked"
    using a u by (auto simp: agrees_def mem_onCloseCb_def onCloseCb_def mem_ok_def handle_ok_def handle_none_def Let_def)
qed

section \<open>Properties\<close>

text \<open>
  Why the conditions are there.  An attempt to connect is outstanding: a socket destroyed now leaves libuv with a request that is
  freed with the object, and a second attempt, which libuv refuses, frees the request of the first; the callback
  of the first comes in any case, and uses it.  A socket destroyed in the callback that tells of a failed write
  is used by the rest of \<^verbatim>\<open>onWriteCb\<close>.
\<close>

lemma connect_undone:
  assumes "mem_ok m" "hm_object m" "\<not> mm_afterSend m" "mm_loopConnect m = Some i"
  shows "\<exists>m'. mem_exec MConnected (mem_destroy m) = Some m' \<and> hm_fault m'"
    "rc \<noteq> 0 \<Longrightarrow> \<exists>m'. mem_exec MConnected (mem_connect 0 rc m) = Some m' \<and> hm_fault m'"
proof -
  show "\<exists>m'. mem_exec MConnected (mem_destroy m) = Some m' \<and> hm_fault m'"
    unfolding destroy_eq [OF assms(1,2)] using assms(3,4) by (simp add: loop_free_def mem_onConnectCb_def touch_def Let_def)
  have "hm_held m" "hm_alloc m" using assms by (auto simp: mem_ok_def requests_ok_def handle_ok_def handle_none_def)
  moreover have "mm_connects m = set_option (mm_connect m)" by (rule connects_held [OF assms(1)])
  ultimately show "\<exists>m'. mem_exec MConnected (mem_connect 0 rc m) = Some m' \<and> hm_fault m'" if "rc \<noteq> 0"
    using that assms(3,4) by (simp add: mem_connect_def drop_connect Let_def loop_free_def mem_onConnectCb_def touch_def)
qed

lemma callback_undone:
  assumes "mem_ok m" "hm_object m" "mm_afterSend m"
  shows "\<exists>m'. mem_exec MWriteError (mem_destroy m) = Some m' \<and> hm_fault m'"
  unfolding destroy_eq [OF assms(1,2)] using assms(3) by (simp add: touch_def)

text \<open>
  C37. Memory of a socket.  Whatever the loop delivers and whenever, and whatever the owner calls as long as it does not connect
  during an attempt or after a close, and destroys the socket neither during an attempt nor in the callback of
  a failed write (\<open>careful\<close>): nothing is used after its release or released twice.  After the socket is
  destroyed, at whatever point, the loop's remaining callbacks come to an end, in every order, and then the
  handle and every request have been freed.  The conditions on attempts and on the callback are needed: a
  destruction or a second attempt during one, and a destruction in the callback, lead to the use of freed memory.
\<close>

theorem socket_memory_safe:
  assumes "socket_run ops m" and "\<forall>(op, m0) \<in> set ops. careful op m0"
  shows "\<not> hm_fault m \<and>
    (\<not> hm_object m \<longrightarrow> (\<forall>f. f 0 = m \<longrightarrow> (\<exists>i. \<not> loop_move (f i) (f (Suc i)))) \<and>
      (\<forall>m'. loop_move\<^sup>*\<^sup>* m m' \<and> (\<forall>m''. \<not> loop_move m' m'') \<longrightarrow> all_freed m' \<and> \<not> hm_fault m')) \<and>
    (hm_object m \<and> \<not> mm_afterSend m \<and> mm_loopConnect m \<noteq> None \<longrightarrow>
      (\<exists>m'. mem_exec MConnected (mem_destroy m) = Some m' \<and> hm_fault m') \<and>
      (\<forall>rc. rc \<noteq> 0 \<longrightarrow> (\<exists>m'. mem_exec MConnected (mem_connect 0 rc m) = Some m' \<and> hm_fault m'))) \<and>
    (hm_object m \<and> mm_afterSend m \<longrightarrow> (\<exists>m'. mem_exec MWriteError (mem_destroy m) = Some m' \<and> hm_fault m'))"
proof -
  note ok = socket_run_ok [OF assms]
  have nf: "mem_ok m \<Longrightarrow> \<not> hm_fault m" for m by (auto simp: mem_ok_def handle_ok_def handle_none_def)
  have "\<not> hm_object m \<longrightarrow> (\<forall>f. f 0 = m \<longrightarrow> (\<exists>i. \<not> loop_move (f i) (f (Suc i)))) \<and>
      (\<forall>m'. loop_move\<^sup>*\<^sup>* m m' \<and> (\<forall>m''. \<not> loop_move m' m'') \<longrightarrow> all_freed m' \<and> \<not> hm_fault m')"
    using ok nf teardown.no_infinite_run teardown.stuck_finished [of m] teardown.run_inv [of m] by blast
  then show ?thesis using nf [OF ok] connect_undone [OF ok] callback_undone [OF ok] by blast
qed

theorem socket_memory_safe_witness:
  "\<exists>ops m. socket_run ops m \<and> (\<forall>(op, m0) \<in> set ops. careful op m0) \<and> \<not> hm_object m \<and> mm_loopWrites m = [0] \<and> hm_alloc m \<and> \<not> hm_fault m \<and>
    (\<forall>f. f 0 = m \<longrightarrow> (\<exists>i. \<not> loop_move (f i) (f (Suc i))))"
proof -
  let ?fresh = "newSocketMem True"
  let ?sent = "mem_send 0 ?fresh" and ?m = "mem_destroy (mem_send 0 ?fresh)" and ?ops = "[(MSend 0, ?fresh), (MDestroy, mem_send 0 ?fresh)]"
  have "socket_run ([] @ [(MSend 0, ?fresh)]) ?sent"
    by (rule socket_step [OF socket_new]) (simp add: newSocketMem_def newHandleMem_def HandleMem.extend_def)
  then have r: "socket_run ?ops ?m"
    using socket_step [of "[(MSend 0, ?fresh)]" ?sent MDestroy ?m] by (simp add: mem_send_def newSocketMem_def newHandleMem_def HandleMem.extend_def Let_def touch_def)
  have c: "\<forall>(op, m0) \<in> set ?ops. careful op m0"
    by (simp add: mem_send_def newSocketMem_def newHandleMem_def HandleMem.extend_def Let_def touch_def)
  have "\<not> hm_object ?m" "mm_loopWrites ?m = [0]" "hm_alloc ?m"
    by (simp_all add: mem_destroy_def mem_send_def newSocketMem_def newHandleMem_def HandleMem.extend_def Let_def detach_def dropConnect_def
        release_handle_def end_object_def loop_close_def loop_closing_def touch_def)
  with r c socket_memory_safe [OF r c] show ?thesis by blast
qed

text \<open>
  The owners of this program are careful: the client's socket is destroyed in its close callback, or when the attempt
  to connect has failed at once.
\<close>

lemma owner_careful:
  "mem_exec MClosed m = Some m' \<Longrightarrow> careful MDestroy m'"
    "a \<noteq> 0 \<or> rc \<noteq> 0 \<Longrightarrow> careful MDestroy (mem_connect a rc (newSocketMem initOk))"
  by (auto simp: loop_free_def mem_onCloseCb_def touch_def free_handle_def Let_def mem_connect_def dropConnect_def newSocketMem_def
      newHandleMem_def HandleMem.extend_def split: if_splits)

text \<open>
  A timer and a listener: nothing is used after its release, and a destroyed one is freed once the loop has closed
  its handle.
\<close>

theorem wrapper_memory_safe:
  assumes "wrapper_reach m"
  shows "\<not> hm_fault m \<and> (\<not> hm_object m \<and> hm_uv m \<noteq> CloseAsked \<longrightarrow> \<not> hm_alloc m)"
  using wrapper_reach_ok [OF assms] by (auto simp: handle_ok_def handle_none_def split: if_splits)

text \<open>
  A handle that \<^verbatim>\<open>onWalkCloseCb\<close> closed before its wrapper was destroyed is never freed, whether the loop closes it before or
  after: nothing can happen to it any more.  So the client destroys its timer before the walk.
\<close>

theorem walked_handle_leaks:
  assumes "wrapper_reach m" and "hm_object m" and "hm_uv m = Active"
    and "ops = [WWalk, WDestroy, WClosed] \<or> ops = [WWalk, WClosed, WDestroy]"
    and "fold (\<lambda>op r. Option.bind r (wrapper_exec op)) ops (Some m) = Some m'"
  shows "hm_alloc m' \<and> wrapper_exec op m' = None"
  using wrapper_reach_ok [OF assms(1)] assms(2-)
  by (cases op) (auto simp: handle_defs walk_close_def)

end
