(* ===== verification/LineFormat.thy ===== *)
theory LineFormat
  imports LogLineParser
begin

text \<open>
  The documented format of a log line, written down on its own: nothing here calls the functions of
  \<^verbatim>\<open>server/src/parser/LogLineParser.cpp\<close>, only the meaning of decimal digits and \<^verbatim>\<open>std::from_chars\<close> for floating-point numbers are
  taken over.  The parser is then shown to accept exactly the lines of this format, with the values they carry.
\<close>

section \<open>The format\<close>

text \<open>Brackets come in pairs, are not nested and hold something.\<close>

definition plain :: "string \<Rightarrow> bool" where
  "plain s \<longleftrightarrow> CHR ''['' \<notin> set s \<and> CHR '']'' \<notin> set s"

definition well_bracketed :: "string \<Rightarrow> bool" where
  "well_bracketed msg \<longleftrightarrow>
    (\<exists>parts rest. msg = concat (map (\<lambda>(before, inside). before @ ''['' @ inside @ '']'') parts) @ rest \<and> plain rest \<and>
      (\<forall>(before, inside) \<in> set parts. plain before \<and> plain inside \<and> inside \<noteq> []))"

text \<open>
  A field is its name and a value in brackets, at the start of the message or after a blank, a comma or a colon; when there are
  several with that name, the first one counts.
\<close>

definition field_at :: "string \<Rightarrow> string \<Rightarrow> string \<Rightarrow> string \<Rightarrow> bool" where
  "field_at msg name before rest \<longleftrightarrow> msg = before @ name @ ''['' @ rest \<and> (before = [] \<or> last before \<in> {CHR '' '', CHR '','', CHR '':''})"

definition field_value :: "string \<Rightarrow> string \<Rightarrow> string \<Rightarrow> bool" where
  "field_value msg name tok \<longleftrightarrow>
    (\<exists>before post. field_at msg name before (tok @ '']'' @ post) \<and> CHR '']'' \<notin> set tok \<and>
      (\<forall>before' rest. field_at msg name before' rest \<longrightarrow> length before \<le> length before'))"

definition decimal64 :: "string \<Rightarrow> bool" where
  "decimal64 t \<longleftrightarrow> t \<noteq> [] \<and> (\<forall>c \<in> set t. is_digit c) \<and> digits_val t < 2 ^ 63"

definition arrow_value :: "string \<Rightarrow> bool" where
  "arrow_value t \<longleftrightarrow> (\<exists>a b. t = a @ ''->'' @ b \<and> a \<noteq> [] \<and> b \<noteq> [] \<and> (\<forall>c \<in> set (a @ b). is_digit c))"

definition double_value :: "string \<Rightarrow> rat \<Rightarrow> bool" where
  "double_value t x \<longleftrightarrow> t \<noteq> [] \<and> from_chars_double t = (ErrcOk, Finite x, length t)"

text \<open>The Gregorian calendar; days are counted from the first of January 1970.\<close>

definition leap :: "int \<Rightarrow> bool" where
  "leap y \<longleftrightarrow> 4 dvd y \<and> (100 dvd y \<longrightarrow> 400 dvd y)"

definition month_length :: "int \<Rightarrow> int \<Rightarrow> int" where
  "month_length y m = (if m = 2 then if leap y then 29 else 28 else if m \<in> {4, 6, 9, 11} then 30 else 31)"

definition day_number :: "int \<Rightarrow> int \<Rightarrow> int \<Rightarrow> int" where
  "day_number y m d = 365 * (y - 1970) + ((y - 1) div 4 - (y - 1) div 100 + (y - 1) div 400 - 477) + (\<Sum>k \<in> {1..<m}. month_length y k) + d - 1"

definition digits_of :: "nat \<Rightarrow> string \<Rightarrow> int \<Rightarrow> bool" where
  "digits_of n s v \<longleftrightarrow> length s = n \<and> (\<forall>c \<in> set s. is_digit c) \<and> v = int (digits_val s)"

text \<open>\<^verbatim>\<open>YYYY-MM-DD_hh:mm:ss.ffffff\<close>, a time of day on a day of the calendar; \<open>t\<close> is its second.\<close>

definition timestamp_of :: "string \<Rightarrow> int \<Rightarrow> int \<Rightarrow> int \<Rightarrow> int \<Rightarrow> int \<Rightarrow> bool" where
  "timestamp_of ts y mo d h t \<longleftrightarrow>
    (\<exists>sy smo sd sh smi ss frac mi s mu.
      ts = sy @ ''-'' @ smo @ ''-'' @ sd @ ''_'' @ sh @ '':'' @ smi @ '':'' @ ss @ ''.'' @ frac \<and>
      digits_of 4 sy y \<and> digits_of 2 smo mo \<and> digits_of 2 sd d \<and> digits_of 2 sh h \<and> digits_of 2 smi mi \<and> digits_of 2 ss s \<and> digits_of 6 frac mu \<and>
      1 \<le> mo \<and> mo \<le> 12 \<and> 1 \<le> d \<and> d \<le> month_length y mo \<and> h \<le> 23 \<and> mi \<le> 59 \<and> s \<le> 59 \<and>
      t = day_number y mo d * 86400 + h * 3600 + mi * 60 + s)"

text \<open>The five modules: the name, the fields that hold an integer, and the field that holds a transition.\<close>

fun schema :: "ModuleId \<Rightarrow> string \<times> string set \<times> string set" where
  "schema RadarTrackNodeState = (''RadarTrackNodeState'', {''nodeUID'', ''rfLane''}, {''lockState''})"
| "schema AntennaProfileSpec = (''AntennaProfileSpec'', {''sectorID''}, {})"
| "schema BeamSteerCtrlUnitImpl = (''BeamSteerCtrlUnitImpl'', {''unitAddr''}, {})"
| "schema DetectionTaskRunner = (''DetectionTaskRunner'', {''jobID''}, {})"
| "schema SectorSchedulerRTS = (''SectorSchedulerRTS'', {''jobID'', ''gatedFlag''}, {})"

text \<open>The speed: none, out of range and left out, or a sample.\<close>

definition speed_of :: "string \<Rightarrow> bool \<Rightarrow> bool \<Rightarrow> rat \<Rightarrow> bool" where
  "speed_of msg hasSpd inRange spd \<longleftrightarrow>
    (\<forall>tok. field_value msg ''advDelta'' tok \<longrightarrow> (\<exists>x. double_value tok x)) \<and>
    (if \<exists>tok. field_value msg ''spd'' tok
     then hasSpd \<and> (\<forall>tok. field_value msg ''spd'' tok \<longrightarrow>
       (\<exists>x. double_value tok x \<and> inRange = (0 \<le> x \<and> x < 10000000) \<and> spd = (if inRange then x else 0)))
     else \<not> hasSpd \<and> \<not> inRange \<and> spd = 0)"

definition well_formed :: "LogLineParser \<Rightarrow> string \<Rightarrow> ParsedLine \<Rightarrow> int \<Rightarrow> bool" where
  "well_formed p text line t \<longleftrightarrow>
    (\<forall>c \<in> set text. 32 \<le> byte_nat c \<and> byte_nat c \<noteq> 127) \<and>
    (lp_hasAnchor p \<longrightarrow> \<bar>t - lp_anchorSeconds p\<bar> \<le> 48 * 3600) \<and>
    (\<exists>ts pid tid sess msg modname ints arrows.
      text = ''['' @ ts @ ''][''  @ pid @ ''][''  @ tid @ ''][''  @ sess @ ''] BYDA::'' @ modname @ '': '' @ msg \<and>
      timestamp_of ts (pl_year line) (pl_month line) (pl_day line) (pl_hour line) t \<and>
      decimal64 pid \<and> decimal64 tid \<and> decimal64 sess \<and>
      schema (pl_module line) = (modname, ints, arrows) \<and> well_bracketed msg \<and>
      (\<forall>f \<in> ints. \<forall>tok. field_value msg f tok \<longrightarrow> decimal64 tok) \<and>
      (\<forall>f \<in> arrows. \<forall>tok. field_value msg f tok \<longrightarrow> arrow_value tok) \<and>
      (if pl_module line = BeamSteerCtrlUnitImpl then speed_of msg (pl_hasSpd line) (pl_spdInRange line) (pl_spd line)
       else \<not> pl_hasSpd line \<and> \<not> pl_spdInRange line \<and> pl_spd line = 0))"

section \<open>The checks of the parser decide it\<close>

subsection \<open>Brackets\<close>

lemma scan_closed: "brackets_scan False n s = brackets_scan False 0 s"
  by (induction s arbitrary: n) auto

lemma scan_plain: "plain pre \<Longrightarrow> brackets_scan False n (pre @ s) = brackets_scan False 0 s"
proof (induction pre arbitrary: n)
  case Nil
  show ?case unfolding append_Nil by (rule scan_closed)
qed (auto simp: plain_def)

lemma scan_inside: "plain x \<Longrightarrow> brackets_scan True n (x @ s) = brackets_scan True (n + length x) s"
  by (induction x arbitrary: n) (auto simp: plain_def)

lemma scan_open:
  assumes "brackets_scan True n s"
  shows "\<exists>x rest. s = x @ '']'' @ rest \<and> plain x \<and> 0 < n + length x \<and> brackets_scan False 0 rest"
  using assms
proof (induction s arbitrary: n)
  case (Cons c s)
  show ?case
  proof (cases "c = CHR '']''")
    case True
    then have "0 < n" "brackets_scan False n s" using Cons.prems by (auto split: if_splits)
    then have "brackets_scan False 0 s" using scan_closed by blast
    then show ?thesis using True \<open>0 < n\<close> by (intro exI [of _ "[]"] exI [of _ s]) (auto simp: plain_def)
  next
    case False
    then have "c \<noteq> CHR ''[''" "brackets_scan True (n + 1) s" using Cons.prems by (auto split: if_splits)
    with Cons.IH [of "n + 1"] False obtain x rest where "s = x @ '']'' @ rest" "plain x" "brackets_scan False 0 rest" by blast
    then show ?thesis using False \<open>c \<noteq> CHR ''[''\<close> by (intro exI [of _ "c # x"] exI [of _ rest]) (auto simp: plain_def)
  qed
qed simp

lemma split_bracket: "plain s \<or> (\<exists>before c rest. s = before @ c # rest \<and> plain before \<and> c \<in> {CHR ''['', CHR '']''})"
proof (induction s)
  case (Cons a s)
  show ?case
  proof (cases "a \<in> {CHR ''['', CHR '']''}")
    case True
    then show ?thesis by (intro disjI2 exI [of _ "[]"]) (auto simp: plain_def)
  next
    case False
    from Cons show ?thesis
    proof
      assume "plain s"
      then show ?thesis using False by (intro disjI1) (auto simp: plain_def)
    next
      assume "\<exists>before c rest. s = before @ c # rest \<and> plain before \<and> c \<in> {CHR ''['', CHR '']''}"
      then obtain before c rest where "s = before @ c # rest" "plain before" "c \<in> {CHR ''['', CHR '']''}" by blast
      then show ?thesis using False by (intro disjI2 exI [of _ "a # before"] exI [of _ c] exI [of _ rest]) (auto simp: plain_def)
    qed
  qed
qed (simp add: plain_def)

lemma bracketsSane_iff: "bracketsSane msg \<longleftrightarrow> well_bracketed msg"
proof
  assume "bracketsSane msg"
  then have "brackets_scan False 0 msg" by (simp add: bracketsSane_def)
  then show "well_bracketed msg"
  proof (induction "length msg" arbitrary: msg rule: less_induct)
    case less
    from split_bracket [of msg] show ?case
    proof
      assume "plain msg"
      then show ?thesis unfolding well_bracketed_def by (intro exI [of _ "[]"] exI [of _ msg]) simp
    next
      assume "\<exists>before c rest. msg = before @ c # rest \<and> plain before \<and> c \<in> {CHR ''['', CHR '']''}"
      then obtain before c rest where m: "msg = before @ c # rest" "plain before" "c \<in> {CHR ''['', CHR '']''}" by blast
      then have "c = CHR ''[''" "brackets_scan True 0 rest" using less.prems scan_plain [of before 0 "c # rest"] by (auto split: if_splits)
      moreover from scan_open [OF this(2)] obtain x tl where x: "rest = x @ '']'' @ tl" "plain x" "x \<noteq> []" "brackets_scan False 0 tl" by auto
      moreover have "well_bracketed tl" using less.hyps [of tl] x m by simp
      then obtain parts r where "tl = concat (map (\<lambda>(before, inside). before @ ''['' @ inside @ '']'') parts) @ r" "plain r"
        "\<forall>(before, inside) \<in> set parts. plain before \<and> plain inside \<and> inside \<noteq> []"
        by (auto simp: well_bracketed_def)
      ultimately show ?thesis
        unfolding well_bracketed_def using m by (intro exI [of _ "(before, x) # parts"] exI [of _ r]) auto
    qed
  qed
next
  assume "well_bracketed msg"
  then obtain parts rest where m: "msg = concat (map (\<lambda>(before, inside). before @ ''['' @ inside @ '']'') parts) @ rest" "plain rest"
    "\<forall>(before, inside) \<in> set parts. plain before \<and> plain inside \<and> inside \<noteq> []" by (auto simp: well_bracketed_def)
  have "brackets_scan False 0 (concat (map (\<lambda>(before, inside). before @ ''['' @ inside @ '']'') parts) @ rest)"
    using m(2,3)
  proof (induction parts)
    case Nil
    then show ?case using scan_plain [of rest 0 "[]"] by simp
  next
    case (Cons part parts)
    obtain b x where p: "part = (b, x)" by fastforce
    then have bx: "plain b" "plain x" "x \<noteq> []" using Cons.prems by auto
    let ?r = "concat (map (\<lambda>(before, inside). before @ ''['' @ inside @ '']'') parts) @ rest"
    have "brackets_scan False 0 ?r" using Cons by simp
    then have "brackets_scan False (length x) ?r" using scan_closed by blast
    then show ?case using p bx scan_plain [OF bx(1), of 0 "''['' @ x @ '']'' @ ?r"] scan_inside [OF bx(2), of 0 "'']'' @ ?r"] by simp
  qed
  then show "bracketsSane msg" by (simp add: bracketsSane_def m(1))
qed

subsection \<open>Fields\<close>

text \<open>A field by the place of its name.\<close>

definition name_at :: "string \<Rightarrow> string \<Rightarrow> nat \<Rightarrow> bool" where
  "name_at msg name i \<longleftrightarrow> prefix name (drop i msg) \<and> i + length name < length msg \<and> msg ! (i + length name) = CHR ''['' \<and>
    (i = 0 \<or> msg ! (i - 1) \<in> {CHR '' '', CHR '','', CHR '':''})"

lemma field_at_name:
  assumes "field_at msg name before rest"
  shows "name_at msg name (length before)" "rest = drop (length before + length name + 1) msg"
proof -
  have m: "msg = before @ name @ CHR ''['' # rest" and b: "before = [] \<or> last before \<in> {CHR '' '', CHR '','', CHR '':''}"
    using assms by (simp_all add: field_at_def)
  have "before \<noteq> [] \<Longrightarrow> msg ! (length before - 1) = last before" using m by (simp add: nth_append last_conv_nth)
  then have "length before = 0 \<or> msg ! (length before - 1) \<in> {CHR '' '', CHR '','', CHR '':''}" using b by auto
  moreover have "prefix name (drop (length before) msg)" "length before + length name < length msg"
    "msg ! (length before + length name) = CHR ''[''" using m by (simp_all add: nth_append)
  ultimately show "name_at msg name (length before)" unfolding name_at_def by blast
  show "rest = drop (length before + length name + 1) msg" using m by simp
qed

lemma name_at_field:
  assumes "name_at msg name i"
  shows "field_at msg name (take i msg) (drop (i + length name + 1) msg)"
proof -
  from assms obtain rest where r: "drop i msg = name @ rest" and l: "i + length name < length msg" and c: "msg ! (i + length name) = CHR ''[''"
    by (auto simp: name_at_def prefix_def)
  have rest: "rest = drop (i + length name) msg" using arg_cong [OF r, of "drop (length name)"] by (simp add: add.commute)
  also have "\<dots> = CHR ''['' # drop (i + length name + 1) msg" using l c by (metis Cons_nth_drop_Suc Suc_eq_plus1)
  finally have "drop i msg = name @ ''['' @ drop (i + length name + 1) msg" using r by simp
  then have "msg = take i msg @ name @ ''['' @ drop (i + length name + 1) msg" by (metis append_take_drop_id)
  moreover have "i \<noteq> 0 \<Longrightarrow> last (take i msg) = msg ! (i - 1)" using l by (subst last_conv_nth) auto
  ultimately show ?thesis using assms by (auto simp: field_at_def name_at_def)
qed

text \<open>The search finds the first one.\<close>

lemma findField_from_Some:
  assumes "name \<noteq> []"
  shows "findField_from msg name pos = Some tok \<longleftrightarrow>
    (\<exists>i \<ge> pos. name_at msg name i \<and> (\<forall>j. pos \<le> j \<and> j < i \<longrightarrow> \<not> name_at msg name j) \<and>
      (\<exists>close. sv_find_char msg (CHR '']'') (i + length name + 1) = Some close \<and>
        tok = sv_substr msg (i + length name + 1) (close - (i + length name) - 1)))" (is "_ \<longleftrightarrow> ?R pos")
  using assms
proof (induction msg name pos rule: findField_from.induct)
  case (1 msg name pos)
  let ?R = "\<lambda>pos. \<exists>i \<ge> pos. name_at msg name i \<and> (\<forall>j. pos \<le> j \<and> j < i \<longrightarrow> \<not> name_at msg name j) \<and>
      (\<exists>close. sv_find_char msg (CHR '']'') (i + length name + 1) = Some close \<and>
        tok = sv_substr msg (i + length name + 1) (close - (i + length name) - 1))"
  show ?case
  proof (cases "pos < length msg")
    case False
    then have "\<not> ?R pos" by (auto simp: name_at_def)
    then show ?thesis using False by (simp add: findField_from.simps [of msg name pos])
  next
    case lt: True
    show ?thesis
    proof (cases "sv_find msg name pos")
      case None
      have "\<not> name_at msg name i" if "pos \<le> i" for i
        using sv_find_NoneD [OF None that] by (cases "i \<le> length msg") (auto simp: name_at_def)
      then have "\<not> ?R pos" by blast
      then show ?thesis using lt None by (simp add: findField_from.simps [of msg name pos])
    next
      case (Some found)
      note D = sv_find_SomeD [OF Some]
      have before: "\<not> name_at msg name j" if "pos \<le> j" "j < found" for j using D(4) [OF that] by (simp add: name_at_def)
      let ?ok = "(found = 0 \<or> msg ! (found - 1) \<in> {CHR '' '', CHR '','', CHR '':''}) \<and> found + length name < length msg \<and>
        msg ! (found + length name) = CHR ''[''"
      have at: "name_at msg name found \<longleftrightarrow> ?ok" using D(3) by (auto simp: name_at_def)
      show ?thesis
      proof (cases ?ok)
        case True
        have "?R pos \<longleftrightarrow> (\<exists>close. sv_find_char msg (CHR '']'') (found + length name + 1) = Some close \<and>
            tok = sv_substr msg (found + length name + 1) (close - (found + length name) - 1))" (is "_ \<longleftrightarrow> ?C")
        proof
          assume "?R pos"
          then obtain i where i: "pos \<le> i" "name_at msg name i" "\<forall>j. pos \<le> j \<and> j < i \<longrightarrow> \<not> name_at msg name j"
            "\<exists>close. sv_find_char msg (CHR '']'') (i + length name + 1) = Some close \<and>
              tok = sv_substr msg (i + length name + 1) (close - (i + length name) - 1)" by blast
          have "i = found" using i(1-3) before [of i] at True D(1) by (metis linorder_neqE_nat)
          then show ?C using i(4) by simp
        next
          assume ?C
          then show "?R pos" using D(1) at True before by blast
        qed
        moreover have "findField_from msg name pos = (case sv_find_char msg (CHR '']'') (found + length name + 1) of
            None \<Rightarrow> None | Some close \<Rightarrow> Some (sv_substr msg (found + length name + 1) (close - (found + length name) - 1)))"
          using lt Some True by (simp add: findField_from.simps [of msg name pos] Let_def)
        then have "findField_from msg name pos = Some tok \<longleftrightarrow> ?C" by (auto split: option.splits)
        ultimately show ?thesis by (simp only:)
      next
        case False
        then have "findField_from msg name pos = findField_from msg name (found + 1)"
          using lt Some by (simp only: findField_from.simps [of msg name pos] Let_def option.case if_True if_False)
        moreover have "?R (found + 1) \<longleftrightarrow> ?R pos"
        proof
          assume "?R (found + 1)"
          then obtain i where i: "found + 1 \<le> i" "name_at msg name i" "\<forall>j. found + 1 \<le> j \<and> j < i \<longrightarrow> \<not> name_at msg name j"
            "\<exists>close. sv_find_char msg (CHR '']'') (i + length name + 1) = Some close \<and>
              tok = sv_substr msg (i + length name + 1) (close - (i + length name) - 1)" by blast
          have "\<not> name_at msg name j" if "pos \<le> j" "j < i" for j
            using that i(3) before [of j] at False by (cases "j < found"; cases "j = found") auto
          then show "?R pos" using i(1,2,4) D(1) by (intro exI [of _ i]) auto
        next
          assume "?R pos"
          then obtain i where i: "pos \<le> i" "name_at msg name i" "\<forall>j. pos \<le> j \<and> j < i \<longrightarrow> \<not> name_at msg name j"
            "\<exists>close. sv_find_char msg (CHR '']'') (i + length name + 1) = Some close \<and>
              tok = sv_substr msg (i + length name + 1) (close - (i + length name) - 1)" by blast
          have "i \<noteq> found" "\<not> i < found" using i(1,2) at False before by auto
          then have "found + 1 \<le> i" by simp
          then show "?R (found + 1)" using i D(1) by (intro exI [of _ i]) auto
        qed
        moreover have "findField_from msg name (found + 1) = Some tok \<longleftrightarrow> ?R (found + 1)"
          using "1.IH" [OF lt Some refl refl] False "1.prems" by blast
        ultimately show ?thesis by (simp only:)
      qed
    qed
  qed
qed

lemma findField_iff:
  assumes "name \<noteq> []"
  shows "findField msg name = Some tok \<longleftrightarrow> field_value msg name tok"
proof
  assume "findField msg name = Some tok"
  then obtain i close where i: "name_at msg name i" "\<And>j. j < i \<Longrightarrow> \<not> name_at msg name j"
    "sv_find_char msg (CHR '']'') (i + length name + 1) = Some close" "tok = sv_substr msg (i + length name + 1) (close - (i + length name) - 1)"
    unfolding findField_def findField_from_Some [OF assms] by auto
  note sp = sv_find_char_split [OF i(3)]
  have "tok = sv_substr msg (i + length name + 1) (close - (i + length name + 1))" using i(4) by simp
  then have "CHR '']'' \<notin> set tok" "drop (i + length name + 1) msg = tok @ '']'' @ drop (close + 1) msg" using sp by simp_all
  moreover have "field_at msg name (take i msg) (drop (i + length name + 1) msg)" by (rule name_at_field [OF i(1)])
  moreover have "length (take i msg) = i" using i(1) by (simp add: name_at_def)
  moreover have "i \<le> length before'" if "field_at msg name before' rest" for before' rest
    using field_at_name(1) [OF that] i(2) by (meson not_le)
  ultimately show "field_value msg name tok" unfolding field_value_def by (metis (no_types, lifting))
next
  assume "field_value msg name tok"
  then obtain before post where f: "field_at msg name before (tok @ '']'' @ post)" "CHR '']'' \<notin> set tok"
    "\<And>before' rest. field_at msg name before' rest \<Longrightarrow> length before \<le> length before'" by (auto simp: field_value_def)
  let ?i = "length before"
  note n = field_at_name [OF f(1)]
  have "drop (?i + length name + 1) msg = tok @ CHR '']'' # post" using n(2) by simp
  from sv_find_char_append [OF this f(2)] have c: "sv_find_char msg (CHR '']'') (?i + length name + 1) = Some (?i + length name + 1 + length tok)" .
  moreover have "\<not> name_at msg name j" if "j < ?i" for j
  proof
    assume "name_at msg name j"
    from f(3) [OF name_at_field [OF this]] that show False by simp
  qed
  moreover have "tok = sv_substr msg (?i + length name + 1) (length tok)" using n(2) by (simp add: sv_substr_def) (metis append_eq_conv_conj)
  ultimately show "findField msg name = Some tok"
    unfolding findField_def findField_from_Some [OF assms] using n(1) by (intro exI [of _ ?i]) auto
qed

subsection \<open>Numbers and the calendar\<close>

lemma int_token_iff: "int_token t \<longleftrightarrow> decimal64 t"
  by (simp add: int_token_def allDigits_def decimal64_def list_all_iff)

lemma arrow_iff: "isArrowPair t \<longleftrightarrow> arrow_value t"
proof
  assume "isArrowPair t"
  then obtain i where i: "sv_find t ''->'' 0 = Some i" "allDigits (take i t)" "allDigits (drop (i + 2) t)"
    by (auto simp: isArrowPair_def split: option.splits)
  from sv_find_SomeD(3) [OF i(1)] obtain r where "drop i t = ''->'' @ r" by (auto simp: prefix_def)
  then have "drop (i + 2) t = r" "t = take i t @ ''->'' @ r" by (metis add.commute drop_drop append_eq_conv_conj length_Cons list.size(3) numeral_2_eq_2)
      (metis \<open>drop i t = ''->'' @ r\<close> append_take_drop_id)
  then show "arrow_value t" using i(2,3) unfolding arrow_value_def allDigits_def list_all_iff by (metis Un_iff set_append)
next
  assume "arrow_value t"
  then obtain a b where t: "t = a @ ''->'' @ b" "a \<noteq> []" "b \<noteq> []" "\<forall>c \<in> set (a @ b). is_digit c" by (auto simp: arrow_value_def)
  have "sv_find t ''->'' 0 = Some (length a)"
  proof (rule sv_findI)
    fix j assume j: "j < length a"
    then have "drop j t = a ! j # drop (Suc j) t" using t(1) by (metis Cons_nth_drop_Suc length_append nth_append trans_less_add1)
    moreover have "a ! j \<noteq> CHR ''-''" using j t(4) by (metis Un_iff minus_not_digit nth_mem set_append)
    ultimately show "\<not> prefix ''->'' (drop j t)" by simp
  qed (simp_all add: t(1))
  then show "isArrowPair t" using t by (simp add: isArrowPair_def allDigits_def list_all_iff)
qed

lemma double_iff: "parseDoubleField t = Some x \<longleftrightarrow> double_value t x"
  by (auto simp: parseDoubleField_def double_value_def split: prod.splits dval.splits)

lemma leap_iff: "isLeapYear y \<longleftrightarrow> leap y"
proof -
  have "(400 :: int) dvd y \<Longrightarrow> 100 dvd y" "(100 :: int) dvd y \<Longrightarrow> 4 dvd y" using dvd_trans [of 100 400 y] dvd_trans [of 4 100 y] by simp_all
  then show ?thesis by (auto simp: isLeapYear_def leap_def mod_eq_0_iff_dvd)
qed

lemma month_length_iff: "1 \<le> m \<Longrightarrow> m \<le> 12 \<Longrightarrow> daysInMonth y m = month_length y m"
  by (erule (1) month_cases) (simp_all add: daysInMonth_def kDays_def month_length_def leap_iff)

lemma months_before:
  assumes "1 \<le> m" "m \<le> 12"
  shows "(\<Sum>k \<in> {1..<m}. month_length y k) =
    month_start (if m \<le> 2 then m + 9 else m - 3) + (if m \<le> 2 then - 306 else if leap y then 60 else 59)"
proof -
  have step: "1 \<le> k \<Longrightarrow> (\<Sum>i \<in> {1..<k + 1}. f i) = (\<Sum>i \<in> {1..<k}. f i) + f k" for k :: int and f :: "int \<Rightarrow> int"
  proof -
    assume "1 \<le> k"
    then have "{1..<k + 1} = insert k {1..<k}" by auto
    then show ?thesis by simp
  qed
  note steps = step [of 1] step [of 2] step [of 3] step [of 4] step [of 5] step [of 6] step [of 7] step [of 8] step [of 9] step [of 10] step [of 11]
  show ?thesis using assms by (elim month_cases) (simp_all add: steps [simplified] month_start_def month_length_def)
qed

lemma day_number_march: "day_number y m d = march_days (y - 1) - 719162 + (\<Sum>k \<in> {1..<m}. month_length y k) + d - 1"
  by (simp add: day_number_def march_days_def)

lemma day_number_iff:
  assumes "0 \<le> y" "1 \<le> m" "m \<le> 12"
  shows "daysFromCivil y m d = day_number y m d"
proof -
  have "march_days y = march_days (y - 1) + (if leap y then 366 else 365)" using march_days_Suc [of "y - 1"] by (simp add: leap_iff)
  then show ?thesis
    unfolding daysFromCivil_march [OF assms(1)] day_number_march months_before [OF assms(2,3)] by (cases "m \<le> 2"; cases "leap y") simp_all
qed

subsection \<open>Timestamps\<close>

lemma slice_nth: "p + n \<le> length s \<Longrightarrow> map ((!) s) [p..<p + n] = take n (drop p s)"
  by (rule nth_equalityI) auto

lemma digits_slice:
  assumes "p + n \<le> length s"
  shows "allDigitsAt s p n \<and> digitsToInt s p n = v \<longleftrightarrow> digits_of n (take n (drop p s)) v"
proof -
  have "foldl (\<lambda>v c. v * 10 + int (digit_val c)) (int w) cs = int (foldl (\<lambda>v c. v * 10 + digit_val c) w cs)" for w cs
  proof (induction cs arbitrary: w)
    case (Cons c cs)
    from Cons [of "w * 10 + digit_val c"] show ?case by simp
  qed simp
  from this [of 0 "map ((!) s) [p..<p + n]"] have "digitsToInt s p n = int (digits_val (map ((!) s) [p..<p + n]))"
    by (simp add: digitsToInt_def digits_val_def foldl_map)
  moreover have "allDigitsAt s p n \<longleftrightarrow> (\<forall>c \<in> set (map ((!) s) [p..<p + n]). is_digit c)" by (simp add: allDigitsAt_def list_all_iff)
  ultimately show ?thesis unfolding slice_nth [OF assms] using assms by (auto simp: digits_of_def)
qed

lemma split_slice: "p + n < length s \<Longrightarrow> drop p s = take n (drop p s) @ [s ! (p + n)] @ drop (p + n + 1) s"
  using Cons_nth_drop_Suc [of "p + n" s] append_take_drop_id [of n "drop p s"] by (simp add: add.commute)

lemma timestamp_slices:
  "(\<exists>sy smo sd sh smi ss frac. length sy = 4 \<and> length smo = 2 \<and> length sd = 2 \<and> length sh = 2 \<and> length smi = 2 \<and> length ss = 2 \<and>
      length frac = 6 \<and> ts = sy @ ''-'' @ smo @ ''-'' @ sd @ ''_'' @ sh @ '':'' @ smi @ '':'' @ ss @ ''.'' @ frac \<and> P sy smo sd sh smi ss frac) \<longleftrightarrow>
    length ts = 26 \<and> ts ! 4 = CHR ''-'' \<and> ts ! 7 = CHR ''-'' \<and> ts ! 10 = CHR ''_'' \<and> ts ! 13 = CHR '':'' \<and> ts ! 16 = CHR '':'' \<and>
    ts ! 19 = CHR ''.'' \<and> P (take 4 (drop 0 ts)) (take 2 (drop 5 ts)) (take 2 (drop 8 ts)) (take 2 (drop 11 ts)) (take 2 (drop 14 ts))
      (take 2 (drop 17 ts)) (take 6 (drop 20 ts))" (is "?L \<longleftrightarrow> ?R")
proof
  assume ?R
  then have l: "length ts = 26" by simp
  have "ts = take 4 (drop 0 ts) @ [ts ! 4] @ take 2 (drop 5 ts) @ [ts ! 7] @ take 2 (drop 8 ts) @ [ts ! 10] @ take 2 (drop 11 ts) @ [ts ! 13] @
      take 2 (drop 14 ts) @ [ts ! 16] @ take 2 (drop 17 ts) @ [ts ! 19] @ take 6 (drop 20 ts)"
    using split_slice [of 0 4 ts] split_slice [of 5 2 ts] split_slice [of 8 2 ts] split_slice [of 11 2 ts] split_slice [of 14 2 ts]
      split_slice [of 17 2 ts] l by simp
  moreover have "ts ! 4 = CHR ''-''" "ts ! 7 = CHR ''-''" "ts ! 10 = CHR ''_''" "ts ! 13 = CHR '':''" "ts ! 16 = CHR '':''" "ts ! 19 = CHR ''.''"
    using \<open>?R\<close> by auto
  moreover have "length (take 4 (drop 0 ts)) = 4" "length (take 2 (drop 5 ts)) = 2" "length (take 2 (drop 8 ts)) = 2" "length (take 2 (drop 11 ts)) = 2"
    "length (take 2 (drop 14 ts)) = 2" "length (take 2 (drop 17 ts)) = 2" "length (take 6 (drop 20 ts)) = 6" using l by simp_all
  moreover have "P (take 4 (drop 0 ts)) (take 2 (drop 5 ts)) (take 2 (drop 8 ts)) (take 2 (drop 11 ts)) (take 2 (drop 14 ts))
      (take 2 (drop 17 ts)) (take 6 (drop 20 ts))" using \<open>?R\<close> by blast
  ultimately show ?L by (simp only:) blast
qed (auto simp: nth_append)

lemma timestamp_iff: "parseTimestamp ts = Some (y, mo, d, h, t) \<longleftrightarrow> timestamp_of ts y mo d h t"
proof -
  define P where "P sy smo sd sh smi ss frac \<longleftrightarrow> (\<exists>mi s mu. digits_of 4 sy y \<and> digits_of 2 smo mo \<and> digits_of 2 sd d \<and> digits_of 2 sh h \<and>
      digits_of 2 smi mi \<and> digits_of 2 ss s \<and> digits_of 6 frac mu \<and> 1 \<le> mo \<and> mo \<le> 12 \<and> 1 \<le> d \<and> d \<le> month_length y mo \<and> h \<le> 23 \<and> mi \<le> 59 \<and> s \<le> 59 \<and>
      t = day_number y mo d * 86400 + h * 3600 + mi * 60 + s)" for sy smo sd sh smi ss frac
  have P_len: "P sy smo sd sh smi ss frac \<Longrightarrow> length sy = 4 \<and> length smo = 2 \<and> length sd = 2 \<and> length sh = 2 \<and> length smi = 2 \<and> length ss = 2 \<and>
      length frac = 6" for sy smo sd sh smi ss frac by (auto simp: P_def digits_of_def)
  have "timestamp_of ts y mo d h t \<longleftrightarrow> (\<exists>sy smo sd sh smi ss frac.
      ts = sy @ ''-'' @ smo @ ''-'' @ sd @ ''_'' @ sh @ '':'' @ smi @ '':'' @ ss @ ''.'' @ frac \<and> P sy smo sd sh smi ss frac)"
    unfolding timestamp_of_def P_def by blast
  also have "\<dots> \<longleftrightarrow> (\<exists>sy smo sd sh smi ss frac. length sy = 4 \<and> length smo = 2 \<and> length sd = 2 \<and> length sh = 2 \<and> length smi = 2 \<and> length ss = 2 \<and>
      length frac = 6 \<and> ts = sy @ ''-'' @ smo @ ''-'' @ sd @ ''_'' @ sh @ '':'' @ smi @ '':'' @ ss @ ''.'' @ frac \<and> P sy smo sd sh smi ss frac)"
    using P_len by blast
  also note timestamp_slices [of ts P]
  finally have S: "timestamp_of ts y mo d h t \<longleftrightarrow> length ts = 26 \<and> ts ! 4 = CHR ''-'' \<and> ts ! 7 = CHR ''-'' \<and> ts ! 10 = CHR ''_'' \<and> ts ! 13 = CHR '':'' \<and>
    ts ! 16 = CHR '':'' \<and> ts ! 19 = CHR ''.'' \<and> P (take 4 (drop 0 ts)) (take 2 (drop 5 ts)) (take 2 (drop 8 ts)) (take 2 (drop 11 ts))
      (take 2 (drop 14 ts)) (take 2 (drop 17 ts)) (take 6 (drop 20 ts))" .
  show ?thesis
  proof (cases "length ts = 26")
    case True
    have at: "digits_of n (take n (drop p ts)) v \<longleftrightarrow> allDigitsAt ts p n \<and> v = digitsToInt ts p n" if "p + n \<le> 26" for p n v
      using digits_slice [of p n ts v] True that by auto
    have "0 + 4 \<le> (26 :: nat)" "5 + 2 \<le> (26 :: nat)" "8 + 2 \<le> (26 :: nat)" "11 + 2 \<le> (26 :: nat)" "14 + 2 \<le> (26 :: nat)" "17 + 2 \<le> (26 :: nat)"
      "20 + 6 \<le> (26 :: nat)" by simp_all
    note digits_at = this [THEN at]
    have "P (take 4 (drop 0 ts)) (take 2 (drop 5 ts)) (take 2 (drop 8 ts)) (take 2 (drop 11 ts)) (take 2 (drop 14 ts)) (take 2 (drop 17 ts))
        (take 6 (drop 20 ts)) \<longleftrightarrow>
      allDigitsAt ts 0 4 \<and> allDigitsAt ts 5 2 \<and> allDigitsAt ts 8 2 \<and> allDigitsAt ts 11 2 \<and> allDigitsAt ts 14 2 \<and> allDigitsAt ts 17 2 \<and>
      allDigitsAt ts 20 6 \<and> y = digitsToInt ts 0 4 \<and> mo = digitsToInt ts 5 2 \<and> d = digitsToInt ts 8 2 \<and> h = digitsToInt ts 11 2 \<and>
      1 \<le> mo \<and> mo \<le> 12 \<and> 1 \<le> d \<and> d \<le> month_length y mo \<and> h \<le> 23 \<and> digitsToInt ts 14 2 \<le> 59 \<and> digitsToInt ts 17 2 \<le> 59 \<and>
      t = day_number y mo d * 86400 + h * 3600 + digitsToInt ts 14 2 * 60 + digitsToInt ts 17 2" (is "_ \<longleftrightarrow> ?D")
      unfolding P_def digits_at by blast
    moreover have "parseTimestamp ts = Some (y, mo, d, h, t) \<longleftrightarrow> ts ! 4 = CHR ''-'' \<and> ts ! 7 = CHR ''-'' \<and> ts ! 10 = CHR ''_'' \<and> ts ! 13 = CHR '':'' \<and>
      ts ! 16 = CHR '':'' \<and> ts ! 19 = CHR ''.'' \<and> ?D"
      using True day_number_iff [of y mo d] month_length_iff [of mo y] digitsToInt_nonneg [of ts 0 4]
      by (auto simp: parseTimestamp_def timestamp_format_def Let_def)
    ultimately show ?thesis using S True by simp
  next
    case False
    then show ?thesis using S by (simp add: parseTimestamp_def timestamp_format_def)
  qed
qed

subsection \<open>The line\<close>

lemma timestamp_token:
  assumes "timestamp_of ts y mo d h t"
  shows "token_ok ts"
proof -
  obtain sy smo sd sh smi ss frac mi s mu where ts: "ts = sy @ ''-'' @ smo @ ''-'' @ sd @ ''_'' @ sh @ '':'' @ smi @ '':'' @ ss @ ''.'' @ frac"
    and "digits_of 4 sy y" "digits_of 2 smo mo" "digits_of 2 sd d" "digits_of 2 sh h" "digits_of 2 smi mi" "digits_of 2 ss s" "digits_of 6 frac mu"
    using assms unfolding timestamp_of_def by blast
  moreover have "digits_of n x v \<Longrightarrow> CHR '']'' \<notin> set x" for n x v by (auto simp: digits_of_def is_digit_def byte_nat_def)
  ultimately have "CHR '']'' \<notin> set sy" "CHR '']'' \<notin> set smo" "CHR '']'' \<notin> set sd" "CHR '']'' \<notin> set sh" "CHR '']'' \<notin> set smi"
    "CHR '']'' \<notin> set ss" "CHR '']'' \<notin> set frac" by blast+
  then show ?thesis unfolding ts by (simp add: token_ok_def)
qed

lemma decimal_token: "decimal64 t \<Longrightarrow> token_ok t"
  by (auto simp: decimal64_def token_ok_def is_digit_def byte_nat_def)

lemma case_field: "f \<noteq> [] \<Longrightarrow> (case findField msg f of None \<Rightarrow> True | Some t \<Rightarrow> P t) \<longleftrightarrow> (\<forall>tok. field_value msg f tok \<longrightarrow> P tok)"
  by (simp add: findField_iff [symmetric] split: option.split)

lemma schema_iff:
  assumes "schema i = (modname, ints, arrows)"
  shows "modname = moduleName i"
    and "(\<forall>f \<in> ints. \<forall>tok. field_value msg f tok \<longrightarrow> decimal64 tok) \<longleftrightarrow> list_all (int_field_ok msg) (ms_intFields (kModules i))"
    and "(\<forall>f \<in> arrows. \<forall>tok. field_value msg f tok \<longrightarrow> arrow_value tok) \<longleftrightarrow> arrow_field_ok msg (ms_arrowField (kModules i))"
  using assms by (cases i; force simp: moduleName_def int_field_ok_def arrow_field_ok_def case_field int_token_iff arrow_iff)+

lemma speed_iff: "checkSpeed msg = Inr (hasSpd, inRange, spd) \<longleftrightarrow> speed_of msg hasSpd inRange spd"
proof -
  have f: "findField msg ''spd'' = Some tok \<longleftrightarrow> field_value msg ''spd'' tok" "findField msg ''advDelta'' = Some tok \<longleftrightarrow> field_value msg ''advDelta'' tok" for tok
    by (simp_all add: findField_iff)
  show ?thesis
    unfolding speed_of_def checkSpeed_def f [symmetric] double_iff [symmetric]
    by (cases "findField msg ''spd''"; cases "findField msg ''advDelta''")
      (auto simp: Let_def kSpdMin_def kSpdMax_def split: option.splits)
qed

lemma accepts_iff: "accepts p text line t \<longleftrightarrow> well_formed p text line t"
proof -
  have ctrl: "\<not> list_ex is_ctrl text \<longleftrightarrow> (\<forall>c \<in> set text. 32 \<le> byte_nat c \<and> byte_nat c \<noteq> 127)" by (auto simp: list_ex_iff is_ctrl_def)
  have range: "ts_in_range p t \<longleftrightarrow> (lp_hasAnchor p \<longrightarrow> \<bar>t - lp_anchorSeconds p\<bar> \<le> 48 * 3600)" by (auto simp: ts_in_range_def kTsRangeHours_def Let_def)
  have frame: "frame_text [ts, pid, tid, sess] n msg = ''['' @ ts @ ''][''  @ pid @ ''][''  @ tid @ ''][''  @ sess @ ''] BYDA::'' @ n @ '': '' @ msg"
    for ts pid tid sess n msg by (simp add: frame_text_def kSeparator_def)
  obtain modname ints arrows where sch: "schema (pl_module line) = (modname, ints, arrows)" by (metis prod_cases3)
  have "well_formed p text line t \<longleftrightarrow> \<not> list_ex is_ctrl text \<and> ts_in_range p t \<and>
    (\<exists>ts pid tid sess msg. text = frame_text [ts, pid, tid, sess] modname msg \<and>
      timestamp_of ts (pl_year line) (pl_month line) (pl_day line) (pl_hour line) t \<and>
      decimal64 pid \<and> decimal64 tid \<and> decimal64 sess \<and> well_bracketed msg \<and>
      (\<forall>f \<in> ints. \<forall>tok. field_value msg f tok \<longrightarrow> decimal64 tok) \<and>
      (\<forall>f \<in> arrows. \<forall>tok. field_value msg f tok \<longrightarrow> arrow_value tok) \<and>
      (if pl_module line = BeamSteerCtrlUnitImpl then speed_of msg (pl_hasSpd line) (pl_spdInRange line) (pl_spd line)
       else \<not> pl_hasSpd line \<and> \<not> pl_spdInRange line \<and> pl_spd line = 0))"
    unfolding well_formed_def ctrl range frame sch prod.inject by blast
  then show ?thesis
    unfolding accepts_def schema_iff [OF sch] timestamp_iff bracketsSane_iff speed_iff list_all_iff list.set ball_simps int_token_iff
    using timestamp_token decimal_token by (simp only:) blast
qed

section \<open>Properties\<close>

text \<open>
  C27. Default deny: a line is accepted exactly when it is not over-long, has no control character, and
  reads \<^verbatim>\<open>[timestamp][pid][tid][session] BYDA::Module: message\<close> with a calendar-valid timestamp within the
  session's window, digit-only header numbers that fit 64 bits, a whitelisted module, brackets that pair up, do not nest
  and are not empty, and known fields (the first of each name that stands at a boundary) whose values are numbers,
  a transition or a speed as their module asks; the record returned carries just these values.
\<close>

theorem parser_whitelist:
  "(\<exists>p'. parse p text tooLong = (p', Inr line)) \<longleftrightarrow> \<not> tooLong \<and> (\<exists>t. well_formed p text line t)"
  unfolding parse_Inr accepts_iff by auto

end
