(* ===== verification/FlowControl.thy ===== *)
theory FlowControl
  imports Prelude
begin

text \<open>
  The stop-and-resume protocol between the event loop and the parser thread, at the level of the single loads and stores of
  \<^verbatim>\<open>_head\<close>, \<^verbatim>\<open>_tail\<close> and \<^verbatim>\<open>_readStopped\<close>: \<^verbatim>\<open>Session::applyBackpressure\<close>, \<^verbatim>\<open>Session::resumeReading\<close>,
  \<^verbatim>\<open>ParserThread::consumeReadySlots\<close>, \<^verbatim>\<open>ParserThread::setReadStopped\<close> and the ring's index operations.
  The code stores with release and loads with acquire order, and that allows a load to overtake an earlier store of the same
  thread to another variable.  So each thread has a buffer of its own stores, which reach the shared memory one by one,
  in their order, at any later time; a load sees the thread's own buffered stores first.
  The session modelled is receiving its payload, \<^verbatim>\<open>uv_read_start\<close> succeeds, and the two indices are counts
  (\<^verbatim>\<open>RingBuffer\<close> treats their wrap-around).
\<close>

section \<open>Memory\<close>

record Shared =
  sh_head :: nat
  sh_tail :: nat
  sh_readStopped :: bool

datatype Store = StHead nat | StTail nat | StReadStopped bool

fun apply_store :: "Store \<Rightarrow> Shared \<Rightarrow> Shared" where
  "apply_store (StHead i) m = m\<lparr>sh_head := i\<rparr>"
| "apply_store (StTail i) m = m\<lparr>sh_tail := i\<rparr>"
| "apply_store (StReadStopped b) m = m\<lparr>sh_readStopped := b\<rparr>"

text \<open>Where the two threads are: the loop in a read callback, between its steps, or in \<^verbatim>\<open>resumeReading\<close>; the parser in its loop over the slots.\<close>

datatype LoopPc = LpIdle | LpBackpressure | LpStop | LpRecheck | LpResume
datatype DrainPc = PsPeek | PsConsume | PsNotify | PsSend

text \<open>
  \<open>fw_payload\<close>: the session is receiving and not all of the payload has arrived.  \<open>fw_overtook\<close> is no variable of the program:
  it records that one of the two loads that follow a store, the one of \<^verbatim>\<open>_head\<close> after \<^verbatim>\<open>setReadStopped(true)\<close> or the one
  of \<^verbatim>\<open>_readStopped\<close> after \<^verbatim>\<open>release()\<close>, was made before that store was visible.
\<close>

record Flow =
  fw_shared :: Shared
  fw_loopBuf :: "Store list"
  fw_parserBuf :: "Store list"
  fw_loop :: LoopPc
  fw_parser :: DrainPc
  fw_reading :: bool
  fw_payload :: bool
  fw_resumeAsync :: bool
  fw_overtook :: bool

definition loop_view :: "Flow \<Rightarrow> Shared" where
  "loop_view s = fold apply_store (fw_loopBuf s) (fw_shared s)"

definition parser_view :: "Flow \<Rightarrow> Shared" where
  "parser_view s = fold apply_store (fw_parserBuf s) (fw_shared s)"

definition flow_full :: "nat \<Rightarrow> Shared \<Rightarrow> bool" where
  "flow_full n m \<longleftrightarrow> sh_tail m - sh_head m = n"

section \<open>The steps of the loop\<close>

text \<open>A read hands its bytes to the parser; \<open>left\<close>: payload is still to come.\<close>

definition flow_commit :: "bool \<Rightarrow> Flow \<Rightarrow> Flow" where
  "flow_commit left s = s\<lparr>fw_loopBuf := fw_loopBuf s @ [StTail (sh_tail (loop_view s) + 1)], fw_loop := LpBackpressure, fw_payload := left\<rparr>"

definition flow_check :: "nat \<Rightarrow> Flow \<Rightarrow> Flow" where
  "flow_check n s = s\<lparr>fw_loop := if flow_full n (loop_view s) \<and> fw_reading s then LpStop else LpIdle\<rparr>"

definition flow_stop :: "Flow \<Rightarrow> Flow" where
  "flow_stop s = s\<lparr>fw_reading := False, fw_loopBuf := fw_loopBuf s @ [StReadStopped True], fw_loop := LpRecheck\<rparr>"

definition flow_recheck :: "nat \<Rightarrow> Flow \<Rightarrow> Flow" where
  "flow_recheck n s =
    s\<lparr>fw_overtook := fw_overtook s \<or> fw_loopBuf s \<noteq> [], fw_loop := if \<not> flow_full n (loop_view s) then LpResume else LpIdle\<rparr>"

definition flow_resume :: "nat \<Rightarrow> Flow \<Rightarrow> Flow" where
  "flow_resume n s =
    (if fw_reading s then s\<lparr>fw_loop := LpIdle\<rparr>
     else if fw_payload s \<and> flow_full n (loop_view s) then s\<lparr>fw_loop := LpIdle\<rparr>
     else s\<lparr>fw_loopBuf := fw_loopBuf s @ [StReadStopped False], fw_reading := True, fw_loop := LpIdle\<rparr>)"

definition flow_onResumeAsync :: "Flow \<Rightarrow> Flow" where
  "flow_onResumeAsync s = s\<lparr>fw_resumeAsync := False, fw_loop := LpResume\<rparr>"

section \<open>The steps of the parser\<close>

definition flow_peek :: "Flow \<Rightarrow> Flow" where
  "flow_peek s = (if sh_tail (parser_view s) = sh_head (parser_view s) then s else s\<lparr>fw_parser := PsConsume\<rparr>)"

definition flow_release :: "Flow \<Rightarrow> Flow" where
  "flow_release s = s\<lparr>fw_parserBuf := fw_parserBuf s @ [StHead (sh_head (parser_view s) + 1)], fw_parser := PsNotify\<rparr>"

definition flow_notify :: "Flow \<Rightarrow> Flow" where
  "flow_notify s =
    s\<lparr>fw_overtook := fw_overtook s \<or> fw_parserBuf s \<noteq> [], fw_parser := if sh_readStopped (parser_view s) then PsSend else PsPeek\<rparr>"

definition flow_send :: "Flow \<Rightarrow> Flow" where
  "flow_send s = s\<lparr>fw_resumeAsync := True, fw_parser := PsPeek\<rparr>"

section \<open>Runs\<close>

definition flow_start :: "nat \<Rightarrow> bool \<Rightarrow> Flow" where
  "flow_start k signalled = \<lparr>fw_shared = \<lparr>sh_head = k, sh_tail = k, sh_readStopped = False\<rparr>, fw_loopBuf = [], fw_parserBuf = [],
    fw_loop = LpIdle, fw_parser = PsPeek, fw_reading = True, fw_payload = True, fw_resumeAsync = signalled, fw_overtook = False\<rparr>"

text \<open>
  One step of either thread, or one store that becomes visible.  \<open>Transition\<close> is the call of \<^verbatim>\<open>resumeReading\<close> when the session
  leaves \<^verbatim>\<open>RECEIVING\<close>.
\<close>

inductive flow_step :: "nat \<Rightarrow> Flow \<Rightarrow> Flow \<Rightarrow> bool" for n where
  Commit: "fw_loop s = LpIdle \<and> fw_reading s \<or> fw_loop s = LpBackpressure \<Longrightarrow> fw_payload s \<Longrightarrow> \<not> flow_full n (loop_view s) \<Longrightarrow> flow_step n s (flow_commit left s)"
| Check: "fw_loop s = LpBackpressure \<Longrightarrow> flow_step n s (flow_check n s)"
| Stop: "fw_loop s = LpStop \<Longrightarrow> flow_step n s (flow_stop s)"
| Recheck: "fw_loop s = LpRecheck \<Longrightarrow> flow_step n s (flow_recheck n s)"
| Resume: "fw_loop s = LpResume \<Longrightarrow> flow_step n s (flow_resume n s)"
| Async: "fw_loop s = LpIdle \<Longrightarrow> fw_resumeAsync s \<Longrightarrow> flow_step n s (flow_onResumeAsync s)"
| Transition: "fw_loop s = LpIdle \<Longrightarrow> \<not> fw_payload s \<Longrightarrow> flow_step n s (s\<lparr>fw_loop := LpResume\<rparr>)"
| Peek: "fw_parser s = PsPeek \<Longrightarrow> flow_peek s \<noteq> s \<Longrightarrow> flow_step n s (flow_peek s)"
| Release: "fw_parser s = PsConsume \<Longrightarrow> flow_step n s (flow_release s)"
| Notify: "fw_parser s = PsNotify \<Longrightarrow> flow_step n s (flow_notify s)"
| Send: "fw_parser s = PsSend \<Longrightarrow> flow_step n s (flow_send s)"
| LoopStore: "fw_loopBuf s = st # b \<Longrightarrow> flow_step n s (s\<lparr>fw_shared := apply_store st (fw_shared s), fw_loopBuf := b\<rparr>)"
| ParserStore: "fw_parserBuf s = st # b \<Longrightarrow> flow_step n s (s\<lparr>fw_shared := apply_store st (fw_shared s), fw_parserBuf := b\<rparr>)"

inductive flow_reach :: "nat \<Rightarrow> Flow \<Rightarrow> bool" for n where
  Start: "flow_reach n (flow_start k signalled)"
| Step: "flow_reach n s \<Longrightarrow> flow_step n s s' \<Longrightarrow> flow_reach n s'"

text \<open>Nothing is under way: both threads wait, no signal is pending, every store is visible.\<close>

definition at_rest :: "Flow \<Rightarrow> bool" where
  "at_rest s \<longleftrightarrow> fw_loop s = LpIdle \<and> \<not> fw_resumeAsync s \<and> fw_parser s = PsPeek \<and> flow_peek s = s \<and> fw_loopBuf s = [] \<and> fw_parserBuf s = []"

section \<open>Counts\<close>

fun heads :: "Store list \<Rightarrow> nat list" where
  "heads [] = []"
| "heads (StHead i # b) = i # heads b"
| "heads (StTail i # b) = heads b"
| "heads (StReadStopped x # b) = heads b"

fun tails :: "Store list \<Rightarrow> nat list" where
  "tails [] = []"
| "tails (StHead i # b) = tails b"
| "tails (StTail i # b) = i # tails b"
| "tails (StReadStopped x # b) = tails b"

lemma heads_append [simp]: "heads (a @ b) = heads a @ heads b"
  by (induction a rule: heads.induct) simp_all

lemma tails_append [simp]: "tails (a @ b) = tails a @ tails b"
  by (induction a rule: tails.induct) simp_all

lemma view_head: "sh_head (fold apply_store b m) = last (sh_head m # heads b)"
  by (induction b arbitrary: m rule: heads.induct) simp_all

lemma view_tail: "sh_tail (fold apply_store b m) = last (sh_tail m # tails b)"
  by (induction b arbitrary: m rule: tails.induct) simp_all

lemma view_append: "fold apply_store (b @ [st]) m = apply_store st (fold apply_store b m)"
  by simp

text \<open>Only the parser stores \<^verbatim>\<open>_head\<close>, and nothing else; both indices only grow, and the ring holds at most \<open>n\<close> slots.\<close>

definition indices_ok :: "nat \<Rightarrow> Flow \<Rightarrow> bool" where
  "indices_ok n s \<longleftrightarrow>
    heads (fw_loopBuf s) = [] \<and> (\<forall>st \<in> set (fw_parserBuf s). \<exists>i. st = StHead i) \<and>
    sorted (sh_head (fw_shared s) # heads (fw_parserBuf s)) \<and> sorted (sh_tail (fw_shared s) # tails (fw_loopBuf s)) \<and>
    sh_head (parser_view s) \<le> sh_tail (fw_shared s) \<and> (fw_parser s = PsConsume \<longrightarrow> sh_head (parser_view s) < sh_tail (fw_shared s)) \<and>
    sh_tail (loop_view s) \<le> sh_head (fw_shared s) + n"

text \<open>
  What flow control keeps: while payload is outstanding and the loop reads, a slot is free; while it does not read and no load
  overtook a store, the parser is told, and either the ring is full or the parser has a signal to send.
\<close>

definition slot_kept :: "nat \<Rightarrow> Flow \<Rightarrow> bool" where
  "slot_kept n s \<longleftrightarrow>
    (fw_loop s \<in> {LpBackpressure, LpStop} \<longrightarrow> fw_reading s) \<and> (fw_loop s = LpRecheck \<longrightarrow> \<not> fw_reading s) \<and>
    (fw_loop s \<in> {LpIdle, LpResume} \<and> fw_reading s \<and> fw_payload s \<longrightarrow> \<not> flow_full n (loop_view s))"

definition wake_kept :: "nat \<Rightarrow> Flow \<Rightarrow> bool" where
  "wake_kept n s \<longleftrightarrow>
    (fw_parser s \<noteq> PsNotify \<longrightarrow> fw_parserBuf s = []) \<and>
    (fw_loop s = LpRecheck \<longrightarrow> sh_readStopped (loop_view s)) \<and>
    (\<not> fw_reading s \<and> fw_loop s \<in> {LpIdle, LpResume} \<longrightarrow> fw_loopBuf s = [] \<and> sh_readStopped (fw_shared s)) \<and>
    (\<not> fw_reading s \<and> fw_loop s = LpIdle \<and> \<not> fw_resumeAsync s \<longrightarrow> flow_full n (loop_view s) \<or> fw_parser s \<in> {PsNotify, PsSend})"

lemma view_loop_head: "indices_ok n s \<Longrightarrow> sh_head (loop_view s) = sh_head (fw_shared s)"
  by (simp add: indices_ok_def loop_view_def view_head)

lemma tails_parser: "\<forall>st \<in> set b. \<exists>i. st = StHead i \<Longrightarrow> tails b = []"
  by (induction b) auto

lemma stopped_parser: "\<forall>st \<in> set b. \<exists>i. st = StHead i \<Longrightarrow> sh_readStopped (fold apply_store b m) = sh_readStopped m"
  by (induction b arbitrary: m) auto

lemma view_parser: "indices_ok n s \<Longrightarrow> sh_tail (parser_view s) = sh_tail (fw_shared s) \<and> sh_readStopped (parser_view s) = sh_readStopped (fw_shared s)"
  by (simp add: indices_ok_def parser_view_def view_tail tails_parser stopped_parser)

lemma sorted_last: "sorted (x # xs) \<Longrightarrow> x \<le> last (x # xs)"
  by auto

lemma counts_less:
  assumes "indices_ok n s"
  shows "sh_head (fw_shared s) \<le> sh_head (parser_view s)" "sh_tail (fw_shared s) \<le> sh_tail (loop_view s)"
    "sh_tail (loop_view s) \<le> sh_head (fw_shared s) + n" "sh_head (fw_shared s) \<le> sh_tail (loop_view s)"
proof -
  show h: "sh_head (fw_shared s) \<le> sh_head (parser_view s)" and t: "sh_tail (fw_shared s) \<le> sh_tail (loop_view s)"
    and "sh_tail (loop_view s) \<le> sh_head (fw_shared s) + n"
    using assms sorted_last unfolding indices_ok_def parser_view_def loop_view_def view_head view_tail by blast+
  show "sh_head (fw_shared s) \<le> sh_tail (loop_view s)" using h t assms by (simp add: indices_ok_def)
qed

lemma full_iff: "indices_ok n s \<Longrightarrow> flow_full n (loop_view s) \<longleftrightarrow> sh_tail (loop_view s) = sh_head (fw_shared s) + n"
  using counts_less [of n s] view_loop_head [of n s] by (auto simp: flow_full_def)

lemma sorted_snoc: "sorted (x # xs) \<Longrightarrow> last (x # xs) \<le> (y :: nat) \<Longrightarrow> sorted (x # xs @ [y])"
proof (induction xs arbitrary: x)
  case (Cons a xs)
  have "sorted (a # xs @ [y])" using Cons.prems by (intro Cons.IH) simp_all
  moreover have "x \<le> a" using Cons.prems by simp
  ultimately show ?case by force
qed simp

lemma counts_step: "flow_step n s s' \<Longrightarrow> indices_ok n s \<Longrightarrow> indices_ok n s'"
proof (induction rule: flow_step.cases)
  case (Commit s left)
  let ?t = "sh_tail (loop_view s)"
  have "?t + 1 \<le> sh_head (fw_shared s) + n" using Commit full_iff [of n s] counts_less [of n s] by auto
  moreover have "sorted (sh_tail (fw_shared s) # tails (fw_loopBuf s) @ [?t + 1])"
    using Commit by (intro sorted_snoc) (auto simp: indices_ok_def loop_view_def view_tail)
  ultimately show ?case using Commit by (auto simp: indices_ok_def flow_commit_def parser_view_def loop_view_def)
next
  case (Release s)
  let ?h = "sh_head (parser_view s)"
  have "sorted (sh_head (fw_shared s) # heads (fw_parserBuf s) @ [?h + 1])"
    using Release by (intro sorted_snoc) (auto simp: indices_ok_def parser_view_def view_head)
  then show ?case using Release by (auto simp: indices_ok_def flow_release_def parser_view_def loop_view_def)
next
  case (Peek s)
  then show ?case using view_parser [of n s] by (auto simp: indices_ok_def flow_peek_def parser_view_def loop_view_def view_head)
next
  case (LoopStore s st b)
  then show ?case by (cases st) (auto simp: indices_ok_def parser_view_def loop_view_def view_head)
next
  case (ParserStore s st b)
  then show ?case by (cases st) (auto simp: indices_ok_def parser_view_def loop_view_def view_head view_tail)
qed (auto simp: indices_ok_def parser_view_def loop_view_def flow_check_def flow_stop_def flow_recheck_def flow_resume_def flow_onResumeAsync_def
    flow_notify_def flow_send_def)

lemma full_after_store: "fw_loopBuf s = st # b \<Longrightarrow> loop_view (s\<lparr>fw_shared := apply_store st (fw_shared s), fw_loopBuf := b\<rparr>) = loop_view s"
  by (simp add: loop_view_def)

lemma view_after_parser:
  assumes "indices_ok n s" "fw_parserBuf s = st # b"
  defines "s' \<equiv> s\<lparr>fw_shared := apply_store st (fw_shared s), fw_parserBuf := b\<rparr>"
  shows "sh_readStopped (fw_shared s') = sh_readStopped (fw_shared s)" "\<not> flow_full n (loop_view s) \<Longrightarrow> \<not> flow_full n (loop_view s')"
proof -
  obtain i where i: "st = StHead i" "sh_head (fw_shared s) \<le> i" using assms(1,2) by (auto simp: indices_ok_def)
  then show "sh_readStopped (fw_shared s') = sh_readStopped (fw_shared s)" by (simp add: s'_def)
  have "sh_tail (loop_view s') = sh_tail (loop_view s)" "sh_head (fw_shared s') = i" using i(1) by (simp_all add: s'_def loop_view_def view_tail)
  moreover have "flow_step n s s'" unfolding s'_def by (rule ParserStore) (fact assms(2))
  then have "indices_ok n s'" using assms(1) by (rule counts_step)
  ultimately show "\<not> flow_full n (loop_view s) \<Longrightarrow> \<not> flow_full n (loop_view s')"
    unfolding full_iff [OF assms(1)] full_iff [OF \<open>indices_ok n s'\<close>] using i(2) counts_less(3) [OF assms(1)] by linarith
qed

lemma view_flag: "sh_readStopped m = sh_readStopped m' \<Longrightarrow> sh_readStopped (fold apply_store b m) = sh_readStopped (fold apply_store b m')"
proof (induction b arbitrary: m m')
  case (Cons st b)
  have "sh_readStopped (apply_store st m) = sh_readStopped (apply_store st m')" using Cons.prems by (cases st) simp_all
  from Cons.IH [OF this] show ?case by simp
qed simp

lemmas flow_ops = flow_commit_def flow_check_def flow_stop_def flow_recheck_def flow_resume_def flow_onResumeAsync_def flow_peek_def
  flow_release_def flow_notify_def flow_send_def

lemma loop_view_simps [simp]:
  "loop_view (s\<lparr>fw_loop := l\<rparr>) = loop_view s" "loop_view (s\<lparr>fw_parser := q\<rparr>) = loop_view s" "loop_view (s\<lparr>fw_overtook := o'\<rparr>) = loop_view s"
  "loop_view (s\<lparr>fw_resumeAsync := a\<rparr>) = loop_view s" "loop_view (s\<lparr>fw_parserBuf := b\<rparr>) = loop_view s" "loop_view (s\<lparr>fw_reading := r\<rparr>) = loop_view s"
  "loop_view (s\<lparr>fw_payload := y\<rparr>) = loop_view s"
  "loop_view (s\<lparr>fw_loopBuf := fw_loopBuf s @ [st]\<rparr>) = apply_store st (loop_view s)"
  by (simp_all add: loop_view_def)

lemma full_flag [simp]: "flow_full n (m\<lparr>sh_readStopped := x\<rparr>) = flow_full n m"
  by (simp add: flow_full_def)

lemma flow_slot_step: "flow_step n s s' \<Longrightarrow> indices_ok n s \<Longrightarrow> slot_kept n s \<Longrightarrow> slot_kept n s'"
proof (induction rule: flow_step.cases)
  case (LoopStore s st b)
  then show ?case by (simp add: slot_kept_def full_after_store)
next
  case (ParserStore s st b)
  then show ?case using view_after_parser(2) [of n s st b] by (auto simp: slot_kept_def)
qed (auto simp: slot_kept_def flow_ops)

lemma overtook_step: "flow_step n s s' \<Longrightarrow> fw_overtook s \<Longrightarrow> fw_overtook s'"
  by (induction rule: flow_step.cases) (auto simp: flow_ops)

lemma wake_step:
  "flow_step n s s' \<Longrightarrow> indices_ok n s \<Longrightarrow> slot_kept n s \<Longrightarrow> wake_kept n s \<Longrightarrow> \<not> fw_overtook s' \<Longrightarrow> wake_kept n s'"
proof (induction rule: flow_step.cases)
  case (Recheck s)
  then show ?case by (auto simp: wake_kept_def slot_kept_def flow_ops loop_view_def)
next
  case (Stop s)
  then show ?case by (simp add: wake_kept_def slot_kept_def flow_ops) (simp add: loop_view_def)
next
  case (Notify s)
  then show ?case using view_parser [of n s] by (auto simp: wake_kept_def flow_ops)
next
  case (LoopStore s st b)
  then show ?case by (auto simp: wake_kept_def full_after_store)
next
  case (ParserStore s st b)
  note flag = view_after_parser(1) [of n s st b] and q = ParserStore
  let ?s = "s\<lparr>fw_shared := apply_store st (fw_shared s), fw_parserBuf := b\<rparr>"
  have "sh_readStopped (loop_view ?s) = sh_readStopped (loop_view s)" using view_flag [of "apply_store st (fw_shared s)" "fw_shared s"] flag q by (simp add: loop_view_def)
  moreover have "fw_parser s = PsNotify" using q by (auto simp: wake_kept_def)
  ultimately show ?case using flag q by (simp add: wake_kept_def)
qed (auto simp: wake_kept_def slot_kept_def flow_ops)

lemma flow_reach_inv: "flow_reach n s \<Longrightarrow> 0 < n \<Longrightarrow> indices_ok n s \<and> slot_kept n s \<and> (\<not> fw_overtook s \<longrightarrow> wake_kept n s)"
proof (induction rule: flow_reach.induct)
  case (Start k signalled)
  then show ?case by (simp add: flow_start_def indices_ok_def slot_kept_def wake_kept_def loop_view_def parser_view_def flow_full_def)
next
  case (Step s s')
  then show ?case using counts_step flow_slot_step wake_step overtook_step by blast
qed

section \<open>A signal that is never sent\<close>

text \<open>The ring filled, slot by slot, each store visible at once.\<close>

definition slots_filled :: "nat \<Rightarrow> Flow" where
  "slots_filled j = (flow_start 0 False)\<lparr>fw_shared := \<lparr>sh_head = 0, sh_tail = j, sh_readStopped = False\<rparr>\<rparr>"

lemma fill_step:
  assumes "flow_reach n (slots_filled j)" "j < n"
  shows "flow_reach n ((slots_filled (Suc j))\<lparr>fw_loop := LpBackpressure\<rparr>)"
proof -
  have "flow_step n (slots_filled j) (flow_commit True (slots_filled j))"
    by (rule Commit) (use assms(2) in \<open>simp_all add: slots_filled_def flow_start_def flow_full_def loop_view_def\<close>)
  from flow_reach.Step [OF assms(1) this] have "flow_reach n (flow_commit True (slots_filled j))" .
  from flow_reach.Step [OF this LoopStore [where st = "StTail (Suc j)" and b = "[]"]] show ?thesis
    by (simp add: slots_filled_def flow_start_def flow_commit_def loop_view_def)
qed

lemma fill: "j < n \<Longrightarrow> flow_reach n (slots_filled j)"
proof (induction j)
  case 0
  show ?case using flow_reach.Start [of n 0 False] by (simp add: slots_filled_def flow_start_def)
next
  case (Suc j)
  then have "flow_reach n ((slots_filled (Suc j))\<lparr>fw_loop := LpBackpressure\<rparr>)" by (intro fill_step) simp_all
  from flow_reach.Step [OF this Check] Suc.prems show ?case
    by (simp add: slots_filled_def flow_start_def flow_check_def flow_full_def loop_view_def)
qed

text \<open>The loop has stopped and looked again, its store of the flag is not visible yet; the parser has consumed \<open>j\<close> slots.\<close>

definition unseen :: "nat \<Rightarrow> nat \<Rightarrow> Flow" where
  "unseen n j = (slots_filled n)\<lparr>fw_shared := \<lparr>sh_head = j, sh_tail = n, sh_readStopped = False\<rparr>, fw_loopBuf := [StReadStopped True], fw_reading := False,
    fw_overtook := True\<rparr>"

lemma unseen_start:
  assumes "0 < n"
  shows "flow_reach n (unseen n 0)"
proof -
  have "flow_reach n ((slots_filled n)\<lparr>fw_loop := LpBackpressure\<rparr>)" using fill_step [OF fill, of "n - 1"] assms by simp
  from flow_reach.Step [OF this Check] have "flow_reach n ((slots_filled n)\<lparr>fw_loop := LpStop\<rparr>)"
    by (simp add: slots_filled_def flow_start_def flow_check_def flow_full_def loop_view_def)
  from flow_reach.Step [OF this Stop] have "flow_reach n (flow_stop ((slots_filled n)\<lparr>fw_loop := LpStop\<rparr>))" by simp
  from flow_reach.Step [OF this Recheck] show ?thesis
    by (simp add: flow_stop_def flow_recheck_def unseen_def slots_filled_def flow_start_def flow_full_def loop_view_def)
qed

lemma unseen_step:
  assumes "flow_reach n (unseen n j)" "j < n"
  shows "flow_reach n (unseen n (Suc j))"
proof -
  have "flow_reach n ((unseen n j)\<lparr>fw_parser := PsConsume\<rparr>)"
    using flow_reach.Step [OF assms(1) Peek] assms(2) by (simp add: unseen_def slots_filled_def flow_start_def flow_peek_def parser_view_def)
  from flow_reach.Step [OF this Release]
  have "flow_reach n ((unseen n j)\<lparr>fw_parserBuf := [StHead (Suc j)], fw_parser := PsNotify\<rparr>)"
    by (simp add: unseen_def slots_filled_def flow_start_def flow_release_def parser_view_def)
  from flow_reach.Step [OF this ParserStore [where st = "StHead (Suc j)" and b = "[]"]]
  have "flow_reach n ((unseen n (Suc j))\<lparr>fw_parser := PsNotify\<rparr>)" by (simp add: unseen_def slots_filled_def flow_start_def)
  from flow_reach.Step [OF this Notify] show ?thesis by (simp add: unseen_def slots_filled_def flow_start_def flow_notify_def parser_view_def)
qed

lemma unseen_reach: "0 < n \<Longrightarrow> j \<le> n \<Longrightarrow> flow_reach n (unseen n j)"
  by (induction j) (simp_all add: unseen_start unseen_step)

text \<open>Only now the flag is visible, and nobody is left to read it.\<close>

definition stuck :: "nat \<Rightarrow> Flow" where
  "stuck n = (unseen n n)\<lparr>fw_shared := \<lparr>sh_head = n, sh_tail = n, sh_readStopped = True\<rparr>, fw_loopBuf := []\<rparr>"

lemma stuck_reach: "0 < n \<Longrightarrow> flow_reach n (stuck n)"
  using flow_reach.Step [OF unseen_reach [of n n] LoopStore [where st = "StReadStopped True" and b = "[]"]]
  by (simp add: stuck_def unseen_def)

lemma stuck_rest: "at_rest (stuck n)" "\<not> fw_reading (stuck n)" "\<not> flow_step n (stuck n) s'"
  by (auto simp: at_rest_def stuck_def unseen_def slots_filled_def flow_start_def flow_peek_def parser_view_def elim!: flow_step.cases)

section \<open>Properties\<close>

text \<open>
  C23. Flow control.  While payload is outstanding and the loop reads, a slot of the ring is free, so no byte arrives that
  has no place.  When nothing is under way any more the loop is reading, unless one of the two loads of the protocol overtook the store
  before it: the second \<^verbatim>\<open>ringFull()\<close> the store of \<^verbatim>\<open>_readStopped\<close>, or the test of \<^verbatim>\<open>_readStopped\<close> the store of
  \<^verbatim>\<open>_head\<close>.  The release and acquire orders of the code do not exclude that, for any number of slots: the loop can look again before
  its flag is visible, the parser empties the ring without seeing the flag, and the loop stays stopped
  with the ring empty, no signal on its way and no step left to either thread.
\<close>

theorem backpressure_wakeup:
  assumes "flow_reach n s" and "0 < n"
  shows "(fw_loop s = LpIdle \<and> fw_reading s \<and> fw_payload s \<longrightarrow> \<not> flow_full n (loop_view s)) \<and>
    (at_rest s \<longrightarrow> fw_reading s \<or> fw_overtook s) \<and>
    (\<exists>s'. flow_reach n s' \<and> at_rest s' \<and> \<not> fw_reading s' \<and> fw_payload s' \<and> sh_head (fw_shared s') = sh_tail (fw_shared s') \<and>
      (\<forall>s''. \<not> flow_step n s' s''))"
proof -
  note i = flow_reach_inv [OF assms]
  have "fw_reading s \<or> fw_overtook s" if r: "at_rest s"
  proof (rule ccontr)
    assume n: "\<not> (fw_reading s \<or> fw_overtook s)"
    then have "flow_full n (loop_view s)" using i r by (simp add: wake_kept_def at_rest_def)
    moreover have "sh_tail (parser_view s) = sh_head (parser_view s)"
    proof (rule ccontr)
      assume "sh_tail (parser_view s) \<noteq> sh_head (parser_view s)"
      then have "fw_parser (flow_peek s) = PsConsume" by (simp add: flow_peek_def)
      then show False using r by (simp add: at_rest_def)
    qed
    ultimately show False using r assms(2) by (simp add: at_rest_def flow_full_def loop_view_def parser_view_def)
  qed
  moreover have "fw_payload (stuck n)" "sh_head (fw_shared (stuck n)) = sh_tail (fw_shared (stuck n))"
    by (simp_all add: stuck_def unseen_def slots_filled_def flow_start_def)
  ultimately show ?thesis using i stuck_reach [OF assms(2)] stuck_rest by (auto simp: slot_kept_def)
qed

text \<open>A run of one slot that stops, is signalled and reads again.\<close>

lemma one_slot_run:
  "flow_reach 1 \<lparr>fw_shared = \<lparr>sh_head = 1, sh_tail = 1, sh_readStopped = False\<rparr>, fw_loopBuf = [], fw_parserBuf = [], fw_loop = LpIdle,
    fw_parser = PsPeek, fw_reading = True, fw_payload = True, fw_resumeAsync = False, fw_overtook = False\<rparr>" (is "flow_reach 1 ?end")
proof -
  let ?s = "\<lambda>h st lb pb l q r a. \<lparr>fw_shared = \<lparr>sh_head = h, sh_tail = 1, sh_readStopped = st\<rparr>, fw_loopBuf = lb, fw_parserBuf = pb, fw_loop = l,
    fw_parser = q, fw_reading = r, fw_payload = True, fw_resumeAsync = a, fw_overtook = False\<rparr>"
  note defs = flow_full_def loop_view_def parser_view_def flow_ops
  have "flow_reach 1 (?s 0 False [] [] LpBackpressure PsPeek True False)"
    using fill_step [OF fill, of 0 1] by (simp add: slots_filled_def flow_start_def)
  from flow_reach.Step [OF this Check] have "flow_reach 1 (?s 0 False [] [] LpStop PsPeek True False)" by (simp add: defs)
  from flow_reach.Step [OF this Stop] have "flow_reach 1 (?s 0 False [StReadStopped True] [] LpRecheck PsPeek False False)" by (simp add: defs)
  from flow_reach.Step [OF this LoopStore] have "flow_reach 1 (?s 0 True [] [] LpRecheck PsPeek False False)" by simp
  from flow_reach.Step [OF this Recheck] have "flow_reach 1 (?s 0 True [] [] LpIdle PsPeek False False)" by (simp add: defs)
  from flow_reach.Step [OF this Peek] have "flow_reach 1 (?s 0 True [] [] LpIdle PsConsume False False)" by (simp add: defs)
  from flow_reach.Step [OF this Release] have "flow_reach 1 (?s 0 True [] [StHead 1] LpIdle PsNotify False False)" by (simp add: defs)
  from flow_reach.Step [OF this ParserStore] have "flow_reach 1 (?s 1 True [] [] LpIdle PsNotify False False)" by simp
  from flow_reach.Step [OF this Notify] have "flow_reach 1 (?s 1 True [] [] LpIdle PsSend False False)" by (simp add: defs)
  from flow_reach.Step [OF this Send] have "flow_reach 1 (?s 1 True [] [] LpIdle PsPeek False True)" by (simp add: defs)
  from flow_reach.Step [OF this Async] have "flow_reach 1 (?s 1 True [] [] LpResume PsPeek False False)" by (simp add: defs)
  from flow_reach.Step [OF this Resume] have "flow_reach 1 (?s 1 True [StReadStopped False] [] LpIdle PsPeek True False)" by (simp add: defs)
  from flow_reach.Step [OF this LoopStore] show ?thesis by simp
qed

theorem backpressure_wakeup_witness:
  "\<exists>s. flow_reach 1 s \<and> at_rest s \<and> \<not> fw_overtook s \<and> fw_reading s \<and> \<not> flow_full 1 (loop_view s) \<and> 0 < sh_head (fw_shared s)"
  using backpressure_wakeup [OF one_slot_run] one_slot_run
  by (intro exI [of _ "\<lparr>fw_shared = \<lparr>sh_head = 1, sh_tail = 1, sh_readStopped = False\<rparr>, fw_loopBuf = [], fw_parserBuf = [], fw_loop = LpIdle,
    fw_parser = PsPeek, fw_reading = True, fw_payload = True, fw_resumeAsync = False, fw_overtook = False\<rparr>"])
    (simp add: at_rest_def flow_peek_def parser_view_def)

end
