(* ===== verification/Spec2Isabelle.thy ===== *)
theory Spec2Isabelle
  imports ServerSafety ServerConfig ClientCorrect Daemon ClientWindow SocketLife LineFormat FlowControl
begin

text \<open>
  Log transfer and analysis.  A client program (\<^verbatim>\<open>src/client\<close>, a window and two worker threads) uploads a log file to a
  server (\<^verbatim>\<open>src/server\<close>, an event loop and a parser thread) over one TCP session; the server checks it, counts its
  lines per module and hour, averages a speed field, and sends back a CSV, which a client whose connection broke can
  fetch later without sending the file again.  \<^verbatim>\<open>src/common\<close> holds the wire protocol, the ring buffer, the
  checksum, the sockets and the logger of both.

  \<^bold>\<open>The wire.\<close>  \<^verbatim>\<open>Protocol\<close> (\<^verbatim>\<open>protocol.h\<close>), \<^verbatim>\<open>Codec\<close> (\<^verbatim>\<open>Codec.cpp\<close>) and \<^verbatim>\<open>Framer\<close> (\<^verbatim>\<open>Framer.cpp\<close>): one encoder and decoder per
  message, and the reassembly of messages from pieces.  The locale \<open>wire_codec\<close> states what framer and sessions rely
  on (round trip, size from the first bytes, type byte) and is interpreted for all six messages.  Shown: decoding
  inverts encoding, only encodings are accepted, cutting does not matter.  \<^verbatim>\<open>Crc32\<close>: the table-driven update is the
  bitwise CRC-32 of the whole stream, and changes within four bytes are always found.

  \<^bold>\<open>The ring.\<close>  \<^verbatim>\<open>RingBuffer\<close> (\<^verbatim>\<open>SpscRingBuffer.cpp\<close>) with 64-bit indices that wrap; the locale \<open>bounded_queue\<close> is the contract,
  interpreted on the ring, and every interleaving of one producer and one consumer delivers the chunks in order.
  The two sides are assumed to see each other's operations in order (which
  the acquire and release pairs provide for the indices), and the number of slots to divide \<open>2 ^ 64\<close>, as the
  default of 64 does.  The models of session and parser make the same assumption of the flag that stops and resumes the reading;
  there it is not what the code's memory orders give, and \<^verbatim>\<open>FlowControl\<close> treats that protocol with store buffers, load by load: a slot is free
  whenever payload is read, and the reading resumes unless one of two loads overtakes a store, which the code does not exclude.

  \<^bold>\<open>The analysis.\<close>  \<^verbatim>\<open>LineReassembler\<close>, \<^verbatim>\<open>Calendar\<close> and \<^verbatim>\<open>LogLineParser\<close>, \<^verbatim>\<open>Binary64\<close> (the rounding of \<^verbatim>\<open>double\<close>), \<^verbatim>\<open>OrderedMap\<close> (with the
  locale \<open>counter_map\<close>, interpreted on association lists), \<^verbatim>\<open>StatsCollector\<close>, \<^verbatim>\<open>SkipReporter\<close>, \<^verbatim>\<open>CsvBuilder\<close> model the files of those names under
  \<^verbatim>\<open>server/src/parser\<close>, \<^verbatim>\<open>stats\<close> and \<^verbatim>\<open>csv\<close>; \<^verbatim>\<open>ParserThread\<close> puts them together (\<open>analysis_of\<close> is the analysis of a byte string) and
  models the thread as steps (\<open>parser_run\<close>) against the event loop's calls.  Shown: the lines are those of the stream
  however it is cut, a line is accepted exactly when it has the documented form (\<^verbatim>\<open>LineFormat\<close> writes that form down without the parser's functions), counts are exact and bounded,
  every line is counted or reported, the result of an upload of at most 8 GiB fits far below the protocol
  limit, and under every interleaving the result handed over is that of the session's bytes.  \<^verbatim>\<open>ParserProgress\<close>: the
  thread's own steps lead to the result (a bound on the steps left is the measure), and the one gap, a session
  cut off while its analysis is pending.

  \<^bold>\<open>The server.\<close>  \<^verbatim>\<open>Net\<close> holds the flags of timer and socket (\<^verbatim>\<open>Timer.cpp\<close>, \<^verbatim>\<open>TcpSocket.cpp\<close>); libuv itself is a parameter, a record
  of its return codes.  \<^verbatim>\<open>SocketLife\<close> follows their memory: constructors, destructors and callbacks of timer, listener and
  socket with the pointers between wrapper, handle and requests; nothing is used after its release, and everything
  is freed, if the owner does not connect during an attempt or after a close, and does not destroy a socket during an attempt or in the callback
  of a failed write (each of these is shown to fault).  \<^verbatim>\<open>Session\<close> is the state machine of \<^verbatim>\<open>session/Session.cpp\<close>, one function per handler on a
  context of session, parser and kept result, with \<open>session_reach\<close> its reachable states; \<^verbatim>\<open>SessionUpload\<close> follows an
  upload byte by byte; \<^verbatim>\<open>SessionSafety\<close> has the properties: which uploads are acknowledged, what is ever sent, errors,
  timeouts, flow control, the end.  \<^verbatim>\<open>SessionManager\<close> (\<^verbatim>\<open>SessionManager.cpp\<close>) adds one session at a time, the accept gate and
  the kept result, and the whole server as events (\<open>server_reach\<close>).  \<^verbatim>\<open>ServerMatch\<close> and \<^verbatim>\<open>ServerCorrect\<close> prove that it refines
  the two-thread model of \<^verbatim>\<open>ParserThread\<close>; \<^verbatim>\<open>ServerSafety\<close> states what follows: the result sent, now or on a later
  request, is the analysis of the bytes uploaded for it, and it is sent.  Runs in which a session is cut off during its
  analysis are excluded there, for the reason \<^verbatim>\<open>ParserProgress\<close> shows.  \<^verbatim>\<open>ServerConfig\<close>: the command line and the
  configuration text.  \<^verbatim>\<open>ServerApp\<close> (\<^verbatim>\<open>ServerApp.cpp\<close> and the start and stop of the parser thread): what a start acquires and, when
  a later part fails, gives back; the handles of the event loop; the two signals; the daily pruning of the log; the
  order of a shutdown, after which the loop is empty and the parser thread joined (\<open>app_reach\<close> has the starts in which \<^verbatim>\<open>uv_idle_init\<close> succeeds).  \<^verbatim>\<open>Daemon\<close> (\<^verbatim>\<open>Daemon.cpp\<close>, \<^verbatim>\<open>main.cpp\<close>):
  going to the background, the PID file and the exit codes.

  \<^bold>\<open>The client.\<close>  \<^verbatim>\<open>FileReader\<close> (the reader thread as steps), \<^verbatim>\<open>TransferService\<close> (every command, socket callback and receive handler of
  the event loop), \<^verbatim>\<open>UiState\<close>, \<^verbatim>\<open>FileDialog\<close>, \<^verbatim>\<open>PingConsole\<close>, \<^verbatim>\<open>ResultSummary\<close> model the files of those names; \<^verbatim>\<open>ClientApp\<close> the callbacks of
  \<^verbatim>\<open>Application.cpp\<close> and the steps of the whole client (\<open>client_reach\<close>): reader, event loop, network, window and user
  in any order.  What libuv, the file system and Windows answer is the record \<open>ClientEnv\<close> or an argument.  \<^verbatim>\<open>ClientSafety\<close> has the
  invariants, \<^verbatim>\<open>ClientHeader\<close> that only valid headers are sent, \<^verbatim>\<open>ClientReceive\<close> the way of the answer through the
  client in pieces and over a break, \<^verbatim>\<open>ClientCorrect\<close> a concrete run and the properties.  \<^verbatim>\<open>ClientProgress\<close>: no wake-up of the event
  loop is lost, and an upload ends, whatever the order of the moves, unless the reader sleeps through a notification made before it slept.  \<^verbatim>\<open>UiRenderer\<close> (\<^verbatim>\<open>UiRenderer.cpp\<close>): a frame as the widgets it
  puts up and the commands it issues, with ImGui's answers as an argument; every frame is a sequence of steps of
  \<open>client_reach\<close>, so the properties hold of a client driven by its window.  \<^verbatim>\<open>ClientWindow\<close> (the rest of \<^verbatim>\<open>Application.cpp\<close>,
  \<^verbatim>\<open>wWinMain\<close>): window placement and messages, start and stop, the main loop.  Assumed of the runs of \<open>client_reach\<close>:
  a command to send or to fetch meets a connected socket or none (the window offers them only then), the reader
  does not move between the two calls that start an upload unless it is idle, and the program is not
  being left; \<open>client_run\<close> has all runs, with the commands they handle, for the statements that name these conditions.  \<^verbatim>\<open>Logger\<close>: the log files of both programs, as long as nobody else
  removes them.

  \<^bold>\<open>Together.\<close>  The theorem below composes the two programs: what the client writes is what the server's session reads, and
  what the session writes is what the client is handed.

  \<^bold>\<open>Termination.\<close>  \<^verbatim>\<open>Steps\<close> has the locale \<open>ranked_moves\<close>: moves that keep an invariant and lower a rank, and that are possible until
  the end is reached; then there is no infinite run, and every run that cannot go on has finished.  It is
  interpreted on the client's upload (\<open>upload\<close>), on the join of the parser thread (\<open>join\<close>) and on the callbacks left for a destroyed socket (\<open>teardown\<close>).  The parser thread's
  waits, whose notifications are made with the mutex, are steps that test their predicate again; the reader thread's wait for room is
  followed through test, sleep and notification.  A spurious wake-up only repeats a test and is left out.  That a thread which can move is let to move is the
  scheduler's part, and not claimed.

  \<^bold>\<open>Bounds.\<close>  No fuel is used: every loop is a total function with a measure (bytes left, chunks in the ring) or a step of
  a relation.  64-, 32- and 16-bit fields are words; \<^verbatim>\<open>std::size_t\<close> counts of data in memory are \<open>nat\<close>.

  \<^bold>\<open>Simplified.\<close>  \<^verbatim>\<open>uv_timer_start\<close> succeeds; a read of \<open>upload_run\<close> finds a slot (\<^verbatim>\<open>FlowControl\<close> shows that flow control keeps one free);
  the parser clears its abort flag and signals it in one step.

  \<^bold>\<open>Not modelled.\<close>  libuv, the operating system, Direct3D and ImGui themselves: their answers are arguments.  Of the window
  colours, fonts and positions of widgets; socket buffer sizes and the text of peer addresses; the log texts of sessions and
  parser; the progress bars and transfer rates (floating-point text only); writing the CSV and the skip report to disk;
  \<^verbatim>\<open>Version\<close> (one constant string).
\<close>

section \<open>The client and the server together\<close>

text \<open>
  C1. End to end.  A client that has sent its upload, in any run of its two threads, the user and the network; a
  server, in any run of its own, whose session has read what the client wrote, in any pieces and
  with any timing; and the server's answer, arriving in any pieces: then the user is handed the analysis of exactly
  the bytes of the file, as many as were announced.  (Excluded are server runs with a session cut off during its
  analysis, and a server whose writes fail.)
\<close>

theorem transfer_end_to_end:
  assumes "client_reach (ts, ui)" and "ts_expecting ts = ExpAck" and "ts_framer ts = newFramer AckMsg AckMsg"
    and "server_reach chunkSize ringSlots timeouts sv" and "ringSlots dvd 2 ^ 64" and "ringSlots < 2 ^ 64"
    and "\<not> mg_cutOff (sv_mgr sv)" and "mg_session (sv_mgr sv) = Some s"
    and "upload_run chunkSize timeouts (concat (stream ts)) (ctx_of s (sv_mgr sv))"
    and "server_exec en SvAnalysis sv = Some sv'" and "mg_session (sv_mgr sv') = Some s'" and "\<not> ss_cleanupStarted s'"
    and "concat (map snd chunks) = concat (sk_written (ss_socket s'))"
  defines "file \<equiv> take (unat (ts_uploadTotal ts)) (ts_source ts)"
  shows "takeResultCsv (receive chunks ts) = ar_csv (analysis_of file) \<and> length file = unat (ts_uploadTotal ts)"
proof -
  let ?h = "\<lparr>uh_fileSize = ts_uploadTotal ts, uh_filename = ts_uploadFilename ts\<rparr>"
  note c = waiting_stream [OF assms(1,2)]
  have pl: "payload ts = file" by (simp add: payload_def file_def)
  have ok: "upload_ok ?h file" using c(1,5) by (simp add: upload_ok_def pl header_of_def)
  have "concat (stream ts) = upload_bytes ?h file"
    using c(2) by (simp add: upload_bytes_def trailer_for_def upload_header_def pl)
  with upload_run_pos [OF assms(9) ok] have "at_end file (ctx_of s (sv_mgr sv))" by (simp add: at_pos_def length_upload_bytes)
  then have sv: "ss_state s = SessionState.Analyzing" "concat (mg_uploaded (sv_mgr sv)) = file"
    by (simp_all add: at_end_def ctx_of_def)
  have e: "pt_completionSent (mg_parser (sv_mgr sv))" "sv_mgr sv' = onAnalysisSignal en (sv_mgr sv)"
    using assms(10) by (auto split: if_splits)
  let ?csv = "ar_csv (analysis_of file)"
  have "length file \<le> unat kMaxFileSize" using c(1,5) by (simp add: validUploadHeader_def header_of_def word_le_nat_alt pl)
  then have fit: "length ?csv \<le> unat kMaxCsvSize" using analysis_bounds(3) [of "payload ts"] by (simp add: kMaxFileSize_def kMaxCsvSize_def pl)
  have "concat (map snd chunks) = ok_ack (of_nat (length file)) @ result_header ?csv @ ?csv"
    using signal_effect [OF assms(4-8) sv(1) e(1), of en] assms(11-13) e(2) sv(2)
    by (auto simp: ok_ack_def result_header_def crc32_eq_ref)
  then have "awaits False ?csv (concat (map snd chunks) @ []) ts" using waiting_ack [OF assms(2) c(3,4) assms(3)] by simp
  from awaits_Nil [OF receive_awaits [OF fit this]] show ?thesis using c(1) by (simp add: at_done_def takeResultCsv_def pl)
qed

theorem transfer_end_to_end_witness:
  "\<exists>sv sv' s'. server_exec env_good SvAnalysis sv = Some sv' \<and> mg_session (sv_mgr sv') = Some s' \<and>
    takeResultCsv (receive [(run_env, concat (sk_written (ss_socket s')))] waiting) = ar_csv (analysis_of ''abc'')"
proof -
  let ?h = "\<lparr>uh_fileSize = 3, uh_filename = ''a.log''\<rparr>"
  have "isValidFilename ''a.log''" by code_simp
  then have v: "validUploadHeader ?h" by (simp add: validUploadHeader_def kMaxFileSize_def)
  have u: "upload_ok ?h ''abc''" using v by (simp add: upload_ok_def)
  have l: "length (upload_bytes ?h ''abc'') \<le> 64"
    by (simp add: upload_bytes_def trailer_for_def encodeUploadHeader_def encodeUploadTrailer_def putPreamble_def protocol_sizes kMagic_def)
  obtain sv s where sv: "server_reach 64 2 defaultTimeouts sv" "mg_session (sv_mgr sv) = Some s" "ss_state s = SessionState.Analyzing"
    "concat (mg_uploaded (sv_mgr sv)) = ''abc''" "\<not> mg_cutOff (sv_mgr sv)" "pt_completionSent (mg_parser (sv_mgr sv))"
    "upload_run 64 defaultTimeouts (upload_bytes ?h ''abc'') (ctx_of s (sv_mgr sv))"
    by (rule sv_signalled [OF u l])
  then obtain sv' where e: "server_exec env_good SvAnalysis sv = Some sv'" "sv_mgr sv' = onAnalysisSignal env_good (sv_mgr sv)" by simp
  have d: "(2 :: nat) dvd 2 ^ 64" "(2 :: nat) < 2 ^ 64" by simp_all
  obtain s' where s': "mg_session (sv_mgr sv') = Some s'" "\<not> ss_cleanupStarted s'"
    using signal_effect [OF sv(1) d sv(5,2,3,6), of env_good] e(2) env_good_calm by auto
  have "concat (stream waiting) = upload_bytes ?h ''abc''"
    using waiting_stream(2) [OF reach_waiting waiting_fields(1)] waiting_fields
    by (simp add: upload_bytes_def trailer_for_def upload_header_def payload_def)
  then have "takeResultCsv (receive [(run_env, concat (sk_written (ss_socket s')))] waiting) = ar_csv (analysis_of ''abc'')"
    using transfer_end_to_end [OF reach_waiting waiting_fields(1,4) sv(1) d sv(5,2) _ e(1) s', of "[(run_env, concat (sk_written (ss_socket s')))]"]
      sv(7) waiting_fields by simp
  with e(1) s'(1) show ?thesis by blast
qed

end
